(* ===== verification/Prelude.thy ===== *)
theory Prelude
  imports "HOL-Library.Word" "HOL-Library.List_Lexorder" "HOL-Library.Multiset"
begin

text \<open>
  Shared vocabulary of the development: machine integer types, the error values of
  \<^verbatim>\<open>include/error.hpp\<close>, little-endian images of integers in memory, writes into a byte
  buffer, and the two binary searches of the C++ standard library that the read path uses.
  The collections \<open>le_simps\<close>, \<open>mem_simps\<close> and \<open>key_order\<close> gather the facts the component
  theories pass to the simplifier.
\<close>

unbundle bit_operations_syntax

named_theorems le_simps \<open>little-endian images of machine integers\<close>
named_theorems mem_simps \<open>reads after writes in a byte buffer\<close>
named_theorems key_order \<open>the lexicographic order on byte strings\<close>

section \<open>Machine types and errors\<close>

type_synonym byte = "8 word"
type_synonym u16 = "16 word"
type_synonym u32 = "32 word"
type_synonym u64 = "64 word"
type_synonym bytes = "byte list"

datatype errc =
    GENERIC_ERROR
  | VALUE_TABLE_NOT_ENOUGH_SPACE
  | KEY_NOT_FOUND
  | DELETED
  | BUSY
  | BUFFER_FULL
  | END_OF_SCAN
  | SKIP

text \<open>
  \<^verbatim>\<open>hedge::error\<close> carries a message and a code. Messages are kept as their literal text;
  the values interpolated into them are left out.
\<close>

datatype error = Error (error_msg: string) (error_code: errc)

type_synonym 'a expected = "error + 'a"
type_synonym status = "unit expected"

abbreviation ok :: status where
  "ok \<equiv> Inr ()"

abbreviation generic_error :: "string \<Rightarrow> error" where
  "generic_error m \<equiv> Error m GENERIC_ERROR"

text \<open>A loop that stops at the first error.\<close>

fun fold_expected :: "('a \<Rightarrow> 'b \<Rightarrow> 'b expected) \<Rightarrow> 'a list \<Rightarrow> 'b \<Rightarrow> 'b expected" where
  "fold_expected f [] b = Inr b"
| "fold_expected f (x # xs) b = (case f x b of Inl e \<Rightarrow> Inl e | Inr b' \<Rightarrow> fold_expected f xs b')"

lemma fold_expected_append:
  "fold_expected f (xs @ ys) b = (case fold_expected f xs b of Inl e \<Rightarrow> Inl e | Inr b' \<Rightarrow> fold_expected f ys b')"
  by (induction xs arbitrary: b) (auto split: sum.splits)

section \<open>Little-endian images\<close>

text \<open>
  The code copies integers to and from byte buffers with \<^verbatim>\<open>memcpy\<close> on a little-endian
  machine. \<open>le_image n w\<close> is the image of \<open>w\<close> in \<open>n\<close> bytes, lowest byte first.
\<close>

primrec le_image :: "nat \<Rightarrow> 'a::len word \<Rightarrow> bytes" where
  "le_image 0 w = []"
| "le_image (Suc n) w = ucast w # le_image n (drop_bit 8 w)"

primrec le_word :: "bytes \<Rightarrow> 'a::len word" where
  "le_word [] = 0"
| "le_word (b # bs) = ucast b OR push_bit 8 (le_word bs)"

lemma length_le_image [simp]: "length (le_image n w) = n"
  by (induction n arbitrary: w) simp_all

lemma le_word_step:
  fixes w :: "'a::len word"
  shows "ucast (ucast w :: byte) OR push_bit 8 (take_bit n (drop_bit 8 w)) = take_bit (8 + n) w"
  by (rule bit_eqI)
    (auto simp: bit_or_iff bit_push_bit_iff bit_take_bit_iff bit_drop_bit_eq bit_unsigned_iff)

lemma le_word_le_image: "le_word (le_image n w) = take_bit (8 * n) w"
  by (induction n arbitrary: w) (simp_all add: le_word_step)

lemma le_word_le_image_2 [le_simps]: "le_word (le_image 2 w) = (w :: u16)"
  by (simp add: le_word_le_image take_bit_word_eq_self)

lemma le_word_le_image_4 [le_simps]: "le_word (le_image 4 w) = (w :: u32)"
  by (simp add: le_word_le_image take_bit_word_eq_self)

lemma le_word_le_image_8 [le_simps]: "le_word (le_image 8 w) = (w :: u64)"
  by (simp add: le_word_le_image take_bit_word_eq_self)

section \<open>Byte buffers\<close>

text \<open>
  A region of memory is a list. \<open>write_at\<close> is \<^verbatim>\<open>memcpy\<close> into the region, \<open>read_at\<close> the
  bytes a span refers to. A write that stays inside the region keeps its length.
\<close>

definition write_at :: "'a list \<Rightarrow> nat \<Rightarrow> 'a list \<Rightarrow> 'a list" where
  "write_at mem off bs = take off mem @ bs @ drop (off + length bs) mem"

definition read_at :: "'a list \<Rightarrow> nat \<Rightarrow> nat \<Rightarrow> 'a list" where
  "read_at mem off n = take n (drop off mem)"

lemma length_write_at [mem_simps]:
  "off + length bs \<le> length mem \<Longrightarrow> length (write_at mem off bs) = length mem"
  by (simp add: write_at_def)

lemma take_write_at [mem_simps]:
  "n \<le> off \<Longrightarrow> off \<le> length mem \<Longrightarrow> take n (write_at mem off bs) = take n mem"
  by (simp add: write_at_def min_def)

lemma take_write_at_end [mem_simps]:
  "off \<le> length mem \<Longrightarrow> take (off + length bs) (write_at mem off bs) = take off mem @ bs"
  by (simp add: write_at_def)

lemma read_at_write_at [mem_simps]:
  "off \<le> length mem \<Longrightarrow> n = length bs \<Longrightarrow> read_at (write_at mem off bs) off n = bs"
  by (simp add: read_at_def write_at_def)

lemma length_read_at [mem_simps]:
  "off + n \<le> length mem \<Longrightarrow> length (read_at mem off n) = n"
  by (simp add: read_at_def)

lemma read_at_take:
  "off + n \<le> m \<Longrightarrow> read_at (take m mem) off n = read_at mem off n"
  by (simp add: read_at_def drop_take min_def)

lemma read_at_write_at_before [mem_simps]:
  assumes "i + n \<le> off" "off \<le> length mem"
  shows "read_at (write_at mem off bs) i n = read_at mem i n"
proof -
  have "read_at (write_at mem off bs) i n = read_at (take off (write_at mem off bs)) i n"
    using assms by (simp add: read_at_take)
  then show ?thesis
    using assms by (simp add: mem_simps read_at_take)
qed

lemma read_at_write_at_after [mem_simps]:
  assumes "off + length bs \<le> i" "off + length bs \<le> length mem"
  shows "read_at (write_at mem off bs) i n = read_at mem i n"
  using assms by (simp add: read_at_def write_at_def)

lemma take_read_at: "n \<le> m \<Longrightarrow> take n (read_at mem off m) = read_at mem off n"
  by (simp add: read_at_def min_def)

lemma drop_read_at: "drop i (read_at mem off m) = read_at mem (off + i) (m - i)"
  by (simp add: read_at_def drop_take add.commute)

lemma read_at_read_at: "i + n \<le> m \<Longrightarrow> read_at (read_at mem off m) i n = read_at mem (off + i) n"
  using take_read_at [of n "m - i" mem "off + i"] by (simp add: read_at_def [of "read_at mem off m"] drop_read_at)

lemma drop_eq_append:
  assumes "drop p mem = a @ r"
  shows "read_at mem p (length a) = a" "drop (p + length a) mem = r" "a \<noteq> [] \<Longrightarrow> p + length a \<le> length mem"
proof -
  show "read_at mem p (length a) = a" using assms by (simp add: read_at_def)
  have "drop (p + length a) mem = drop (length a) (drop p mem)" by (simp add: add.commute)
  then show "drop (p + length a) mem = r" using assms by simp
  have "length (drop p mem) = length (a @ r)" using assms by simp
  then show "p + length a \<le> length mem" if "a \<noteq> []" using that by (cases a) auto
qed

lemma write_at_append:
  "off \<le> length mem \<Longrightarrow> write_at (write_at mem off a) (off + length a) b = write_at mem off (a @ b)"
  by (simp add: write_at_def add.assoc add.commute add.left_commute)

text \<open>\<open>same_outside lo hi mem mem'\<close>: the two memories differ at most in the range from \<open>lo\<close> to \<open>hi\<close>.\<close>

definition same_outside :: "nat \<Rightarrow> nat \<Rightarrow> 'a list \<Rightarrow> 'a list \<Rightarrow> bool" where
  "same_outside lo hi mem mem' \<longleftrightarrow>
     length mem' = length mem \<and> take lo mem' = take lo mem \<and> drop hi mem' = drop hi mem"

lemma same_outside_refl [simp]: "same_outside lo hi mem mem"
  by (simp add: same_outside_def)

lemma same_outside_trans:
  "same_outside lo hi a b \<Longrightarrow> same_outside lo hi b c \<Longrightarrow> same_outside lo hi a c"
  by (simp add: same_outside_def)

lemma same_outside_widen:
  assumes "same_outside lo hi a b" "lo' \<le> lo" "hi \<le> hi'"
  shows "same_outside lo' hi' a b"
proof -
  have "take lo' (take lo b) = take lo' (take lo a)" "drop (hi' - hi) (drop hi b) = drop (hi' - hi) (drop hi a)"
    using assms(1) by (simp_all only: same_outside_def)
  then show ?thesis
    using assms by (simp add: same_outside_def min_def)
qed

lemma same_outside_write_at:
  "lo \<le> off \<Longrightarrow> off + length bs \<le> hi \<Longrightarrow> hi \<le> length mem \<Longrightarrow> same_outside lo hi mem (write_at mem off bs)"
  by (simp add: same_outside_def mem_simps) (simp add: write_at_def)

lemma read_at_same_outside:
  assumes "same_outside lo hi mem mem'" "off + n \<le> lo \<or> hi \<le> off"
  shows "read_at mem' off n = read_at mem off n"
  using assms(2)
proof
  assume "off + n \<le> lo"
  then show ?thesis
    using assms(1) read_at_take [of off n lo] by (metis same_outside_def)
next
  assume "hi \<le> off"
  then have "drop off m = drop (off - hi) (drop hi m)" for m :: "'a list"
    by simp
  then show ?thesis
    using assms(1) by (simp only: read_at_def same_outside_def)
qed

lemma read_at_append:
  "read_at mem off (m + n) = read_at mem off m @ read_at mem (off + m) n"
  by (simp add: read_at_def take_add add.commute)

section \<open>Binary search\<close>

text \<open>
  \<^verbatim>\<open>std::lower_bound\<close> and \<^verbatim>\<open>std::upper_bound\<close> halve a range of positions; they differ in
  the test that sends the search to the right half.
\<close>

function bsearch :: "(nat \<Rightarrow> bool) \<Rightarrow> nat \<Rightarrow> nat \<Rightarrow> nat" where
  "bsearch right first len =
     (if len = 0 then first
      else let half = len div 2; middle = first + half in
           if right middle then bsearch right (middle + 1) (len - half - 1)
           else bsearch right first half)"
  by pat_completeness auto
termination
  by (relation "measure (\<lambda>(right, first, len). len)") auto

declare bsearch.simps [simp del]

definition lower_bound :: "('a \<Rightarrow> 'b \<Rightarrow> bool) \<Rightarrow> 'a list \<Rightarrow> 'b \<Rightarrow> nat" where
  "lower_bound lt xs v = bsearch (\<lambda>i. lt (xs ! i) v) 0 (length xs)"

definition upper_bound :: "('b \<Rightarrow> 'a \<Rightarrow> bool) \<Rightarrow> 'a list \<Rightarrow> 'b \<Rightarrow> nat" where
  "upper_bound lt xs v = bsearch (\<lambda>i. \<not> lt v (xs ! i)) 0 (length xs)"

text \<open>The result is the partition point of the test, when the test is monotone on the range.\<close>

definition partitioned :: "(nat \<Rightarrow> bool) \<Rightarrow> nat \<Rightarrow> nat \<Rightarrow> bool" where
  "partitioned right lo hi \<longleftrightarrow> (\<forall>i j. lo \<le> i \<and> i \<le> j \<and> j < hi \<and> right j \<longrightarrow> right i)"

definition partition_point :: "(nat \<Rightarrow> bool) \<Rightarrow> nat \<Rightarrow> nat \<Rightarrow> nat \<Rightarrow> bool" where
  "partition_point right lo hi r \<longleftrightarrow> lo \<le> r \<and> r \<le> hi
     \<and> (\<forall>i. lo \<le> i \<and> i < r \<longrightarrow> right i) \<and> (\<forall>i. r \<le> i \<and> i < hi \<longrightarrow> \<not> right i)"

lemma partition_point_right:
  assumes "partitioned right lo hi" "lo \<le> m" "m < hi" "right m"
    and "partition_point right (m + 1) hi r"
  shows "partition_point right lo hi r"
proof -
  have "right i" if "lo \<le> i" "i < r" for i
  proof (cases "i \<le> m")
    case True
    with assms(1,3,4) that show ?thesis unfolding partitioned_def by blast
  next
    case False
    with assms(5) that show ?thesis unfolding partition_point_def by simp
  qed
  with assms(2,5) show ?thesis unfolding partition_point_def by auto
qed

lemma partition_point_left:
  assumes "partitioned right lo hi" "lo \<le> m" "m < hi" "\<not> right m"
    and "partition_point right lo m r"
  shows "partition_point right lo hi r"
proof -
  have "\<not> right i" if "r \<le> i" "i < hi" for i
  proof (cases "i < m")
    case True
    with assms(5) that show ?thesis unfolding partition_point_def by simp
  next
    case False
    then have "m \<le> i" by simp
    with assms(1,2,4) that show ?thesis unfolding partitioned_def by blast
  qed
  with assms(3,5) show ?thesis unfolding partition_point_def by auto
qed

lemma partitioned_subrange:
  "partitioned right lo hi \<Longrightarrow> lo \<le> lo' \<Longrightarrow> hi' \<le> hi \<Longrightarrow> partitioned right lo' hi'"
  unfolding partitioned_def by (meson le_trans less_le_trans)

lemma bsearch_partition_point:
  "partitioned right first (first + len) \<Longrightarrow>
     partition_point right first (first + len) (bsearch right first len)"
proof (induction right first len rule: bsearch.induct)
  case (1 right first len)
  let ?half = "len div 2" and ?mid = "first + len div 2"
  show ?case
  proof (cases "len = 0")
    case True
    then show ?thesis by (auto simp: bsearch.simps partition_point_def)
  next
    case False
    then have mid: "first \<le> ?mid" "?mid < first + len"
      and len: "?mid + 1 + (len - ?half - 1) = first + len" by simp_all
    show ?thesis
    proof (cases "right ?mid")
      case True
      have "partition_point right (?mid + 1) (first + len) (bsearch right (?mid + 1) (len - ?half - 1))"
        using "1.IH"(1) [OF False refl refl True, unfolded len]
          partitioned_subrange [OF "1.prems", of "?mid + 1" "first + len"] by simp
      with partition_point_right [OF "1.prems" mid True] False True show ?thesis
        by (subst bsearch.simps) (simp add: Let_def)
    next
      case right_False: False
      have "partition_point right first ?mid (bsearch right first ?half)"
        using "1.IH"(2) [OF False refl refl right_False]
          partitioned_subrange [OF "1.prems", of first ?mid] mid by simp
      with partition_point_left [OF "1.prems" mid right_False] False right_False show ?thesis
        by (subst bsearch.simps) (simp add: Let_def)
    qed
  qed
qed

lemma lower_bound_partition_point:
  "partitioned (\<lambda>i. lt (xs ! i) v) 0 (length xs) \<Longrightarrow>
     partition_point (\<lambda>i. lt (xs ! i) v) 0 (length xs) (lower_bound lt xs v)"
  unfolding lower_bound_def using bsearch_partition_point [of _ 0 "length xs"] by simp

lemma upper_bound_partition_point:
  "partitioned (\<lambda>i. \<not> lt v (xs ! i)) 0 (length xs) \<Longrightarrow>
     partition_point (\<lambda>i. \<not> lt v (xs ! i)) 0 (length xs) (upper_bound lt xs v)"
  unfolding upper_bound_def using bsearch_partition_point [of _ 0 "length xs"] by simp

section \<open>The order of keys\<close>

text \<open>
  \<^verbatim>\<open>std::string_view\<close> and \<^verbatim>\<open>std::ranges::lexicographical_compare\<close> compare byte strings byte
  by byte, unsigned, a proper prefix being smaller. That is the order the library theory
  \<^verbatim>\<open>List_Lexorder\<close> gives to lists of words.
\<close>

fun lexicographical_compare :: "'a::linorder list \<Rightarrow> 'a list \<Rightarrow> bool" where
  "lexicographical_compare [] ys = (ys \<noteq> [])"
| "lexicographical_compare (x # xs) [] = False"
| "lexicographical_compare (x # xs) (y # ys) =
     (if x < y then True else if y < x then False else lexicographical_compare xs ys)"

lemma Nil_less_list_iff [key_order]: "([] :: 'a::linorder list) < ys \<longleftrightarrow> ys \<noteq> []"
  by (cases ys) simp_all

lemma lexicographical_compare_less [key_order, simp]:
  "lexicographical_compare xs ys \<longleftrightarrow> xs < ys"
  by (induction xs ys rule: lexicographical_compare.induct) (auto simp: key_order)

lemma sorted_wrt_less_nth_mono:
  fixes xs :: "'a::linorder list"
  assumes "sorted_wrt (<) xs" "i \<le> j" "j < length xs"
  shows "xs ! i \<le> xs ! j"
  using assms sorted_wrt_nth_less [of "(<)" xs i j] by (cases "i = j") auto

end
