(* ===== verification/Varint.thy ===== *)
theory Varint
  imports Prelude
begin

text \<open>
  The variable-length integers of \<^verbatim>\<open>src/db/varint.h\<close>: the encoder \<^verbatim>\<open>unsafe_varint\<close>, the length
  prediction \<^verbatim>\<open>varint_length\<close> and the decoder \<^verbatim>\<open>try_decode_varint\<close> with its unrolled fast path
  and its loop for short inputs. The lemmas show that the decoder inverts the encoder on both
  paths and that the predicted length is the written length.
\<close>

definition MAX_VARINT_LENGTH_32 :: nat where
  "MAX_VARINT_LENGTH_32 = 5"

definition MAX_VARINT_LENGTH_64 :: nat where
  "MAX_VARINT_LENGTH_64 = 10"

abbreviation VALUE_MASK :: "'a::len word" where
  "VALUE_MASK \<equiv> 0x7f"

abbreviation CONTINUATION_BIT :: "'a::len word" where
  "CONTINUATION_BIT \<equiv> 0x80"

section \<open>Encoding\<close>

text \<open>
  The C++ function writes through a pointer and returns the advanced pointer; the model returns
  the bytes written.
\<close>

lemma drop_bit_7_less: "(0x80 :: u64) \<le> v \<Longrightarrow> unat (drop_bit 7 v) < unat v"
  by (simp add: drop_bit_eq_div unat_div word_le_nat_alt)

function unsafe_varint :: "u64 \<Rightarrow> bytes" where
  "unsafe_varint v =
     (if v \<ge> CONTINUATION_BIT
      then ucast (v OR CONTINUATION_BIT) # unsafe_varint (drop_bit 7 v)
      else [ucast v])"
  by pat_completeness auto
termination
  by (relation "measure unat") (auto simp: drop_bit_7_less)

declare unsafe_varint.simps [simp del]

text \<open>\<^verbatim>\<open>std::bit_width\<close>: the number of bits needed to represent the value.\<close>

fun bit_width :: "nat \<Rightarrow> nat" where
  "bit_width n = (if n = 0 then 0 else Suc (bit_width (n div 2)))"

declare bit_width.simps [simp del]

definition varint_length :: "u64 \<Rightarrow> nat" where
  "varint_length v = (if v = 0 then 1 else (bit_width (unat v) + 6) div 7)"

section \<open>Decoding\<close>

text \<open>
  The fast path is the loop body written out ten times. Each copy reads one byte and adds its
  masked bits at a fixed shift; the table lists the mask and the shift of each copy. The copies
  only run on at least ten bytes, so the equation for an exhausted input is never reached.
\<close>

definition fast_path_table :: "(u64 \<times> nat) list" where
  "fast_path_table = map (\<lambda>i. (VALUE_MASK, 7 * i)) [0..<9] @ [(0x01, 63)]"

fun decode_fast :: "(u64 \<times> nat) list \<Rightarrow> u64 \<Rightarrow> nat \<Rightarrow> bytes \<Rightarrow> (u64 \<times> nat) expected" where
  "decode_fast [] val n p = Inl (generic_error ''too many bytes'')"
| "decode_fast (ms # t) val n [] = Inl (generic_error ''out of range read'')"
| "decode_fast ((m, shift) # t) val n (b # p) =
     (let val' = val OR push_bit shift (ucast b AND m) in
      if b AND CONTINUATION_BIT = 0 then Inr (val', n + 1) else decode_fast t val' (n + 1) p)"

fun decode_slow :: "u64 \<Rightarrow> nat \<Rightarrow> nat \<Rightarrow> bytes \<Rightarrow> (u64 \<times> nat) expected" where
  "decode_slow val shift n [] = Inl (generic_error ''too few bytes'')"
| "decode_slow val shift n (b # p) =
     (if b AND CONTINUATION_BIT \<noteq> 0
      then decode_slow (val OR push_bit shift (ucast (b AND VALUE_MASK))) (shift + 7) (n + 1) p
      else Inr (val OR push_bit shift (ucast b), n + 1))"

definition try_decode_varint :: "bytes \<Rightarrow> (u64 \<times> nat) expected" where
  "try_decode_varint data =
     (if length data \<ge> MAX_VARINT_LENGTH_64 then decode_fast fast_path_table 0 0 data
      else decode_slow 0 0 0 data)"

section \<open>Bit-level facts\<close>

lemma bit_128_iff: "bit (0x80 :: 'a::len word) i \<longleftrightarrow> i = 7 \<and> 7 < LENGTH('a)"
proof -
  have "(0x80 :: 'a word) = push_bit 7 1" by (simp add: push_bit_eq_mult)
  then have "bit (0x80 :: 'a::len word) i = bit (push_bit 7 (1 :: 'a word)) i" by (simp only:)
  also have "\<dots> \<longleftrightarrow> i = 7 \<and> 7 < LENGTH('a)"
    unfolding bit_push_bit_iff bit_1_iff by auto
  finally show ?thesis .
qed

lemma bit_127_iff: "bit (0x7f :: 'a::len word) i \<longleftrightarrow> i < 7 \<and> i < LENGTH('a)"
proof -
  have "(0x7f :: 'a word) = mask 7" by (simp add: mask_eq_exp_minus_1)
  then have "bit (0x7f :: 'a::len word) i = bit (mask 7 :: 'a word) i" by (simp only:)
  also have "\<dots> \<longleftrightarrow> i < 7 \<and> i < LENGTH('a)"
    unfolding bit_mask_iff by auto
  finally show ?thesis .
qed

lemma and_128_eq_0_iff: "b AND (0x80 :: byte) = 0 \<longleftrightarrow> \<not> bit b 7"
  using bit_eq_iff [of "b AND 0x80" 0]
  by (simp add: bit_and_iff and_exp_eq_0_iff_not_bit [of b 7, simplified])

lemma small_take_bit: "v < (0x80 :: u64) \<longleftrightarrow> take_bit 7 v = v"
  by (simp add: take_bit_eq_mod word_less_nat_alt unat_mod word_unat_eq_iff
      mod_eq_self_iff_div_eq_0 div_eq_0_iff)

lemma small_no_bit:
  assumes "v < (0x80 :: u64)" "7 \<le> i"
  shows "\<not> bit v i"
  using assms small_take_bit [of v] bit_take_bit_iff [of 7 v i] by simp

lemmas word_bit_simps = bit_or_iff bit_and_iff bit_push_bit_iff bit_drop_bit_eq bit_unsigned_iff
  bit_take_bit_iff bit_127_iff bit_128_iff

text \<open>A byte with its continuation bit carries the low seven bits of the value.\<close>

lemma continuation_byte:
  fixes v :: u64
  shows "ucast (v OR 0x80) AND (0x80 :: byte) \<noteq> 0"
    and "ucast (ucast (v OR 0x80) AND (0x7f :: byte)) = take_bit 7 v"
    and "ucast (ucast (v OR 0x80) :: byte) AND (0x7f :: u64) = take_bit 7 v"
proof -
  show "ucast (v OR 0x80) AND (0x80 :: byte) \<noteq> 0"
    by (simp only: and_128_eq_0_iff word_bit_simps) simp
  show "ucast (ucast (v OR 0x80) AND (0x7f :: byte)) = take_bit 7 v"
    by (rule bit_word_eqI) (simp only: word_bit_simps, auto)
  show "ucast (ucast (v OR 0x80) :: byte) AND (0x7f :: u64) = take_bit 7 v"
    by (rule bit_word_eqI) (simp only: word_bit_simps, auto)
qed

lemma final_byte:
  fixes v :: u64
  assumes "v < 0x80"
  shows "(ucast v :: byte) AND 0x80 = 0"
    and "ucast (ucast v :: byte) = v"
proof -
  show "(ucast v :: byte) AND 0x80 = 0"
    using small_no_bit [OF assms, of 7] by (simp only: and_128_eq_0_iff word_bit_simps) simp
  show "ucast (ucast v :: byte) = v"
  proof (rule bit_word_eqI)
    fix i
    show "bit (ucast (ucast v :: byte) :: u64) i = bit v i"
      using small_no_bit [OF assms, of i]
      by (cases "i < 7") (simp_all add: bit_unsigned_iff)
  qed
qed

lemma push_bit_split:
  fixes v :: u64
  shows "push_bit s (take_bit 7 v) OR push_bit (s + 7) (drop_bit 7 v) = push_bit s v"
proof (rule bit_word_eqI)
  fix n
  show "bit (push_bit s (take_bit 7 v) OR push_bit (s + 7) (drop_bit 7 v)) n = bit (push_bit s v) n"
    by (cases "n < s + 7") (auto simp: bit_or_iff bit_push_bit_iff bit_drop_bit_eq bit_take_bit_iff)
qed

section \<open>The decoder inverts the encoder\<close>

lemma decode_slow_varint:
  "decode_slow val shift n (unsafe_varint v @ rest) =
     Inr (val OR push_bit shift v, n + length (unsafe_varint v))"
proof (induction v arbitrary: val shift n rule: unsafe_varint.induct)
  case (1 v)
  show ?case
  proof (cases "v \<ge> CONTINUATION_BIT")
    case True
    then show ?thesis
      using "1.IH" [OF True]
      by (subst (1 2) unsafe_varint.simps)
        (simp add: continuation_byte or.assoc push_bit_split)
  next
    case False
    then show ?thesis
      by (subst (1 2) unsafe_varint.simps) (simp add: final_byte)
  qed
qed

lemma unat_drop_bit_7_less:
  assumes "unat (v :: u64) < 2 ^ (64 - 7 * i)" "i < 9"
  shows "unat (drop_bit 7 v) < 2 ^ (64 - 7 * Suc i)"
proof -
  have "64 - 7 * i = 64 - 7 * Suc i + 7"
    using assms(2) by simp
  with assms(1) have "unat v < 2 ^ (64 - 7 * Suc i) * 2 ^ 7"
    by (simp only: power_add)
  then show ?thesis
    by (simp add: drop_bit_eq_div unat_div less_mult_imp_div_less)
qed

lemma fast_path_table_drop:
  assumes "i \<le> 9"
  shows "drop i fast_path_table =
    (if i = 9 then 0x01 else VALUE_MASK, 7 * i) # drop (Suc i) fast_path_table"
proof -
  have "length fast_path_table = 10" "fast_path_table ! i = (if i = 9 then 0x01 else VALUE_MASK, 7 * i)"
    using assms by (auto simp: fast_path_table_def nth_append)
  then show ?thesis
    using assms Cons_nth_drop_Suc [of i fast_path_table] by simp
qed

lemma fast_path_mask:
  fixes v :: u64
  assumes "v < 0x80" "unat v < 2 ^ (64 - 7 * i)" "i \<le> 9"
  shows "v AND (if i = 9 then 0x01 else VALUE_MASK) = v"
proof (cases "i = 9")
  case True
  with assms(2) have "v mod 2 = v"
    by (simp add: word_unat_eq_iff unat_mod)
  with True show ?thesis by (simp add: and_one_eq)
next
  case False
  have "v AND mask 7 = v"
    using assms(1) by (simp add: small_take_bit flip: take_bit_eq_mask)
  with False show ?thesis by (simp add: mask_eq_exp_minus_1)
qed

lemma decode_fast_varint:
  assumes "unat v < 2 ^ (64 - 7 * i)" "i \<le> 9"
  shows "decode_fast (drop i fast_path_table) val n (unsafe_varint v @ rest) =
     Inr (val OR push_bit (7 * i) v, n + length (unsafe_varint v))"
  using assms
proof (induction v arbitrary: val i n rule: unsafe_varint.induct)
  case (1 v)
  show ?case
  proof (cases "v \<ge> CONTINUATION_BIT")
    case True
    then have "i < 9"
      using "1.prems" by (cases "i = 9") (auto simp: word_le_nat_alt)
    then show ?thesis
      using "1.IH" [OF True unat_drop_bit_7_less [OF "1.prems"(1)], of _ "n + 1"] True
      by (subst (1 2) unsafe_varint.simps)
        (simp add: fast_path_table_drop continuation_byte or.assoc
          push_bit_split [of "7 * i", simplified add.commute])
  next
    case False
    then have "v AND (if i = 9 then 0x01 else VALUE_MASK) = v"
      using "1.prems" by (intro fast_path_mask) auto
    then show ?thesis
      using False "1.prems"
      by (subst (1 2) unsafe_varint.simps) (simp add: final_byte fast_path_table_drop)
  qed
qed

lemma try_decode_unsafe_varint:
  "try_decode_varint (unsafe_varint v @ rest) = Inr (v, length (unsafe_varint v))"
proof -
  have "unat v < 2 ^ (64 - 7 * 0)"
    using unsigned_less [where 'a = nat, of v] by simp
  from decode_fast_varint [OF this, of 0 0 rest] show ?thesis
    by (simp add: try_decode_varint_def decode_slow_varint)
qed

section \<open>The predicted length\<close>

lemma bit_width_bounds: "0 < n \<Longrightarrow> 2 ^ (bit_width n - 1) \<le> n \<and> n < 2 ^ bit_width n"
proof (induction n rule: bit_width.induct)
  case (1 n)
  show ?case
  proof (cases "n div 2 = 0")
    case True
    with "1.prems" have "n = 1" by (cases n) auto
    then show ?thesis by (simp add: bit_width.simps [of "Suc 0"] bit_width.simps [of 0])
  next
    case False
    then have "2 ^ (bit_width (n div 2) - 1) \<le> n div 2" "n div 2 < 2 ^ bit_width (n div 2)"
      using "1.IH" "1.prems" by auto
    moreover have "0 < bit_width (n div 2)"
      using False by (simp add: bit_width.simps)
    ultimately show ?thesis
      using "1.prems" by (subst (1 2) bit_width.simps) (cases "bit_width (n div 2)", auto)
  qed
qed

lemma bit_width_div_pow: "0 < n div 2 ^ k \<Longrightarrow> bit_width n = bit_width (n div 2 ^ k) + k"
proof (induction k arbitrary: n)
  case 0
  then show ?case by simp
next
  case (Suc k)
  then have "bit_width (n div 2) = bit_width (n div 2 div 2 ^ k) + k"
    by (simp add: div_mult2_eq)
  moreover have "n \<noteq> 0" using Suc.prems by (cases n) auto
  ultimately show ?case
    by (subst bit_width.simps) (simp add: div_mult2_eq)
qed

lemma bit_width_small: "n < 2 ^ k \<Longrightarrow> bit_width n \<le> k"
proof (rule ccontr)
  assume "n < 2 ^ k" "\<not> bit_width n \<le> k"
  then have "0 < n" by (cases n) (auto simp: bit_width.simps)
  have "(2::nat) ^ k \<le> 2 ^ (bit_width n - 1)"
    using \<open>\<not> bit_width n \<le> k\<close> by (intro power_increasing) auto
  also have "\<dots> \<le> n"
    using bit_width_bounds [OF \<open>0 < n\<close>] by simp
  finally have "2 ^ k \<le> n" .
  with \<open>n < 2 ^ k\<close> show False by simp
qed

lemma length_unsafe_varint: "length (unsafe_varint v) = varint_length v"
proof (induction v rule: unsafe_varint.induct)
  case (1 v)
  show ?case
  proof (cases "v \<ge> CONTINUATION_BIT")
    case True
    then have "0 < unat v div 2 ^ 7"
      by (simp add: word_le_nat_alt div_greater_zero_iff)
    moreover from this have "drop_bit 7 v \<noteq> 0" "v \<noteq> 0"
      by (auto simp: word_unat_eq_iff drop_bit_eq_div unat_div)
    ultimately show ?thesis
      using "1.IH" [OF True] True bit_width_div_pow [of "unat v" 7]
      by (subst unsafe_varint.simps) (simp add: varint_length_def drop_bit_eq_div unat_div)
  next
    case False
    then have "unat v < 2 ^ 7" by (simp add: word_le_nat_alt)
    then have "bit_width (unat v) \<le> 7" by (rule bit_width_small)
    moreover have "0 < bit_width (unat v)" if "v \<noteq> 0"
      using that by (simp add: bit_width.simps word_unat_eq_iff)
    ultimately show ?thesis
      using False by (subst unsafe_varint.simps) (auto simp: varint_length_def)
  qed
qed

lemma varint_length_bound: "unat v < 2 ^ k \<Longrightarrow> 0 < k \<Longrightarrow> varint_length v \<le> (k + 6) div 7"
  using bit_width_small [of "unat v" k] by (auto simp: varint_length_def intro: div_le_mono)

text \<open>
  C18: the varint round trip. Whatever follows in the buffer, and on whichever of its two paths,
  the decoder returns the encoded 64-bit value and consumes exactly the predicted number of bytes,
  between 1 and 10.
\<close>

theorem varint_round_trip:
  "try_decode_varint (unsafe_varint v @ rest) = Inr (v, varint_length v)
    \<and> length (unsafe_varint v) = varint_length v \<and> 1 \<le> varint_length v
    \<and> varint_length v \<le> MAX_VARINT_LENGTH_64"
proof -
  have "varint_length v \<le> (64 + 6) div 7"
    using unsigned_less [where 'a = nat, of v] by (intro varint_length_bound) simp_all
  moreover have "0 < length (unsafe_varint v)"
    by (subst unsafe_varint.simps) simp
  ultimately show ?thesis
    by (simp add: try_decode_unsafe_varint MAX_VARINT_LENGTH_64_def Suc_le_eq flip: length_unsafe_varint)
qed

end
