(* ===== verification/Utilities.thy ===== *)
theory Utilities
  imports Prelude
begin

text \<open>
  The helpers of \<^verbatim>\<open>src/utils.h\<close> and \<^verbatim>\<open>src/utils.cc\<close>: rounding to pages, on 64-bit words as the
  code computes them, and the map from a key to its partition. A partition is named by the
  largest 16-bit key prefix it holds.
\<close>

definition PAGE_SIZE_IN_BYTES :: nat where
  "PAGE_SIZE_IN_BYTES = 4096"

section \<open>Rounding\<close>

definition hedge_ceil :: "nat \<Rightarrow> nat \<Rightarrow> nat" where
  "hedge_ceil v denominator = (v + denominator - 1) div denominator"

definition round_up :: "u64 \<Rightarrow> u64 \<Rightarrow> u64" where
  "round_up v target = (v + target - 1) AND NOT (target - 1)"

definition ceil_page_align :: "u64 \<Rightarrow> u64" where
  "ceil_page_align v = round_up v (of_nat PAGE_SIZE_IN_BYTES)"

definition floor_page_align :: "u64 \<Rightarrow> u64" where
  "floor_page_align v = v div of_nat PAGE_SIZE_IN_BYTES * of_nat PAGE_SIZE_IN_BYTES"

definition is_page_aligned :: "u64 \<Rightarrow> bool" where
  "is_page_aligned v \<longleftrightarrow> v mod of_nat PAGE_SIZE_IN_BYTES = 0"

section \<open>Partitions\<close>

text \<open>
  \<^verbatim>\<open>extract_prefix\<close> reads two bytes behind the data pointer of a key, whatever the key's
  length; its argument is the memory at that pointer. For a key of one byte the second one is a byte
  of the inline buffer that was never set, which is not known here.
\<close>

definition extract_prefix :: "bytes \<Rightarrow> u16" where
  "extract_prefix k = ucast (k ! 1) OR push_bit 8 (ucast (k ! 0))"

definition find_partition_prefix_for_key :: "bytes \<Rightarrow> nat \<Rightarrow> nat" where
  "find_partition_prefix_for_key k partition_size =
     (let K = unat (extract_prefix k); P = partition_size in (K + P) div P * P - 1)"

definition hex_digit :: "nat \<Rightarrow> char" where
  "hex_digit d = ''0123456789abcdef'' ! d"

definition hex2 :: "byte \<Rightarrow> string" where
  "hex2 b = [hex_digit (unat b div 16), hex_digit (unat b mod 16)]"

text \<open>The directory and the file name of a partition: the high byte, then both bytes, in hex.\<close>

definition format_prefix :: "u16 \<Rightarrow> string \<times> string" where
  "format_prefix prefix =
     (let as_array = le_image 2 prefix in
      (hex2 (as_array ! 1), hex2 (as_array ! 1) @ hex2 (as_array ! 0)))"

definition with_extension :: "string \<Rightarrow> string \<Rightarrow> string" where
  "with_extension path ext = path @ ext"

section \<open>Rounding is to the next multiple\<close>

lemma unat_and_not_mask: "unat (w AND NOT (mask k) :: u64) = unat w div 2 ^ k * 2 ^ k"
proof -
  have "w AND NOT (mask k) = push_bit k (drop_bit k w)"
    by (rule bit_word_eqI)
      (auto simp: bit_and_iff bit_not_iff bit_mask_iff bit_push_bit_iff bit_drop_bit_eq)
  moreover have "unat w div 2 ^ k * 2 ^ k < 2 ^ 64"
    by (rule le_less_trans [of _ "unat w"]) (use unsigned_less [where 'a = nat, of w] in simp_all)
  moreover have "unat (push_bit k (drop_bit k w)) = take_bit 64 (unat w div 2 ^ k * 2 ^ k)"
    unfolding unsigned_push_bit_eq unat_drop_bit_eq
    by (simp only: push_bit_eq_mult drop_bit_eq_div) simp
  ultimately show ?thesis
    by (simp only: take_bit_nat_eq_self)
qed

lemma div_times_ge:
  assumes "0 < (t::nat)"
  shows "v \<le> (v + t - 1) div t * t"
proof -
  have "v + t - 1 < (v + t - 1) div t * t + t"
    using assms by (metis add.commute mod_less_divisor mod_mult_div_eq mult.commute nat_add_left_cancel_less)
  then show ?thesis by simp
qed

lemma unat_exp_u64:
  assumes "k < 64"
  shows "unat (2 ^ k :: u64) = 2 ^ k"
proof -
  have "(2::nat) ^ k < 2 ^ 64" using assms by (intro power_strict_increasing) auto
  then show ?thesis
    using unat_of_nat [where 'a = 64, of "2 ^ k"] by simp
qed

lemma unat_round_up:
  assumes "target = 2 ^ k" "k < 64" "unat v + 2 ^ k \<le> 2 ^ 64"
  shows "unat (round_up v target) = (unat v + 2 ^ k - 1) div 2 ^ k * 2 ^ k"
proof -
  have "target - 1 = mask k"
    using assms(1) by (simp add: mask_eq_exp_minus_1)
  moreover have "unat (v + target - 1) = unat v + 2 ^ k - 1"
  proof -
    have t: "unat (target - 1) = 2 ^ k - 1"
      using assms(1,2) unat_minus_one [of target] by (simp add: unat_exp_u64)
    have "0 < (2::nat) ^ k" by simp
    then have "unat v + unat (target - 1) < 2 ^ 64"
      using assms(3) t by linarith
    then have "unat (v + (target - 1)) = unat v + unat (target - 1)"
      using unat_add_lem [of v "target - 1"] by simp
    with t show ?thesis by (simp add: add_diff_eq)
  qed
  ultimately show ?thesis
    by (simp add: round_up_def unat_and_not_mask)
qed

text \<open>
  \<^verbatim>\<open>round_up\<close> with a power of two as target, computed with a mask on 64-bit words, returns
  the least multiple of the target that is not below the value, as long as the sum does not
  leave the 64-bit range.
\<close>

theorem round_up_least_multiple:
  assumes "target = 2 ^ k" "k < 64" "unat v + 2 ^ k \<le> 2 ^ 64"
  shows "2 ^ k dvd unat (round_up v target) \<and> unat v \<le> unat (round_up v target)
    \<and> unat (round_up v target) < unat v + 2 ^ k"
proof -
  have "(unat v + 2 ^ k - 1) div 2 ^ k * 2 ^ k \<le> unat v + 2 ^ k - 1"
    by simp
  also have "\<dots> < unat v + 2 ^ k" by simp
  finally show ?thesis
    unfolding unat_round_up [OF assms] using div_times_ge [of "2 ^ k" "unat v"] by simp
qed

theorem round_up_least_multiple_witness:
  "unat (round_up 4097 4096) < 4097 + 4096 \<and> 4096 dvd unat (round_up 4097 4096)"
  using round_up_least_multiple [of 4096 12 4097] by simp

section \<open>Keys and their partitions\<close>

lemma unat_extract_prefix: "unat (extract_prefix (a # b # k)) = 256 * unat a + unat b"
proof -
  have "ucast b AND push_bit 8 (ucast a :: u16) = (0 :: u16)"
    by (rule bit_word_eqI)
      (auto simp: bit_and_iff bit_push_bit_iff bit_unsigned_iff dest: bit_imp_le_length)
  then have "extract_prefix (a # b # k) = ucast b + push_bit 8 (ucast a)"
    by (simp add: extract_prefix_def disjunctive_add_eq_or)
  also have "\<dots> = of_nat (256 * unat a + unat b)"
    by (simp add: push_bit_eq_mult)
  finally have "unat (extract_prefix (a # b # k)) = (256 * unat a + unat b) mod 2 ^ 16"
    by (simp only: unat_of_nat) simp
  then show ?thesis
    using unsigned_less [where 'a = nat, of a] unsigned_less [where 'a = nat, of b] by simp
qed

lemma extract_prefix_mono:
  assumes "2 \<le> length k" "2 \<le> length k'" "k \<le> k'"
  shows "unat (extract_prefix k) \<le> unat (extract_prefix k')"
proof -
  obtain a b r a' b' r' where k: "k = a # b # r" "k' = a' # b' # r'"
    using assms(1,2) by (metis One_nat_def Suc_1 Suc_le_length_iff)
  have "unat b < 256" using unsigned_less [where 'a = nat, of b] by simp
  moreover from assms(3) have "unat a < unat a' \<or> unat a = unat a' \<and> unat b \<le> unat b'"
    unfolding k by (auto simp: word_less_nat_alt)
  ultimately show ?thesis
    unfolding k unat_extract_prefix by auto
qed

lemma partition_of_prefix:
  assumes "0 < (P::nat)"
  shows "K \<le> (K + P) div P * P - 1" "(K + P) div P * P - 1 < K + P"
    "P dvd Suc ((K + P) div P * P - 1)"
proof -
  define Q where "Q = (K + P) div P * P"
  have "Q \<le> K + P" "P dvd Q" by (simp_all add: Q_def)
  moreover have "K < Q"
    using div_times_ge [OF assms, of "Suc K"] by (simp add: Q_def)
  ultimately have "K \<le> Q - 1 \<and> Q - 1 < K + P \<and> P dvd Suc (Q - 1)" by auto
  then show "K \<le> (K + P) div P * P - 1" "(K + P) div P * P - 1 < K + P"
    "P dvd Suc ((K + P) div P * P - 1)" by (simp_all add: Q_def)
qed

lemma partition_mono:
  "K \<le> K' \<Longrightarrow> (K + P) div P * P - 1 \<le> (K' + P) div P * P - (1::nat)"
  by (intro diff_le_mono mult_le_mono1 div_le_mono) simp

text \<open>The number of 16-bit prefixes in a partition, for a database with \<open>2 ^ e\<close> partitions.\<close>

definition partition_size_of :: "nat \<Rightarrow> nat" where
  "partition_size_of e = (1 * 2 ^ 16) div (1 * 2 ^ e)"

lemma partition_size_of_eq: "e \<le> 16 \<Longrightarrow> partition_size_of e = 2 ^ (16 - e)"
  by (simp add: partition_size_of_def power_diff)

lemma partition_size_of_pos [simp]: "e \<le> 16 \<Longrightarrow> 0 < partition_size_of e"
  by (simp add: partition_size_of_eq)

lemma partition_below: "e \<le> 16 \<Longrightarrow> find_partition_prefix_for_key k (partition_size_of e) < 2 ^ 16"
proof -
  let ?P = "partition_size_of e" and ?K = "unat (extract_prefix k)"
  assume e: "e \<le> 16"
  have P: "0 < ?P" using e by simp
  have "?P dvd 2 ^ 16"
    unfolding partition_size_of_eq [OF e] by (rule le_imp_power_dvd) simp
  then obtain n where n: "2 ^ 16 = ?P * n" ..
  have "?K < 2 ^ 16" using unsigned_less [where 'a = nat, of "extract_prefix k"] by simp
  then have "?K div ?P < n"
    using P n by (simp add: less_mult_imp_div_less mult.commute)
  then have "(?K + ?P) div ?P * ?P \<le> n * ?P"
    using P by (intro mult_le_mono1) (simp add: div_add_self2)
  also have "\<dots> = 2 ^ 16" using n by (simp add: mult.commute)
  finally show ?thesis by (simp add: find_partition_prefix_for_key_def Let_def)
qed

lemma partition_key_mono:
  assumes "2 \<le> length k" "2 \<le> length k'" "k \<le> k'"
  shows "find_partition_prefix_for_key k P \<le> find_partition_prefix_for_key k' P"
  using partition_mono [OF extract_prefix_mono [OF assms], of P] by (simp add: find_partition_prefix_for_key_def Let_def)

lemma partition_dvd: "e \<le> 16 \<Longrightarrow> partition_size_of e dvd Suc (find_partition_prefix_for_key k (partition_size_of e))"
  using partition_of_prefix(3) [of "partition_size_of e"] by (simp add: find_partition_prefix_for_key_def Let_def)

text \<open>
  C20: every key of at least two bytes has a partition: its 16-bit prefix lies among the last
  \<open>partition_size\<close> prefixes up to the partition's name, the name is the last prefix of an aligned
  block, and it is a 16-bit number; keys in order have partitions in order.
\<close>

theorem key_partition:
  assumes "e \<le> 16" "2 \<le> length k" "2 \<le> length k'" "k \<le> k'"
  shows "unat (extract_prefix k) \<le> find_partition_prefix_for_key k (partition_size_of e)
    \<and> find_partition_prefix_for_key k (partition_size_of e)
        < unat (extract_prefix k) + partition_size_of e
    \<and> partition_size_of e dvd Suc (find_partition_prefix_for_key k (partition_size_of e))
    \<and> find_partition_prefix_for_key k (partition_size_of e) < 2 ^ 16
    \<and> find_partition_prefix_for_key k (partition_size_of e)
        \<le> find_partition_prefix_for_key k' (partition_size_of e)"
proof -
  have "0 < partition_size_of e" using assms(1) by simp
  then show ?thesis
    using partition_of_prefix(1,2) [of "partition_size_of e" "unat (extract_prefix k)"] partition_dvd [OF assms(1)]
      partition_below [OF assms(1)] partition_key_mono [OF assms(2-4)]
    by (simp add: find_partition_prefix_for_key_def Let_def)
qed

theorem key_partition_witness:
  "find_partition_prefix_for_key [0x12, 0x34, 0x56] (partition_size_of 4) < 2 ^ 16
    \<and> find_partition_prefix_for_key [0x12, 0x34, 0x56] (partition_size_of 4)
        \<le> find_partition_prefix_for_key [0x12, 0x35] (partition_size_of 4)"
  using key_partition [of 4 "[0x12, 0x34, 0x56]" "[0x12, 0x35]"] by simp

lemma hex_digit_inj: "a < 16 \<Longrightarrow> b < 16 \<Longrightarrow> hex_digit a = hex_digit b \<Longrightarrow> a = b"
  using nth_eq_iff_index_eq [of "''0123456789abcdef''" a b] by (simp add: hex_digit_def)

lemma hex2_inj: "hex2 a = hex2 b \<Longrightarrow> a = b"
proof -
  assume "hex2 a = hex2 b"
  moreover have "unat a < 256" "unat b < 256"
    using unsigned_less [where 'a = nat, of a] unsigned_less [where 'a = nat, of b] by simp_all
  ultimately have "unat a div 16 = unat b div 16" "unat a mod 16 = unat b mod 16"
    using hex_digit_inj [of "unat a div 16" "unat b div 16"]
      hex_digit_inj [of "unat a mod 16" "unat b mod 16"] by (auto simp: hex2_def)
  then have "unat a = unat b" by (metis div_mult_mod_eq)
  then show ?thesis by (simp add: word_unat_eq_iff)
qed

lemma format_prefix_inj: "snd (format_prefix p) = snd (format_prefix q) \<Longrightarrow> p = q"
proof -
  assume eq: "snd (format_prefix p) = snd (format_prefix q)"
  have "le_image 2 w = [le_image 2 w ! 0, le_image 2 w ! 1]" for w :: u16
    by (simp add: numeral_2_eq_2)
  then have "le_image 2 p = le_image 2 q"
    using eq hex2_inj by (auto simp: format_prefix_def Let_def hex2_def) metis+
  then show ?thesis by (metis le_word_le_image_2)
qed

end
