(* ===== verification/Values.thy ===== *)
theory Values
  imports Prelude
begin

text \<open>
  The values of \<^verbatim>\<open>include/types.h\<close>: pointers into a value table with their deletion flag, values
  stored in place and tombstones, and the tagged byte string under which a value is stored in the
  memtable, in the log and in the tables.
\<close>

section \<open>Value pointers\<close>

record value_ptr_t =
  vp_offset :: u64
  vp_size :: u32
  vp_table_id :: u32

definition deleted_mask :: u64 where
  "deleted_mask = push_bit 63 1"

definition is_deleted :: "value_ptr_t \<Rightarrow> bool" where
  "is_deleted vp \<longleftrightarrow> drop_bit 63 (vp_offset vp) = 1"

definition offset :: "value_ptr_t \<Rightarrow> u64" where
  "offset vp = vp_offset vp AND NOT deleted_mask"

definition apply_delete :: "value_ptr_t \<Rightarrow> value_ptr_t" where
  "apply_delete vp = vp\<lparr>vp_offset := vp_offset vp OR deleted_mask\<rparr>"

text \<open>\<^verbatim>\<open>operator<\<close>: a smaller pointer has the higher priority.\<close>

definition value_ptr_less :: "value_ptr_t \<Rightarrow> value_ptr_t \<Rightarrow> bool" where
  "value_ptr_less a b =
     (if vp_table_id a > vp_table_id b then True
      else if offset a > offset b then True
      else is_deleted a \<and> \<not> is_deleted b)"

definition value_ptr_image :: "value_ptr_t \<Rightarrow> bytes" where
  "value_ptr_image vp =
     le_image 8 (vp_offset vp) @ le_image 4 (vp_size vp) @ le_image 4 (vp_table_id vp)"

definition sizeof_value_ptr :: nat where
  "sizeof_value_ptr = 16"

definition value_ptr_of_image :: "bytes \<Rightarrow> value_ptr_t" where
  "value_ptr_of_image bs =
     \<lparr>vp_offset = le_word (read_at bs 0 8), vp_size = le_word (read_at bs 8 4),
      vp_table_id = le_word (read_at bs 12 4)\<rparr>"

definition try_from_span :: "bytes \<Rightarrow> value_ptr_t option" where
  "try_from_span span =
     (if length span \<noteq> sizeof_value_ptr then None else Some (value_ptr_of_image span))"

section \<open>Values\<close>

datatype value_t = Value_Ptr value_ptr_t | In_Place bytes | Tombstone

datatype value_type = VALUE_PTR | IN_PLACE_VALUE | TOMBSTONE | UNDEFINED

fun value_type_byte :: "value_type \<Rightarrow> byte" where
  "value_type_byte VALUE_PTR = 0"
| "value_type_byte IN_PLACE_VALUE = 1"
| "value_type_byte TOMBSTONE = 2"
| "value_type_byte UNDEFINED = 255"

text \<open>
  \<^verbatim>\<open>value_from_span\<close> reads the tag before any check. On an empty span that read is undefined
  behaviour; as in the other models of this development it is the error \<open>out of range read\<close>.
\<close>

fun value_from_span :: "bytes \<Rightarrow> value_t expected" where
  "value_from_span [] = Inl (generic_error ''out of range read'')"
| "value_from_span (t # payload) =
     (if t = value_type_byte VALUE_PTR then
        (if length (t # payload) \<noteq> 1 + sizeof_value_ptr
         then Inl (generic_error ''Invalid span size for value_ptr_t'')
         else Inr (Value_Ptr (value_ptr_of_image payload)))
      else if t = value_type_byte IN_PLACE_VALUE then Inr (In_Place payload)
      else if t = value_type_byte TOMBSTONE then
        (if length (t # payload) \<noteq> 1 then Inl (generic_error ''Invalid span size for tombstone_t'')
         else Inr Tombstone)
      else Inl (generic_error ''Invalid value type''))"

definition value_to_span :: "value_t \<Rightarrow> bytes" where
  "value_to_span v =
     (case v of
        Value_Ptr vp \<Rightarrow> value_ptr_image vp
      | In_Place vec \<Rightarrow> vec
      | Tombstone \<Rightarrow> [value_type_byte TOMBSTONE])"

text \<open>The stored form of a value: its tag in front of its bytes, as the memtable writes it.\<close>

fun stored_value :: "value_t \<Rightarrow> bytes" where
  "stored_value (Value_Ptr vp) = value_type_byte VALUE_PTR # value_ptr_image vp"
| "stored_value (In_Place vec) = value_type_byte IN_PLACE_VALUE # vec"
| "stored_value Tombstone = [value_type_byte TOMBSTONE]"

section \<open>Lemmas\<close>

lemma length_value_ptr_image [simp]: "length (value_ptr_image vp) = sizeof_value_ptr"
  by (simp add: value_ptr_image_def sizeof_value_ptr_def)

lemma value_ptr_of_image_image [simp]: "value_ptr_of_image (value_ptr_image vp) = vp"
  by (simp add: value_ptr_of_image_def value_ptr_image_def read_at_def le_simps)

lemma bit_deleted_mask: "bit deleted_mask i \<longleftrightarrow> i = 63"
  unfolding deleted_mask_def bit_push_bit_iff bit_1_iff by auto

lemma is_deleted_bit: "is_deleted vp \<longleftrightarrow> bit (vp_offset vp) 63"
proof -
  have "drop_bit 63 (w :: u64) = (if bit w 63 then 1 else 0)" for w
  proof (rule bit_word_eqI)
    fix n
    show "bit (drop_bit 63 w) n = bit (if bit w 63 then 1 else 0 :: u64) n"
      by (cases n) (auto simp: bit_drop_bit_eq bit_1_iff dest: bit_imp_le_length)
  qed
  then show ?thesis by (simp add: is_deleted_def)
qed

text \<open>
  marking a value pointer deleted sets its flag and keeps its offset, size and table; the
  offset never shows the flag.
\<close>

theorem apply_delete_flag:
  "is_deleted (apply_delete vp) \<and> offset (apply_delete vp) = offset vp
    \<and> vp_size (apply_delete vp) = vp_size vp \<and> vp_table_id (apply_delete vp) = vp_table_id vp
    \<and> unat (offset vp) < 2 ^ 63"
proof -
  have "offset (apply_delete vp) = offset vp"
    unfolding offset_def apply_delete_def
    by (rule bit_word_eqI) (auto simp: bit_and_iff bit_or_iff bit_not_iff bit_deleted_mask)
  moreover have "offset vp = take_bit 63 (vp_offset vp)"
    unfolding offset_def
    by (rule bit_word_eqI)
      (auto simp: bit_and_iff bit_not_iff bit_deleted_mask bit_take_bit_iff)
  then have "unat (offset vp) = take_bit 63 (unat (vp_offset vp))"
    by (simp add: unsigned_take_bit_eq)
  then have "unat (offset vp) < 2 ^ 63"
    by (simp only: take_bit_nat_less_exp)
  ultimately show ?thesis
    by (simp add: is_deleted_bit apply_delete_def bit_or_iff bit_deleted_mask)
qed

text \<open>
  The comments of \<^verbatim>\<open>operator<\<close> describe an order by table, then offset, then deletion flag. The
  code compares offsets even when the left table is the older one, so two pointers can each be
  smaller than the other.
\<close>

lemma value_ptr_less_not_asymmetric:
  "value_ptr_less \<lparr>vp_offset = 0, vp_size = 1, vp_table_id = 2\<rparr> \<lparr>vp_offset = 8, vp_size = 1, vp_table_id = 1\<rparr>
   \<and> value_ptr_less \<lparr>vp_offset = 8, vp_size = 1, vp_table_id = 1\<rparr> \<lparr>vp_offset = 0, vp_size = 1, vp_table_id = 2\<rparr>"
  by (simp add: value_ptr_less_def offset_def deleted_mask_def is_deleted_def)

text \<open>
  C21: reading back the stored form of any value gives the value, and a span whose tag is not one
  of the three is rejected.
\<close>

theorem value_from_span_stored_value:
  "value_from_span (stored_value v) = Inr v
    \<and> (\<forall>t payload. t \<noteq> 0 \<and> t \<noteq> 1 \<and> t \<noteq> 2 \<longrightarrow>
         value_from_span (t # payload) = Inl (generic_error ''Invalid value type''))"
  by (cases v) auto

theorem value_from_span_stored_value_witness:
  "value_from_span (stored_value (In_Place [7])) = Inr (In_Place [7])
    \<and> value_from_span [9, 7] = Inl (generic_error ''Invalid value type'')"
  using value_from_span_stored_value [of "In_Place [7]"] by simp

end
