(* ===== verification/Keys.thy ===== *)
theory Keys
  imports Utilities
begin

text \<open>
  The key type of \<^verbatim>\<open>include/key.h\<close>, a string with the short-string optimisation. A key object
  is its 32 bytes of storage, a union: either 31 characters followed by their number, or a
  pointer, a length and the flag \<open>LONG_STRING_FLAG\<close> in the last byte. The characters of a long
  key are in a heap of blocks. The allocator's choice of an address and the bytes it finds there
  are arguments of the operations that allocate. Freeing an address that is not allocated is
  undefined behaviour and is the result \<open>None\<close>.

  The last part of the theory is the serialised form of a key, one byte of length and the
  characters.
\<close>

section \<open>Key objects\<close>

type_synonym key_obj = bytes
type_synonym heap = "u64 \<Rightarrow> bytes option"

definition MAX_INLINE_LENGTH :: nat where
  "MAX_INLINE_LENGTH = 31"

definition LONG_STRING_FLAG :: byte where
  "LONG_STRING_FLAG = 0x80"

definition flag_byte :: "key_obj \<Rightarrow> byte" where
  "flag_byte k = k ! MAX_INLINE_LENGTH"

definition set_flag :: "key_obj \<Rightarrow> byte \<Rightarrow> key_obj" where
  "set_flag k v = k[MAX_INLINE_LENGTH := v]"

definition is_long_str :: "key_obj \<Rightarrow> bool" where
  "is_long_str k \<longleftrightarrow> flag_byte k AND LONG_STRING_FLAG \<noteq> 0"

text \<open>The two fields of the member \<open>variable\<close> of the union.\<close>

definition variable_buf :: "key_obj \<Rightarrow> u64" where
  "variable_buf k = le_word (read_at k 0 8)"

definition set_variable_buf :: "key_obj \<Rightarrow> u64 \<Rightarrow> key_obj" where
  "set_variable_buf k p = write_at k 0 (le_image 8 p)"

definition long_key_length :: "key_obj \<Rightarrow> u64" where
  "long_key_length k = le_word (read_at k 8 8)"

definition set_long_key_length :: "key_obj \<Rightarrow> u64 \<Rightarrow> key_obj" where
  "set_long_key_length k n = write_at k 8 (le_image 8 n)"

text \<open>
  \<open>data()\<close> and \<open>size()\<close> select by the flag between the inline characters and the heap block;
  \<open>key_view\<close> is the string view made of the two.
\<close>

definition key_size :: "key_obj \<Rightarrow> nat" where
  "key_size k = (if is_long_str k then unat (long_key_length k) else unat (flag_byte k))"

definition key_view :: "heap \<Rightarrow> key_obj \<Rightarrow> bytes option" where
  "key_view h k =
     (if is_long_str k then
        (case h (variable_buf k) of None \<Rightarrow> None | Some bs \<Rightarrow> Some (take (key_size k) bs))
      else Some (take (key_size k) k))"

section \<open>Operations on key objects\<close>

definition key_default :: key_obj where
  "key_default = replicate 32 0"

definition key_init :: "u64 \<Rightarrow> bytes \<Rightarrow> key_obj \<Rightarrow> bytes \<Rightarrow> heap \<Rightarrow> key_obj \<times> heap" where
  "key_init a g dst src h =
     (if length src \<le> MAX_INLINE_LENGTH
      then (write_at (set_flag dst (of_nat (length src))) 0 src, h)
      else (set_long_key_length (set_variable_buf (set_flag dst LONG_STRING_FLAG) a)
              (of_nat (length src)),
            h(a \<mapsto> write_at g 0 src)))"

definition make_with_length :: "u64 \<Rightarrow> bytes \<Rightarrow> key_obj \<Rightarrow> nat \<Rightarrow> heap \<Rightarrow> key_obj \<times> heap" where
  "make_with_length a g k len h =
     (if len \<le> MAX_INLINE_LENGTH
      then (set_flag k (of_nat len), h)
      else (set_long_key_length (set_variable_buf (set_flag k LONG_STRING_FLAG) a) (of_nat len),
            h(a \<mapsto> g)))"

definition long_str_copy_unsafe :: "u64 \<Rightarrow> bytes \<Rightarrow> key_obj \<Rightarrow> key_obj \<Rightarrow> heap \<Rightarrow> (key_obj \<times> heap) option" where
  "long_str_copy_unsafe a g dest src h =
     (case h (variable_buf src) of
        None \<Rightarrow> None
      | Some bs \<Rightarrow>
          (let len = long_key_length src
           in Some (set_long_key_length (set_variable_buf (set_flag dest LONG_STRING_FLAG) a) len,
                    h(a \<mapsto> write_at g 0 (take (unat len) bs)))))"

definition short_str_copy_unsafe :: "key_obj \<Rightarrow> key_obj \<Rightarrow> key_obj" where
  "short_str_copy_unsafe dest src = write_at dest 0 src"

definition free_if_long_str :: "key_obj \<Rightarrow> heap \<Rightarrow> (key_obj \<times> heap) option" where
  "free_if_long_str k h =
     (if is_long_str k \<and> variable_buf k \<noteq> 0 then
        (case h (variable_buf k) of
           None \<Rightarrow> None
         | Some _ \<Rightarrow> Some (set_variable_buf (set_flag k 0) 0, h(variable_buf k := None)))
      else Some (k, h))"

text \<open>
  \<open>key_copy\<close> and \<open>key_move\<close> take the template argument \<open>STORAGE_INITIALIZED\<close> first: false in
  the constructors, true in the assignments.
\<close>

definition key_copy :: "bool \<Rightarrow> u64 \<Rightarrow> bytes \<Rightarrow> key_obj \<Rightarrow> key_obj \<Rightarrow> heap \<Rightarrow> (key_obj \<times> heap) option" where
  "key_copy storage_initialized a g dst src h =
     (case (if storage_initialized then free_if_long_str dst h else Some (dst, h)) of
        None \<Rightarrow> None
      | Some (dst, h) \<Rightarrow>
          (if is_long_str src then long_str_copy_unsafe a g dst src h
           else Some (short_str_copy_unsafe dst src, h)))"

definition key_move :: "bool \<Rightarrow> key_obj \<Rightarrow> key_obj \<Rightarrow> heap \<Rightarrow> (key_obj \<times> key_obj \<times> heap) option" where
  "key_move storage_initialized dst src h =
     (case (if storage_initialized then free_if_long_str dst h else Some (dst, h)) of
        None \<Rightarrow> None
      | Some (dst, h) \<Rightarrow>
          (if is_long_str src then
             Some (set_flag (set_long_key_length (set_variable_buf dst (variable_buf src))
                      (long_key_length src)) LONG_STRING_FLAG,
                   set_flag (set_long_key_length (set_variable_buf src 0) 0) 0,
                   h)
           else Some (short_str_copy_unsafe dst src, src, h)))"

text \<open>
  A program over keys: the live key objects, by position, and the heap. Each operation names the
  objects it works on; raw storage and the allocator's answers are part of the operation.
\<close>

datatype key_op =
    Construct key_obj bytes u64 bytes
  | Copy_Construct key_obj nat u64 bytes
  | Move_Construct key_obj nat
  | Copy_Assign nat nat u64 bytes
  | Move_Assign nat nat
  | Destroy nat

fun exec_key_op :: "key_op \<Rightarrow> key_obj list \<times> heap \<Rightarrow> (key_obj list \<times> heap) option" where
  "exec_key_op (Construct raw src a g) (ks, h) =
     (case key_init a g raw src h of (k, h') \<Rightarrow> Some (ks @ [k], h'))"
| "exec_key_op (Copy_Construct raw i a g) (ks, h) =
     (case key_copy False a g raw (ks ! i) h of
        None \<Rightarrow> None | Some (k, h') \<Rightarrow> Some (ks @ [k], h'))"
| "exec_key_op (Move_Construct raw i) (ks, h) =
     (case key_move False raw (ks ! i) h of
        None \<Rightarrow> None | Some (k, src, h') \<Rightarrow> Some (ks[i := src] @ [k], h'))"
| "exec_key_op (Copy_Assign i j a g) (ks, h) =
     (if i = j then Some (ks, h)
      else case key_copy True a g (ks ! i) (ks ! j) h of
        None \<Rightarrow> None | Some (k, h') \<Rightarrow> Some (ks[i := k], h'))"
| "exec_key_op (Move_Assign i j) (ks, h) =
     (if i = j then
        (case free_if_long_str (ks ! i) h of
           None \<Rightarrow> None
         | Some (k, h') \<Rightarrow>
             (case key_move False k k h' of
                None \<Rightarrow> None | Some (k', _, h'') \<Rightarrow> Some (ks[i := k'], h'')))
      else case key_move True (ks ! i) (ks ! j) h of
        None \<Rightarrow> None | Some (k, src, h') \<Rightarrow> Some (ks[i := k, j := src], h'))"
| "exec_key_op (Destroy i) (ks, h) =
     (case free_if_long_str (ks ! i) h of
        None \<Rightarrow> None | Some (k, h') \<Rightarrow> Some (take i ks @ drop (Suc i) ks, h'))"

section \<open>The fields of the union\<close>

named_theorems key_simps \<open>the fields of a key object after an assignment\<close>

lemma nth_write_at_after:
  "off + length bs \<le> i \<Longrightarrow> i < length mem \<Longrightarrow> write_at mem off bs ! i = mem ! i"
  by (auto simp: write_at_def nth_append min_def)

lemma length_set_flag [key_simps]: "length (set_flag k v) = length k"
  by (simp add: set_flag_def)

lemma length_set_variable_buf [key_simps]: "length k = 32 \<Longrightarrow> length (set_variable_buf k p) = 32"
  by (simp add: set_variable_buf_def mem_simps)

lemma length_set_long_key_length [key_simps]:
  "length k = 32 \<Longrightarrow> length (set_long_key_length k p) = 32"
  by (simp add: set_long_key_length_def mem_simps)

lemma flag_byte_set [key_simps]:
  assumes "length k = 32"
  shows "flag_byte (set_flag k v) = v" "flag_byte (set_variable_buf k p) = flag_byte k"
    "flag_byte (set_long_key_length k n) = flag_byte k"
  using assms
  by (simp_all add: flag_byte_def set_flag_def set_variable_buf_def set_long_key_length_def
      MAX_INLINE_LENGTH_def nth_write_at_after)

lemma variable_buf_set [key_simps]:
  assumes "length k = 32"
  shows "variable_buf (set_flag k v) = variable_buf k" "variable_buf (set_variable_buf k p) = p"
    "variable_buf (set_long_key_length k n) = variable_buf k"
  using assms
  by (simp_all add: variable_buf_def set_flag_def set_variable_buf_def set_long_key_length_def
      MAX_INLINE_LENGTH_def mem_simps le_simps) (simp add: read_at_def)

lemma long_key_length_set [key_simps]:
  assumes "length k = 32"
  shows "long_key_length (set_flag k v) = long_key_length k"
    "long_key_length (set_variable_buf k p) = long_key_length k"
    "long_key_length (set_long_key_length k n) = n"
  using assms
  by (simp_all add: long_key_length_def set_flag_def set_variable_buf_def set_long_key_length_def
      MAX_INLINE_LENGTH_def mem_simps le_simps) (simp add: read_at_def drop_update_swap)

lemma is_long_str_bit: "is_long_str k \<longleftrightarrow> bit (flag_byte k) 7"
proof -
  have flag: "LONG_STRING_FLAG = 2 ^ 7" by (simp add: LONG_STRING_FLAG_def)
  show ?thesis unfolding is_long_str_def flag and_exp_eq_0_iff_not_bit by simp
qed

lemma short_flag_not_long: "unat (flag_byte k) \<le> 31 \<Longrightarrow> \<not> is_long_str k"
  using bit_unsigned_iff [where 'a = nat, of "flag_byte k" 7]
  by (simp add: is_long_str_bit bit_iff_odd)

lemma long_string_flag_bit [key_simps]: "bit LONG_STRING_FLAG 7" "\<not> bit (0 :: byte) 7"
  by (simp_all add: LONG_STRING_FLAG_def)

section \<open>Ownership of heap blocks\<close>

text \<open>
  A live key is valid when its flag is a short length, or it points to a block of its length. The
  program is well formed when every block is owned by exactly one long key.
\<close>

definition key_valid :: "heap \<Rightarrow> key_obj \<Rightarrow> bool" where
  "key_valid h k \<longleftrightarrow> length k = 32 \<and>
     (if is_long_str k then
        variable_buf k \<noteq> 0 \<and> MAX_INLINE_LENGTH < unat (long_key_length k)
        \<and> (\<exists>bs. h (variable_buf k) = Some bs \<and> length bs = unat (long_key_length k))
      else unat (flag_byte k) \<le> MAX_INLINE_LENGTH)"

definition owned_of :: "key_obj \<Rightarrow> u64 multiset" where
  "owned_of k = (if is_long_str k then {#variable_buf k#} else {#})"

definition keys_wf :: "key_obj multiset \<Rightarrow> heap \<Rightarrow> bool" where
  "keys_wf M h \<longleftrightarrow> (\<forall>k \<in># M. key_valid h k) \<and> (\<Sum>k \<in># M. owned_of k) = mset_set (dom h)"

definition release :: "key_obj \<Rightarrow> heap \<Rightarrow> heap" where
  "release k h = (if is_long_str k then h(variable_buf k := None) else h)"

text \<open>\<open>acquires k h h'\<close>: the heap \<open>h'\<close> is \<open>h\<close> with the block of the new key \<open>k\<close>, if it has one.\<close>

definition acquires :: "key_obj \<Rightarrow> heap \<Rightarrow> heap \<Rightarrow> bool" where
  "acquires k h h' \<longleftrightarrow>
     (if is_long_str k then h (variable_buf k) = None \<and> (\<exists>bs. h' = h(variable_buf k \<mapsto> bs)) else h' = h)"

lemma key_frame:
  assumes "is_long_str k \<Longrightarrow> h' (variable_buf k) = h (variable_buf k)"
  shows "key_valid h' k = key_valid h k" "key_view h' k = key_view h k"
  using assms by (auto simp: key_valid_def key_view_def)

lemma finite_heap: "finite (dom (h :: heap))"
  by (rule finite)

lemma mset_set_dom_remove:
  fixes h :: heap
  shows "h a = Some bs \<Longrightarrow> mset_set (dom h) - {#a#} = mset_set (dom h - {a})"
  by (simp add: mset_set.remove [of "dom h" a] domI)

lemma owned_elem:
  "k \<in># M \<Longrightarrow> is_long_str k \<Longrightarrow> variable_buf k \<in># (\<Sum>k \<in># M. owned_of k)"
  by (auto simp: owned_of_def dest!: multi_member_split)

lemma keys_wf_remove:
  assumes wf: "keys_wf (add_mset k M) h"
  shows "keys_wf M (release k h)" "\<forall>x \<in># M. key_view (release k h) x = key_view h x"
proof -
  have own: "owned_of k + (\<Sum>k \<in># M. owned_of k) = mset_set (dom h)"
    and valid: "\<forall>k \<in># M. key_valid h k" "key_valid h k"
    using wf by (auto simp: keys_wf_def)
  have frame: "release k h (variable_buf x) = h (variable_buf x)" if "x \<in># M" "is_long_str x" for x
  proof (cases "is_long_str k")
    case True
    then have "count (mset_set (dom h)) (variable_buf k)
        = 1 + count (\<Sum>k \<in># M. owned_of k) (variable_buf k)"
      by (simp add: owned_of_def flip: own)
    then have "count (\<Sum>k \<in># M. owned_of k) (variable_buf k) = 0"
      by (simp add: count_mset_set' split: if_splits)
    then have "variable_buf k \<notin># (\<Sum>k \<in># M. owned_of k)"
      by (simp only: not_in_iff)
    then show ?thesis
      using owned_elem [OF that] by (auto simp: release_def)
  qed (simp add: release_def)
  note same = key_frame [where h = h and h' = "release k h", OF frame]
  show "\<forall>x \<in># M. key_view (release k h) x = key_view h x"
    using same(2) by blast
  have "(\<Sum>k \<in># M. owned_of k) = mset_set (dom h) - owned_of k"
    by (simp flip: own)
  then have "(\<Sum>k \<in># M. owned_of k) = mset_set (dom (release k h))"
    using valid(2) by (auto simp: owned_of_def release_def key_valid_def mset_set_dom_remove)
  then show "keys_wf M (release k h)"
    using valid(1) same(1) unfolding keys_wf_def by blast
qed

lemma keys_wf_insert:
  assumes wf: "keys_wf M h" and new: "key_valid h' k" "acquires k h h'"
  shows "keys_wf (add_mset k M) h'" "\<forall>x \<in># M. key_view h' x = key_view h x"
proof -
  have own: "(\<Sum>k \<in># M. owned_of k) = mset_set (dom h)" and valid: "\<forall>k \<in># M. key_valid h k"
    using wf by (auto simp: keys_wf_def)
  have frame: "h' (variable_buf x) = h (variable_buf x)" if "x \<in># M" "is_long_str x" for x
  proof -
    have "h (variable_buf x) \<noteq> None"
      using owned_elem [OF that] own by auto
    then show ?thesis
      using new by (auto simp: acquires_def split: if_splits)
  qed
  note same = key_frame [where h = h and h' = h', OF frame]
  show "\<forall>x \<in># M. key_view h' x = key_view h x"
    using same(2) by blast
  have "owned_of k + (\<Sum>k \<in># M. owned_of k) = mset_set (dom h')"
    using new(2) own by (auto simp: acquires_def owned_of_def domIff split: if_splits)
  then show "keys_wf (add_mset k M) h'"
    using valid new(1) same(1) by (simp add: keys_wf_def)
qed

section \<open>The operations on one key\<close>

lemma take_write_at_0: "length bs \<le> length mem \<Longrightarrow> take (length bs) (write_at mem 0 bs) = bs"
  by (simp add: write_at_def)

lemma write_at_all: "length bs = length mem \<Longrightarrow> write_at mem 0 bs = bs"
  by (simp add: write_at_def)

lemma long_key_set:
  fixes k :: key_obj and a n :: u64
  assumes "length k = 32"
  defines "k' \<equiv> set_long_key_length (set_variable_buf (set_flag k LONG_STRING_FLAG) a) n"
  shows "length k' = 32" "is_long_str k'" "variable_buf k' = a" "long_key_length k' = n"
  using assms by (simp_all add: key_simps is_long_str_bit)

lemma short_key_set:
  assumes "length k = 32" "n \<le> 31"
  shows "length (set_flag k (of_nat n)) = 32" "\<not> is_long_str (set_flag k (of_nat n))"
    "key_size (set_flag k (of_nat n)) = n" "unat (flag_byte (set_flag k (of_nat n))) = n"
proof -
  show len: "unat (flag_byte (set_flag k (of_nat n))) = n"
    using assms by (simp add: key_simps unat_of_nat)
  show short: "\<not> is_long_str (set_flag k (of_nat n))"
    using assms len by (intro short_flag_not_long) simp
  show "key_size (set_flag k (of_nat n)) = n"
    using len short by (simp add: key_size_def)
  show "length (set_flag k (of_nat n)) = 32"
    using assms by (simp add: key_simps)
qed

lemma key_init_ok:
  assumes raw: "length dst = 32" "length src < 2 ^ 64"
    and alloc: "a \<noteq> 0" "h a = None" "length g = length src"
    and init: "key_init a g dst src h = (k, h')"
  shows "key_valid h' k \<and> acquires k h h' \<and> key_view h' k = Some src \<and> key_size k = length src"
proof (cases "length src \<le> 31")
  case True
  let ?d = "set_flag dst (of_nat (length src))"
  have k: "k = write_at ?d 0 src" and h: "h' = h"
    using True init by (auto simp: key_init_def MAX_INLINE_LENGTH_def)
  note d = short_key_set [OF raw(1) True]
  have flag: "flag_byte k = flag_byte ?d"
    using True d(1) by (simp add: k flag_byte_def MAX_INLINE_LENGTH_def nth_write_at_after)
  have "length k = 32"
    using True d(1) by (simp add: k mem_simps)
  moreover have "take (length src) k = src"
    using True d(1) by (simp add: k take_write_at_0)
  ultimately show ?thesis
    using flag d True h
    by (auto simp: key_valid_def acquires_def key_view_def key_size_def is_long_str_def MAX_INLINE_LENGTH_def)
next
  case False
  let ?d = "set_long_key_length (set_variable_buf (set_flag dst LONG_STRING_FLAG) a) (of_nat (length src))"
  have k: "k = ?d" and h: "h' = h(a \<mapsto> src)"
    using False init alloc by (auto simp: key_init_def MAX_INLINE_LENGTH_def write_at_all)
  show ?thesis
    using long_key_set [OF raw(1), of a "of_nat (length src)"] alloc raw(2) False
    by (auto simp: k h MAX_INLINE_LENGTH_def key_valid_def acquires_def key_view_def key_size_def unat_of_nat)
qed

lemma free_if_long_str_ok:
  assumes "key_valid h k"
  obtains k' where "free_if_long_str k h = Some (k', release k h)" "length k' = 32"
    "is_long_str k \<Longrightarrow> key_view h' k' = Some []" "\<not> is_long_str k \<Longrightarrow> k' = k" "\<not> is_long_str k'"
    "key_valid h' k'"
proof (cases "is_long_str k")
  case True
  let ?k = "set_variable_buf (set_flag k 0) 0"
  have fields: "length ?k = 32" "flag_byte ?k = 0"
    using assms by (simp_all add: key_valid_def key_simps)
  show ?thesis
    using assms True fields
    by (intro that [of ?k])
      (auto simp: key_valid_def free_if_long_str_def release_def is_long_str_def key_view_def key_size_def)
next
  case False
  then show ?thesis
    using assms by (intro that [of k]) (auto simp: free_if_long_str_def release_def key_valid_def)
qed

lemma key_copy_construct_ok:
  assumes raw: "length dst = 32" and src: "key_valid h0 src"
    and frame: "is_long_str src \<Longrightarrow> h (variable_buf src) = h0 (variable_buf src)"
    and alloc: "a \<noteq> 0" "h a = None" "length g = key_size src"
  obtains k h' where "key_copy False a g dst src h = Some (k, h')"
    "key_valid h' k" "acquires k h h'" "key_view h' k = key_view h0 src"
proof (cases "is_long_str src")
  case True
  let ?k = "set_long_key_length (set_variable_buf (set_flag dst LONG_STRING_FLAG) a) (long_key_length src)"
  obtain bs where bs: "h (variable_buf src) = Some bs" "length bs = unat (long_key_length src)"
    using src True frame by (auto simp: key_valid_def)
  have copy: "key_copy False a g dst src h = Some (?k, h(a \<mapsto> bs))"
    using True bs alloc(3)
    by (simp add: key_copy_def long_str_copy_unsafe_def key_size_def write_at_all)
  show ?thesis
    using long_key_set [OF raw, of a "long_key_length src"] bs True alloc frame src
    by (intro that [OF copy]) (auto simp: key_valid_def acquires_def key_view_def key_size_def)
next
  case False
  have copy: "key_copy False a g dst src h = Some (src, h)"
    using False src raw
    by (simp add: key_copy_def short_str_copy_unsafe_def write_at_all key_valid_def)
  show ?thesis
    using src False by (intro that [OF copy]) (auto simp: key_valid_def acquires_def key_view_def)
qed

lemma key_move_construct_ok:
  assumes raw: "length dst = 32" and src: "key_valid h0 src"
    and frame: "is_long_str src \<Longrightarrow> h (variable_buf src) = h0 (variable_buf src)"
  obtains k src' where "key_move False dst src h = Some (k, src', h)"
    "key_valid h k" "acquires k (release src h) h" "key_view h k = key_view h0 src"
    "key_valid h1 src'" "\<not> is_long_str src'"
    "key_view h2 src' = (if is_long_str src then Some [] else key_view h2 src)"
proof (cases "is_long_str src")
  case True
  let ?k = "set_flag (set_long_key_length (set_variable_buf dst (variable_buf src)) (long_key_length src))
    LONG_STRING_FLAG"
  let ?src = "set_flag (set_long_key_length (set_variable_buf src 0) 0) 0"
  have k: "length ?k = 32" "is_long_str ?k" "variable_buf ?k = variable_buf src"
      "long_key_length ?k = long_key_length src"
    using raw by (simp_all add: key_simps is_long_str_bit)
  have s: "length ?src = 32" "flag_byte ?src = 0"
    using src by (simp_all add: key_valid_def key_simps)
  have move: "key_move False dst src h = Some (?k, ?src, h)"
    using True by (simp add: key_move_def)
  show ?thesis
    using True k s src frame map_upd_triv [of h "variable_buf src", symmetric]
    by (intro that [OF move])
      (auto simp: key_valid_def acquires_def release_def key_view_def key_size_def is_long_str_def)
next
  case False
  have move: "key_move False dst src h = Some (src, src, h)"
    using False src raw
    by (simp add: key_move_def short_str_copy_unsafe_def write_at_all key_valid_def)
  show ?thesis
    using src False
    by (intro that [OF move]) (auto simp: key_valid_def acquires_def release_def key_view_def)
qed

lemma key_copy_assign:
  "free_if_long_str dst h = Some (dst', h') \<Longrightarrow> key_copy True a g dst src h = key_copy False a g dst' src h'"
  by (simp add: key_copy_def)

lemma key_move_assign:
  "free_if_long_str dst h = Some (dst', h') \<Longrightarrow> key_move True dst src h = key_move False dst' src h'"
  by (simp add: key_move_def)

section \<open>Programs over keys\<close>

text \<open>
  What the program does, on the strings alone. A moved-from key keeps its characters when they
  are inline and becomes empty when they were on the heap.
\<close>

definition moved_from :: "bytes \<Rightarrow> bytes" where
  "moved_from v = (if length v \<le> MAX_INLINE_LENGTH then v else [])"

fun abs_key_op :: "key_op \<Rightarrow> bytes list \<Rightarrow> bytes list" where
  "abs_key_op (Construct _ src _ _) vs = vs @ [src]"
| "abs_key_op (Copy_Construct _ i _ _) vs = vs @ [vs ! i]"
| "abs_key_op (Move_Construct _ i) vs = vs[i := moved_from (vs ! i)] @ [vs ! i]"
| "abs_key_op (Copy_Assign i j _ _) vs = vs[i := vs ! j]"
| "abs_key_op (Move_Assign i j) vs =
     (if i = j then vs[i := moved_from (vs ! i)] else vs[i := vs ! j, j := moved_from (vs ! j)])"
| "abs_key_op (Destroy i) vs = take i vs @ drop (Suc i) vs"

text \<open>
  What an operation needs: live objects at its positions, raw storage of the size of a key, and an
  allocator that answers with an address that is not null and not in use. An assignment may get
  back the block it has just freed.
\<close>

fun key_op_ok :: "key_op \<Rightarrow> key_obj list \<times> heap \<Rightarrow> bool" where
  "key_op_ok (Construct raw src a g) (ks, h) \<longleftrightarrow>
     length raw = 32 \<and> length src < 2 ^ 64 \<and> length g = length src \<and> a \<noteq> 0 \<and> h a = None"
| "key_op_ok (Copy_Construct raw i a g) (ks, h) \<longleftrightarrow>
     length raw = 32 \<and> i < length ks \<and> length g = key_size (ks ! i) \<and> a \<noteq> 0 \<and> h a = None"
| "key_op_ok (Move_Construct raw i) (ks, h) \<longleftrightarrow> length raw = 32 \<and> i < length ks"
| "key_op_ok (Copy_Assign i j a g) (ks, h) \<longleftrightarrow>
     i < length ks \<and> j < length ks \<and> length g = key_size (ks ! j) \<and> a \<noteq> 0 \<and> release (ks ! i) h a = None"
| "key_op_ok (Move_Assign i j) (ks, h) \<longleftrightarrow> i < length ks \<and> j < length ks"
| "key_op_ok (Destroy i) (ks, h) \<longleftrightarrow> i < length ks"

definition key_views :: "key_obj list \<times> heap \<Rightarrow> bytes option list" where
  "key_views s = map (key_view (snd s)) (fst s)"

lemma key_view_valid:
  assumes "key_valid h k"
  shows "\<exists>v. key_view h k = Some v \<and> (is_long_str k \<longleftrightarrow> \<not> length v \<le> MAX_INLINE_LENGTH)"
  using assms by (auto simp: key_valid_def key_view_def key_size_def MAX_INLINE_LENGTH_def)

lemma mset_split_nth: "i < length xs \<Longrightarrow> mset xs = add_mset (xs ! i) (mset (take i xs @ drop (Suc i) xs))"
  by (subst (1) id_take_nth_drop [of i xs]) simp_all

lemma mset_update_nth:
  "i < length xs \<Longrightarrow> mset (xs[i := x]) = add_mset x (mset (take i xs @ drop (Suc i) xs))"
  by (simp add: upd_conv_take_nth_drop)

lemma map_eq_remove:
  "(\<forall>x \<in># mset (take i xs @ drop (Suc i) xs). f x = g x) \<Longrightarrow>
     map f (take i xs @ drop (Suc i) xs) = map g (take i xs @ drop (Suc i) xs)"
  by simp

lemma map_eq_update:
  assumes "i < length xs" "\<forall>x \<in># mset (take i xs @ drop (Suc i) xs). f x = g x"
  shows "map f (xs[i := x]) = (map g xs)[i := f x]"
  using assms by (simp add: upd_conv_take_nth_drop take_map drop_map)

definition key_step_ok :: "key_op \<Rightarrow> key_obj list \<Rightarrow> heap \<Rightarrow> bytes list \<Rightarrow> bool" where
  "key_step_ok p ks h vs \<longleftrightarrow>
     (\<exists>ks' h'. exec_key_op p (ks, h) = Some (ks', h') \<and> keys_wf (mset ks') h'
        \<and> key_views (ks', h') = map Some (abs_key_op p vs))"

lemma views_nth:
  assumes "keys_wf (mset ks) h" "key_views (ks, h) = map Some vs" "i < length ks"
  shows "key_valid h (ks ! i)" "key_view h (ks ! i) = Some (vs ! i)" "length vs = length ks"
    "is_long_str (ks ! i) \<longleftrightarrow> \<not> length (vs ! i) \<le> MAX_INLINE_LENGTH"
proof -
  show valid: "key_valid h (ks ! i)"
    using assms by (simp add: keys_wf_def)
  have "length (key_views (ks, h)) = length (map Some vs)" "key_views (ks, h) ! i = map Some vs ! i"
    by (simp_all only: assms(2))
  then show "length vs = length ks" and view: "key_view h (ks ! i) = Some (vs ! i)"
    using assms(3) by (simp_all add: key_views_def)
  show "is_long_str (ks ! i) \<longleftrightarrow> \<not> length (vs ! i) \<le> MAX_INLINE_LENGTH"
    using key_view_valid [OF valid] view by auto
qed

lemma key_step_append:
  assumes wf: "keys_wf (mset ks) h" and views: "key_views (ks, h) = map Some vs"
    and new: "key_valid h' k" "acquires k h h'" "key_view h' k = Some v"
  shows "keys_wf (mset (ks @ [k])) h' \<and> key_views (ks @ [k], h') = map Some (vs @ [v])"
proof -
  have "map (key_view h') ks = map (key_view h) ks"
    using keys_wf_insert(2) [OF wf new(1,2)] by simp
  also have "\<dots> = map Some vs"
    using views by (simp add: key_views_def)
  finally show ?thesis
    using keys_wf_insert(1) [OF wf new(1,2)] new(3) by (simp add: key_views_def)
qed

lemma key_step_update:
  assumes wf: "keys_wf (mset ks) h" and views: "key_views (ks, h) = map Some vs" and i: "i < length ks"
    and new: "key_valid h' k" "acquires k (release (ks ! i) h) h'" "key_view h' k = Some v"
  shows "keys_wf (mset (ks[i := k])) h' \<and> key_views (ks[i := k], h') = map Some (vs[i := v])"
proof -
  let ?M = "mset (take i ks @ drop (Suc i) ks)"
  note rem = keys_wf_remove [OF wf [unfolded mset_split_nth [OF i]]]
  note ins = keys_wf_insert [OF rem(1) new(1,2)]
  have "\<forall>x \<in># ?M. key_view h' x = key_view h x"
    using rem(2) ins(2) by simp
  then have "map (key_view h') (ks[i := k]) = (map (key_view h) ks)[i := Some v]"
    using map_eq_update [OF i, of "key_view h'" "key_view h" k] new(3) by simp
  then show ?thesis
    using ins(1) views by (simp add: mset_update_nth [OF i] key_views_def map_update)
qed

lemma release_other:
  assumes wf: "keys_wf (mset ks) h" and ij: "i < length ks" "j < length ks" "i \<noteq> j"
    and long: "is_long_str (ks ! j)"
  shows "release (ks ! i) h (variable_buf (ks ! j)) = h (variable_buf (ks ! j))"
proof -
  have mem: "ks ! j \<in># mset (take i ks @ drop (Suc i) ks)"
  proof (cases "j < i")
    case True
    then show ?thesis using ij by (auto simp: in_set_conv_nth intro!: exI [of _ j])
  next
    case False
    then show ?thesis using ij by (auto simp: in_set_conv_nth intro!: exI [of _ "j - Suc i"])
  qed
  have "keys_wf (mset (take i ks @ drop (Suc i) ks)) (release (ks ! i) h)"
    using keys_wf_remove(1) wf mset_split_nth [OF ij(1)] by metis
  then have "key_valid (release (ks ! i) h) (ks ! j)"
    using mem by (simp only: keys_wf_def)
  then show ?thesis
    using long by (auto simp: key_valid_def release_def split: if_splits)
qed

lemma key_step_construct:
  assumes "keys_wf (mset ks) h" "key_views (ks, h) = map Some vs"
    and "key_op_ok (Construct raw src a g) (ks, h)"
  shows "key_step_ok (Construct raw src a g) ks h vs"
proof -
  obtain k h' where init: "key_init a g raw src h = (k, h')" by fastforce
  show ?thesis
    using key_init_ok [OF _ _ _ _ _ init] key_step_append [OF assms(1,2), of h' k src] assms(3) init
    by (simp add: key_step_ok_def)
qed

lemma key_step_copy_construct:
  assumes wf: "keys_wf (mset ks) h" "key_views (ks, h) = map Some vs"
    and pre: "key_op_ok (Copy_Construct raw i a g) (ks, h)"
  shows "key_step_ok (Copy_Construct raw i a g) ks h vs"
proof -
  have i: "i < length ks" using pre by simp
  note src = views_nth [OF wf i]
  obtain k h' where copy: "key_copy False a g raw (ks ! i) h = Some (k, h')"
    "key_valid h' k" "acquires k h h'" "key_view h' k = key_view h (ks ! i)"
    by (rule key_copy_construct_ok [of raw h "ks ! i" h a g]) (use pre src that in auto)
  show ?thesis
    using key_step_append [OF wf copy(2,3)] copy src(2) by (simp add: key_step_ok_def)
qed

lemma key_step_move_construct:
  assumes wf: "keys_wf (mset ks) h" "key_views (ks, h) = map Some vs"
    and pre: "key_op_ok (Move_Construct raw i) (ks, h)"
  shows "key_step_ok (Move_Construct raw i) ks h vs"
proof -
  have i: "i < length ks" using pre by simp
  note src = views_nth [OF wf i]
  let ?h = "release (ks ! i) h"
  obtain k s where move: "key_move False raw (ks ! i) h = Some (k, s, h)"
    "key_valid h k" "acquires k ?h h" "key_view h k = key_view h (ks ! i)"
    "key_valid ?h s" "\<not> is_long_str s"
    "key_view ?h s = (if is_long_str (ks ! i) then Some [] else key_view ?h (ks ! i))"
    by (rule key_move_construct_ok [of raw h "ks ! i" h ?h ?h]) (use pre src that in auto)
  have "key_view ?h s = Some (moved_from (vs ! i))"
    using move(7) src by (auto simp: moved_from_def release_def)
  then have "keys_wf (mset (ks[i := s])) ?h \<and> key_views (ks[i := s], ?h) = map Some (vs[i := moved_from (vs ! i)])"
    using move by (intro key_step_update [OF wf i]) (auto simp: acquires_def)
  then show ?thesis
    using key_step_append [OF _ _ move(2,3)] move src(2) by (simp add: key_step_ok_def)
qed

lemma key_step_copy_assign:
  assumes wf: "keys_wf (mset ks) h" "key_views (ks, h) = map Some vs"
    and pre: "key_op_ok (Copy_Assign i j a g) (ks, h)"
  shows "key_step_ok (Copy_Assign i j a g) ks h vs"
proof (cases "i = j")
  case True
  then show ?thesis using wf by (simp add: key_step_ok_def)
next
  case False
  have ij: "i < length ks" "j < length ks" using pre by simp_all
  note dst = views_nth [OF wf ij(1)] and src = views_nth [OF wf ij(2)]
  obtain d where d: "free_if_long_str (ks ! i) h = Some (d, release (ks ! i) h)" "length d = 32"
    by (rule free_if_long_str_ok [OF dst(1)]) (use that in auto)
  have frame: "is_long_str (ks ! j) \<Longrightarrow> release (ks ! i) h (variable_buf (ks ! j)) = h (variable_buf (ks ! j))"
    using release_other [OF wf(1) ij False] by simp
  obtain k h' where copy: "key_copy False a g d (ks ! j) (release (ks ! i) h) = Some (k, h')"
    "key_valid h' k" "acquires k (release (ks ! i) h) h'" "key_view h' k = key_view h (ks ! j)"
    by (rule key_copy_construct_ok [of d h "ks ! j" "release (ks ! i) h" a g])
      (use pre src d frame that in auto)
  show ?thesis
    using key_step_update [OF wf ij(1) copy(2,3)] copy src(2) key_copy_assign [OF d(1)] False
    by (simp add: key_step_ok_def)
qed

lemma list_update_move: "i \<noteq> j \<Longrightarrow> xs[i := x, j := y, i := z] = xs[i := z, j := y]"
  by (simp add: list_update_swap)

lemma key_step_move_assign:
  assumes wf: "keys_wf (mset ks) h" "key_views (ks, h) = map Some vs"
    and ij: "i < length ks" "j < length ks" "i \<noteq> j"
  shows "key_step_ok (Move_Assign i j) ks h vs"
proof -
  note dst = views_nth [OF wf ij(1)] and src = views_nth [OF wf ij(2)]
  let ?h = "release (ks ! i) h" and ?h1 = "release (ks ! j) (release (ks ! i) h)"
  obtain d where d: "free_if_long_str (ks ! i) h = Some (d, ?h)" "length d = 32"
      "\<not> is_long_str d" "key_valid ?h d"
    by (rule free_if_long_str_ok [OF dst(1), of ?h]) (use that in auto)
  have frame: "is_long_str (ks ! j) \<Longrightarrow> ?h (variable_buf (ks ! j)) = h (variable_buf (ks ! j))"
    using release_other [OF wf(1) ij] by simp
  obtain k s where move: "key_move False d (ks ! j) ?h = Some (k, s, ?h)"
    "key_valid ?h k" "acquires k ?h1 ?h" "key_view ?h k = key_view h (ks ! j)"
    "key_valid ?h1 s" "\<not> is_long_str s"
    "key_view ?h1 s = (if is_long_str (ks ! j) then Some [] else key_view ?h1 (ks ! j))"
    by (rule key_move_construct_ok [of d h "ks ! j" ?h ?h1 ?h1]) (use d src frame that in auto)
  obtain v where v: "key_view ?h d = Some v"
    using key_view_valid [OF d(4)] by blast
  have freed: "keys_wf (mset (ks[i := d])) ?h" "key_views (ks[i := d], ?h) = map Some (vs[i := v])"
    using key_step_update [OF wf ij(1) d(4) _ v] d(3) by (simp_all add: acquires_def)
  have "key_view ?h1 s = Some (moved_from (vs ! j))"
    using move(7) src by (auto simp: moved_from_def release_def key_view_def)
  then have taken: "keys_wf (mset (ks[i := d, j := s])) ?h1"
      "key_views (ks[i := d, j := s], ?h1) = map Some (vs[i := v, j := moved_from (vs ! j)])"
    using key_step_update [OF freed, of j ?h1 s] move ij by (simp_all add: acquires_def)
  have rel: "release d ?h1 = ?h1"
    using d(3) by (simp add: release_def)
  have "keys_wf (mset (ks[i := d, j := s, i := k])) ?h
      \<and> key_views (ks[i := d, j := s, i := k], ?h) = map Some (vs[i := v, j := moved_from (vs ! j), i := vs ! j])"
    using key_step_update [OF taken, of i ?h k "vs ! j"] move ij src(2) by (simp add: rel)
  then show ?thesis
    using move key_move_assign [OF d(1)] ij(3) by (simp add: key_step_ok_def list_update_move)
qed

lemma key_step_move_self:
  assumes wf: "keys_wf (mset ks) h" "key_views (ks, h) = map Some vs" and i: "i < length ks"
  shows "key_step_ok (Move_Assign i i) ks h vs"
proof -
  note dst = views_nth [OF wf i]
  let ?h = "release (ks ! i) h"
  obtain d where d: "free_if_long_str (ks ! i) h = Some (d, ?h)" "\<not> is_long_str d" "key_valid ?h d"
      "is_long_str (ks ! i) \<Longrightarrow> key_view ?h d = Some []" "\<not> is_long_str (ks ! i) \<Longrightarrow> d = ks ! i"
    by (rule free_if_long_str_ok [OF dst(1), of ?h]) (use that in auto)
  have move: "key_move False d d ?h = Some (d, d, ?h)"
    using d(2) by (simp add: key_move_def short_str_copy_unsafe_def write_at_all)
  have "key_view ?h d = Some (moved_from (vs ! i))"
    using d(4,5) dst by (auto simp: moved_from_def release_def key_view_def)
  then show ?thesis
    using key_step_update [OF wf i d(3)] d(2) move d(1) by (simp add: key_step_ok_def acquires_def)
qed

lemma key_step_destroy:
  assumes wf: "keys_wf (mset ks) h" "key_views (ks, h) = map Some vs" and i: "i < length ks"
  shows "key_step_ok (Destroy i) ks h vs"
proof -
  note dst = views_nth [OF wf i]
  let ?ks = "take i ks @ drop (Suc i) ks" and ?h = "release (ks ! i) h"
  obtain d where d: "free_if_long_str (ks ! i) h = Some (d, ?h)"
    by (rule free_if_long_str_ok [OF dst(1)]) (use that in auto)
  note rem = keys_wf_remove [OF wf(1) [unfolded mset_split_nth [OF i]]]
  have "map (key_view ?h) ?ks = map (key_view h) ?ks"
    using rem(2) by (rule map_eq_remove)
  also have "\<dots> = take i (map Some vs) @ drop (Suc i) (map Some vs)"
    using wf(2) by (simp add: key_views_def take_map [symmetric] drop_map [symmetric])
  finally show ?thesis
    using rem(1) d by (simp add: key_step_ok_def key_views_def take_map drop_map)
qed

text \<open>
  C13: the short-string optimisation is invisible and memory safe. In a program over keys in which
  every heap block has exactly one owner, each construction, copy, move, assignment (self
  assignment included) and destruction runs without freeing or reading an unallocated block,
  leaves every heap block with exactly one owner, so nothing leaks and nothing is freed twice, and
  has on the represented strings the effect of the plain string operation.
\<close>

theorem key_operations_safe:
  assumes "keys_wf (mset ks) h" "key_views (ks, h) = map Some vs" "key_op_ok p (ks, h)"
  shows "\<exists>ks' h'. exec_key_op p (ks, h) = Some (ks', h') \<and> keys_wf (mset ks') h'
    \<and> key_views (ks', h') = map Some (abs_key_op p vs)"
proof -
  have "key_step_ok p ks h vs"
  proof (cases p)
    case (Move_Assign i j)
    then show ?thesis
      using assms key_step_move_assign key_step_move_self by (cases "i = j") auto
  qed (use assms key_step_construct key_step_copy_construct key_step_move_construct
      key_step_copy_assign key_step_destroy in auto)
  then show ?thesis by (simp only: key_step_ok_def)
qed

theorem key_operations_safe_witness:
  "\<exists>ks' h'. exec_key_op (Construct key_default (replicate 40 7) 1 (replicate 40 0)) ([], Map.empty)
      = Some (ks', h') \<and> keys_wf (mset ks') h' \<and> key_views (ks', h') = map Some [replicate 40 7]"
proof -
  have "keys_wf (mset []) Map.empty" "key_views ([], Map.empty) = map Some []"
      "key_op_ok (Construct key_default (replicate 40 7) 1 (replicate 40 0)) ([], Map.empty)"
    by (simp_all add: keys_wf_def key_views_def key_default_def)
  from key_operations_safe [OF this] show ?thesis
    by simp
qed

section \<open>Serialised keys\<close>

definition MAX_KEY_LEN :: nat where
  "MAX_KEY_LEN = 256"

definition MIN_KEY_LEN :: nat where
  "MIN_KEY_LEN = 1"

definition key_len_bytes :: nat where
  "key_len_bytes = 1"

definition encode_key_size :: "nat \<Rightarrow> byte" where
  "encode_key_size n = of_nat n - 1"

definition decode_key_size :: "byte \<Rightarrow> nat" where
  "decode_key_size b = unat b + 1"

definition serialized_key_total_length :: "bytes \<Rightarrow> nat" where
  "serialized_key_total_length k = length k + key_len_bytes"

definition write_key_unsafe :: "bytes \<Rightarrow> nat \<Rightarrow> bytes \<Rightarrow> bytes" where
  "write_key_unsafe mem dst k = write_at (write_at mem dst [encode_key_size (length k)]) (dst + 1) k"

text \<open>
  \<open>read_key_unsafe\<close> on strings, with a read beyond the source as an error, and on key objects as
  the code composes it: an object of the right length whose characters are then overwritten.
\<close>

definition read_key_unsafe :: "bytes \<Rightarrow> bytes expected" where
  "read_key_unsafe src =
     (case src of
        [] \<Rightarrow> Inl (generic_error ''out of range read'')
      | b # rest \<Rightarrow>
          (let key_length = decode_key_size b
           in if key_length \<le> length rest then Inr (take key_length rest)
              else Inl (generic_error ''out of range read'')))"

definition overwrite_data :: "bytes \<Rightarrow> key_obj \<times> heap \<Rightarrow> key_obj \<times> heap" where
  "overwrite_data src s =
     (case s of (k, h) \<Rightarrow>
        (if is_long_str k
         then (k, h(variable_buf k := map_option (\<lambda>bs. write_at bs 0 src) (h (variable_buf k))))
         else (write_at k 0 src, h)))"

definition read_key_object :: "u64 \<Rightarrow> bytes \<Rightarrow> key_obj \<Rightarrow> bytes \<Rightarrow> heap \<Rightarrow> (key_obj \<times> heap) expected" where
  "read_key_object a g raw src h =
     (case read_key_unsafe src of
        Inl e \<Rightarrow> Inl e
      | Inr chars \<Rightarrow> Inr (overwrite_data chars (make_with_length a g raw (length chars) h)))"

definition hex_group :: "nat \<Rightarrow> nat \<Rightarrow> byte \<Rightarrow> string" where
  "hex_group n i b = hex2 b @ (if i < n - 1 \<and> i mod 2 = 1 then ''-'' else [])"

definition to_hex_string :: "bytes \<Rightarrow> string" where
  "to_hex_string k =
     (if k = [] then [] else concat (map2 (hex_group (length k)) [0..<length k] k))"

lemma decode_encode_key_size: "1 \<le> n \<Longrightarrow> n \<le> 256 \<Longrightarrow> decode_key_size (encode_key_size n) = n"
  by (cases n) (simp_all add: encode_key_size_def decode_key_size_def unat_of_nat)

lemma write_key_unsafe_append:
  "dst < length mem \<Longrightarrow> write_key_unsafe mem dst k = write_at mem dst (encode_key_size (length k) # k)"
  by (simp add: write_key_unsafe_def write_at_def add.commute)

lemma read_key_unsafe_written:
  "1 \<le> length k \<Longrightarrow> length k \<le> 256 \<Longrightarrow> read_key_unsafe (encode_key_size (length k) # k @ rest) = Inr k"
  by (simp add: read_key_unsafe_def decode_encode_key_size)

lemma read_key_object_init:
  assumes "length raw = 32" "length g = length src"
  shows "overwrite_data src (make_with_length a g raw (length src) h) = key_init a g raw src h"
  using assms long_key_set [OF assms(1), of a "of_nat (length src)"]
    short_key_set [OF assms(1), of "length src"]
  by (auto simp: overwrite_data_def make_with_length_def key_init_def MAX_INLINE_LENGTH_def)

lemma drop_write_at: "off \<le> length mem \<Longrightarrow> drop off (write_at mem off bs) = bs @ drop (off + length bs) mem"
  by (simp add: write_at_def)

text \<open>
  C19: a key of 1 to 256 bytes written into a buffer with room for it stays inside the buffer,
  leaves the bytes before and after it alone, and is read back as a valid key object with the same
  characters.
\<close>

theorem read_key_write_key:
  assumes k: "MIN_KEY_LEN \<le> length k" "length k \<le> MAX_KEY_LEN"
    and room: "dst + serialized_key_total_length k \<le> length mem"
    and alloc: "length raw = 32" "a \<noteq> 0" "h a = None" "length g = length k"
  shows "length (write_key_unsafe mem dst k) = length mem
    \<and> take dst (write_key_unsafe mem dst k) = take dst mem
    \<and> drop (dst + serialized_key_total_length k) (write_key_unsafe mem dst k)
        = drop (dst + serialized_key_total_length k) mem
    \<and> (\<exists>obj h'. read_key_object a g raw (drop dst (write_key_unsafe mem dst k)) h = Inr (obj, h')
         \<and> key_valid h' obj \<and> key_view h' obj = Some k)"
proof -
  let ?m = "write_key_unsafe mem dst k" and ?img = "encode_key_size (length k) # k"
  have m: "?m = write_at mem dst ?img" and fits: "dst + length ?img \<le> length mem"
    using room by (simp_all add: write_key_unsafe_append serialized_key_total_length_def key_len_bytes_def)
  have "drop (dst + length ?img) ?m = drop (dst + length ?img) mem"
    using fits by (simp add: m write_at_def)
  moreover have "read_key_unsafe (drop dst ?m) = Inr k"
    using read_key_unsafe_written [of k] k fits
    by (simp add: m drop_write_at MIN_KEY_LEN_def MAX_KEY_LEN_def)
  moreover obtain obj h' where "key_init a g raw k h = (obj, h')" by fastforce
  moreover from this have "key_valid h' obj \<and> key_view h' obj = Some k"
    using key_init_ok [of raw k a h g obj h'] alloc k(2) by (simp add: MAX_KEY_LEN_def)
  ultimately show ?thesis
    using fits read_key_object_init [OF alloc(1,4)]
    by (simp add: read_key_object_def m mem_simps serialized_key_total_length_def key_len_bytes_def)
qed

theorem read_key_write_key_witness:
  "\<exists>obj h'. read_key_object 1 [0, 0] key_default (drop 1 (write_key_unsafe [0, 0, 0, 0, 9] 1 [5, 6])) Map.empty
      = Inr (obj, h') \<and> key_valid h' obj \<and> key_view h' obj = Some [5, 6]"
  using read_key_write_key [of "[5, 6]" 1 "[0, 0, 0, 0, 9]" key_default 1 Map.empty "[0, 0]"]
  by (simp add: MIN_KEY_LEN_def MAX_KEY_LEN_def serialized_key_total_length_def key_len_bytes_def key_default_def)

text \<open>The length byte of an empty key reads back as 256.\<close>

lemma empty_key_encoding: "decode_key_size (encode_key_size 0) = 256"
  by (simp add: encode_key_size_def decode_key_size_def unsigned_minus_1_eq_mask mask_eq_exp_minus_1)

end
