(* ===== verification/Block_Encoder.thy ===== *)
theory Block_Encoder
  imports Varint Keys
begin

text \<open>
  The block encoder of \<^verbatim>\<open>src/db/block.h\<close> and \<^verbatim>\<open>src/db/block.cc\<close>. A block holds key-value pairs
  with prefix compression: every \<open>restart_group_size\<close>-th key is stored in full, the others as the
  length of the prefix they share with the key before them and the rest. At its end a block has the
  offsets of the full keys, their number and a footer with a checksum.

  Pointers into the buffer that is being written are offsets into a list of bytes that every
  operation takes and returns. The hash function of the checksum (the third-party \<^verbatim>\<open>xxh64\<close>) is
  the argument \<open>xxh\<close>. The second half of the theory defines the contents of a block as a function
  of the pairs alone and shows that the encoder writes them.
\<close>

section \<open>The encoder\<close>

definition BLOCK_CHECKSUM_SEED :: u64 where
  "BLOCK_CHECKSUM_SEED = 0x9E3779B97F4A7C15"

record block_config =
  block_size_in_bytes :: nat
  restart_group_size :: nat

definition default_block_config :: block_config where
  "default_block_config = \<lparr>block_size_in_bytes = PAGE_SIZE_IN_BYTES, restart_group_size = 4\<rparr>"

record block_footer =
  kv_count :: u16
  block_type :: u16
  checksum :: u32

definition empty_footer :: block_footer where
  "empty_footer = \<lparr>kv_count = 0, block_type = 0, checksum = 0\<rparr>"

definition sizeof_block_footer :: nat where
  "sizeof_block_footer = 8"

record block_encoder =
  e_cfg :: block_config
  e_base :: nat
  e_head :: nat
  e_last_key :: bytes
  e_offsets :: "u16 list"
  e_bytes_written :: nat
  e_kvs_count :: u32
  e_restart_keys_written :: u32
  e_committed :: bool
  e_footer :: block_footer

type_synonym enc_state = "block_encoder \<times> bytes"
type_synonym hash64 = "bytes \<Rightarrow> u64 \<Rightarrow> u64"

definition make_block_encoder :: "nat \<Rightarrow> block_config \<Rightarrow> block_encoder" where
  "make_block_encoder base cfg =
     \<lparr>e_cfg = cfg, e_base = base, e_head = base, e_last_key = [], e_offsets = [],
      e_bytes_written = sizeof_block_footer + 2, e_kvs_count = 0, e_restart_keys_written = 0,
      e_committed = False, e_footer = empty_footer\<rparr>"

definition enc_reset :: "nat \<Rightarrow> block_encoder \<Rightarrow> block_encoder" where
  "enc_reset new_base e =
     e\<lparr>e_base := new_base, e_head := new_base, e_bytes_written := 8 + 2, e_last_key := [],
       e_offsets := [], e_kvs_count := 0, e_restart_keys_written := 0, e_footer := empty_footer,
       e_committed := False\<rparr>"

text \<open>The overloads of \<^verbatim>\<open>_write_unsafe\<close>: copy the bytes to the head and advance it.\<close>

definition write_unsafe :: "bytes \<Rightarrow> enc_state \<Rightarrow> enc_state" where
  "write_unsafe v s = (case s of (e, mem) \<Rightarrow>
     (e\<lparr>e_head := e_head e + length v\<rparr>, write_at mem (e_head e) v))"

definition write_as_varint_unsafe :: "u64 \<Rightarrow> enc_state \<Rightarrow> enc_state" where
  "write_as_varint_unsafe v s = write_unsafe (unsafe_varint v) s"

definition block_checksum :: "hash64 \<Rightarrow> bytes \<Rightarrow> nat \<Rightarrow> nat \<Rightarrow> u32" where
  "block_checksum xxh mem start n =
     ucast (xxh (read_at mem start n) BLOCK_CHECKSUM_SEED AND 0xFFFFFFFF)"

fun compute_shared_prefix_length :: "bytes \<Rightarrow> bytes \<Rightarrow> nat" where
  "compute_shared_prefix_length (p # prev) (c # cur) =
     (if c = p then Suc (compute_shared_prefix_length prev cur) else 0)"
| "compute_shared_prefix_length _ _ = 0"

definition offsets_image :: "u16 list \<Rightarrow> bytes" where
  "offsets_image offs = concat (map (le_image 2) offs)"

definition footer_head_image :: "block_footer \<Rightarrow> bytes" where
  "footer_head_image f = le_image 2 (kv_count f) @ le_image 2 (block_type f)"

definition enc_commit :: "hash64 \<Rightarrow> enc_state \<Rightarrow> enc_state" where
  "enc_commit xxh s = (case s of (e, mem) \<Rightarrow>
     let end_ptr = e_base e + block_size_in_bytes (e_cfg e);
         e1 = e\<lparr>e_head := end_ptr - length (e_offsets e) * 2 - 2 - sizeof_block_footer\<rparr>;
         s1 = write_unsafe (offsets_image (e_offsets e)) (e1, mem);
         s2 = write_unsafe (le_image 2 (of_nat (length (e_offsets e)) :: u16)) s1;
         footer = (e_footer e)\<lparr>kv_count := ucast (e_kvs_count e)\<rparr>;
         (e3, mem3) = write_unsafe (footer_head_image footer) s2;
         sum = block_checksum xxh mem3 (e_base e) (block_size_in_bytes (e_cfg e) - 4);
         (e4, mem4) = write_unsafe (le_image 4 sum) (e3, mem3)
     in (e4\<lparr>e_footer := footer, e_committed := True\<rparr>, mem4))"

definition push_as_restart_key :: "hash64 \<Rightarrow> bytes \<Rightarrow> bytes \<Rightarrow> enc_state \<Rightarrow> status \<times> enc_state" where
  "push_as_restart_key xxh key v s = (case s of (e, mem) \<Rightarrow>
     let space_needed = 1 + length key + varint_length (of_nat (length v)) + length v
     in if e_bytes_written e + space_needed + 2 > block_size_in_bytes (e_cfg e)
        then (Inl (Error [] BUFFER_FULL), enc_commit xxh s)
        else
          let e1 = e\<lparr>e_last_key := key, e_restart_keys_written := e_restart_keys_written e + 1,
                     e_kvs_count := e_kvs_count e + 1,
                     e_bytes_written := e_bytes_written e + (space_needed + 2),
                     e_offsets := e_offsets e @ [of_nat (e_head e - e_base e)]\<rparr>;
              s1 = write_unsafe [encode_key_size (length key)] (e1, mem);
              s2 = write_unsafe key s1;
              s3 = write_as_varint_unsafe (of_nat (length v)) s2
          in (ok, write_unsafe v s3))"

definition push_as_delta_key :: "hash64 \<Rightarrow> bytes \<Rightarrow> bytes \<Rightarrow> enc_state \<Rightarrow> status \<times> enc_state" where
  "push_as_delta_key xxh key v s = (case s of (e, mem) \<Rightarrow>
     let shared = compute_shared_prefix_length (e_last_key e) key;
         space_needed = 1 + 1 + (length key - shared) + varint_length (of_nat (length v)) + length v
     in if e_bytes_written e + space_needed > block_size_in_bytes (e_cfg e)
        then (Inl (Error [] BUFFER_FULL), enc_commit xxh s)
        else
          let e1 = e\<lparr>e_last_key := key, e_kvs_count := e_kvs_count e + 1,
                     e_bytes_written := e_bytes_written e + space_needed\<rparr>;
              s1 = write_unsafe [of_nat shared] (e1, mem);
              s2 = write_unsafe [of_nat (length key - shared)] s1;
              s3 = write_unsafe (drop shared key) s2;
              s4 = write_as_varint_unsafe (of_nat (length v)) s3
          in (ok, write_unsafe v s4))"

definition enc_push :: "hash64 \<Rightarrow> bytes \<Rightarrow> bytes \<Rightarrow> enc_state \<Rightarrow> status \<times> enc_state" where
  "enc_push xxh key v s =
     (if length key > MAX_KEY_LEN \<or> length key = 0 then (Inl (generic_error ''invalid key size''), s)
      else if ucast (e_kvs_count (fst s)) AND (of_nat (restart_group_size (e_cfg (fst s))) - 1 :: u64) \<noteq> 0
      then push_as_delta_key xxh key v s
      else push_as_restart_key xxh key v s)"

section \<open>The contents of a block\<close>

text \<open>
  The image of one pair, of a list of pairs (\<open>n\<close> pairs into the block, after the key \<open>prev\<close>), and
  the offsets of the restart keys.
\<close>

definition value_image :: "bytes \<Rightarrow> bytes" where
  "value_image v = unsafe_varint (of_nat (length v)) @ v"

definition restart_image :: "bytes \<Rightarrow> bytes \<Rightarrow> bytes" where
  "restart_image key v = encode_key_size (length key) # key @ value_image v"

definition delta_image :: "bytes \<Rightarrow> bytes \<Rightarrow> bytes \<Rightarrow> bytes" where
  "delta_image prev key v =
     (let shared = compute_shared_prefix_length prev key
      in of_nat shared # of_nat (length key - shared) # drop shared key @ value_image v)"

definition entry_image :: "nat \<Rightarrow> nat \<Rightarrow> bytes \<Rightarrow> bytes \<times> bytes \<Rightarrow> bytes" where
  "entry_image gs n prev kv =
     (if n mod gs = 0 then restart_image (fst kv) (snd kv) else delta_image prev (fst kv) (snd kv))"

fun entries_image :: "nat \<Rightarrow> nat \<Rightarrow> bytes \<Rightarrow> (bytes \<times> bytes) list \<Rightarrow> bytes" where
  "entries_image gs n prev [] = []"
| "entries_image gs n prev (kv # kvs) =
     entry_image gs n prev kv @ entries_image gs (Suc n) (fst kv) kvs"

fun restart_offsets :: "nat \<Rightarrow> nat \<Rightarrow> bytes \<Rightarrow> nat \<Rightarrow> (bytes \<times> bytes) list \<Rightarrow> nat list" where
  "restart_offsets gs n prev pos [] = []"
| "restart_offsets gs n prev pos (kv # kvs) =
     (if n mod gs = 0 then [pos] else [])
     @ restart_offsets gs (Suc n) (fst kv) (pos + length (entry_image gs n prev kv)) kvs"

definition last_key_of :: "bytes \<Rightarrow> (bytes \<times> bytes) list \<Rightarrow> bytes" where
  "last_key_of prev kvs = (if kvs = [] then prev else fst (last kvs))"

lemma last_key_of_simps [simp]:
  "last_key_of prev [] = prev" "last_key_of prev (kvs @ [kv]) = fst kv"
  "last_key_of prev (kv # kvs) = last_key_of (fst kv) kvs"
  by (simp_all add: last_key_of_def)

lemma entries_image_append:
  "entries_image gs n prev (xs @ ys) =
     entries_image gs n prev xs @ entries_image gs (n + length xs) (last_key_of prev xs) ys"
  by (induction xs arbitrary: n prev) simp_all

lemma restart_offsets_append:
  "restart_offsets gs n prev pos (xs @ ys) =
     restart_offsets gs n prev pos xs
     @ restart_offsets gs (n + length xs) (last_key_of prev xs)
         (pos + length (entries_image gs n prev xs)) ys"
  by (induction xs arbitrary: n prev pos) (simp_all add: add.assoc)

text \<open>The trailer of a block: offsets, their number, the footer without and with its checksum.\<close>

definition trailer_image :: "nat list \<Rightarrow> nat \<Rightarrow> bytes" where
  "trailer_image offs n =
     offsets_image (map of_nat offs) @ le_image 2 (of_nat (length offs) :: u16)
     @ le_image 2 (of_nat n :: u16) @ le_image 2 (0 :: u16)"

abbreviation block_entries_image :: "block_config \<Rightarrow> (bytes \<times> bytes) list \<Rightarrow> bytes" where
  "block_entries_image cfg kvs \<equiv> entries_image (restart_group_size cfg) 0 [] kvs"

abbreviation block_restart_offsets :: "block_config \<Rightarrow> (bytes \<times> bytes) list \<Rightarrow> nat list" where
  "block_restart_offsets cfg kvs \<equiv> restart_offsets (restart_group_size cfg) 0 [] 0 kvs"

definition block_space :: "block_config \<Rightarrow> (bytes \<times> bytes) list \<Rightarrow> nat" where
  "block_space cfg kvs =
     10 + length (block_entries_image cfg kvs) + 2 * length (block_restart_offsets cfg kvs)"

text \<open>\<open>holds_block xxh cfg blk kvs\<close>: the bytes \<open>blk\<close> are a committed block with the pairs \<open>kvs\<close>.\<close>

definition holds_block :: "hash64 \<Rightarrow> block_config \<Rightarrow> bytes \<Rightarrow> (bytes \<times> bytes) list \<Rightarrow> bool" where
  "holds_block xxh cfg blk kvs \<longleftrightarrow>
     length blk = block_size_in_bytes cfg \<and> block_space cfg kvs \<le> block_size_in_bytes cfg
     \<and> take (length (block_entries_image cfg kvs)) blk = block_entries_image cfg kvs
     \<and> drop (block_size_in_bytes cfg - 10 - 2 * length (block_restart_offsets cfg kvs)) blk
         = trailer_image (block_restart_offsets cfg kvs) (length kvs)
           @ le_image 4 (block_checksum xxh blk 0 (block_size_in_bytes cfg - 4))"

text \<open>
  The configurations for which the format works: the group size is a power of two, and offsets fit
  in 16 bits.
\<close>

definition config_ok :: "block_config \<Rightarrow> bool" where
  "config_ok cfg \<longleftrightarrow> 10 \<le> block_size_in_bytes cfg \<and> block_size_in_bytes cfg \<le> 2 ^ 16
     \<and> restart_group_size cfg \<in> (\<lambda>g. 2 ^ g) ` {..<32}"

text \<open>What the encoder's fields hold after pushing the pairs \<open>kvs\<close> into the block at \<open>e_base\<close>.\<close>

definition encoder_inv :: "(bytes \<times> bytes) list \<Rightarrow> enc_state \<Rightarrow> bool" where
  "encoder_inv kvs s = (case s of (e, mem) \<Rightarrow>
     config_ok (e_cfg e)
     \<and> e_base e + block_size_in_bytes (e_cfg e) \<le> length mem
     \<and> e_head e = e_base e + length (block_entries_image (e_cfg e) kvs)
     \<and> read_at mem (e_base e) (length (block_entries_image (e_cfg e) kvs)) = block_entries_image (e_cfg e) kvs
     \<and> e_bytes_written e = block_space (e_cfg e) kvs
     \<and> block_space (e_cfg e) kvs \<le> block_size_in_bytes (e_cfg e)
     \<and> e_offsets e = map of_nat (block_restart_offsets (e_cfg e) kvs)
     \<and> e_kvs_count e = of_nat (length kvs)
     \<and> e_restart_keys_written e = of_nat (length (block_restart_offsets (e_cfg e) kvs))
     \<and> e_last_key e = last_key_of [] kvs
     \<and> \<not> e_committed e \<and> e_footer e = empty_footer)"

section \<open>The encoder writes the contents\<close>

lemma length_unsafe_varint_pos: "0 < length (unsafe_varint v)"
  by (subst unsafe_varint.simps) simp

lemma length_entry_image: "2 \<le> length (entry_image gs n prev kv)"
  using length_unsafe_varint_pos [of "of_nat (length (snd kv))"]
  by (auto simp: entry_image_def restart_image_def delta_image_def value_image_def Let_def
      simp del: length_greater_0_conv)

lemma length_entries_image: "2 * length kvs \<le> length (entries_image gs n prev kvs)"
proof (induction kvs arbitrary: n prev)
  case (Cons kv kvs)
  show ?case
    using Cons.IH [of "Suc n" "fst kv"] length_entry_image [of gs n prev kv] by simp
qed simp

lemma length_restart_offsets: "length (restart_offsets gs n prev pos kvs) \<le> length kvs"
  by (induction kvs arbitrary: n prev pos) (auto intro: le_SucI)

lemma space_bounds:
  assumes "block_space cfg kvs \<le> block_size_in_bytes cfg" "config_ok cfg"
  shows "length kvs < 2 ^ 15" "length (block_restart_offsets cfg kvs) < 2 ^ 15"
    "length (block_entries_image cfg kvs) < 2 ^ 16"
  using assms length_entries_image [of kvs "restart_group_size cfg" 0 "[]"]
    length_restart_offsets [of "restart_group_size cfg" 0 "[]" 0 kvs]
  by (simp_all add: block_space_def config_ok_def)

lemma block_space_append:
  "block_space cfg (kvs @ [kv]) = block_space cfg kvs
     + length (entry_image (restart_group_size cfg) (length kvs) (last_key_of [] kvs) kv)
     + (if length kvs mod restart_group_size cfg = 0 then 2 else 0)"
  by (simp add: block_space_def entries_image_append restart_offsets_append)

lemma restart_mask:
  assumes "gs \<in> (\<lambda>g. 2 ^ g) ` {..<32}" "n < 2 ^ 32"
  shows "ucast (of_nat n :: u32) AND (of_nat gs - 1 :: u64) = 0 \<longleftrightarrow> n mod gs = 0"
proof -
  obtain g where g: "gs = 2 ^ g" "g < 32" using assms(1) by auto
  have "of_nat gs - 1 = (mask g :: u64)"
    by (simp add: g mask_eq_decr_exp)
  then have "ucast (of_nat n :: u32) AND (of_nat gs - 1 :: u64) = take_bit g (ucast (of_nat n :: u32))"
    by (simp add: take_bit_eq_mask)
  moreover have "unat (ucast (of_nat n :: u32) :: u64) = n"
    using assms(2) by (simp add: unsigned_ucast_eq unat_of_nat take_bit_nat_eq_self)
  then have "unat (take_bit g (ucast (of_nat n :: u32) :: u64)) = take_bit g n"
    by (simp only: unsigned_take_bit_eq)
  then have "unat (take_bit g (ucast (of_nat n :: u32) :: u64)) = n mod gs"
    by (simp add: g take_bit_eq_mod)
  ultimately show ?thesis
    by (simp add: word_unat_eq_iff)
qed

lemma write_unsafe_append:
  "e_head e \<le> length mem \<Longrightarrow> write_unsafe b (write_unsafe a (e, mem)) = write_unsafe (a @ b) (e, mem)"
  by (simp add: write_unsafe_def write_at_append add.assoc)

lemma push_as_restart_key_eq:
  assumes "e_head e \<le> length mem"
  shows "push_as_restart_key xxh key v (e, mem) =
    (if e_bytes_written e + length (restart_image key v) + 2 > block_size_in_bytes (e_cfg e)
     then (Inl (Error [] BUFFER_FULL), enc_commit xxh (e, mem))
     else (ok, write_unsafe (restart_image key v)
       (e\<lparr>e_last_key := key, e_restart_keys_written := e_restart_keys_written e + 1,
          e_kvs_count := e_kvs_count e + 1,
          e_bytes_written := e_bytes_written e + (length (restart_image key v) + 2),
          e_offsets := e_offsets e @ [of_nat (e_head e - e_base e)]\<rparr>, mem)))"
  using assms
  by (simp add: push_as_restart_key_def write_as_varint_unsafe_def write_unsafe_append
      restart_image_def value_image_def length_unsafe_varint add.assoc)

lemma push_as_delta_key_eq:
  assumes "e_head e \<le> length mem"
  shows "push_as_delta_key xxh key v (e, mem) =
    (if e_bytes_written e + length (delta_image (e_last_key e) key v) > block_size_in_bytes (e_cfg e)
     then (Inl (Error [] BUFFER_FULL), enc_commit xxh (e, mem))
     else (ok, write_unsafe (delta_image (e_last_key e) key v)
       (e\<lparr>e_last_key := key, e_kvs_count := e_kvs_count e + 1,
          e_bytes_written := e_bytes_written e + length (delta_image (e_last_key e) key v)\<rparr>, mem)))"
  using assms
  by (simp add: push_as_delta_key_def write_as_varint_unsafe_def write_unsafe_append
      delta_image_def value_image_def length_unsafe_varint Let_def add.assoc)

lemma config_ok_default [simp]: "config_ok default_block_config"
  by (auto simp: config_ok_def default_block_config_def PAGE_SIZE_IN_BYTES_def intro: image_eqI [of _ _ 2])

lemma encoder_inv_new:
  assumes "config_ok cfg" "base + block_size_in_bytes cfg \<le> length mem"
  shows "encoder_inv [] (make_block_encoder base cfg, mem)"
  using assms
  by (simp add: encoder_inv_def make_block_encoder_def block_space_def sizeof_block_footer_def
      config_ok_def read_at_def)

lemma enc_reset_eq: "enc_reset base e = make_block_encoder base (e_cfg e)"
  by (cases e) (simp add: enc_reset_def make_block_encoder_def sizeof_block_footer_def)

lemma encoder_inv_write:
  assumes inv: "encoder_inv kvs (e, mem)"
    and fits: "block_space (e_cfg e) (kvs @ [kv]) \<le> block_size_in_bytes (e_cfg e)"
  defines "img \<equiv> entry_image (restart_group_size (e_cfg e)) (length kvs) (last_key_of [] kvs) kv"
  shows "read_at (write_at mem (e_head e) img) (e_base e) (length (block_entries_image (e_cfg e) (kvs @ [kv])))
      = block_entries_image (e_cfg e) (kvs @ [kv])"
    "same_outside (e_base e) (e_base e + block_size_in_bytes (e_cfg e)) mem (write_at mem (e_head e) img)"
    "e_head e + length img = e_base e + length (block_entries_image (e_cfg e) (kvs @ [kv]))"
    "e_head e \<le> length mem"
proof -
  let ?b = "e_base e" and ?im = "block_entries_image (e_cfg e) kvs"
  have head: "e_head e = ?b + length ?im" and im: "read_at mem ?b (length ?im) = ?im"
    and mem: "?b + block_size_in_bytes (e_cfg e) \<le> length mem"
    using inv by (simp_all add: encoder_inv_def)
  have app: "block_entries_image (e_cfg e) (kvs @ [kv]) = ?im @ img"
    by (simp add: entries_image_append img_def)
  have room: "e_head e + length img \<le> ?b + block_size_in_bytes (e_cfg e)"
    using fits by (simp add: head block_space_def app)
  show "e_head e \<le> length mem" using room mem by simp
  show "e_head e + length img = ?b + length (block_entries_image (e_cfg e) (kvs @ [kv]))"
    by (simp add: head app)
  show "same_outside ?b (?b + block_size_in_bytes (e_cfg e)) mem (write_at mem (e_head e) img)"
    using room mem by (intro same_outside_write_at) (simp_all add: head)
  show "read_at (write_at mem (e_head e) img) ?b (length (block_entries_image (e_cfg e) (kvs @ [kv])))
      = block_entries_image (e_cfg e) (kvs @ [kv])"
    using im room mem head by (simp add: app read_at_append mem_simps)
qed

lemma push_position:
  assumes "encoder_inv kvs (e, mem)"
  shows "ucast (e_kvs_count e) AND (of_nat (restart_group_size (e_cfg e)) - 1 :: u64) = 0
    \<longleftrightarrow> length kvs mod restart_group_size (e_cfg e) = 0"
proof -
  have "restart_group_size (e_cfg e) \<in> (\<lambda>g. 2 ^ g) ` {..<32}" "length kvs < 2 ^ 32"
    using assms space_bounds(1) [of "e_cfg e" kvs] by (auto simp: encoder_inv_def config_ok_def)
  then show ?thesis
    using restart_mask assms by (simp add: encoder_inv_def)
qed

lemma enc_push_full:
  assumes inv: "encoder_inv kvs (e, mem)" and key: "key \<noteq> []" "length key \<le> MAX_KEY_LEN"
    and full: "block_size_in_bytes (e_cfg e) < block_space (e_cfg e) (kvs @ [(key, v)])"
  shows "enc_push xxh key v (e, mem) = (Inl (Error [] BUFFER_FULL), enc_commit xxh (e, mem))"
proof -
  have "e_head e \<le> length mem" "e_bytes_written e = block_space (e_cfg e) kvs"
      "e_last_key e = last_key_of [] kvs"
    using inv by (auto simp: encoder_inv_def block_space_def)
  then show ?thesis
    using key full push_position [OF inv]
    by (auto simp: enc_push_def push_as_restart_key_eq push_as_delta_key_eq block_space_append
        entry_image_def)
qed

lemma enc_push_fits:
  assumes inv: "encoder_inv kvs (e, mem)" and key: "key \<noteq> []" "length key \<le> MAX_KEY_LEN"
    and fits: "block_space (e_cfg e) (kvs @ [(key, v)]) \<le> block_size_in_bytes (e_cfg e)"
  obtains e' mem' where "enc_push xxh key v (e, mem) = (ok, e', mem')"
    "encoder_inv (kvs @ [(key, v)]) (e', mem')" "e_base e' = e_base e" "e_cfg e' = e_cfg e"
    "same_outside (e_base e) (e_base e + block_size_in_bytes (e_cfg e)) mem mem'"
proof -
  let ?img = "entry_image (restart_group_size (e_cfg e)) (length kvs) (last_key_of [] kvs) (key, v)"
  note w = encoder_inv_write [OF inv fits]
  let ?kvs = "kvs @ [(key, v)]" and ?offs = "block_restart_offsets (e_cfg e) (kvs @ [(key, v)])"
  let ?e = "e\<lparr>e_head := e_head e + length ?img, e_last_key := key, e_offsets := map of_nat ?offs,
    e_bytes_written := block_space (e_cfg e) ?kvs, e_kvs_count := e_kvs_count e + 1,
    e_restart_keys_written := of_nat (length ?offs)\<rparr>"
  have "enc_push xxh key v (e, mem) = (ok, ?e, write_at mem (e_head e) ?img)"
    using inv key fits w(4) push_position [OF inv]
    by (cases e)
      (auto simp: enc_push_def push_as_restart_key_eq push_as_delta_key_eq block_space_append
        restart_offsets_append entry_image_def write_unsafe_def encoder_inv_def)
  moreover have "encoder_inv ?kvs (?e, write_at mem (e_head e) ?img)"
    using inv w fits by (simp add: encoder_inv_def same_outside_def)
  ultimately show ?thesis
    using w(2) that by simp
qed

lemma length_offsets_image [simp]: "length (offsets_image offs) = 2 * length offs"
  by (induction offs) (simp_all add: offsets_image_def)

lemma length_trailer_image [simp]: "length (trailer_image offs n) = 2 * length offs + 6"
  by (simp add: trailer_image_def)

lemma kv_count_image: "(ucast (of_nat n :: u32) :: u16) = of_nat n"
  by (simp add: unsigned_of_nat word_of_nat_eq_iff)

text \<open>
  What a commit needs of the state. A committed encoder still has it: a second commit writes the
  same block again.
\<close>

definition commit_ready :: "(bytes \<times> bytes) list \<Rightarrow> enc_state \<Rightarrow> bool" where
  "commit_ready kvs s = (case s of (e, mem) \<Rightarrow>
     e_base e + block_size_in_bytes (e_cfg e) \<le> length mem
     \<and> read_at mem (e_base e) (length (block_entries_image (e_cfg e) kvs)) = block_entries_image (e_cfg e) kvs
     \<and> block_space (e_cfg e) kvs \<le> block_size_in_bytes (e_cfg e)
     \<and> e_offsets e = map of_nat (block_restart_offsets (e_cfg e) kvs)
     \<and> e_kvs_count e = of_nat (length kvs)
     \<and> e_last_key e = last_key_of [] kvs
     \<and> (e_footer e)\<lparr>kv_count := 0\<rparr> = empty_footer)"

lemma encoder_inv_commit_ready: "encoder_inv kvs s \<Longrightarrow> commit_ready kvs s"
  by (auto simp: encoder_inv_def commit_ready_def empty_footer_def)

lemma footer_counted: "f\<lparr>kv_count := 0\<rparr> = empty_footer \<Longrightarrow> f\<lparr>kv_count := n\<rparr> = empty_footer\<lparr>kv_count := n\<rparr>"
  by (cases f) (simp add: empty_footer_def)

lemma enc_commit_eq:
  fixes xxh :: hash64
  assumes inv: "commit_ready kvs (e, mem)"
  defines "offs \<equiv> block_restart_offsets (e_cfg e) kvs"
  defines "start \<equiv> e_base e + block_size_in_bytes (e_cfg e) - 10 - 2 * length offs"
  defines "mem3 \<equiv> write_at mem start (trailer_image offs (length kvs))"
  defines "csum \<equiv> block_checksum xxh mem3 (e_base e) (block_size_in_bytes (e_cfg e) - 4)"
  obtains e' where "enc_commit xxh (e, mem) = (e', write_at mem start (trailer_image offs (length kvs) @ le_image 4 csum))"
    "e_committed e'" "e_base e' = e_base e" "e_cfg e' = e_cfg e" "e_last_key e' = e_last_key e"
    "e_kvs_count e' = e_kvs_count e" "e_head e' = e_base e + block_size_in_bytes (e_cfg e)"
    "e_offsets e' = e_offsets e" "(e_footer e')\<lparr>kv_count := 0\<rparr> = empty_footer"
proof -
  have fits: "block_space (e_cfg e) kvs \<le> block_size_in_bytes (e_cfg e)"
    and mem: "e_base e + block_size_in_bytes (e_cfg e) \<le> length mem"
    and flds: "e_offsets e = map of_nat offs" "e_kvs_count e = of_nat (length kvs)"
    using inv by (simp_all add: commit_ready_def offs_def)
  have footer: "(e_footer e)\<lparr>kv_count := n\<rparr> = empty_footer\<lparr>kv_count := n\<rparr>" for n
    using inv by (intro footer_counted) (simp add: commit_ready_def)
  have start: "start + 2 * length offs + 10 = e_base e + block_size_in_bytes (e_cfg e)"
    using fits by (simp add: start_def block_space_def offs_def)
  let ?f = "empty_footer\<lparr>kv_count := of_nat (length kvs)\<rparr>"
  let ?e = "e\<lparr>e_head := start + 2 * length offs + 10, e_footer := ?f, e_committed := True\<rparr>"
  have img: "offsets_image (map of_nat offs) @ le_image 2 (of_nat (length offs) :: u16) @ footer_head_image ?f
      = trailer_image offs (length kvs)"
    by (simp add: trailer_image_def footer_head_image_def empty_footer_def)
  have head: "e_base e + block_size_in_bytes (e_cfg e) - length offs * 2 - 2 - sizeof_block_footer = start"
    by (simp add: start_def sizeof_block_footer_def)
  have "start \<le> length mem"
    using start mem by simp
  then have w: "write_unsafe (footer_head_image ?f)
      (write_unsafe (le_image 2 (of_nat (length offs) :: u16))
        (write_unsafe (offsets_image (map of_nat offs)) (e\<lparr>e_head := start\<rparr>, mem)))
      = (e\<lparr>e_head := start + 2 * length offs + 6\<rparr>, mem3)"
    by (simp add: write_unsafe_append img) (simp add: write_unsafe_def mem3_def)
  have "enc_commit xxh (e, mem) = (?e, write_at mem start (trailer_image offs (length kvs) @ le_image 4 csum))"
    unfolding enc_commit_def prod.case Let_def head flds length_map kv_count_image footer w
    using \<open>start \<le> length mem\<close> write_at_append [of start mem "trailer_image offs (length kvs)" "le_image 4 csum"]
    by (simp add: write_unsafe_def csum_def mem3_def add.assoc)
  then show ?thesis
    using that [of ?e] start by (simp add: empty_footer_def)
qed

lemma enc_commit_holds_block:
  assumes inv: "commit_ready kvs (e, mem)"
  obtains e' mem' where "enc_commit xxh (e, mem) = (e', mem')"
    "holds_block xxh (e_cfg e) (read_at mem' (e_base e) (block_size_in_bytes (e_cfg e))) kvs"
    "e_committed e'" "e_base e' = e_base e" "e_cfg e' = e_cfg e" "e_last_key e' = e_last_key e"
    "e_kvs_count e' = e_kvs_count e"
    "same_outside (e_base e) (e_base e + block_size_in_bytes (e_cfg e)) mem mem'"
    "commit_ready kvs (e', mem')"
proof -
  let ?bs = "block_size_in_bytes (e_cfg e)" and ?b = "e_base e"
  define offs where "offs = block_restart_offsets (e_cfg e) kvs"
  define start where "start = ?b + ?bs - 10 - 2 * length offs"
  define tr where "tr = trailer_image offs (length kvs)"
  define mem3 where "mem3 = write_at mem start tr"
  define csum where "csum = block_checksum xxh mem3 ?b (?bs - 4)"
  define mem4 where "mem4 = write_at mem start (tr @ le_image 4 csum)"
  have fits: "10 + length (block_entries_image (e_cfg e) kvs) + 2 * length offs \<le> ?bs"
    and mem: "?b + ?bs \<le> length mem"
    and im: "read_at mem ?b (length (block_entries_image (e_cfg e) kvs)) = block_entries_image (e_cfg e) kvs"
    using inv by (simp_all add: commit_ready_def offs_def block_space_def)
  have start: "start + 2 * length offs + 10 = ?b + ?bs" "length tr = 2 * length offs + 6"
    using fits by (simp_all add: start_def tr_def)
  have "mem4 = write_at mem3 (start + length tr) (le_image 4 csum)"
    using start mem write_at_append [of start mem tr] by (simp add: mem4_def mem3_def)
  moreover have "length mem3 = length mem"
    using start mem by (simp add: mem3_def mem_simps)
  ultimately have csum: "block_checksum xxh mem4 ?b (?bs - 4) = csum"
    using start mem fits by (simp add: csum_def block_checksum_def mem_simps)
  have len: "length (read_at mem4 ?b ?bs) = ?bs"
    using start mem by (simp add: mem4_def mem_simps)
  have im4: "read_at mem4 ?b (length (block_entries_image (e_cfg e) kvs)) = block_entries_image (e_cfg e) kvs"
    using start mem fits im by (simp add: mem4_def mem_simps)
  moreover have "read_at mem4 start (10 + 2 * length offs) = tr @ le_image 4 csum"
    using start mem by (simp add: mem4_def mem_simps)
  moreover have "?b + (?bs - 10 - 2 * length offs) = start" "?bs - (?bs - 10 - 2 * length offs) = 10 + 2 * length offs"
    using fits by (simp_all add: start_def)
  moreover have "block_checksum xxh (read_at mem4 ?b ?bs) 0 (?bs - 4) = csum"
    by (simp add: csum [symmetric] block_checksum_def read_at_read_at)
  ultimately have "holds_block xxh (e_cfg e) (read_at mem4 ?b ?bs) kvs"
    using fits len
    by (simp add: holds_block_def block_space_def take_read_at drop_read_at tr_def flip: offs_def)
  moreover have same: "same_outside ?b (?b + ?bs) mem mem4"
    using start mem fits unfolding mem4_def by (intro same_outside_write_at) auto
  moreover obtain e' where e': "enc_commit xxh (e, mem) = (e', mem4)"
    "e_committed e'" "e_base e' = ?b" "e_cfg e' = e_cfg e" "e_last_key e' = e_last_key e"
    "e_kvs_count e' = e_kvs_count e" "e_offsets e' = e_offsets e" "(e_footer e')\<lparr>kv_count := 0\<rparr> = empty_footer"
    using enc_commit_eq [OF inv, of xxh] unfolding mem4_def csum_def mem3_def tr_def start_def offs_def by blast
  moreover have "commit_ready kvs (e', mem4)"
    using inv e' im4 same by (simp add: commit_ready_def same_outside_def)
  ultimately show ?thesis
    using that by blast
qed

text \<open>
  C14: \<^verbatim>\<open>block_encoder::push\<close> on every branch. A key of a wrong size is refused and nothing
  changes. A pair that fits is appended: afterwards the encoder stands for the longer list. A pair
  that does not fit is reported as \<open>BUFFER_FULL\<close> and the block is committed: its bytes are a
  complete block with the pairs pushed before, trailer and checksum included. In no case is a byte
  outside the block's range touched.
\<close>

theorem enc_push_correct:
  assumes inv: "encoder_inv kvs (e, mem)"
  shows "\<exists>st e' mem'. enc_push xxh key v (e, mem) = (st, e', mem')
    \<and> same_outside (e_base e) (e_base e + block_size_in_bytes (e_cfg e)) mem mem'
    \<and> e_base e' = e_base e \<and> e_cfg e' = e_cfg e
    \<and> (if key = [] \<or> MAX_KEY_LEN < length key
       then st = Inl (generic_error ''invalid key size'') \<and> (e', mem') = (e, mem)
       else if block_space (e_cfg e) (kvs @ [(key, v)]) \<le> block_size_in_bytes (e_cfg e)
       then st = ok \<and> encoder_inv (kvs @ [(key, v)]) (e', mem')
       else st = Inl (Error [] BUFFER_FULL) \<and> e_committed e' \<and> e_last_key e' = last_key_of [] kvs
         \<and> holds_block xxh (e_cfg e) (read_at mem' (e_base e) (block_size_in_bytes (e_cfg e))) kvs)"
proof -
  consider (invalid) "key = [] \<or> MAX_KEY_LEN < length key"
    | (fits) "key \<noteq> []" "length key \<le> MAX_KEY_LEN"
        "block_space (e_cfg e) (kvs @ [(key, v)]) \<le> block_size_in_bytes (e_cfg e)"
    | (full) "key \<noteq> []" "length key \<le> MAX_KEY_LEN"
        "block_size_in_bytes (e_cfg e) < block_space (e_cfg e) (kvs @ [(key, v)])"
    by linarith
  then show ?thesis
  proof cases
    case invalid
    then show ?thesis by (auto simp: enc_push_def)
  next
    case fits
    obtain e' mem' where "enc_push xxh key v (e, mem) = (ok, e', mem')"
      "encoder_inv (kvs @ [(key, v)]) (e', mem')" "e_base e' = e_base e" "e_cfg e' = e_cfg e"
      "same_outside (e_base e) (e_base e + block_size_in_bytes (e_cfg e)) mem mem'"
      using enc_push_fits [OF inv fits] by blast
    with fits show ?thesis by simp
  next
    case full
    have "e_last_key e = last_key_of [] kvs" using inv by (simp add: encoder_inv_def)
    moreover obtain e' mem' where "enc_commit xxh (e, mem) = (e', mem')"
      "holds_block xxh (e_cfg e) (read_at mem' (e_base e) (block_size_in_bytes (e_cfg e))) kvs"
      "e_committed e'" "e_base e' = e_base e" "e_cfg e' = e_cfg e" "e_last_key e' = e_last_key e"
      "same_outside (e_base e) (e_base e + block_size_in_bytes (e_cfg e)) mem mem'"
      using enc_commit_holds_block [OF encoder_inv_commit_ready [OF inv]] by blast
    ultimately show ?thesis
      using full enc_push_full [OF inv full, of xxh] by simp
  qed
qed

theorem enc_push_correct_witness:
  "\<exists>st e' mem'. enc_push (\<lambda>_ _. 0) [1] [2, 3] (make_block_encoder 0 default_block_config, replicate 4096 0)
      = (st, e', mem') \<and> st = ok \<and> encoder_inv [([1], [2, 3])] (e', mem')"
proof -
  let ?cfg = default_block_config
  have "encoder_inv [] (make_block_encoder 0 ?cfg, replicate 4096 0)"
    by (intro encoder_inv_new config_ok_default) (simp_all add: default_block_config_def PAGE_SIZE_IN_BYTES_def)
  moreover have "block_space ?cfg ([] @ [([1], [2, 3])]) \<le> block_size_in_bytes ?cfg"
    by (simp add: block_space_def default_block_config_def PAGE_SIZE_IN_BYTES_def entry_image_def
        restart_image_def value_image_def unsafe_varint.simps)
  ultimately show ?thesis
    using enc_push_correct [of "[]" "make_block_encoder 0 ?cfg" "replicate 4096 0" "\<lambda>_ _. 0" "[1]" "[2, 3]"]
    by (auto simp: make_block_encoder_def MAX_KEY_LEN_def)
qed

text \<open>
  The size of a delta is stored in one byte. A key of 256 bytes that shares no prefix with the key
  before it is accepted, but its size is written as 0.
\<close>

lemma delta_size_overflow:
  "delta_image [0] (replicate 256 1) [] = 0 # 0 # replicate 256 1 @ value_image []"
  using replicate_Suc [of 255 "1 :: byte"] by (simp add: delta_image_def)

end
