(* ===== verification/Cursor.thy ===== *)
theory Cursor
  imports Prelude
begin

text \<open>
  The interface the readers of HedgeDB share: a cursor has a test for its end, a current element
  and a step that may fail. \<open>drain\<close> is the loop of a client that visits every element. The locale
  states what a provider promises, that a cursor stands for a list of elements; the client's loop
  is proved once.
\<close>

fun drain :: "('c \<Rightarrow> bool) \<Rightarrow> ('c \<Rightarrow> 'x) \<Rightarrow> ('c \<Rightarrow> 'c expected) \<Rightarrow> nat \<Rightarrow> 'c \<Rightarrow> 'x list expected" where
  "drain at_end current advance fuel c =
     (if at_end c then Inr []
      else case fuel of
        0 \<Rightarrow> Inl (generic_error ''out of fuel'')
      | Suc n \<Rightarrow>
          (case advance c of
             Inl e \<Rightarrow> Inl e
           | Inr c' \<Rightarrow>
               (case drain at_end current advance n c' of
                  Inl e \<Rightarrow> Inl e
                | Inr xs \<Rightarrow> Inr (current c # xs))))"

declare drain.simps [simp del]

locale cursor =
  fixes at_end :: "'c \<Rightarrow> bool"
    and current :: "'c \<Rightarrow> 'x"
    and advance :: "'c \<Rightarrow> 'c expected"
    and rep :: "'c \<Rightarrow> 'x list \<Rightarrow> bool"
  assumes rep_Nil: "rep c [] \<Longrightarrow> at_end c"
    and rep_Cons: "rep c (x # xs) \<Longrightarrow> \<not> at_end c \<and> current c = x"
    and rep_next: "rep c (x # xs) \<Longrightarrow> \<exists>c'. advance c = Inr c' \<and> rep c' xs"
begin

lemma drain_rep: "rep c xs \<Longrightarrow> length xs \<le> fuel \<Longrightarrow> drain at_end current advance fuel c = Inr xs"
proof (induction xs arbitrary: c fuel)
  case Nil
  then show ?case by (simp add: drain.simps rep_Nil)
next
  case (Cons x xs)
  obtain c' where "advance c = Inr c'" "rep c' xs"
    using rep_next [OF Cons.prems(1)] by blast
  moreover obtain n where "fuel = Suc n" "length xs \<le> n"
    using Cons.prems(2) by (cases fuel) auto
  ultimately show ?case
    using Cons.IH [of c' n] rep_Cons [OF Cons.prems(1)] by (simp add: drain.simps)
qed

lemma rep_unique: "rep c xs \<Longrightarrow> rep c ys \<Longrightarrow> xs = ys"
  using drain_rep [of c xs "length xs + length ys"] drain_rep [of c ys "length xs + length ys"] by simp

end

end
