(* ===== verification/Block_Decoder.thy ===== *)
theory Block_Decoder
  imports Block_Encoder Cursor
begin

text \<open>
  The block iterator and the block decoder of \<^verbatim>\<open>src/db/block.h\<close> and \<^verbatim>\<open>src/db/block.cc\<close>. The
  memory is a list of bytes, pointers are offsets into it. A read beyond the memory is the error
  \<open>out of range read\<close>, except in the comparison function of the binary search of \<open>find\<close>, which
  sees the bytes that are there. The theorems are about blocks the encoder has written, where no
  read leaves the block.
\<close>

section \<open>The iterator\<close>

record block_iterator =
  it_head :: nat
  it_kv_idx :: u32
  it_starting_kv_idx :: u32
  it_kvs_in_block_count :: u32
  it_restart_group_size :: u32
  it_key :: bytes
  it_value :: bytes

abbreviation out_of_range :: error where
  "out_of_range \<equiv> generic_error ''out of range read''"

text \<open>The end of both key readers: the size of the value, then the value.\<close>

definition read_value :: "bytes \<Rightarrow> block_iterator \<Rightarrow> block_iterator expected" where
  "read_value mem it =
     (case try_decode_varint (read_at mem (it_head it) MAX_VARINT_LENGTH_32) of
        Inl e \<Rightarrow> Inl e
      | Inr (value_size, size_of_varint_value_size) \<Rightarrow>
          (let head = it_head it + size_of_varint_value_size
           in if head + unat value_size \<le> length mem
              then Inr (it\<lparr>it_value := read_at mem head (unat value_size), it_head := head + unat value_size\<rparr>)
              else Inl out_of_range))"

definition read_restart_key :: "bytes \<Rightarrow> block_iterator \<Rightarrow> block_iterator expected" where
  "read_restart_key mem it =
     (if it_head it < length mem then
        (let key_size = decode_key_size (mem ! it_head it); head = it_head it + 1
         in if head + key_size \<le> length mem
            then read_value mem (it\<lparr>it_key := read_at mem head key_size, it_head := head + key_size\<rparr>)
            else Inl out_of_range)
      else Inl out_of_range)"

definition resize :: "nat \<Rightarrow> bytes \<Rightarrow> bytes" where
  "resize n xs = take n xs @ replicate (n - length xs) 0"

definition read_delta_key :: "bytes \<Rightarrow> block_iterator \<Rightarrow> block_iterator expected" where
  "read_delta_key mem it =
     (if it_head it + 1 < length mem then
        (let shared_prefix_length = unat (mem ! it_head it);
             delta_key_length = unat (mem ! (it_head it + 1));
             head = it_head it + 2
         in if head + delta_key_length \<le> length mem
            then read_value mem
              (it\<lparr>it_key := resize shared_prefix_length (it_key it) @ read_at mem head delta_key_length,
                  it_head := head + delta_key_length\<rparr>)
            else Inl out_of_range)
      else Inl out_of_range)"

definition read_next :: "bytes \<Rightarrow> block_iterator \<Rightarrow> block_iterator expected" where
  "read_next mem it0 =
     (let curr_idx = it_kv_idx it0; it = it0\<lparr>it_kv_idx := curr_idx + 1\<rparr>
      in if curr_idx \<ge> it_kvs_in_block_count it then Inr it
         else if (ucast curr_idx :: u64) AND ucast (it_restart_group_size it - 1) = 0
         then read_restart_key mem it
         else read_delta_key mem it)"

definition make_block_iterator :: "bytes \<Rightarrow> nat \<Rightarrow> u32 \<Rightarrow> u32 \<Rightarrow> u32 \<Rightarrow> block_iterator expected" where
  "make_block_iterator mem base starting_kv_idx kvs_in_block gs =
     read_next mem
       \<lparr>it_head = base, it_kv_idx = starting_kv_idx, it_starting_kv_idx = starting_kv_idx,
        it_kvs_in_block_count = kvs_in_block, it_restart_group_size = gs, it_key = [], it_value = []\<rparr>"

definition it_at_end :: "block_iterator \<Rightarrow> bool" where
  "it_at_end it \<longleftrightarrow> it_kv_idx it > it_kvs_in_block_count it"

definition it_at_group_end :: "block_iterator \<Rightarrow> bool" where
  "it_at_group_end it \<longleftrightarrow> it_kv_idx it > it_starting_kv_idx it + it_restart_group_size it
     \<or> it_kv_idx it > it_kvs_in_block_count it"

definition it_pair :: "block_iterator \<Rightarrow> bytes \<times> bytes" where
  "it_pair it = (it_key it, it_value it)"

section \<open>The decoder\<close>

record block_decoder =
  d_cfg :: block_config
  d_base :: "nat option"
  d_footer :: block_footer

definition footer_of_image :: "bytes \<Rightarrow> block_footer" where
  "footer_of_image bs =
     \<lparr>kv_count = le_word (read_at bs 0 2), block_type = le_word (read_at bs 2 2),
      checksum = le_word (read_at bs 4 4)\<rparr>"

definition read_footer :: "bytes \<Rightarrow> block_decoder \<Rightarrow> block_decoder" where
  "read_footer mem d =
     (case d_base d of
        None \<Rightarrow> d\<lparr>d_footer := empty_footer\<rparr>
      | Some base \<Rightarrow>
          d\<lparr>d_footer := footer_of_image
             (read_at mem (base + block_size_in_bytes (d_cfg d) - sizeof_block_footer) sizeof_block_footer)\<rparr>)"

definition default_block_decoder :: "block_config \<Rightarrow> block_decoder" where
  "default_block_decoder cfg = \<lparr>d_cfg = cfg, d_base = None, d_footer = empty_footer\<rparr>"

definition dec_reset :: "bytes \<Rightarrow> nat option \<Rightarrow> block_decoder \<Rightarrow> block_decoder" where
  "dec_reset mem new_base d = read_footer mem (d\<lparr>d_base := new_base\<rparr>)"

definition make_block_decoder :: "bytes \<Rightarrow> nat \<Rightarrow> block_config \<Rightarrow> block_decoder" where
  "make_block_decoder mem base cfg =
     read_footer mem \<lparr>d_cfg = cfg, d_base = Some base, d_footer = empty_footer\<rparr>"

definition sanity_check :: "hash64 \<Rightarrow> bytes \<Rightarrow> block_decoder \<Rightarrow> status" where
  "sanity_check xxh mem d =
     (case d_base d of
        None \<Rightarrow> Inl out_of_range
      | Some base \<Rightarrow>
          (if block_checksum xxh mem base (block_size_in_bytes (d_cfg d) - 4) \<noteq> checksum (d_footer d)
           then Inl (generic_error ''checksum mismatch'') else ok))"

definition dec_begin :: "bytes \<Rightarrow> block_decoder \<Rightarrow> block_iterator expected" where
  "dec_begin mem d =
     (case d_base d of
        None \<Rightarrow>
          (if kv_count (d_footer d) = 0
           then make_block_iterator mem 0 0 0 (of_nat (restart_group_size (d_cfg d)))
           else Inl out_of_range)
      | Some base \<Rightarrow>
          make_block_iterator mem base 0 (ucast (kv_count (d_footer d))) (of_nat (restart_group_size (d_cfg d))))"

fun u16s_of_image :: "bytes \<Rightarrow> u16 list" where
  "u16s_of_image (a # b # bs) = le_word [a, b] # u16s_of_image bs"
| "u16s_of_image _ = []"

definition restart_key_at :: "bytes \<Rightarrow> nat \<Rightarrow> u16 \<Rightarrow> bytes" where
  "restart_key_at mem base off =
     (let p = base + unat off in read_at mem (p + 1) (decode_key_size (mem ! p)))"

text \<open>The loop over the restart group; \<open>restart_group_size + 1\<close> rounds are enough.\<close>

fun find_in_group :: "nat \<Rightarrow> bytes \<Rightarrow> bytes \<Rightarrow> block_iterator \<Rightarrow> bytes expected" where
  "find_in_group fuel mem key it =
     (if it_at_group_end it then Inr []
      else if it_key it = key then Inr (it_value it)
      else case fuel of
        0 \<Rightarrow> Inl (generic_error ''out of fuel'')
      | Suc n \<Rightarrow>
          (case read_next mem it of Inl e \<Rightarrow> Inl e | Inr it' \<Rightarrow> find_in_group n mem key it'))"

declare find_in_group.simps [simp del]

definition dec_find :: "bytes \<Rightarrow> bytes \<Rightarrow> block_decoder \<Rightarrow> bytes expected" where
  "dec_find mem key d =
     (case d_base d of
        None \<Rightarrow> Inl out_of_range
      | Some base \<Rightarrow>
          (let restart_count_ptr = base + block_size_in_bytes (d_cfg d) - sizeof_block_footer - 2;
               restart_count = unat (le_word (read_at mem restart_count_ptr 2) :: u16);
               offsets = u16s_of_image (read_at mem (restart_count_ptr - restart_count * 2) (restart_count * 2));
               offset_it = upper_bound (\<lambda>key off. lexicographical_compare key (restart_key_at mem base off))
                 offsets key
           in if offset_it = 0 then Inr []
              else
                (let offset = offsets ! (offset_it - 1);
                     skipped_kvs = (offset_it - 1) * restart_group_size (d_cfg d)
                 in case make_block_iterator mem (base + unat offset) (of_nat skipped_kvs)
                      (ucast (kv_count (d_footer d))) (of_nat (restart_group_size (d_cfg d))) of
                      Inl e \<Rightarrow> Inl e
                    | Inr it \<Rightarrow> find_in_group (restart_group_size (d_cfg d) + 1) mem key it)))"

section \<open>Reading what the encoder wrote\<close>

text \<open>
  The pairs the format can represent: a key of 1 to 256 bytes, a value whose size fits in the five
  bytes of a 32-bit varint, and for a key stored as a delta, both lengths in one byte.
\<close>

definition pair_ok :: "nat \<Rightarrow> nat \<Rightarrow> bytes \<Rightarrow> bytes \<times> bytes \<Rightarrow> bool" where
  "pair_ok gs n prev kv \<longleftrightarrow>
     MIN_KEY_LEN \<le> length (fst kv) \<and> length (fst kv) \<le> MAX_KEY_LEN \<and> length (snd kv) < 2 ^ 35
     \<and> (n mod gs = 0 \<or> compute_shared_prefix_length prev (fst kv) < 256
          \<and> length (fst kv) - compute_shared_prefix_length prev (fst kv) < 256)"

fun pairs_ok :: "nat \<Rightarrow> nat \<Rightarrow> bytes \<Rightarrow> (bytes \<times> bytes) list \<Rightarrow> bool" where
  "pairs_ok gs n prev [] = True"
| "pairs_ok gs n prev (kv # kvs) = (pair_ok gs n prev kv \<and> pairs_ok gs (Suc n) (fst kv) kvs)"

lemma shared_prefix:
  "take (compute_shared_prefix_length prev key) key = take (compute_shared_prefix_length prev key) prev
   \<and> compute_shared_prefix_length prev key \<le> length prev \<and> compute_shared_prefix_length prev key \<le> length key"
  by (induction prev key rule: compute_shared_prefix_length.induct) auto

lemma read_value_written:
  assumes mem: "drop (it_head it) mem = value_image v @ tail" and v: "length v < 2 ^ 35"
  shows "read_value mem it = Inr (it\<lparr>it_value := v, it_head := it_head it + length (value_image v)\<rparr>)"
proof -
  let ?n = "of_nat (length v) :: u64" and ?h = "it_head it"
  have n: "unat ?n = length v"
    using v by (simp add: unat_of_nat)
  have "length (unsafe_varint ?n) \<le> 5"
    using varint_length_bound [of ?n 35] v n by (simp add: length_unsafe_varint)
  then have "read_at mem ?h MAX_VARINT_LENGTH_32
      = unsafe_varint ?n @ take (5 - length (unsafe_varint ?n)) (v @ tail)"
    using mem by (simp add: read_at_def MAX_VARINT_LENGTH_32_def value_image_def)
  then have decode: "try_decode_varint (read_at mem ?h MAX_VARINT_LENGTH_32) = Inr (?n, length (unsafe_varint ?n))"
    by (simp only: try_decode_unsafe_varint)
  have nonempty: "value_image v \<noteq> []"
    using length_unsafe_varint_pos [of ?n] by (auto simp: value_image_def)
  have bound: "?h + length (value_image v) \<le> length mem"
    using drop_eq_append(3) [OF mem nonempty] .
  have "drop ?h mem = unsafe_varint ?n @ v @ tail"
    using mem by (simp add: value_image_def)
  from drop_eq_append(2) [OF this] have "read_at mem (?h + length (unsafe_varint ?n)) (length v) = v"
    by (simp add: read_at_def)
  then show ?thesis
    using decode bound n by (simp add: read_value_def value_image_def add.assoc)
qed

lemma read_restart_key_written:
  assumes mem: "drop (it_head it) mem = restart_image key v @ tail"
    and key: "MIN_KEY_LEN \<le> length key" "length key \<le> MAX_KEY_LEN" and v: "length v < 2 ^ 35"
  shows "read_restart_key mem it
    = Inr (it\<lparr>it_key := key, it_value := v, it_head := it_head it + length (restart_image key v)\<rparr>)"
proof -
  let ?h = "it_head it"
  have bound: "?h + length (restart_image key v) \<le> length mem"
    using drop_eq_append(3) [OF mem] by (simp add: restart_image_def)
  have first: "mem ! ?h = encode_key_size (length key)"
    using mem by (intro nth_via_drop) (simp add: restart_image_def)
  have "drop ?h mem = [encode_key_size (length key)] @ key @ value_image v @ tail"
    using mem by (simp add: restart_image_def)
  note rest = drop_eq_append(2) [OF this]
  have size: "decode_key_size (encode_key_size (length key)) = length key"
    using key by (intro decode_encode_key_size) (simp_all add: MIN_KEY_LEN_def MAX_KEY_LEN_def)
  note val = drop_eq_append(1,2) [OF rest]
  show ?thesis
    using first size bound val rest
      read_value_written [of "it\<lparr>it_key := key, it_head := ?h + 1 + length key\<rparr>" mem v tail, OF _ v]
    by (simp add: read_restart_key_def restart_image_def add.assoc)
qed

lemma read_delta_key_written:
  assumes mem: "drop (it_head it) mem = delta_image (it_key it) key v @ tail"
    and key: "compute_shared_prefix_length (it_key it) key < 256"
      "length key - compute_shared_prefix_length (it_key it) key < 256"
    and v: "length v < 2 ^ 35"
  shows "read_delta_key mem it
    = Inr (it\<lparr>it_key := key, it_value := v, it_head := it_head it + length (delta_image (it_key it) key v)\<rparr>)"
proof -
  let ?h = "it_head it" and ?s = "compute_shared_prefix_length (it_key it) key"
  have img: "delta_image (it_key it) key v = [of_nat ?s, of_nat (length key - ?s)] @ drop ?s key @ value_image v"
    by (simp add: delta_image_def Let_def)
  have bound: "?h + length (delta_image (it_key it) key v) \<le> length mem"
    using drop_eq_append(3) [OF mem] by (simp add: img)
  have rest: "drop (?h + 2) mem = drop ?s key @ value_image v @ tail"
    using drop_eq_append(2) [of ?h mem "[of_nat ?s, of_nat (length key - ?s)]"] mem by (simp add: img)
  have "drop (?h + 1) mem = of_nat (length key - ?s) # drop ?s key @ value_image v @ tail"
    using drop_eq_append(2) [of ?h mem "[of_nat ?s]"] mem by (simp add: img)
  then have second: "mem ! (?h + 1) = of_nat (length key - ?s)"
    by (rule nth_via_drop)
  have first: "mem ! ?h = of_nat ?s"
    using mem by (intro nth_via_drop) (simp add: img)
  have "unat (of_nat ?s :: byte) = ?s" "unat (of_nat (length key - ?s) :: byte) = length key - ?s"
    using key by (simp_all add: unat_of_nat)
  moreover have "resize ?s (it_key it) @ drop ?s key = key"
    using shared_prefix [of "it_key it" key] by (simp add: resize_def flip: shared_prefix)
  moreover note val = drop_eq_append(1,2) [OF rest]
  ultimately show ?thesis
    using first second bound
      read_value_written [of "it\<lparr>it_key := key, it_head := ?h + 2 + (length key - ?s)\<rparr>" mem v tail, OF _ v]
    by (simp add: read_delta_key_def img add.assoc)
qed

lemma iterator_restart_mask:
  assumes "gs \<in> (\<lambda>g. 2 ^ g) ` {..<32}" "n < 2 ^ 32"
  shows "(ucast (of_nat n :: u32) :: u64) AND ucast (of_nat gs - 1 :: u32) = 0 \<longleftrightarrow> n mod gs = 0"
proof -
  obtain g where g: "gs = 2 ^ g" "g < 32" using assms(1) by auto
  have "of_nat gs - 1 = (mask g :: u32)" "of_nat gs - 1 = (mask g :: u64)"
    by (simp_all add: g mask_eq_decr_exp)
  moreover have "(ucast (mask g :: u32) :: u64) = mask g"
    using g(2) by (intro bit_word_eqI) (auto simp: bit_unsigned_iff bit_mask_iff)
  ultimately have "(ucast (of_nat gs - 1 :: u32) :: u64) = of_nat gs - 1"
    by simp
  then show ?thesis
    using restart_mask [OF assms] by simp
qed

lemma read_next_written:
  assumes mem: "drop (it_head it) mem = entry_image gs n prev kv @ tail"
    and pos: "it_kv_idx it = of_nat n" "it_kvs_in_block_count it = of_nat m" "n < m" "m < 2 ^ 32"
    and gs: "it_restart_group_size it = of_nat gs" "gs \<in> (\<lambda>g. 2 ^ g) ` {..<32}"
    and prev: "n mod gs \<noteq> 0 \<Longrightarrow> it_key it = prev" and ok: "pair_ok gs n prev kv"
  shows "read_next mem it = Inr (it\<lparr>it_kv_idx := of_nat (Suc n), it_key := fst kv, it_value := snd kv,
    it_head := it_head it + length (entry_image gs n prev kv)\<rparr>)"
proof -
  let ?it = "it\<lparr>it_kv_idx := of_nat (Suc n)\<rparr>"
  have idx: "\<not> it_kvs_in_block_count it \<le> it_kv_idx it" "it_kv_idx it + 1 = of_nat (Suc n)"
    using pos by (simp_all add: word_le_nat_alt unat_of_nat)
  note mask = iterator_restart_mask [OF gs(2), of n]
  show ?thesis
  proof (cases "n mod gs = 0")
    case True
    then show ?thesis
      using idx mask pos gs ok mem read_restart_key_written [of ?it mem "fst kv" "snd kv" tail]
      by (simp add: read_next_def Let_def entry_image_def pair_ok_def add.commute)
  next
    case False
    then show ?thesis
      using idx mask pos gs ok mem prev [OF False] read_delta_key_written [of ?it mem "fst kv" "snd kv" tail]
      by (simp add: read_next_def Let_def entry_image_def pair_ok_def add.commute)
  qed
qed

text \<open>
  \<open>block_iter_at mem gs n it kvs\<close>: the iterator has read the pair with index \<open>n\<close>, the first of
  the pairs \<open>kvs\<close>, and the images of the others follow in the memory.
\<close>

definition block_iter_at :: "bytes \<Rightarrow> nat \<Rightarrow> nat \<Rightarrow> block_iterator \<Rightarrow> (bytes \<times> bytes) list \<Rightarrow> bool" where
  "block_iter_at mem gs n it kvs \<longleftrightarrow>
     gs \<in> (\<lambda>g. 2 ^ g) ` {..<32} \<and> it_restart_group_size it = of_nat gs \<and> it_kv_idx it = of_nat (Suc n)
     \<and> it_kvs_in_block_count it = of_nat (n + length kvs) \<and> n + length kvs < 2 ^ 32 - 1
     \<and> (\<forall>kv rest. kvs = kv # rest \<longrightarrow> it_pair it = kv \<and> pairs_ok gs (Suc n) (fst kv) rest
          \<and> (\<exists>tail. drop (it_head it) mem = entries_image gs (Suc n) (fst kv) rest @ tail))"

definition block_iter_rep :: "bytes \<Rightarrow> nat \<Rightarrow> block_iterator \<Rightarrow> (bytes \<times> bytes) list \<Rightarrow> bool" where
  "block_iter_rep mem gs it kvs \<longleftrightarrow> (\<exists>n. block_iter_at mem gs n it kvs)"

lemma block_iter_at_end: "block_iter_at mem gs n it kvs \<Longrightarrow> it_at_end it \<longleftrightarrow> kvs = []"
  by (cases kvs) (auto simp: block_iter_at_def it_at_end_def word_less_nat_alt unat_of_nat simp del: of_nat_Suc of_nat_add)

lemma block_iter_at_next:
  assumes "block_iter_at mem gs n it (kv # rest)"
  obtains it' where "read_next mem it = Inr it'" "block_iter_at mem gs (Suc n) it' rest"
    "it_starting_kv_idx it' = it_starting_kv_idx it"
proof (cases rest)
  case Nil
  have "unat (it_kv_idx it) = Suc n" "unat (it_kvs_in_block_count it) = Suc n"
    using assms by (simp_all add: block_iter_at_def Nil unat_of_nat del: of_nat_Suc)
  then have "read_next mem it = Inr (it\<lparr>it_kv_idx := it_kv_idx it + 1\<rparr>)"
    by (simp add: read_next_def word_le_nat_alt)
  then show ?thesis
    using assms that by (auto simp: block_iter_at_def Nil add.commute)
next
  case (Cons kv' rest')
  obtain tail where tail: "drop (it_head it) mem = entries_image gs (Suc n) (fst kv) rest @ tail"
    using assms by (auto simp: block_iter_at_def)
  let ?img = "entry_image gs (Suc n) (fst kv) kv'"
  let ?it = "it\<lparr>it_kv_idx := of_nat (Suc (Suc n)), it_key := fst kv', it_value := snd kv',
    it_head := it_head it + length ?img\<rparr>"
  have mem: "drop (it_head it) mem = ?img @ entries_image gs (Suc (Suc n)) (fst kv') rest' @ tail"
    using tail by (simp add: Cons)
  have "read_next mem it = Inr ?it"
    using assms by (intro read_next_written [OF mem, of "Suc n + length rest"])
      (auto simp: block_iter_at_def Cons it_pair_def add.commute add.left_commute)
  moreover have "block_iter_at mem gs (Suc n) ?it rest"
    using assms drop_eq_append(2) [OF mem]
    by (auto simp: block_iter_at_def Cons it_pair_def add.commute add.left_commute)
  ultimately show ?thesis
    using that by simp
qed

lemma block_iter_at_start:
  assumes mem: "drop p mem = entries_image gs n prev kvs @ tail" and start: "n mod gs = 0"
    and gs: "gs \<in> (\<lambda>g. 2 ^ g) ` {..<32}" and ok: "pairs_ok gs n prev kvs" and m: "n + length kvs < 2 ^ 32 - 1"
  obtains it where "make_block_iterator mem p (of_nat n) (of_nat (n + length kvs)) (of_nat gs) = Inr it"
    "block_iter_at mem gs n it kvs" "it_starting_kv_idx it = of_nat n"
proof -
  let ?it = "\<lparr>it_head = p, it_kv_idx = of_nat n, it_starting_kv_idx = of_nat n,
    it_kvs_in_block_count = of_nat (n + length kvs), it_restart_group_size = of_nat gs, it_key = [], it_value = []\<rparr>"
  show ?thesis
  proof (cases kvs)
    case Nil
    have "read_next mem ?it = Inr (?it\<lparr>it_kv_idx := of_nat n + 1\<rparr>)"
      by (simp add: read_next_def Nil Let_def)
    then show ?thesis
      using that gs m by (auto simp: make_block_iterator_def block_iter_at_def Nil add.commute)
  next
    case (Cons kv rest)
    let ?img = "entry_image gs n prev kv"
    have img: "drop p mem = ?img @ entries_image gs (Suc n) (fst kv) rest @ tail"
      using mem by (simp add: Cons)
    have "read_next mem ?it = Inr (?it\<lparr>it_kv_idx := of_nat (Suc n), it_key := fst kv, it_value := snd kv,
        it_head := p + length ?img\<rparr>)"
      using img start gs ok m Cons read_next_written [of ?it mem gs n prev kv _ "n + length kvs"] by simp
    then show ?thesis
      using that gs m ok drop_eq_append(2) [OF img]
      by (auto simp: make_block_iterator_def block_iter_at_def Cons it_pair_def)
  qed
qed

interpretation bi: cursor it_at_end it_pair "read_next mem" "block_iter_rep mem gs" for mem gs
proof
  fix it kv kvs
  show "block_iter_rep mem gs it [] \<Longrightarrow> it_at_end it"
    using block_iter_at_end by (auto simp: block_iter_rep_def)
  show "block_iter_rep mem gs it (kv # kvs) \<Longrightarrow> \<not> it_at_end it \<and> it_pair it = kv"
    using block_iter_at_end by (auto simp: block_iter_rep_def) (auto simp: block_iter_at_def)
  show "block_iter_rep mem gs it (kv # kvs) \<Longrightarrow> \<exists>it'. read_next mem it = Inr it' \<and> block_iter_rep mem gs it' kvs"
    unfolding block_iter_rep_def using block_iter_at_next by blast
qed

section \<open>The layout of a committed block\<close>

lemma u16s_of_offsets_image: "u16s_of_image (offsets_image offs) = offs"
proof (induction offs)
  case (Cons w offs)
  have "le_image 2 w = [ucast w, ucast (drop_bit 8 w)]"
    by (simp add: numeral_2_eq_2)
  then show ?case
    using Cons le_word_le_image_2 [of w] by (simp add: offsets_image_def)
qed (simp add: offsets_image_def)

lemma holds_block_layout:
  assumes holds: "holds_block xxh cfg (read_at mem base (block_size_in_bytes cfg)) kvs" and cfg: "config_ok cfg"
  defines "offs \<equiv> block_restart_offsets cfg kvs"
  defines "start \<equiv> base + block_size_in_bytes cfg - 10 - 2 * length offs"
  shows "base + block_size_in_bytes cfg \<le> length mem"
    "read_at mem start (2 * length offs) = offsets_image (map of_nat offs)"
    "read_at mem (start + 2 * length offs) 2 = le_image 2 (of_nat (length offs) :: u16)"
    "read_at mem (start + 2 * length offs + 2) 8 = le_image 2 (of_nat (length kvs) :: u16) @ le_image 2 (0 :: u16)
       @ le_image 4 (block_checksum xxh mem base (block_size_in_bytes cfg - 4))"
    "start + 2 * length offs + 10 = base + block_size_in_bytes cfg"
    "\<exists>tail. drop base mem = block_entries_image cfg kvs @ tail"
proof -
  let ?bs = "block_size_in_bytes cfg" and ?im = "block_entries_image cfg kvs"
  let ?tr = "trailer_image offs (length kvs) @ le_image 4 (block_checksum xxh mem base (?bs - 4))"
  have space: "10 + length ?im + 2 * length offs \<le> ?bs"
    using holds by (simp add: holds_block_def block_space_def offs_def)
  then show start: "start + 2 * length offs + 10 = base + ?bs"
    by (simp add: start_def)
  have "length (read_at mem base ?bs) = ?bs"
    using holds by (simp add: holds_block_def)
  then show "base + ?bs \<le> length mem"
    using space by (simp add: read_at_def)
  have pos: "base + (?bs - 10 - 2 * length offs) = start" "?bs - (?bs - 10 - 2 * length offs) = 10 + 2 * length offs"
    using space by (simp_all add: start_def)
  have "block_checksum xxh (read_at mem base ?bs) 0 (?bs - 4) = block_checksum xxh mem base (?bs - 4)"
    by (simp add: block_checksum_def read_at_read_at)
  then have "read_at mem start (10 + 2 * length offs) = ?tr"
    using holds by (simp add: holds_block_def offs_def [symmetric] drop_read_at pos del: diff_diff_left)
  then have piece: "read_at mem (start + i) n = read_at ?tr i n" if "i + n \<le> 10 + 2 * length offs" for i n
    using read_at_read_at [OF that, of mem start] by simp
  show "read_at mem start (2 * length offs) = offsets_image (map of_nat offs)"
    using piece [of 0 "2 * length offs"] by (simp add: read_at_def trailer_image_def)
  show "read_at mem (start + 2 * length offs) 2 = le_image 2 (of_nat (length offs) :: u16)"
    using piece [of "2 * length offs" 2] by (simp add: read_at_def trailer_image_def)
  show "read_at mem (start + 2 * length offs + 2) 8 = le_image 2 (of_nat (length kvs) :: u16) @ le_image 2 (0 :: u16)
       @ le_image 4 (block_checksum xxh mem base (?bs - 4))"
    using piece [of "2 * length offs + 2" 8] by (simp add: read_at_def trailer_image_def add.assoc)
  have "read_at mem base (length ?im) = ?im"
    using holds space by (simp add: holds_block_def take_read_at)
  then show "\<exists>tail. drop base mem = ?im @ tail"
    unfolding read_at_def by (metis append_take_drop_id)
qed

lemma footer_of_image_written:
  "footer_of_image (le_image 2 a @ le_image 2 b @ le_image 4 c) = \<lparr>kv_count = a, block_type = b, checksum = c\<rparr>"
  by (simp add: footer_of_image_def read_at_def le_simps)

lemma make_block_decoder_written:
  assumes "holds_block xxh cfg (read_at mem base (block_size_in_bytes cfg)) kvs" "config_ok cfg"
  shows "make_block_decoder mem base cfg = \<lparr>d_cfg = cfg, d_base = Some base,
    d_footer = \<lparr>kv_count = of_nat (length kvs), block_type = 0,
      checksum = block_checksum xxh mem base (block_size_in_bytes cfg - 4)\<rparr>\<rparr>"
proof -
  note layout = holds_block_layout [OF assms]
  let ?off = "base + block_size_in_bytes cfg - 10 - 2 * length (block_restart_offsets cfg kvs)
    + 2 * length (block_restart_offsets cfg kvs) + 2"
  have "base + block_size_in_bytes cfg - 8 = ?off"
    using layout(5) by linarith
  then show ?thesis
    using layout(4) unfolding make_block_decoder_def read_footer_def sizeof_block_footer_def
    by (simp only: footer_of_image_written block_decoder.simps option.case)
qed

text \<open>
  Pairs of a block: their values are small enough because they are in the block; what remains to be
  asked is about the keys.
\<close>

definition key_ok :: "bytes \<Rightarrow> bool" where
  "key_ok key \<longleftrightarrow> MIN_KEY_LEN \<le> length key \<and> length key < MAX_KEY_LEN"

lemma length_value_le_image:
  assumes "kv \<in> set kvs"
  shows "length (snd kv) \<le> length (entries_image gs n prev kvs)"
  using assms
proof (induction kvs arbitrary: n prev)
  case (Cons kv' kvs)
  have "length (snd kv') \<le> length (entry_image gs n prev kv')"
    by (simp add: entry_image_def restart_image_def delta_image_def value_image_def Let_def)
  then show ?case
    using Cons.prems Cons.IH [of "Suc n" "fst kv'"] by auto
qed simp

lemma pairs_ok_keys:
  assumes "\<forall>kv \<in> set kvs. key_ok (fst kv) \<and> length (snd kv) < 2 ^ 35"
  shows "pairs_ok gs n prev kvs"
  using assms
proof (induction kvs arbitrary: n prev)
  case (Cons kv kvs)
  then show ?case
    using shared_prefix [of prev "fst kv"] by (auto simp: pair_ok_def key_ok_def MAX_KEY_LEN_def)
qed simp

lemma holds_block_pairs_ok:
  assumes holds: "holds_block xxh cfg blk kvs" and cfg: "config_ok cfg" and keys: "\<forall>kv \<in> set kvs. key_ok (fst kv)"
  shows "pairs_ok (restart_group_size cfg) 0 [] kvs"
proof (rule pairs_ok_keys, intro ballI conjI)
  fix kv assume kv: "kv \<in> set kvs"
  show "key_ok (fst kv)" using keys kv by simp
  have "length (block_entries_image cfg kvs) < 2 ^ 16"
    using holds cfg by (intro space_bounds(3)) (simp_all add: holds_block_def)
  with length_value_le_image [OF kv, of "restart_group_size cfg" 0 "[]"]
  show "length (snd kv) < 2 ^ 35" by simp
qed

lemma dec_begin_written:
  assumes holds: "holds_block xxh cfg (read_at mem base (block_size_in_bytes cfg)) kvs" and cfg: "config_ok cfg"
    and ok: "pairs_ok (restart_group_size cfg) 0 [] kvs"
  obtains it where "dec_begin mem (make_block_decoder mem base cfg) = Inr it"
    "block_iter_at mem (restart_group_size cfg) 0 it kvs"
proof -
  have kvs: "length kvs < 2 ^ 15"
    using space_bounds(1) [of cfg kvs] holds cfg by (simp add: holds_block_def)
  have gs: "restart_group_size cfg \<in> (\<lambda>g. 2 ^ g) ` {..<32}"
    using cfg by (simp add: config_ok_def)
  obtain tail where tail: "drop base mem = block_entries_image cfg kvs @ tail"
    using holds_block_layout(6) [OF holds cfg] by blast
  have "(ucast (of_nat (length kvs) :: u16) :: u32) = of_nat (length kvs)"
    using kvs by (simp add: unsigned_of_nat take_bit_nat_eq_self)
  then show ?thesis
    using block_iter_at_start [OF tail _ gs ok] kvs that
    by (auto simp: dec_begin_def make_block_decoder_written [OF holds cfg])
qed

section \<open>Lookup\<close>

lemma groups_div:
  fixes q r gs :: nat
  assumes "r < gs"
  shows "(q * gs + r + gs - 1) div gs = (if r = 0 then q else Suc q)" "(q * gs + r + gs) div gs = Suc q"
proof -
  have "q * gs + r + gs - 1 = (r + gs - 1) + q * gs" "gs \<noteq> 0"
    using assms by simp_all
  then have "(q * gs + r + gs - 1) div gs = q + (r + gs - 1) div gs"
    using div_mult_self1 [of gs "r + gs - 1" q] by metis
  moreover have "(r + gs - 1) div gs = (if r = 0 then 0 else 1)"
    using assms by (auto intro!: div_nat_eqI)
  ultimately show "(q * gs + r + gs - 1) div gs = (if r = 0 then q else Suc q)"
    by simp
  show "(q * gs + r + gs) div gs = Suc q"
    using assms by (intro div_nat_eqI) simp_all
qed

lemma restart_offsets_eq:
  assumes gs: "0 < gs"
  shows "restart_offsets gs 0 [] 0 kvs
    = map (\<lambda>i. length (entries_image gs 0 [] (take (i * gs) kvs))) [0..<(length kvs + gs - 1) div gs]"
proof (induction kvs rule: rev_induct)
  case (snoc kv kvs)
  let ?f = "\<lambda>i. length (entries_image gs 0 [] (take (i * gs) kvs))"
  define q r where "q = length kvs div gs" and "r = length kvs mod gs"
  have n: "length kvs = q * gs + r" and r: "r < gs" "r = 0 \<longleftrightarrow> gs dvd length kvs"
    using gs by (simp_all add: q_def r_def mod_eq_0_iff_dvd)
  note c = groups_div [OF r(1), of q]
  have "take (i * gs) (kvs @ [kv]) = take (i * gs) kvs" if "i < Suc q" for i
    using that n by (simp add: trans_le_add1)
  then have same: "map (\<lambda>i. length (entries_image gs 0 [] (take (i * gs) (kvs @ [kv])))) [0..<Suc q]
      = map ?f [0..<Suc q]"
    by simp
  show ?case
  proof (cases "r = 0")
    case True
    then have "restart_offsets gs 0 [] 0 kvs = map ?f [0..<q]" "?f q = length (entries_image gs 0 [] kvs)"
      using snoc c(1) n by simp_all
    then show ?thesis
      using True same r(2) c(2) n by (simp add: restart_offsets_append)
  next
    case False
    then have "restart_offsets gs 0 [] 0 kvs = map ?f [0..<Suc q]"
      using snoc c(1) n by simp
    then show ?thesis
      using False same r c(2) n by (simp add: restart_offsets_append)
  qed
qed (use gs in simp)

lemma restart_key_at_written:
  assumes mem: "drop base mem = entries_image gs 0 [] kvs @ tail" and i: "i * gs < length kvs"
    and key: "key_ok (fst (kvs ! (i * gs)))" and small: "length (entries_image gs 0 [] kvs) < 2 ^ 16"
  shows "restart_key_at mem base (of_nat (length (entries_image gs 0 [] (take (i * gs) kvs)))) = fst (kvs ! (i * gs))"
proof -
  let ?pre = "entries_image gs 0 [] (take (i * gs) kvs)" and ?key = "fst (kvs ! (i * gs))"
  have split: "kvs = take (i * gs) kvs @ kvs ! (i * gs) # drop (Suc (i * gs)) kvs"
    by (rule id_take_nth_drop [OF i])
  have img: "entries_image gs 0 [] kvs = ?pre @ restart_image ?key (snd (kvs ! (i * gs)))
      @ entries_image gs (Suc (i * gs)) ?key (drop (Suc (i * gs)) kvs)"
    using i by (subst split) (simp add: entries_image_append entry_image_def)
  then have "unat (of_nat (length ?pre) :: u16) = length ?pre"
    using small by (simp add: unat_of_nat)
  moreover obtain rest where at: "drop (base + length ?pre) mem = encode_key_size (length ?key) # ?key @ rest"
    using drop_eq_append(2) [of base mem ?pre] mem img by (simp add: restart_image_def)
  then have "mem ! (base + length ?pre) = encode_key_size (length ?key)"
    by (rule nth_via_drop)
  moreover have "read_at mem (base + length ?pre + 1) (length ?key) = ?key"
    using drop_eq_append(2) [of "base + length ?pre" mem "[encode_key_size (length ?key)]"] at
    by (simp add: read_at_def)
  moreover have "decode_key_size (encode_key_size (length ?key)) = length ?key"
    using key by (intro decode_encode_key_size) (simp_all add: key_ok_def MIN_KEY_LEN_def MAX_KEY_LEN_def)
  ultimately show ?thesis
    by (simp add: restart_key_at_def Let_def)
qed

text \<open>\<open>found kvs key\<close>: the value of the first pair with the key, the empty span if there is none.\<close>

definition found :: "(bytes \<times> bytes) list \<Rightarrow> bytes \<Rightarrow> bytes" where
  "found kvs key = (case map_of kvs key of None \<Rightarrow> [] | Some v \<Rightarrow> v)"

lemma found_simps [simp]:
  "found [] key = []" "found ((k, v) # kvs) key = (if k = key then v else found kvs key)"
  by (simp_all add: found_def)

lemma find_in_group_written:
  assumes "block_iter_at mem gs n it kvs" "it_starting_kv_idx it = of_nat s" "s \<le> n" "s + gs < 2 ^ 32"
    and "s + gs - n \<le> fuel"
  shows "find_in_group fuel mem key it = Inr (found (take (s + gs - n) kvs) key)"
  using assms
proof (induction kvs arbitrary: n it fuel)
  case Nil
  then have "it_at_group_end it"
    using block_iter_at_end [OF Nil(1)] by (simp add: it_at_group_end_def it_at_end_def)
  then show ?case by (simp add: find_in_group.simps)
next
  case (Cons kv kvs)
  have idx: "unat (it_kv_idx it) = Suc n" "unat (it_kvs_in_block_count it) = n + length (kv # kvs)"
      "unat (it_starting_kv_idx it + it_restart_group_size it) = s + gs"
    using Cons.prems by (simp_all add: block_iter_at_def unat_of_nat flip: of_nat_add of_nat_Suc)
  have pair: "it_key it = fst kv" "it_value it = snd kv"
    using Cons.prems(1) by (auto simp: block_iter_at_def it_pair_def)
  have group_end: "it_at_group_end it \<longleftrightarrow> s + gs \<le> n"
    using idx by (auto simp: it_at_group_end_def word_less_nat_alt)
  show ?case
  proof (cases "s + gs \<le> n")
    case True
    then show ?thesis using group_end by (simp add: find_in_group.simps)
  next
    case False
    then obtain f where f: "fuel = Suc f" using Cons.prems(5) by (cases fuel) auto
    obtain it' where it': "read_next mem it = Inr it'" "block_iter_at mem gs (Suc n) it' kvs"
        "it_starting_kv_idx it' = it_starting_kv_idx it"
      using block_iter_at_next [OF Cons.prems(1)] .
    have "find_in_group f mem key it' = Inr (found (take (s + gs - Suc n) kvs) key)"
      using Cons.prems f it' by (intro Cons.IH) auto
    moreover have "take (s + gs - n) (kv # kvs) = kv # take (s + gs - Suc n) kvs"
      using False by (simp add: take_Cons' not_le)
    ultimately show ?thesis
      using group_end False f it'(1) pair by (cases kv) (simp add: find_in_group.simps)
  qed
qed

lemma groups_iff:
  fixes i gs n :: nat
  assumes "0 < gs"
  shows "i < (n + gs - 1) div gs \<longleftrightarrow> i * gs < n"
proof -
  have "i < (n + gs - 1) div gs \<longleftrightarrow> Suc i * gs \<le> n + gs - 1"
    using less_eq_div_iff_mult_less_eq [OF assms] by (metis Suc_le_eq)
  then show ?thesis
    using assms by auto
qed

lemma pairs_ok_append:
  "pairs_ok gs n prev (xs @ ys) \<longleftrightarrow> pairs_ok gs n prev xs \<and> pairs_ok gs (n + length xs) (last_key_of prev xs) ys"
  by (induction xs arbitrary: n prev) auto

lemma found_append: "key \<notin> fst ` set xs \<Longrightarrow> found (xs @ ys) key = found ys key"
  by (induction xs) auto

lemma found_absent: "key \<notin> fst ` set kvs \<Longrightarrow> found kvs key = []"
  using found_append [of key kvs "[]"] by simp

lemma found_append_absent: "key \<notin> fst ` set ys \<Longrightarrow> found (xs @ ys) key = found xs key"
  by (induction xs) (auto simp: found_absent)

lemma found_group:
  assumes sorted: "sorted_wrt (<) (map fst kvs)" and start: "a < length kvs" "fst (kvs ! a) \<le> key"
    and stop: "a + m < length kvs \<Longrightarrow> key < fst (kvs ! (a + m))"
  shows "found kvs key = found (take m (drop a kvs)) key"
proof -
  have less: "fst (kvs ! i) < fst (kvs ! j)" if "i < j" "j < length kvs" for i j
    using sorted_wrt_nth_less [OF sorted that(1)] that by simp
  have before: "key \<notin> fst ` set (take a kvs)"
    using less start by (fastforce simp: in_set_conv_nth)
  have "fst (drop (a + m) kvs ! i) \<noteq> key" if "i < length (drop (a + m) kvs)" for i
  proof -
    have i: "a + m + i < length kvs" "a + m < length kvs" using that by simp_all
    then have "key < fst (kvs ! (a + m + i))"
      using less [of "a + m" "a + m + i"] stop [OF i(2)] by (cases i) auto
    then show ?thesis using i by simp
  qed
  then have "\<forall>kv \<in> set (drop (a + m) kvs). fst kv \<noteq> key"
    unfolding all_set_conv_all_nth by blast
  then have after: "key \<notin> fst ` set (drop (a + m) kvs)"
    by blast
  have "kvs = take a kvs @ take m (drop a kvs) @ drop (a + m) kvs"
    using append_take_drop_id [of m "drop a kvs"] by (simp add: add.commute)
  then have "found kvs key = found (take a kvs @ take m (drop a kvs) @ drop (a + m) kvs) key"
    by simp
  then show ?thesis
    by (simp only: found_append [OF before] found_append_absent [OF after])
qed

text \<open>The facts about a committed block that its lookup uses.\<close>

lemma dec_find_offsets:
  assumes holds: "holds_block xxh cfg (read_at mem base (block_size_in_bytes cfg)) kvs" and cfg: "config_ok cfg"
  defines "ptr \<equiv> base + block_size_in_bytes cfg - sizeof_block_footer - 2"
  defines "n \<equiv> length (block_restart_offsets cfg kvs)"
  shows "unat (le_word (read_at mem ptr 2) :: u16) = n"
    "u16s_of_image (read_at mem (ptr - n * 2) (n * 2)) = map of_nat (block_restart_offsets cfg kvs)"
proof -
  note layout = holds_block_layout [OF holds cfg]
  have ptr: "ptr = base + block_size_in_bytes cfg - 10 - 2 * n + 2 * n" "ptr - n * 2 = base + block_size_in_bytes cfg - 10 - 2 * n"
    using layout(5) by (simp_all add: ptr_def n_def sizeof_block_footer_def)
  have "n < 2 ^ 15"
    using space_bounds(2) [of cfg kvs] holds cfg by (simp add: holds_block_def n_def)
  then show "unat (le_word (read_at mem ptr 2) :: u16) = n"
    using layout(3) ptr(1) by (simp add: n_def [symmetric] le_simps unat_of_nat)
  show "u16s_of_image (read_at mem (ptr - n * 2) (n * 2)) = map of_nat (block_restart_offsets cfg kvs)"
    unfolding ptr(2) using layout(2) by (simp add: n_def mult.commute u16s_of_offsets_image)
qed

lemma dec_find_group:
  assumes holds: "holds_block xxh cfg (read_at mem base (block_size_in_bytes cfg)) kvs" and cfg: "config_ok cfg"
    and keys: "\<forall>kv \<in> set kvs. key_ok (fst kv)" and g: "g * restart_group_size cfg < length kvs"
  defines "gs \<equiv> restart_group_size cfg"
  obtains it where "make_block_iterator mem
      (base + unat (of_nat (length (entries_image gs 0 [] (take (g * gs) kvs))) :: u16)) (of_nat (g * gs))
      (ucast (of_nat (length kvs) :: u16)) (of_nat gs) = Inr it"
    "find_in_group (gs + 1) mem key it = Inr (found (take gs (drop (g * gs) kvs)) key)"
proof -
  let ?pre = "take (g * gs) kvs" and ?rest = "drop (g * gs) kvs"
  have gs: "gs \<in> (\<lambda>g. 2 ^ g) ` {..<32}" using cfg by (simp add: gs_def config_ok_def)
  have bounds: "length kvs < 2 ^ 15" "length (block_entries_image cfg kvs) < 2 ^ 16"
    using space_bounds [of cfg kvs] holds cfg by (simp_all add: holds_block_def)
  obtain tail where tail: "drop base mem = block_entries_image cfg kvs @ tail"
    using holds_block_layout(6) [OF holds cfg] by blast
  have app: "block_entries_image cfg kvs
      = entries_image gs 0 [] ?pre @ entries_image gs (g * gs) (last_key_of [] ?pre) ?rest"
    using entries_image_append [of gs 0 "[]" ?pre ?rest] g by (simp add: gs_def)
  have off: "unat (of_nat (length (entries_image gs 0 [] ?pre)) :: u16) = length (entries_image gs 0 [] ?pre)"
    using bounds(2) by (simp add: app unat_of_nat)
  have at: "drop (base + length (entries_image gs 0 [] ?pre)) mem
      = entries_image gs (g * gs) (last_key_of [] ?pre) ?rest @ tail"
    using drop_eq_append(2) [of base mem "entries_image gs 0 [] ?pre"] tail by (simp add: app)
  have "pairs_ok gs 0 [] (?pre @ ?rest)"
    using holds_block_pairs_ok [OF holds cfg keys] by (simp add: gs_def)
  then have ok: "pairs_ok gs (g * gs) (last_key_of [] ?pre) ?rest"
    using g by (simp only: pairs_ok_append) (simp add: gs_def)
  have len: "g * gs + length ?rest = length kvs"
    using g by (simp add: gs_def)
  have count: "(ucast (of_nat (length kvs) :: u16) :: u32) = of_nat (length kvs)"
    using bounds(1) by (simp add: unsigned_of_nat take_bit_nat_eq_self)
  obtain it where it: "make_block_iterator mem (base + length (entries_image gs 0 [] ?pre)) (of_nat (g * gs))
      (of_nat (length kvs)) (of_nat gs) = Inr it"
    "block_iter_at mem gs (g * gs) it ?rest" "it_starting_kv_idx it = of_nat (g * gs)"
    using block_iter_at_start [OF at _ gs ok] bounds(1) unfolding len by auto
  have "gs \<le> 2 ^ 31"
    using gs by (auto intro!: power_increasing [of _ 31 "2 :: nat", simplified])
  then have "g * gs + gs < 2 ^ 32"
    using g bounds(1) by (simp add: gs_def)
  from find_in_group_written [OF it(2,3) order_refl this]
  have "find_in_group (gs + 1) mem key it = Inr (found (take gs ?rest) key)"
    by simp
  then show ?thesis
    using that it(1) off count by simp
qed

lemma restart_keys_partitioned:
  fixes key :: bytes
  assumes sorted: "sorted_wrt (<) (map fst kvs)"
    and rk: "\<And>i. i < n \<Longrightarrow> i * gs < length kvs \<and> rk i = fst (kvs ! (i * gs))"
  shows "partitioned (\<lambda>i. \<not> key < rk i) 0 n"
  unfolding partitioned_def
proof (intro allI impI)
  fix i j assume ij: "0 \<le> i \<and> i \<le> j \<and> j < n \<and> \<not> key < rk j"
  then have "i * gs \<le> j * gs" "i * gs < length kvs" "j * gs < length kvs" "rk i = fst (kvs ! (i * gs))" "rk j = fst (kvs ! (j * gs))"
    using rk [of i] rk [of j] by auto
  then have "rk i \<le> rk j"
    using sorted_wrt_less_nth_mono [OF sorted, of "i * gs" "j * gs"] by simp
  then show "\<not> key < rk i" using ij by (meson order.strict_trans2)
qed

text \<open>The restart point a lookup starts from: the last one whose key is not greater.\<close>

definition restart_point :: "block_config \<Rightarrow> bytes \<Rightarrow> nat \<Rightarrow> (bytes \<times> bytes) list \<Rightarrow> bytes \<Rightarrow> nat" where
  "restart_point cfg mem base kvs key =
     upper_bound (\<lambda>key off. lexicographical_compare key (restart_key_at mem base off))
       (map of_nat (block_restart_offsets cfg kvs)) key"

lemma dec_find_eq:
  assumes holds: "holds_block xxh cfg (read_at mem base (block_size_in_bytes cfg)) kvs" and cfg: "config_ok cfg"
  shows "dec_find mem key (make_block_decoder mem base cfg) =
    (let r = restart_point cfg mem base kvs key; gs = restart_group_size cfg
     in if r = 0 then Inr []
        else case make_block_iterator mem
            (base + unat ((map of_nat (block_restart_offsets cfg kvs) :: u16 list) ! (r - 1))) (of_nat ((r - 1) * gs))
            (ucast (of_nat (length kvs) :: u16)) (of_nat gs) of
          Inl e \<Rightarrow> Inl e | Inr it \<Rightarrow> find_in_group (gs + 1) mem key it)"
  unfolding dec_find_def make_block_decoder_written [OF holds cfg] block_decoder.simps block_footer.simps
    option.case Let_def dec_find_offsets [OF holds cfg] restart_point_def
  by (rule refl)

lemma restart_offsets_nth:
  assumes "config_ok cfg"
  shows "i < length (block_restart_offsets cfg kvs) \<longleftrightarrow> i * restart_group_size cfg < length kvs"
    "i < length (block_restart_offsets cfg kvs) \<Longrightarrow>
       block_restart_offsets cfg kvs ! i = length (block_entries_image cfg (take (i * restart_group_size cfg) kvs))"
proof -
  have "0 < restart_group_size cfg" using assms by (auto simp: config_ok_def)
  from restart_offsets_eq [OF this, of kvs] groups_iff [OF this, of i "length kvs"]
  show "i < length (block_restart_offsets cfg kvs) \<longleftrightarrow> i * restart_group_size cfg < length kvs"
    "i < length (block_restart_offsets cfg kvs) \<Longrightarrow>
       block_restart_offsets cfg kvs ! i = length (block_entries_image cfg (take (i * restart_group_size cfg) kvs))"
    by simp_all
qed

lemma restart_point_spec:
  assumes holds: "holds_block xxh cfg (read_at mem base (block_size_in_bytes cfg)) kvs" and cfg: "config_ok cfg"
    and keys: "\<forall>kv \<in> set kvs. key_ok (fst kv)" and sorted: "sorted_wrt (<) (map fst kvs)"
  fixes key
  defines "r \<equiv> restart_point cfg mem base kvs key"
  shows "r \<le> length (block_restart_offsets cfg kvs)" "i < r \<Longrightarrow> fst (kvs ! (i * restart_group_size cfg)) \<le> key"
    "r \<le> i \<Longrightarrow> i * restart_group_size cfg < length kvs \<Longrightarrow> key < fst (kvs ! (i * restart_group_size cfg))"
proof -
  let ?gs = "restart_group_size cfg"
  let ?offs = "map of_nat (block_restart_offsets cfg kvs) :: u16 list"
  let ?lt = "\<lambda>key off. lexicographical_compare key (restart_key_at mem base off)"
  note nth = restart_offsets_nth [OF cfg, of _ kvs]
  obtain tail where "drop base mem = entries_image ?gs 0 [] kvs @ tail"
    using holds_block_layout(6) [OF holds cfg] by auto
  from restart_key_at_written [OF this]
  have rk: "restart_key_at mem base (?offs ! i) = fst (kvs ! (i * ?gs))" if "i < length ?offs" for i
    using that keys nth space_bounds(3) [of cfg kvs] holds cfg by (simp add: holds_block_def)
  have "partition_point (\<lambda>i. \<not> ?lt key (?offs ! i)) 0 (length ?offs) r"
    unfolding r_def restart_point_def
  proof (rule upper_bound_partition_point)
    show "partitioned (\<lambda>i. \<not> ?lt key (?offs ! i)) 0 (length ?offs)"
      unfolding lexicographical_compare_less
      by (rule restart_keys_partitioned [OF sorted, where gs = ?gs]) (use rk nth in simp)
  qed
  then show "r \<le> length (block_restart_offsets cfg kvs)" "i < r \<Longrightarrow> fst (kvs ! (i * ?gs)) \<le> key"
    "r \<le> i \<Longrightarrow> i * ?gs < length kvs \<Longrightarrow> key < fst (kvs ! (i * ?gs))"
    using rk [of i] nth [of i] by (auto simp: partition_point_def not_less)
qed

lemma dec_find_written:
  assumes holds: "holds_block xxh cfg (read_at mem base (block_size_in_bytes cfg)) kvs" and cfg: "config_ok cfg"
    and keys: "\<forall>kv \<in> set kvs. key_ok (fst kv)" and sorted: "sorted_wrt (<) (map fst kvs)"
  shows "dec_find mem key (make_block_decoder mem base cfg) = Inr (found kvs key)"
proof -
  let ?gs = "restart_group_size cfg"
  define r where "r = restart_point cfg mem base kvs key"
  note point = restart_point_spec [OF holds cfg keys sorted, where key = key, folded r_def]
  note nth = restart_offsets_nth [OF cfg, of _ kvs]
  show ?thesis
  proof (cases "r = 0")
    case True
    then have "kvs \<noteq> [] \<Longrightarrow> key < fst (kvs ! 0)"
      using point(3) [of 0] by simp
    then have "key \<notin> fst ` set kvs"
      using sorted by (cases kvs) auto
    then show ?thesis
      using True by (simp add: dec_find_eq [OF holds cfg] r_def found_absent)
  next
    case False
    then have g: "(r - 1) * ?gs < length kvs" "r - 1 < length (block_restart_offsets cfg kvs)"
      using point(1) nth(1) [of "r - 1"] by auto
    have "found kvs key = found (take ?gs (drop ((r - 1) * ?gs) kvs)) key"
    proof (rule found_group [OF sorted g(1)])
      show "fst (kvs ! ((r - 1) * ?gs)) \<le> key" using point(2) [of "r - 1"] False by simp
      have "(r - 1) * ?gs + ?gs = r * ?gs" using False by (cases r) simp_all
      then show "(r - 1) * ?gs + ?gs < length kvs \<Longrightarrow> key < fst (kvs ! ((r - 1) * ?gs + ?gs))"
        using point(3) [of r] by simp
    qed
    moreover obtain it where "make_block_iterator mem
        (base + unat (of_nat (length (entries_image ?gs 0 [] (take ((r - 1) * ?gs) kvs))) :: u16)) (of_nat ((r - 1) * ?gs))
        (ucast (of_nat (length kvs) :: u16)) (of_nat ?gs) = Inr it"
      "find_in_group (?gs + 1) mem key it = Inr (found (take ?gs (drop ((r - 1) * ?gs) kvs)) key)"
      using dec_find_group [OF holds cfg keys, of "r - 1" key] g by auto
    ultimately show ?thesis
      using False g(2) nth(2) [OF g(2)] unfolding dec_find_eq [OF holds cfg] r_def [symmetric] Let_def
      by (simp del: of_nat_mult)
  qed
qed

section \<open>A block written and read\<close>

primrec push_all :: "hash64 \<Rightarrow> (bytes \<times> bytes) list \<Rightarrow> enc_state \<Rightarrow> status \<times> enc_state" where
  "push_all xxh [] s = (ok, s)"
| "push_all xxh (kv # kvs) s =
     (case enc_push xxh (fst kv) (snd kv) s of
        (Inl e, s') \<Rightarrow> (Inl e, s')
      | (Inr _, s') \<Rightarrow> push_all xxh kvs s')"

definition write_block :: "hash64 \<Rightarrow> block_config \<Rightarrow> nat \<Rightarrow> bytes \<Rightarrow> (bytes \<times> bytes) list \<Rightarrow> bytes expected" where
  "write_block xxh cfg base mem kvs =
     (case push_all xxh kvs (make_block_encoder base cfg, mem) of
        (Inl e, _) \<Rightarrow> Inl e
      | (Inr _, s) \<Rightarrow> Inr (snd (enc_commit xxh s)))"

lemma block_space_mono: "block_space cfg xs \<le> block_space cfg (xs @ ys)"
  by (induction ys rule: rev_induct) (simp_all add: block_space_append flip: append_assoc)

lemma push_all_written:
  assumes "encoder_inv xs (e, mem)" "\<forall>kv \<in> set kvs. fst kv \<noteq> [] \<and> length (fst kv) \<le> MAX_KEY_LEN"
    and "block_space (e_cfg e) (xs @ kvs) \<le> block_size_in_bytes (e_cfg e)"
  shows "\<exists>e' mem'. push_all xxh kvs (e, mem) = (ok, e', mem') \<and> encoder_inv (xs @ kvs) (e', mem')
    \<and> e_base e' = e_base e \<and> e_cfg e' = e_cfg e
    \<and> same_outside (e_base e) (e_base e + block_size_in_bytes (e_cfg e)) mem mem'"
  using assms
proof (induction kvs arbitrary: xs e mem)
  case (Cons kv kvs)
  have "block_space (e_cfg e) (xs @ [(fst kv, snd kv)]) \<le> block_size_in_bytes (e_cfg e)"
    using block_space_mono [of "e_cfg e" "xs @ [kv]" kvs] Cons.prems(3) by simp
  then obtain e1 mem1 where push: "enc_push xxh (fst kv) (snd kv) (e, mem) = (ok, e1, mem1)"
      "encoder_inv (xs @ [(fst kv, snd kv)]) (e1, mem1)" "e_base e1 = e_base e" "e_cfg e1 = e_cfg e"
      "same_outside (e_base e) (e_base e + block_size_in_bytes (e_cfg e)) mem mem1"
    using enc_push_fits [OF Cons.prems(1), of "fst kv" "snd kv"] Cons.prems(2) by auto
  then show ?case
    using Cons.IH [of "xs @ [(fst kv, snd kv)]" e1 mem1] Cons.prems same_outside_trans by fastforce
qed simp

lemma write_block_holds:
  assumes cfg: "config_ok cfg" and mem: "base + block_size_in_bytes cfg \<le> length mem"
    and keys: "\<forall>kv \<in> set kvs. key_ok (fst kv)" and space: "block_space cfg kvs \<le> block_size_in_bytes cfg"
  obtains mem' where "write_block xxh cfg base mem kvs = Inr mem'"
    "holds_block xxh cfg (read_at mem' base (block_size_in_bytes cfg)) kvs"
    "same_outside base (base + block_size_in_bytes cfg) mem mem'"
proof -
  let ?e = "make_block_encoder base cfg"
  have e: "e_cfg ?e = cfg" "e_base ?e = base" by (simp_all add: make_block_encoder_def)
  have "\<forall>kv \<in> set kvs. fst kv \<noteq> [] \<and> length (fst kv) \<le> MAX_KEY_LEN"
    using keys by (auto simp: key_ok_def MIN_KEY_LEN_def)
  then obtain e1 mem1 where push: "push_all xxh kvs (?e, mem) = (ok, e1, mem1)" "encoder_inv kvs (e1, mem1)"
      "e_base e1 = base" "e_cfg e1 = cfg" "same_outside base (base + block_size_in_bytes cfg) mem mem1"
    using push_all_written [OF encoder_inv_new [OF cfg mem], of kvs xxh] space by (auto simp: e)
  obtain e2 mem2 where "enc_commit xxh (e1, mem1) = (e2, mem2)"
      "holds_block xxh cfg (read_at mem2 base (block_size_in_bytes cfg)) kvs"
      "same_outside base (base + block_size_in_bytes cfg) mem1 mem2"
    using enc_commit_holds_block [OF encoder_inv_commit_ready [OF push(2)]] push(3,4) by metis
  then show ?thesis
    using that push same_outside_trans by (fastforce simp: write_block_def)
qed

text \<open>
  C12: a block round trip. Whatever pairs with keys of at most 255 bytes are pushed into a block, as
  long as they fit, all pushes succeed, nothing outside the block is written, the block passes the
  checksum test, and the iterator visits exactly these pairs in this order.
\<close>

theorem block_round_trip:
  assumes "config_ok cfg" "base + block_size_in_bytes cfg \<le> length mem"
    and "\<forall>kv \<in> set kvs. key_ok (fst kv)" "block_space cfg kvs \<le> block_size_in_bytes cfg"
  shows "\<exists>mem' it. write_block xxh cfg base mem kvs = Inr mem'
    \<and> same_outside base (base + block_size_in_bytes cfg) mem mem'
    \<and> sanity_check xxh mem' (make_block_decoder mem' base cfg) = ok
    \<and> dec_begin mem' (make_block_decoder mem' base cfg) = Inr it
    \<and> drain it_at_end it_pair (read_next mem') (length kvs) it = Inr kvs"
proof -
  obtain mem' where mem': "write_block xxh cfg base mem kvs = Inr mem'"
    "holds_block xxh cfg (read_at mem' base (block_size_in_bytes cfg)) kvs"
    "same_outside base (base + block_size_in_bytes cfg) mem mem'"
    using write_block_holds [OF assms] .
  obtain it where it: "dec_begin mem' (make_block_decoder mem' base cfg) = Inr it"
    "block_iter_at mem' (restart_group_size cfg) 0 it kvs"
    using dec_begin_written [OF mem'(2) assms(1)] holds_block_pairs_ok [OF mem'(2) assms(1,3)] by blast
  have "drain it_at_end it_pair (read_next mem') (length kvs) it = Inr kvs"
    using it(2) by (intro bi.drain_rep [where gs = "restart_group_size cfg"]) (auto simp: block_iter_rep_def)
  then show ?thesis
    using mem' it(1) by (auto simp: sanity_check_def make_block_decoder_written [OF mem'(2) assms(1)])
qed

lemma sample_block_ok:
  defines "kvs \<equiv> [([1], [9]), ([1, 2], [8, 8])]"
  shows "\<forall>kv \<in> set kvs. key_ok (fst kv)" "sorted_wrt (<) (map fst kvs)"
    "block_space default_block_config kvs \<le> block_size_in_bytes default_block_config"
    "0 + block_size_in_bytes default_block_config \<le> length (replicate PAGE_SIZE_IN_BYTES 0)"
  by (simp_all add: kvs_def key_ok_def MIN_KEY_LEN_def MAX_KEY_LEN_def block_space_def default_block_config_def
      PAGE_SIZE_IN_BYTES_def entry_image_def restart_image_def delta_image_def value_image_def unsafe_varint.simps)

theorem block_round_trip_witness:
  "\<exists>mem' it. write_block (\<lambda>_ _. 5) default_block_config 0 (replicate PAGE_SIZE_IN_BYTES 0) [([1], [9]), ([1, 2], [8, 8])]
      = Inr mem' \<and> drain it_at_end it_pair (read_next mem') 2 it = Inr [([1], [9]), ([1, 2], [8, 8])]"
  using block_round_trip [OF config_ok_default sample_block_ok(4,1,3), of "\<lambda>_ _. 5"]
  by (auto simp: numeral_2_eq_2)

text \<open>
  C4: lookup in a block. In a block of pairs with strictly ascending keys of at most 255 bytes, the
  binary search over the restart points followed by the scan of one group returns the value of the
  key, and the empty span for a key that is not in the block.
\<close>

theorem block_find:
  assumes "config_ok cfg" "base + block_size_in_bytes cfg \<le> length mem"
    and "\<forall>kv \<in> set kvs. key_ok (fst kv)" "block_space cfg kvs \<le> block_size_in_bytes cfg"
    and "sorted_wrt (<) (map fst kvs)"
  shows "\<exists>mem'. write_block xxh cfg base mem kvs = Inr mem'
    \<and> dec_find mem' key (make_block_decoder mem' base cfg)
        = Inr (case map_of kvs key of None \<Rightarrow> [] | Some v \<Rightarrow> v)"
proof -
  obtain mem' where "write_block xxh cfg base mem kvs = Inr mem'"
    "holds_block xxh cfg (read_at mem' base (block_size_in_bytes cfg)) kvs"
    using write_block_holds [OF assms(1-4)] .
  then show ?thesis
    using dec_find_written [OF _ assms(1,3,5)] by (auto simp: found_def)
qed

theorem block_find_witness:
  "\<exists>mem'. write_block (\<lambda>_ _. 5) default_block_config 0 (replicate PAGE_SIZE_IN_BYTES 0) [([1], [9]), ([1, 2], [8, 8])]
      = Inr mem' \<and> dec_find mem' [1, 2] (make_block_decoder mem' 0 default_block_config) = Inr [8, 8]"
  using block_find [OF config_ok_default sample_block_ok(4,1,3,2), of "\<lambda>_ _. 5" "[1, 2]"] by auto

text \<open>
  The encoder accepts keys of 256 bytes, but a key of 256 bytes stored as a delta that shares no
  prefix with the key before it is lost: the reader finds the empty key, and the first bytes of the
  key in the place of the value.
\<close>

lemma delta_key_256_lost:
  assumes mem: "drop (it_head it) mem = delta_image [0] (replicate 256 1) v @ tail" and it: "it_key it = [0]"
  shows "\<exists>it'. read_delta_key mem it = Inr it' \<and> it_key it' = [] \<and> it_value it' = [1]"
proof -
  let ?h = "it_head it"
  have 256: "replicate 256 (1 :: byte) = 1 # 1 # replicate 254 1"
    using replicate_Suc [of 255 "1 :: byte"] replicate_Suc [of 254 "1 :: byte"] by simp
  have img: "drop ?h mem = [0, 0] @ value_image [1] @ replicate 254 1 @ value_image v @ tail"
    using mem by (simp add: delta_image_def value_image_def 256 unsafe_varint.simps [of 1] word_le_nat_alt)
  have bytes: "mem ! ?h = 0" "mem ! (?h + 1) = 0" "?h + 2 \<le> length mem"
    using drop_eq_append(2) [of ?h mem "[0]"] img drop_eq_append(3) [OF img]
    by (auto intro: nth_via_drop)
  have "drop (?h + 2) mem = value_image [1] @ replicate 254 1 @ value_image v @ tail"
    using drop_eq_append(2) [OF img] by simp
  then show ?thesis
    using bytes read_value_written [of "it\<lparr>it_key := [], it_head := ?h + 2\<rparr>" mem "[1]"]
    by (simp add: read_delta_key_def resize_def read_at_def)
qed

end
