(* ===== verification/Block_Buffer.thy ===== *)
theory Block_Buffer
  imports Block_Decoder
begin

text \<open>
  The block buffer writer and reader of \<^verbatim>\<open>src/db/block.h\<close>: a run of pages of one buffer, each a
  block. The writer moves to the next page when a pair does not fit, the reader when a block has
  been read. The callback \<open>on_end_of_block\<close> of the writer is a function on a state of the caller.
  The reader is a provider of the cursor interface.
\<close>

section \<open>The writer\<close>

record block_buffer_writer =
  w_begin :: nat
  w_cur :: nat
  w_end :: nat
  w_enc :: block_encoder

definition make_block_buffer_writer :: "nat \<Rightarrow> nat \<Rightarrow> block_buffer_writer" where
  "make_block_buffer_writer begin_ptr end_ptr =
     \<lparr>w_begin = begin_ptr, w_cur = begin_ptr, w_end = end_ptr,
      w_enc = make_block_encoder begin_ptr default_block_config\<rparr>"

definition writer_push ::
    "hash64 \<Rightarrow> (bytes \<Rightarrow> 's \<Rightarrow> 's) \<Rightarrow> bytes \<Rightarrow> bytes \<Rightarrow> block_buffer_writer \<times> bytes \<times> 's
      \<Rightarrow> status \<times> block_buffer_writer \<times> bytes \<times> 's" where
  "writer_push xxh on_end_of_block key v st = (case st of (w, mem, cb) \<Rightarrow>
     (case enc_push xxh key v (w_enc w, mem) of
        (Inr _, e, mem) \<Rightarrow> (ok, w\<lparr>w_enc := e\<rparr>, mem, cb)
      | (Inl err, e, mem) \<Rightarrow>
          (let cb = on_end_of_block (e_last_key e) cb
           in if w_cur w + PAGE_SIZE_IN_BYTES = w_end w then (Inl err, w\<lparr>w_enc := e\<rparr>, mem, cb)
              else
                (let cur = w_cur w + PAGE_SIZE_IN_BYTES
                 in case enc_push xxh key v (enc_reset cur e, mem) of
                      (s, e, mem) \<Rightarrow> (s, w\<lparr>w_cur := cur, w_enc := e\<rparr>, mem, cb)))))"

definition writer_reset :: "block_buffer_writer \<Rightarrow> block_buffer_writer" where
  "writer_reset w = w\<lparr>w_cur := w_begin w, w_enc := enc_reset (w_begin w) (w_enc w)\<rparr>"

definition writer_empty :: "block_buffer_writer \<Rightarrow> bool" where
  "writer_empty w \<longleftrightarrow> w_cur w = w_begin w \<and> e_kvs_count (w_enc w) = 0"

definition force_commit :: "hash64 \<Rightarrow> block_buffer_writer \<times> bytes \<Rightarrow> block_buffer_writer \<times> bytes" where
  "force_commit xxh st = (case st of (w, mem) \<Rightarrow>
     (case enc_commit xxh (w_enc w, mem) of (e, mem) \<Rightarrow> (w\<lparr>w_enc := e\<rparr>, mem)))"

definition writer_bytes_written :: "block_buffer_writer \<Rightarrow> nat" where
  "writer_bytes_written w = w_cur w - w_begin w + PAGE_SIZE_IN_BYTES"

section \<open>The reader\<close>

record block_buffer_reader =
  r_next :: nat
  r_end :: nat
  r_dec :: block_decoder
  r_it :: block_iterator
  r_skip_checksum :: bool

definition empty_block_iterator :: block_iterator where
  "empty_block_iterator =
     \<lparr>it_head = 0, it_kv_idx = 0, it_starting_kv_idx = 0, it_kvs_in_block_count = 0,
      it_restart_group_size = 0, it_key = [], it_value = []\<rparr>"

definition make_block_buffer_reader :: "bool \<Rightarrow> block_buffer_reader" where
  "make_block_buffer_reader skip_checksum =
     \<lparr>r_next = 0, r_end = 0, r_dec = default_block_decoder default_block_config,
      r_it = empty_block_iterator, r_skip_checksum = skip_checksum\<rparr>"

definition reader_reset :: "hash64 \<Rightarrow> bytes \<Rightarrow> nat \<Rightarrow> nat \<Rightarrow> block_buffer_reader \<Rightarrow> block_buffer_reader expected" where
  "reader_reset xxh mem begin_ptr end_ptr r =
     (let dec = dec_reset mem (Some begin_ptr) (r_dec r)
      in case dec_begin mem dec of
           Inl e \<Rightarrow> Inl e
         | Inr it \<Rightarrow>
             (let r = r\<lparr>r_next := begin_ptr + PAGE_SIZE_IN_BYTES, r_end := end_ptr, r_dec := dec, r_it := it\<rparr>
              in if r_skip_checksum r then Inr r
                 else case sanity_check xxh mem dec of Inl e \<Rightarrow> Inl e | Inr _ \<Rightarrow> Inr r))"

definition reader_make_new :: "hash64 \<Rightarrow> bytes \<Rightarrow> nat \<Rightarrow> nat \<Rightarrow> block_buffer_reader expected" where
  "reader_make_new xxh mem begin_ptr end_ptr =
     reader_reset xxh mem begin_ptr end_ptr (make_block_buffer_reader True)"

definition reader_next :: "hash64 \<Rightarrow> bytes \<Rightarrow> block_buffer_reader \<Rightarrow> block_buffer_reader expected" where
  "reader_next xxh mem r =
     (case read_next mem (r_it r) of
        Inl e \<Rightarrow> Inl e
      | Inr it \<Rightarrow>
          (if \<not> it_at_end it then Inr (r\<lparr>r_it := it\<rparr>)
           else if r_next r \<noteq> r_end r then
             (let dec = dec_reset mem (Some (r_next r)) (r_dec r)
              in case (if r_skip_checksum r then ok else sanity_check xxh mem dec) of
                   Inl e \<Rightarrow> Inl e
                 | Inr _ \<Rightarrow>
                     (case dec_begin mem dec of
                        Inl e \<Rightarrow> Inl e
                      | Inr it \<Rightarrow> Inr (r\<lparr>r_next := r_next r + PAGE_SIZE_IN_BYTES, r_dec := dec, r_it := it\<rparr>)))
           else Inr (r\<lparr>r_it := it\<rparr>)))"

definition reader_at_end :: "block_buffer_reader \<Rightarrow> bool" where
  "reader_at_end r \<longleftrightarrow> r_next r = r_end r \<and> it_at_end (r_it r)"

definition reader_pair :: "block_buffer_reader \<Rightarrow> bytes \<times> bytes" where
  "reader_pair r = it_pair (r_it r)"

section \<open>Pages of blocks\<close>

text \<open>\<open>pages_hold xxh mem base kvss\<close>: from \<open>base\<close> on, one page per list of pairs.\<close>

fun pages_hold :: "hash64 \<Rightarrow> bytes \<Rightarrow> nat \<Rightarrow> (bytes \<times> bytes) list list \<Rightarrow> bool" where
  "pages_hold xxh mem base [] = True"
| "pages_hold xxh mem base (kvs # kvss) =
     (holds_block xxh default_block_config (read_at mem base PAGE_SIZE_IN_BYTES) kvs
      \<and> (\<forall>kv \<in> set kvs. key_ok (fst kv)) \<and> pages_hold xxh mem (base + PAGE_SIZE_IN_BYTES) kvss)"

lemma pages_hold_append:
  "pages_hold xxh mem base (xs @ ys) \<longleftrightarrow>
     pages_hold xxh mem base xs \<and> pages_hold xxh mem (base + PAGE_SIZE_IN_BYTES * length xs) ys"
  by (induction xs arbitrary: base) (simp_all add: add.assoc)

lemma pages_hold_same_outside:
  assumes "pages_hold xxh mem base kvss" "same_outside lo hi mem mem'" "base + PAGE_SIZE_IN_BYTES * length kvss \<le> lo"
  shows "pages_hold xxh mem' base kvss"
  using assms
proof (induction kvss arbitrary: base)
  case (Cons kvs kvss)
  then have "read_at mem' base PAGE_SIZE_IN_BYTES = read_at mem base PAGE_SIZE_IN_BYTES"
    by (intro read_at_same_outside) auto
  then show ?case using Cons by (simp add: add.assoc)
qed simp

section \<open>The reader visits the pairs of all pages\<close>

lemma page_size_default [simp]: "block_size_in_bytes default_block_config = PAGE_SIZE_IN_BYTES"
  by (simp add: default_block_config_def)

lemma dec_reset_written:
  assumes "d_cfg d = cfg"
  shows "dec_reset mem (Some base) d = make_block_decoder mem base cfg"
  using assms by (cases d) (simp add: dec_reset_def make_block_decoder_def read_footer_def)

lemma page_begin:
  assumes "holds_block xxh default_block_config (read_at mem base PAGE_SIZE_IN_BYTES) kvs"
    and "\<forall>kv \<in> set kvs. key_ok (fst kv)" and "d_cfg d = default_block_config"
  obtains it where "dec_begin mem (dec_reset mem (Some base) d) = Inr it"
    "block_iter_rep mem (restart_group_size default_block_config) it kvs"
    "sanity_check xxh mem (dec_reset mem (Some base) d) = ok"
    "d_cfg (dec_reset mem (Some base) d) = default_block_config"
proof -
  have holds: "holds_block xxh default_block_config (read_at mem base (block_size_in_bytes default_block_config)) kvs"
    using assms(1) by simp
  obtain it where "dec_begin mem (make_block_decoder mem base default_block_config) = Inr it"
    "block_iter_at mem (restart_group_size default_block_config) 0 it kvs"
    using dec_begin_written [OF holds] holds_block_pairs_ok [OF holds _ assms(2)] by auto
  then show ?thesis
    using that assms(3) make_block_decoder_written [OF holds]
    by (auto simp: dec_reset_written block_iter_rep_def sanity_check_def)
qed

text \<open>
  A reader stands for the rest of the block it is in and the pairs of the pages that follow. No
  page is empty.
\<close>

definition reader_rep :: "hash64 \<Rightarrow> bytes \<Rightarrow> block_buffer_reader \<Rightarrow> (bytes \<times> bytes) list \<Rightarrow> bool" where
  "reader_rep xxh mem r xs \<longleftrightarrow>
     (\<exists>kvs kvss. xs = kvs @ concat kvss \<and> (kvs = [] \<longrightarrow> kvss = []) \<and> [] \<notin> set kvss
        \<and> block_iter_rep mem (restart_group_size default_block_config) (r_it r) kvs
        \<and> pages_hold xxh mem (r_next r) kvss
        \<and> r_end r = r_next r + PAGE_SIZE_IN_BYTES * length kvss
        \<and> d_cfg (r_dec r) = default_block_config)"

lemma block_iter_rep_end: "block_iter_rep mem gs it kvs \<Longrightarrow> it_at_end it \<longleftrightarrow> kvs = []"
  using block_iter_at_end by (auto simp: block_iter_rep_def)

lemma reader_rep_Cons:
  assumes "reader_rep xxh mem r (x # xs)"
  obtains kvs kvss where "xs = kvs @ concat kvss" "[] \<notin> set kvss"
    "block_iter_rep mem (restart_group_size default_block_config) (r_it r) (x # kvs)"
    "pages_hold xxh mem (r_next r) kvss" "r_end r = r_next r + PAGE_SIZE_IN_BYTES * length kvss"
    "d_cfg (r_dec r) = default_block_config"
proof -
  obtain kvs kvss where rep: "x # xs = kvs @ concat kvss" "kvs = [] \<longrightarrow> kvss = []" "[] \<notin> set kvss"
      "block_iter_rep mem (restart_group_size default_block_config) (r_it r) kvs"
      "pages_hold xxh mem (r_next r) kvss" "r_end r = r_next r + PAGE_SIZE_IN_BYTES * length kvss"
      "d_cfg (r_dec r) = default_block_config"
    using assms by (auto simp: reader_rep_def)
  then have "kvs = x # tl kvs" by (cases kvs) auto
  then show ?thesis using that rep by (metis append_Cons list.inject)
qed

lemma page_size_pos [simp]: "0 < PAGE_SIZE_IN_BYTES"
  by (simp add: PAGE_SIZE_IN_BYTES_def)

lemma reader_rep_next:
  assumes "reader_rep xxh mem r (x # xs)"
  shows "\<exists>r'. reader_next xxh mem r = Inr r' \<and> reader_rep xxh mem r' xs"
proof -
  obtain kvs kvss where xs: "xs = kvs @ concat kvss" "[] \<notin> set kvss"
    and it: "block_iter_rep mem (restart_group_size default_block_config) (r_it r) (x # kvs)"
    and pages: "pages_hold xxh mem (r_next r) kvss" "r_end r = r_next r + PAGE_SIZE_IN_BYTES * length kvss"
    and cfg: "d_cfg (r_dec r) = default_block_config"
    using reader_rep_Cons [OF assms] .
  obtain it' where it': "read_next mem (r_it r) = Inr it'"
      "block_iter_rep mem (restart_group_size default_block_config) it' kvs"
    using bi.rep_next [OF it] by blast
  note at_end = block_iter_rep_end [OF it'(2)]
  show ?thesis
  proof (cases "kvs = [] \<and> kvss \<noteq> []")
    case False
    then have "reader_next xxh mem r = Inr (r\<lparr>r_it := it'\<rparr>)"
      using it'(1) at_end pages(2) by (auto simp: reader_next_def)
    moreover have "reader_rep xxh mem (r\<lparr>r_it := it'\<rparr>) xs"
      using False xs it'(2) pages cfg unfolding reader_rep_def by (intro exI [of _ kvs] exI [of _ kvss]) auto
    ultimately show ?thesis by blast
  next
    case True
    then obtain ks kss where kss: "kvss = ks # kss" by (cases kvss) auto
    obtain it2 where it2: "dec_begin mem (dec_reset mem (Some (r_next r)) (r_dec r)) = Inr it2"
      "block_iter_rep mem (restart_group_size default_block_config) it2 ks"
      "sanity_check xxh mem (dec_reset mem (Some (r_next r)) (r_dec r)) = ok"
      "d_cfg (dec_reset mem (Some (r_next r)) (r_dec r)) = default_block_config"
      using page_begin [of xxh mem "r_next r" ks "r_dec r"] pages(1) cfg kss by auto
    let ?r = "r\<lparr>r_next := r_next r + PAGE_SIZE_IN_BYTES, r_dec := dec_reset mem (Some (r_next r)) (r_dec r), r_it := it2\<rparr>"
    have "reader_next xxh mem r = Inr ?r"
      using True it'(1) at_end pages(2) it2 kss by (simp add: reader_next_def Let_def)
    moreover have "reader_rep xxh mem ?r xs"
      using True xs kss it2 pages unfolding reader_rep_def by (intro exI [of _ ks] exI [of _ kss]) auto
    ultimately show ?thesis by blast
  qed
qed

interpretation br: cursor reader_at_end reader_pair "reader_next xxh mem" "reader_rep xxh mem" for xxh mem
proof
  fix r x xs
  show "reader_rep xxh mem r [] \<Longrightarrow> reader_at_end r"
    using block_iter_rep_end by (fastforce simp: reader_rep_def reader_at_end_def)
  show "reader_rep xxh mem r (x # xs) \<Longrightarrow> \<not> reader_at_end r \<and> reader_pair r = x"
    by (erule reader_rep_Cons) (simp add: reader_at_end_def reader_pair_def bi.rep_Cons block_iter_rep_end)
  show "reader_rep xxh mem r (x # xs) \<Longrightarrow> \<exists>r'. reader_next xxh mem r = Inr r' \<and> reader_rep xxh mem r' xs"
    by (rule reader_rep_next)
qed

lemma reader_reset_rep:
  assumes "pages_hold xxh mem begin_ptr (kvs # kvss)" "[] \<notin> set (kvs # kvss)" "d_cfg (r_dec r) = default_block_config"
  obtains r' where "reader_reset xxh mem begin_ptr (begin_ptr + PAGE_SIZE_IN_BYTES * length (kvs # kvss)) r = Inr r'"
    "reader_rep xxh mem r' (kvs @ concat kvss)"
proof -
  obtain it where it: "dec_begin mem (dec_reset mem (Some begin_ptr) (r_dec r)) = Inr it"
    "block_iter_rep mem (restart_group_size default_block_config) it kvs"
    "sanity_check xxh mem (dec_reset mem (Some begin_ptr) (r_dec r)) = ok"
    "d_cfg (dec_reset mem (Some begin_ptr) (r_dec r)) = default_block_config"
    using page_begin [of xxh mem begin_ptr kvs "r_dec r"] assms by auto
  let ?r = "r\<lparr>r_next := begin_ptr + PAGE_SIZE_IN_BYTES, r_end := begin_ptr + PAGE_SIZE_IN_BYTES * length (kvs # kvss),
    r_dec := dec_reset mem (Some begin_ptr) (r_dec r), r_it := it\<rparr>"
  have "reader_reset xxh mem begin_ptr (begin_ptr + PAGE_SIZE_IN_BYTES * length (kvs # kvss)) r = Inr ?r"
    using it by (simp add: reader_reset_def Let_def)
  moreover have "reader_rep xxh mem ?r (kvs @ concat kvss)"
    using it assms unfolding reader_rep_def by (intro exI [of _ kvs] exI [of _ kvss]) auto
  ultimately show ?thesis by (rule that)
qed

section \<open>The writer fills pages\<close>

text \<open>
  The writer has finished the pages \<open>kvss\<close> of its \<open>n\<close> pages and pushed the pairs \<open>cur\<close> into the
  page after them.
\<close>

definition writer_inv ::
    "hash64 \<Rightarrow> nat \<Rightarrow> block_buffer_writer \<Rightarrow> bytes \<Rightarrow> (bytes \<times> bytes) list list \<Rightarrow> (bytes \<times> bytes) list \<Rightarrow> bool" where
  "writer_inv xxh n w mem kvss cur \<longleftrightarrow>
     w_end w = w_begin w + PAGE_SIZE_IN_BYTES * n \<and> w_end w \<le> length mem
     \<and> w_cur w = w_begin w + PAGE_SIZE_IN_BYTES * length kvss \<and> length kvss < n
     \<and> pages_hold xxh mem (w_begin w) kvss \<and> [] \<notin> set kvss
     \<and> encoder_inv cur (w_enc w, mem) \<and> e_base (w_enc w) = w_cur w
     \<and> e_cfg (w_enc w) = default_block_config \<and> (\<forall>kv \<in> set cur. key_ok (fst kv))"

definition page_fits :: "bytes \<times> bytes \<Rightarrow> bool" where
  "page_fits kv \<longleftrightarrow> key_ok (fst kv) \<and> block_space default_block_config [kv] \<le> PAGE_SIZE_IN_BYTES"

lemma key_ok_push: "key_ok key \<Longrightarrow> key \<noteq> [] \<and> length key \<le> MAX_KEY_LEN"
  by (auto simp: key_ok_def MIN_KEY_LEN_def)

lemma writer_inv_new:
  assumes "0 < n" "begin_ptr + PAGE_SIZE_IN_BYTES * n \<le> length mem"
  shows "writer_inv xxh n (make_block_buffer_writer begin_ptr (begin_ptr + PAGE_SIZE_IN_BYTES * n)) mem [] []"
proof -
  have "begin_ptr + block_size_in_bytes default_block_config \<le> length mem"
    using assms by (cases n) auto
  from encoder_inv_new [OF config_ok_default this] assms show ?thesis
    by (simp add: writer_inv_def make_block_buffer_writer_def make_block_encoder_def)
qed

lemma writer_enc_push:
  assumes inv: "writer_inv xxh n w mem kvss cur" and key: "key_ok key"
    and fits: "block_space default_block_config (cur @ [(key, v)]) \<le> PAGE_SIZE_IN_BYTES"
  obtains e' mem' where "enc_push xxh key v (w_enc w, mem) = (ok, e', mem')"
    "writer_inv xxh n (w\<lparr>w_enc := e'\<rparr>) mem' kvss (cur @ [(key, v)])" "length mem' = length mem"
proof -
  have enc: "encoder_inv cur (w_enc w, mem)" "e_cfg (w_enc w) = default_block_config" "e_base (w_enc w) = w_cur w"
    using inv by (simp_all add: writer_inv_def)
  obtain e' mem' where push: "enc_push xxh key v (w_enc w, mem) = (ok, e', mem')"
    "encoder_inv (cur @ [(key, v)]) (e', mem')" "e_base e' = w_cur w" "e_cfg e' = default_block_config"
    "same_outside (w_cur w) (w_cur w + PAGE_SIZE_IN_BYTES) mem mem'"
    using enc_push_fits [OF enc(1), of key v] key_ok_push [OF key] fits enc by auto
  have "pages_hold xxh mem' (w_begin w) kvss"
    using inv by (intro pages_hold_same_outside [OF _ push(5)]) (auto simp: writer_inv_def)
  then show ?thesis
    using that push inv key by (auto simp: writer_inv_def same_outside_def)
qed

lemma writer_push_fits:
  assumes inv: "writer_inv xxh n w mem kvss cur" and key: "key_ok key"
    and fits: "block_space default_block_config (cur @ [(key, v)]) \<le> PAGE_SIZE_IN_BYTES"
  shows "\<exists>w' mem'. writer_push xxh on_end key v (w, mem, cb) = (ok, w', mem', cb)
    \<and> writer_inv xxh n w' mem' kvss (cur @ [(key, v)]) \<and> w_begin w' = w_begin w
    \<and> length mem' = length mem"
  by (rule writer_enc_push [OF inv key fits]) (auto simp: writer_push_def)

text \<open>
  After a pair was refused because the last page is full, the encoder is committed and the buffer
  is to be flushed; the flush commits once more.
\<close>

definition writer_ready ::
    "hash64 \<Rightarrow> nat \<Rightarrow> block_buffer_writer \<Rightarrow> bytes \<Rightarrow> (bytes \<times> bytes) list list \<Rightarrow> (bytes \<times> bytes) list \<Rightarrow> bool" where
  "writer_ready xxh n w mem kvss cur \<longleftrightarrow>
     w_end w = w_begin w + PAGE_SIZE_IN_BYTES * n \<and> w_end w \<le> length mem
     \<and> w_cur w = w_begin w + PAGE_SIZE_IN_BYTES * length kvss \<and> length kvss < n
     \<and> pages_hold xxh mem (w_begin w) kvss \<and> [] \<notin> set kvss
     \<and> commit_ready cur (w_enc w, mem) \<and> e_base (w_enc w) = w_cur w
     \<and> e_cfg (w_enc w) = default_block_config \<and> (\<forall>kv \<in> set cur. key_ok (fst kv))"

lemma writer_inv_ready: "writer_inv xxh n w mem kvss cur \<Longrightarrow> writer_ready xxh n w mem kvss cur"
  by (simp add: writer_inv_def writer_ready_def encoder_inv_commit_ready)

lemma writer_commit_page:
  assumes inv: "writer_ready xxh n w mem kvss cur"
  obtains e' mem' where "enc_commit xxh (w_enc w, mem) = (e', mem')"
    "pages_hold xxh mem' (w_begin w) (kvss @ [cur])" "length mem' = length mem"
    "e_cfg e' = default_block_config" "e_last_key e' = last_key_of [] cur"
    "writer_ready xxh n (w\<lparr>w_enc := e'\<rparr>) mem' kvss cur"
proof -
  have enc: "commit_ready cur (w_enc w, mem)" "e_cfg (w_enc w) = default_block_config" "e_base (w_enc w) = w_cur w"
    using inv by (simp_all add: writer_ready_def)
  have last: "e_last_key (w_enc w) = last_key_of [] cur"
    using enc(1) by (simp add: commit_ready_def)
  obtain e' mem' where commit: "enc_commit xxh (w_enc w, mem) = (e', mem')"
    "holds_block xxh default_block_config (read_at mem' (w_cur w) PAGE_SIZE_IN_BYTES) cur"
    "e_cfg e' = default_block_config" "e_last_key e' = last_key_of [] cur"
    "same_outside (w_cur w) (w_cur w + PAGE_SIZE_IN_BYTES) mem mem'"
    "commit_ready cur (e', mem')" "e_base e' = w_cur w"
    using enc_commit_holds_block [OF enc(1), of xxh, unfolded enc(2,3) last page_size_default] by blast
  have pages: "pages_hold xxh mem' (w_begin w) kvss"
    using inv by (intro pages_hold_same_outside [OF _ commit(5)]) (auto simp: writer_ready_def)
  moreover have "writer_ready xxh n (w\<lparr>w_enc := e'\<rparr>) mem' kvss cur"
    using inv commit pages by (simp add: writer_ready_def same_outside_def)
  ultimately show ?thesis
    using commit inv by (intro that [OF commit(1)]) (auto simp: pages_hold_append writer_ready_def same_outside_def)
qed

lemma writer_push_page_full:
  assumes inv: "writer_inv xxh n w mem kvss cur" and kv: "page_fits (key, v)"
    and full: "PAGE_SIZE_IN_BYTES < block_space default_block_config (cur @ [(key, v)])"
  shows "\<exists>w' mem'. w_begin w' = w_begin w \<and> length mem' = length mem \<and>
    (if Suc (length kvss) = n
     then writer_push xxh on_end key v (w, mem, cb)
         = (Inl (Error [] BUFFER_FULL), w', mem', on_end (last_key_of [] cur) cb)
       \<and> writer_ready xxh n w' mem' kvss cur
     else writer_push xxh on_end key v (w, mem, cb) = (ok, w', mem', on_end (last_key_of [] cur) cb)
       \<and> writer_inv xxh n w' mem' (kvss @ [cur]) [(key, v)])"
proof -
  have key: "key_ok key" and alone: "block_space default_block_config [(key, v)] \<le> PAGE_SIZE_IN_BYTES"
    using kv by (simp_all add: page_fits_def)
  have enc: "encoder_inv cur (w_enc w, mem)" "e_cfg (w_enc w) = default_block_config"
    using inv by (simp_all add: writer_inv_def)
  obtain e1 mem1 where commit: "enc_commit xxh (w_enc w, mem) = (e1, mem1)"
    "pages_hold xxh mem1 (w_begin w) (kvss @ [cur])" "length mem1 = length mem"
    "e_cfg e1 = default_block_config" "e_last_key e1 = last_key_of [] cur"
    "writer_ready xxh n (w\<lparr>w_enc := e1\<rparr>) mem1 kvss cur"
    using writer_commit_page [OF writer_inv_ready [OF inv]] .
  have push: "enc_push xxh key v (w_enc w, mem) = (Inl (Error [] BUFFER_FULL), e1, mem1)"
    using enc_push_full [OF enc(1), of key v xxh] key_ok_push [OF key] full enc(2) commit(1) by simp
  show ?thesis
  proof (cases "Suc (length kvss) = n")
    case True
    then have "w_cur w + PAGE_SIZE_IN_BYTES = w_end w"
      using inv by (auto simp: writer_inv_def)
    then show ?thesis
      using True push commit by (auto simp: writer_push_def)
  next
    case False
    let ?cur = "w_cur w + PAGE_SIZE_IN_BYTES"
    let ?w = "w\<lparr>w_cur := ?cur, w_enc := make_block_encoder ?cur default_block_config\<rparr>"
    have more: "Suc (length kvss) < n"
      using False inv by (auto simp: writer_inv_def)
    then have room: "?cur + PAGE_SIZE_IN_BYTES \<le> w_end w" "?cur \<noteq> w_end w"
      using inv mult_le_mono2 [of "Suc (Suc (length kvss))" n PAGE_SIZE_IN_BYTES] page_size_pos
      by (auto simp: writer_inv_def simp del: page_size_pos)
    have "cur \<noteq> []" using full alone by auto
    have "encoder_inv [] (make_block_encoder ?cur default_block_config, mem1)"
      using inv commit(3) room(1) by (intro encoder_inv_new config_ok_default) (auto simp: writer_inv_def)
    then have winv: "writer_inv xxh n ?w mem1 (kvss @ [cur]) []"
      using inv commit more \<open>cur \<noteq> []\<close> by (simp add: writer_inv_def make_block_encoder_def)
    obtain e' mem' where "enc_push xxh key v (w_enc ?w, mem1) = (ok, e', mem')"
        "writer_inv xxh n (?w\<lparr>w_enc := e'\<rparr>) mem' (kvss @ [cur]) ([] @ [(key, v)])"
        "length mem' = length mem1"
      using writer_enc_push [OF winv key] alone by auto
    then show ?thesis
      using False room(2) push commit by (auto simp: writer_push_def enc_reset_eq Let_def)
  qed
qed

text \<open>A client of the writer: push a list of pairs, noting the keys reported at the ends of blocks.\<close>

primrec writer_push_all ::
    "hash64 \<Rightarrow> (bytes \<times> bytes) list \<Rightarrow> block_buffer_writer \<times> bytes \<times> bytes list
      \<Rightarrow> status \<times> block_buffer_writer \<times> bytes \<times> bytes list" where
  "writer_push_all xxh [] st = (ok, st)"
| "writer_push_all xxh (kv # kvs) st =
     (case writer_push xxh (\<lambda>k ks. ks @ [k]) (fst kv) (snd kv) st of
        (Inl e, st') \<Rightarrow> (Inl e, st')
      | (Inr _, st') \<Rightarrow> writer_push_all xxh kvs st')"

lemma writer_push_step:
  assumes inv: "writer_inv xxh n w mem kvss cur" and kv: "page_fits kv" and room: "Suc (length kvss) < n"
  obtains w' mem' kvss' cur' where
    "writer_push xxh (\<lambda>k ks. ks @ [k]) (fst kv) (snd kv) (w, mem, map (last_key_of []) kvss)
      = (ok, w', mem', map (last_key_of []) kvss')"
    "writer_inv xxh n w' mem' kvss' cur'" "w_begin w' = w_begin w" "length kvss' \<le> Suc (length kvss)"
    "concat kvss' @ cur' = concat kvss @ cur @ [kv]" "cur' \<noteq> []"
proof (cases "block_space default_block_config (cur @ [(fst kv, snd kv)]) \<le> PAGE_SIZE_IN_BYTES")
  case True
  then show ?thesis
    using writer_push_fits [OF inv _ True, of "\<lambda>k ks. ks @ [k]" "map (last_key_of []) kvss"] kv that
    by (auto simp: page_fits_def)
next
  case False
  then show ?thesis
    using writer_push_page_full [OF inv, of "fst kv" "snd kv" "\<lambda>k ks. ks @ [k]" "map (last_key_of []) kvss"]
      kv room that [of _ _ "kvss @ [cur]" "[kv]"]
    by (auto simp: page_fits_def)
qed

lemma writer_push_all_written:
  assumes "writer_inv xxh n w mem kvss cur" "\<forall>kv \<in> set kvs. page_fits kv" "length kvss + length kvs < n"
    and "kvs = [] \<longrightarrow> cur \<noteq> []"
  shows "\<exists>w' mem' kvss' cur'. writer_push_all xxh kvs (w, mem, map (last_key_of []) kvss)
      = (ok, w', mem', map (last_key_of []) kvss')
    \<and> writer_inv xxh n w' mem' kvss' cur' \<and> w_begin w' = w_begin w
    \<and> concat kvss' @ cur' = concat kvss @ cur @ kvs \<and> cur' \<noteq> []"
  using assms
proof (induction kvs arbitrary: w mem kvss cur)
  case (Cons kv kvs)
  have room: "Suc (length kvss) < n" and kv: "page_fits kv" using Cons.prems(2,3) by simp_all
  obtain w1 mem1 kvss1 cur1 where step:
    "writer_push xxh (\<lambda>k ks. ks @ [k]) (fst kv) (snd kv) (w, mem, map (last_key_of []) kvss)
      = (ok, w1, mem1, map (last_key_of []) kvss1)"
    "writer_inv xxh n w1 mem1 kvss1 cur1" "w_begin w1 = w_begin w" "length kvss1 \<le> Suc (length kvss)"
    "concat kvss1 @ cur1 = concat kvss @ cur @ [kv]" "cur1 \<noteq> []"
    using writer_push_step [OF Cons.prems(1) kv room] .
  have all: "concat kvss1 @ cur1 @ kvs = concat kvss @ cur @ kv # kvs"
    using arg_cong [OF step(5), of "\<lambda>xs. xs @ kvs"] by simp
  have "length kvss1 + length kvs < n" "\<forall>kv \<in> set kvs. page_fits kv"
    using Cons.prems(2,3) step(4) by simp_all
  from Cons.IH [OF step(2) this(2,1)] step(1,3,6) show ?case
    unfolding all by simp
qed auto

text \<open>A client of the reader: from a reset on a run of pages to the end of it.\<close>

definition read_pages :: "hash64 \<Rightarrow> bytes \<Rightarrow> bool \<Rightarrow> nat \<Rightarrow> nat \<Rightarrow> nat \<Rightarrow> (bytes \<times> bytes) list expected" where
  "read_pages xxh mem skip_checksum begin_ptr end_ptr fuel =
     (case reader_reset xxh mem begin_ptr end_ptr (make_block_buffer_reader skip_checksum) of
        Inl e \<Rightarrow> Inl e
      | Inr r \<Rightarrow> drain reader_at_end reader_pair (reader_next xxh mem) fuel r)"

lemma read_pages_hold:
  assumes "pages_hold xxh mem base kvss" "[] \<notin> set kvss" "kvss \<noteq> []" "length (concat kvss) \<le> fuel"
  shows "read_pages xxh mem skip base (base + PAGE_SIZE_IN_BYTES * length kvss) fuel = Inr (concat kvss)"
proof -
  obtain p ps where pages: "kvss = p # ps" using assms(3) by (cases kvss) auto
  obtain r where r: "reader_reset xxh mem base (base + PAGE_SIZE_IN_BYTES * length kvss) (make_block_buffer_reader skip) = Inr r"
      "reader_rep xxh mem r (concat kvss)"
    using reader_reset_rep [OF assms(1,2) [unfolded pages], of "make_block_buffer_reader skip"]
    unfolding pages by (auto simp: make_block_buffer_reader_def default_block_decoder_def)
  then show ?thesis using br.drain_rep [OF r(2) assms(4)] by (simp add: read_pages_def)
qed

lemma read_one_page:
  assumes "pages_hold xxh mem base kvss" "[] \<notin> set kvss" "p < length kvss" "length (concat kvss) \<le> fuel"
  shows "read_pages xxh mem skip (base + PAGE_SIZE_IN_BYTES * p) (base + PAGE_SIZE_IN_BYTES * Suc p) fuel = Inr (kvss ! p)"
proof -
  have split: "kvss = take p kvss @ [kvss ! p] @ drop (Suc p) kvss" using id_take_nth_drop [OF assms(3)] by simp
  have "pages_hold xxh mem base (take p kvss @ [kvss ! p] @ drop (Suc p) kvss)" using assms(1) split by simp
  then have "pages_hold xxh mem (base + PAGE_SIZE_IN_BYTES * p) [kvss ! p]"
    using assms(3) unfolding pages_hold_append by simp
  moreover have "length (kvss ! p) \<le> length (concat kvss)"
    using arg_cong [OF split, of "\<lambda>xs. length (concat xs)"] by simp
  moreover have "kvss ! p \<noteq> []" using assms(2,3) by (metis nth_mem)
  ultimately show ?thesis
    using read_pages_hold [of xxh mem "base + PAGE_SIZE_IN_BYTES * p" "[kvss ! p]" fuel skip] assms(4)
    by (simp add: ac_simps)
qed

text \<open>
  C15: Pages written and read. Non-empty lists of pairs that each fit in a page are all accepted by
  the writer when it has a page per pair, over however many pages they spread. The reader, with or
  without checking checksums, visits from the first to the last written page exactly these pairs in
  order; each page read alone gives its part of them; and the callback was called once for every page
  but the one that \<open>force_commit\<close> finishes, in order, with the last key that this page holds.
\<close>

theorem block_buffer_round_trip:
  assumes kvs: "kvs \<noteq> []" "\<forall>kv \<in> set kvs. page_fits kv" and n: "length kvs < n"
    and mem: "base + PAGE_SIZE_IN_BYTES * n \<le> length mem"
  shows "\<exists>w1 mem1 w2 mem2 last_keys pages.
    writer_push_all xxh kvs (make_block_buffer_writer base (base + PAGE_SIZE_IN_BYTES * n), mem, []) = (ok, w1, mem1, last_keys)
    \<and> force_commit xxh (w1, mem1) = (w2, mem2)
    \<and> writer_bytes_written w2 = PAGE_SIZE_IN_BYTES * length pages
    \<and> read_pages xxh mem2 skip base (base + writer_bytes_written w2) (length kvs) = Inr kvs
    \<and> (\<forall>p < length pages. read_pages xxh mem2 skip (base + PAGE_SIZE_IN_BYTES * p) (base + PAGE_SIZE_IN_BYTES * Suc p) (length kvs)
         = Inr (pages ! p) \<and> pages ! p \<noteq> [])
    \<and> concat pages = kvs \<and> last_keys = map (\<lambda>page. fst (last page)) (butlast pages)"
proof -
  let ?w = "make_block_buffer_writer base (base + PAGE_SIZE_IN_BYTES * n)"
  have "writer_inv xxh n ?w mem [] []"
    using n mem by (intro writer_inv_new) auto
  from writer_push_all_written [OF this kvs(2)] kvs(1) n
  obtain w1 mem1 kvss cur where push:
      "writer_push_all xxh kvs (?w, mem, []) = (ok, w1, mem1, map (last_key_of []) kvss)"
      "writer_inv xxh n w1 mem1 kvss cur" "w_begin w1 = base" "concat kvss @ cur = kvs" "cur \<noteq> []"
    by (auto simp: make_block_buffer_writer_def)
  obtain e mem2 where commit: "enc_commit xxh (w_enc w1, mem1) = (e, mem2)"
      "pages_hold xxh mem2 base (kvss @ [cur])"
    using writer_commit_page [OF writer_inv_ready [OF push(2)], unfolded push(3)] by blast
  let ?pages = "kvss @ [cur]"
  have nonempty: "[] \<notin> set ?pages" and written:
      "writer_bytes_written (w1\<lparr>w_enc := e\<rparr>) = PAGE_SIZE_IN_BYTES * length ?pages"
    using push by (auto simp: writer_inv_def writer_bytes_written_def)
  have all: "concat ?pages = kvs" using push(4) by simp
  have len: "length (concat ?pages) \<le> length kvs" unfolding all ..
  show ?thesis
  proof (intro exI conjI allI impI)
    show "writer_push_all xxh kvs (?w, mem, []) = (ok, w1, mem1, map (last_key_of []) kvss)" by (rule push(1))
    show "force_commit xxh (w1, mem1) = (w1\<lparr>w_enc := e\<rparr>, mem2)" by (simp add: force_commit_def commit(1))
    show "writer_bytes_written (w1\<lparr>w_enc := e\<rparr>) = PAGE_SIZE_IN_BYTES * length ?pages" by (rule written)
    show "read_pages xxh mem2 skip base (base + writer_bytes_written (w1\<lparr>w_enc := e\<rparr>)) (length kvs) = Inr kvs"
      using read_pages_hold [OF commit(2) nonempty _ len] unfolding all written by simp
    show "concat ?pages = kvs" by (rule all)
    show "map (last_key_of []) kvss = map (\<lambda>page. fst (last page)) (butlast ?pages)"
      using nonempty by (auto simp: last_key_of_def)
    fix p assume p: "p < length ?pages"
    show "read_pages xxh mem2 skip (base + PAGE_SIZE_IN_BYTES * p) (base + PAGE_SIZE_IN_BYTES * Suc p) (length kvs)
        = Inr (?pages ! p)" by (rule read_one_page [OF commit(2) nonempty p len])
    show "?pages ! p \<noteq> []" using nonempty p by (metis nth_mem)
  qed
qed

lemma sample_page_fits: "page_fits ([1], [9])"
  by (simp add: page_fits_def key_ok_def MIN_KEY_LEN_def MAX_KEY_LEN_def block_space_def entry_image_def
      restart_image_def value_image_def unsafe_varint.simps PAGE_SIZE_IN_BYTES_def)

theorem block_buffer_round_trip_witness:
  "\<exists>w1 mem1 w2 mem2 last_keys pages.
    writer_push_all (\<lambda>_ _. 7) [([1], [9])]
        (make_block_buffer_writer 0 (PAGE_SIZE_IN_BYTES * 2), replicate (PAGE_SIZE_IN_BYTES * 2) 0, [])
      = (ok, w1, mem1, last_keys)
    \<and> force_commit (\<lambda>_ _. 7) (w1, mem1) = (w2, mem2)
    \<and> writer_bytes_written w2 = PAGE_SIZE_IN_BYTES * length pages
    \<and> read_pages (\<lambda>_ _. 7) mem2 False 0 (writer_bytes_written w2) 1 = Inr [([1], [9])]
    \<and> concat pages = [([1], [9 :: byte])] \<and> last_keys = map (\<lambda>page. fst (last page)) (butlast pages)"
proof -
  have "[([1], [9])] \<noteq> ([] :: (bytes \<times> bytes) list)" "\<forall>kv \<in> set [([1], [9])]. page_fits kv"
    "length [([1], [9]) :: bytes \<times> bytes] < 2" "0 + PAGE_SIZE_IN_BYTES * 2 \<le> length (replicate (PAGE_SIZE_IN_BYTES * 2) (0 :: byte))"
    using sample_page_fits by simp_all
  from block_buffer_round_trip [OF this, of "\<lambda>_ _. 7" False] show ?thesis
    unfolding add_0 list.size One_nat_def [symmetric] by blast
qed

end
