(* ===== verification/Merge.thy ===== *)
theory Merge
  imports Values Cursor "HOL-Library.Product_Lexorder"
begin

text \<open>
  The k-way merge at the heart of compaction and of range scans: the deduplicator of
  \<^verbatim>\<open>src/db/merge/merge_utils.h\<close>, and the initialisation, main loop and final drain of
  \<^verbatim>\<open>index_ops::k_way_merge_async2\<close> in \<^verbatim>\<open>src/db/merge/merge.cc\<close>. The streams that are merged are
  reached through the operations the code calls on them, and what becomes of a merged entry is a
  function \<open>emit\<close> on a state of the caller (filter insertion and block writer in the code).

  \<^verbatim>\<open>std::ranges::pop_heap\<close> promises to move a greatest element out of the heap and says nothing about
  the order of the others. The loop therefore takes the pop operation as an argument; the locale
  \<open>max_heap\<close> states the promise, the lemmas are proved from it, and it is interpreted on the
  operation \<open>heap_pop\<close>, which removes the first greatest element.
\<close>

section \<open>Entries and the deduplicator\<close>

record merge_entry =
  me_key :: bytes
  me_value :: bytes
  me_epoch :: u64

record deduplicator =
  dd_to_be_checked :: "merge_entry option"
  dd_ready :: "merge_entry option"
  dd_deduplicated :: nat

definition empty_dedup :: deduplicator where
  "empty_dedup = \<lparr>dd_to_be_checked = None, dd_ready = None, dd_deduplicated = 0\<rparr>"

definition dedup_push :: "merge_entry \<Rightarrow> deduplicator \<Rightarrow> deduplicator" where
  "dedup_push new_item d =
     (case dd_to_be_checked d of
        None \<Rightarrow> d\<lparr>dd_to_be_checked := Some new_item\<rparr>
      | Some held \<Rightarrow>
          (if me_key held \<noteq> me_key new_item
           then d\<lparr>dd_ready := Some held, dd_to_be_checked := Some new_item\<rparr>
           else d\<lparr>dd_deduplicated := dd_deduplicated d + 1\<rparr>))"

definition dedup_is_ready :: "deduplicator \<Rightarrow> bool" where
  "dedup_is_ready d \<longleftrightarrow> dd_ready d \<noteq> None"

definition dedup_force_pop :: "deduplicator \<Rightarrow> (merge_entry \<times> deduplicator) expected" where
  "dedup_force_pop d =
     (if dd_ready d \<noteq> None
      then Inl (generic_error ''Ready item still present, cannot force_pop last buffered item'')
      else case dd_to_be_checked d of
        None \<Rightarrow> Inl (generic_error ''No buffered item to force_pop'')
      | Some x \<Rightarrow> Inr (x, d\<lparr>dd_to_be_checked := None\<rparr>))"

definition dedup_pop :: "deduplicator \<Rightarrow> (merge_entry \<times> deduplicator) expected" where
  "dedup_pop d =
     (case dd_ready d of
        None \<Rightarrow> Inl (generic_error ''No ready item to pop'')
      | Some x \<Rightarrow> Inr (x, d\<lparr>dd_ready := None\<rparr>))"

section \<open>The heap of the merge\<close>

type_synonym heap_item = "merge_entry \<times> nat"

text \<open>
  The comparator of both merges. The heap of the standard library is a max-heap; the comparator
  makes the smallest key, and among equal keys the highest epoch, the greatest element. An item
  has the entry and the position of the stream it comes from.
\<close>

definition heap_item_less :: "heap_item \<Rightarrow> heap_item \<Rightarrow> bool" where
  "heap_item_less lhs rhs =
     (if me_key (fst lhs) \<noteq> me_key (fst rhs) then me_key (fst lhs) > me_key (fst rhs)
      else me_epoch (fst lhs) < me_epoch (fst rhs))"

fun max_position :: "('a \<Rightarrow> 'a \<Rightarrow> bool) \<Rightarrow> 'a list \<Rightarrow> nat" where
  "max_position lt [] = 0"
| "max_position lt [x] = 0"
| "max_position lt (x # xs) =
     (let i = max_position lt xs in if lt x (xs ! i) then Suc i else 0)"

definition heap_pop :: "('a \<Rightarrow> 'a \<Rightarrow> bool) \<Rightarrow> 'a list \<Rightarrow> 'a \<times> 'a list" where
  "heap_pop lt h = (let i = max_position lt h in (h ! i, take i h @ drop (Suc i) h))"

type_synonym pop_op = "(heap_item \<Rightarrow> heap_item \<Rightarrow> bool) \<Rightarrow> heap_item list \<Rightarrow> heap_item \<times> heap_item list"

section \<open>Streams\<close>

text \<open>The operations of a stream that the merge calls.\<close>

record 's source_ops =
  so_is_eof :: "'s \<Rightarrow> bool"
  so_buffer_empty :: "'s \<Rightarrow> bool"
  so_buffered :: "'s \<Rightarrow> nat"
  so_front :: "'s \<Rightarrow> bytes \<times> bytes"
  so_pop_front :: "'s \<Rightarrow> 's expected"
  so_refresh :: "'s \<Rightarrow> 's expected"
  so_epoch :: "'s \<Rightarrow> u64"

text \<open>
  \<open>refresh_buffers\<close>: read ahead on every stream whose buffered bytes are less than 0.35 of the
  read-ahead size.
\<close>

fun refresh_buffers :: "'s source_ops \<Rightarrow> nat \<Rightarrow> 's list \<Rightarrow> 's list expected" where
  "refresh_buffers ops ra [] = Inr []"
| "refresh_buffers ops ra (s # ss) =
     (case (if 100 * so_buffered ops s < 35 * ra then so_refresh ops s else Inr s) of
        Inl e \<Rightarrow> Inl (generic_error (''Failed to read from buffer during buffer refresh: '' @ error_msg e))
      | Inr s' \<Rightarrow> (case refresh_buffers ops ra ss of Inl e \<Rightarrow> Inl e | Inr ss' \<Rightarrow> Inr (s' # ss')))"

definition front_entry :: "'s source_ops \<Rightarrow> 's \<Rightarrow> merge_entry" where
  "front_entry ops s = \<lparr>me_key = fst (so_front ops s), me_value = snd (so_front ops s), me_epoch = so_epoch ops s\<rparr>"

definition refresh_if_empty :: "'s source_ops \<Rightarrow> nat \<Rightarrow> nat \<Rightarrow> 's list \<Rightarrow> 's list expected" where
  "refresh_if_empty ops ra i srcs =
     (if so_buffer_empty ops (srcs ! i)
      then (case refresh_buffers ops ra srcs of
              Inl e \<Rightarrow> Inl (generic_error (''Failed to refresh views: '' @ error_msg e)) | Inr srcs' \<Rightarrow> Inr srcs')
      else Inr srcs)"

text \<open>The heap is initialised with the first entry of every stream that has one.\<close>

fun init_heap :: "'s source_ops \<Rightarrow> nat \<Rightarrow> nat list \<Rightarrow> 's list \<times> heap_item list \<Rightarrow> ('s list \<times> heap_item list) expected" where
  "init_heap ops ra [] st = Inr st"
| "init_heap ops ra (i # is) (srcs, h) =
     (if so_is_eof ops (srcs ! i) then init_heap ops ra is (srcs, h)
      else case refresh_if_empty ops ra i srcs of
        Inl e \<Rightarrow> Inl e
      | Inr srcs \<Rightarrow>
          (let new_keypair = front_entry ops (srcs ! i)
           in case so_pop_front ops (srcs ! i) of
                Inl e \<Rightarrow> Inl e
              | Inr s \<Rightarrow> init_heap ops ra is (srcs[i := s], h @ [(new_keypair, i)])))"

section \<open>The main loop\<close>

record ('s, 'o) merge_state =
  ms_sources :: "'s list"
  ms_heap :: "heap_item list"
  ms_dedup :: deduplicator
  ms_filtered :: nat
  ms_out :: 'o

definition is_tombstone :: "merge_entry \<Rightarrow> bool" where
  "is_tombstone e \<longleftrightarrow> (case me_value e of [] \<Rightarrow> False | b # _ \<Rightarrow> b = value_type_byte TOMBSTONE)"

text \<open>What happens to an entry that leaves the deduplicator.\<close>

definition handle_item ::
    "bool \<Rightarrow> (merge_entry \<Rightarrow> 'o \<Rightarrow> 'o expected) \<Rightarrow> merge_entry \<Rightarrow> nat \<times> 'o \<Rightarrow> (nat \<times> 'o) expected" where
  "handle_item discard_deleted_keys emit new_item st = (case st of (filtered, out) \<Rightarrow>
     (if discard_deleted_keys \<and> is_tombstone new_item then Inr (filtered + 1, out)
      else case emit new_item out of Inl e \<Rightarrow> Inl e | Inr out' \<Rightarrow> Inr (filtered, out')))"

definition refill :: "'s source_ops \<Rightarrow> nat \<Rightarrow> nat \<Rightarrow> 's list \<times> heap_item list \<Rightarrow> ('s list \<times> heap_item list) expected" where
  "refill ops ra i st = (case st of (srcs, h) \<Rightarrow>
     (if so_is_eof ops (srcs ! i) then Inr (srcs, h)
      else case refresh_if_empty ops ra i srcs of
        Inl e \<Rightarrow> Inl e
      | Inr srcs \<Rightarrow>
          (case value_from_span (snd (so_front ops (srcs ! i))) of
             Inl e \<Rightarrow> Inl (generic_error (''Failed to parse value from index entry during heap initialization: '' @ error_msg e))
           | Inr _ \<Rightarrow>
               (let new_keypair = front_entry ops (srcs ! i)
                in case so_pop_front ops (srcs ! i) of
                     Inl e \<Rightarrow> Inl e
                   | Inr s \<Rightarrow> Inr (srcs[i := s], h @ [(new_keypair, i)])))))"

definition pop_ready ::
    "bool \<Rightarrow> (merge_entry \<Rightarrow> 'o \<Rightarrow> 'o expected) \<Rightarrow> deduplicator \<times> nat \<times> 'o \<Rightarrow> (deduplicator \<times> nat \<times> 'o) expected" where
  "pop_ready discard emit st = (case st of (d, acc) \<Rightarrow>
     (if dedup_is_ready d then
        (case dedup_pop d of
           Inl e \<Rightarrow> Inl e
         | Inr (new_item, d') \<Rightarrow>
             (case handle_item discard emit new_item acc of Inl e \<Rightarrow> Inl e | Inr acc' \<Rightarrow> Inr (d', acc')))
      else Inr (d, acc)))"

definition merge_step ::
    "pop_op \<Rightarrow> 's source_ops \<Rightarrow> nat \<Rightarrow> bool \<Rightarrow> (merge_entry \<Rightarrow> 'o \<Rightarrow> 'o expected)
      \<Rightarrow> ('s, 'o) merge_state \<Rightarrow> ('s, 'o) merge_state expected" where
  "merge_step pop ops ra discard emit st =
     (case pop heap_item_less (ms_heap st) of ((entry, i), h) \<Rightarrow>
        (let d = dedup_push entry (ms_dedup st)
         in case refill ops ra i (ms_sources st, h) of
              Inl e \<Rightarrow> Inl e
            | Inr (srcs, h) \<Rightarrow>
                (case pop_ready discard emit (d, ms_filtered st, ms_out st) of
                   Inl e \<Rightarrow> Inl e
                 | Inr (d, filtered, out) \<Rightarrow>
                     Inr \<lparr>ms_sources = srcs, ms_heap = h, ms_dedup = d, ms_filtered = filtered, ms_out = out\<rparr>)))"

fun merge_loop ::
    "nat \<Rightarrow> pop_op \<Rightarrow> 's source_ops \<Rightarrow> nat \<Rightarrow> bool \<Rightarrow> (merge_entry \<Rightarrow> 'o \<Rightarrow> 'o expected)
      \<Rightarrow> ('s, 'o) merge_state \<Rightarrow> ('s, 'o) merge_state expected" where
  "merge_loop fuel pop ops ra discard emit st =
     (if ms_heap st = [] then Inr st
      else case fuel of
        0 \<Rightarrow> Inl (generic_error ''out of fuel'')
      | Suc n \<Rightarrow>
          (case merge_step pop ops ra discard emit st of
             Inl e \<Rightarrow> Inl e
           | Inr st' \<Rightarrow> merge_loop n pop ops ra discard emit st'))"

declare merge_loop.simps [simp del]

text \<open>The end of the merge: what is left in the deduplicator, at most two entries.\<close>

definition merge_finish ::
    "bool \<Rightarrow> (merge_entry \<Rightarrow> 'o \<Rightarrow> 'o expected) \<Rightarrow> deduplicator \<times> nat \<times> 'o \<Rightarrow> (deduplicator \<times> nat \<times> 'o) expected" where
  "merge_finish discard emit st = (case st of (d, acc) \<Rightarrow>
     (case (if dedup_is_ready d
            then (case dedup_pop d of Inl e \<Rightarrow> Inl e | Inr (item, d) \<Rightarrow> Inr ([item], d))
            else Inr ([], d)) of
        Inl e \<Rightarrow> Inl e
      | Inr (last_items, d) \<Rightarrow>
          (case dedup_force_pop d of
             Inl e \<Rightarrow> Inl e
           | Inr (item, d) \<Rightarrow>
               (case fold_expected (handle_item discard emit) (last_items @ [item]) acc of
                  Inl e \<Rightarrow> Inl e
                | Inr acc \<Rightarrow> Inr (d, acc)))))"

definition k_way_merge ::
    "nat \<Rightarrow> pop_op \<Rightarrow> 's source_ops \<Rightarrow> nat \<Rightarrow> bool \<Rightarrow> (merge_entry \<Rightarrow> 'o \<Rightarrow> 'o expected)
      \<Rightarrow> 's list \<Rightarrow> 'o \<Rightarrow> (deduplicator \<times> nat \<times> 'o) expected" where
  "k_way_merge fuel pop ops ra discard emit srcs out =
     (case refresh_buffers ops ra srcs of
        Inl e \<Rightarrow> Inl (generic_error (''Failed to perform initial buffer refresh: '' @ error_msg e))
      | Inr srcs \<Rightarrow>
          (case init_heap ops ra [0..<length srcs] (srcs, []) of
             Inl e \<Rightarrow> Inl e
           | Inr (srcs, h) \<Rightarrow>
               (case merge_loop fuel pop ops ra discard emit
                  \<lparr>ms_sources = srcs, ms_heap = h, ms_dedup = empty_dedup, ms_filtered = 0, ms_out = out\<rparr> of
                  Inl e \<Rightarrow> Inl e
                | Inr st \<Rightarrow> merge_finish discard emit (ms_dedup st, ms_filtered st, ms_out st))))"

section \<open>The heap contract\<close>

locale max_heap =
  fixes pop :: pop_op
  assumes pop_mset: "h \<noteq> [] \<Longrightarrow> pop heap_item_less h = (x, h') \<Longrightarrow> mset h = add_mset x (mset h')"
    and pop_greatest: "h \<noteq> [] \<Longrightarrow> pop heap_item_less h = (x, h') \<Longrightarrow> y \<in> set h \<Longrightarrow> \<not> heap_item_less x y"

lemma heap_item_less_trans:
  "\<not> heap_item_less b a \<Longrightarrow> \<not> heap_item_less c b \<Longrightarrow> \<not> heap_item_less c a"
  by (auto simp: heap_item_less_def split: if_splits)

lemma heap_item_less_asym: "heap_item_less a b \<Longrightarrow> \<not> heap_item_less b a"
  by (auto simp: heap_item_less_def split: if_splits)

lemma heap_item_less_irrefl: "\<not> heap_item_less a a"
  by (simp add: heap_item_less_def)

lemma max_position_greatest:
  assumes "h \<noteq> []"
  shows "max_position heap_item_less h < length h \<and> (\<forall>y \<in> set h. \<not> heap_item_less (h ! max_position heap_item_less h) y)"
  using assms
proof (induction h)
  case (Cons x xs)
  show ?case
  proof (cases xs)
    case Nil
    then show ?thesis by (simp add: heap_item_less_irrefl)
  next
    case (Cons y ys)
    let ?i = "max_position heap_item_less xs"
    have pos: "max_position heap_item_less (x # xs) = (if heap_item_less x (xs ! ?i) then Suc ?i else 0)"
      by (simp add: Cons Let_def)
    have IH: "?i < length xs" "\<And>z. z \<in> set xs \<Longrightarrow> \<not> heap_item_less (xs ! ?i) z"
      using Cons.IH Cons by blast+
    show ?thesis
    proof (cases "heap_item_less x (xs ! ?i)")
      case True
      then have "max_position heap_item_less (x # xs) = Suc ?i" by (simp only: pos if_True)
      then show ?thesis
        using IH heap_item_less_asym [OF True] by simp
    next
      case False
      then have "max_position heap_item_less (x # xs) = 0" by (simp only: pos if_False)
      moreover have "\<not> heap_item_less x z" if "z \<in> set xs" for z
        using heap_item_less_trans [OF IH(2) [OF that] False] .
      ultimately show ?thesis
        by (simp add: heap_item_less_irrefl)
    qed
  qed
qed simp

interpretation fp: max_heap heap_pop
proof
  fix h h' :: "heap_item list" and x y
  assume h: "h \<noteq> []" and pop: "heap_pop heap_item_less h = (x, h')"
  note pos = max_position_greatest [OF h]
  show "mset h = add_mset x (mset h')"
    using pop pos by (subst id_take_nth_drop [of "max_position heap_item_less h" h]) (auto simp: heap_pop_def Let_def)
  show "y \<in> set h \<Longrightarrow> \<not> heap_item_less x y"
    using pop pos by (auto simp: heap_pop_def Let_def)
qed

section \<open>The stream contract\<close>

text \<open>
  A stream stands for the pairs it has still to deliver. Its buffer may be empty although pairs are
  left; then a refresh makes the next one available.
\<close>

locale source =
  fixes ops :: "'s source_ops" and rep :: "'s \<Rightarrow> (bytes \<times> bytes) list \<Rightarrow> bool"
  assumes rep_eof: "rep s xs \<Longrightarrow> so_is_eof ops s \<longleftrightarrow> xs = []"
    and rep_front: "rep s (x # xs) \<Longrightarrow> \<not> so_buffer_empty ops s \<Longrightarrow> so_front ops s = x"
    and rep_pop: "rep s (x # xs) \<Longrightarrow> \<not> so_buffer_empty ops s \<Longrightarrow>
      \<exists>s'. so_pop_front ops s = Inr s' \<and> rep s' xs \<and> so_epoch ops s' = so_epoch ops s"
    and rep_refresh: "rep s xs \<Longrightarrow>
      \<exists>s'. so_refresh ops s = Inr s' \<and> rep s' xs \<and> so_epoch ops s' = so_epoch ops s"
    and rep_refresh_buffer: "rep s (x # xs) \<Longrightarrow> so_buffer_empty ops s \<Longrightarrow> so_refresh ops s = Inr s' \<Longrightarrow>
      \<not> so_buffer_empty ops s'"
    and buffer_empty: "so_buffer_empty ops s \<Longrightarrow> so_buffered ops s = 0"

section \<open>The order of the merge\<close>

definition entry_before :: "merge_entry \<Rightarrow> merge_entry \<Rightarrow> bool" where
  "entry_before a b \<longleftrightarrow> me_key a < me_key b \<or> me_key a = me_key b \<and> me_epoch a > me_epoch b"

lemma heap_item_less_before: "heap_item_less x y \<longleftrightarrow> entry_before (fst y) (fst x)"
  by (auto simp: heap_item_less_def entry_before_def)

lemma entry_before_asym: "entry_before a b \<Longrightarrow> \<not> entry_before b a"
  by (auto simp: entry_before_def)

lemma entry_before_trans: "entry_before a b \<Longrightarrow> entry_before b c \<Longrightarrow> entry_before a c"
  by (auto simp: entry_before_def)

definition entry_of :: "u64 \<Rightarrow> bytes \<times> bytes \<Rightarrow> merge_entry" where
  "entry_of epoch kv = \<lparr>me_key = fst kv, me_value = snd kv, me_epoch = epoch\<rparr>"

lemma entry_of_simps [simp]:
  "me_key (entry_of e kv) = fst kv" "me_value (entry_of e kv) = snd kv" "me_epoch (entry_of e kv) = e"
  by (simp_all add: entry_of_def)

text \<open>
  The entries still to come: those in the heap, and those of the streams. \<open>rs\<close> are the pairs the
  streams stand for, \<open>es\<close> their epochs.
\<close>

fun stream_entries :: "(bytes \<times> bytes) list list \<Rightarrow> u64 list \<Rightarrow> merge_entry list" where
  "stream_entries (r # rs) (e # es) = map (entry_of e) r @ stream_entries rs es"
| "stream_entries _ _ = []"

definition pending :: "heap_item list \<Rightarrow> (bytes \<times> bytes) list list \<Rightarrow> u64 list \<Rightarrow> merge_entry multiset" where
  "pending h rs es = mset (map fst h) + mset (stream_entries rs es)"

lemma mset_stream_entries_update:
  assumes "i < length rs" "length rs = length es" "rs ! i = kv # r"
  shows "mset (stream_entries rs es) = add_mset (entry_of (es ! i) kv) (mset (stream_entries (rs[i := r]) es))"
  using assms
proof (induction rs es arbitrary: i rule: stream_entries.induct)
  case (1 r' rs e es)
  then show ?case by (cases i) auto
qed auto

lemma set_stream_entries:
  "length rs = length es \<Longrightarrow>
     x \<in> set (stream_entries rs es) \<longleftrightarrow> (\<exists>i < length rs. \<exists>kv \<in> set (rs ! i). x = entry_of (es ! i) kv)"
proof (induction rs es rule: stream_entries.induct)
  case (1 r rs e es)
  then show ?case by (simp add: Ex_less_Suc2 image_iff)
qed auto

text \<open>
  The state of the merge. Every stream that has pairs left has an entry in the heap, except those
  in \<open>todo\<close>, and that entry comes before the pairs that are left.
\<close>

definition merge_inv ::
    "('s \<Rightarrow> (bytes \<times> bytes) list \<Rightarrow> bool) \<Rightarrow> ('s \<Rightarrow> u64) \<Rightarrow> nat set \<Rightarrow> 's list \<times> heap_item list
      \<Rightarrow> (bytes \<times> bytes) list list \<Rightarrow> u64 list \<Rightarrow> bool" where
  "merge_inv rep epoch todo st rs es = (case st of (srcs, h) \<Rightarrow>
     list_all2 rep srcs rs \<and> map epoch srcs = es
     \<and> (\<forall>(e, i) \<in> set h. i < length srcs \<and> (\<forall>kv \<in> set (rs ! i). me_key e < fst kv))
     \<and> (\<forall>i < length srcs. i \<notin> todo \<longrightarrow> rs ! i \<noteq> [] \<longrightarrow> i \<in> snd ` set h)
     \<and> (\<forall>r \<in> set rs. sorted_wrt (<) (map fst r)))"

lemma merge_inv_lengths:
  assumes "merge_inv rep epoch todo (srcs, h) rs es"
  shows "length rs = length srcs" "length es = length srcs"
  using assms by (auto simp: merge_inv_def dest: list_all2_lengthD)

text \<open>The heap holds the first of all pending entries.\<close>

lemma first_in_heap:
  assumes inv: "merge_inv rep epoch {} (srcs, h) rs es" and x: "x \<in># pending h rs es"
    and first: "\<forall>y \<in># pending h rs es. y = x \<or> entry_before x y"
  shows "x \<in> fst ` set h"
proof (rule ccontr)
  assume "x \<notin> fst ` set h"
  then have "x \<in> set (stream_entries rs es)"
    using x by (auto simp: pending_def)
  then obtain i kv where i: "i < length rs" "kv \<in> set (rs ! i)" "x = entry_of (es ! i) kv"
    using set_stream_entries [of rs es x] merge_inv_lengths [OF inv] by auto
  then have "i \<in> snd ` set h"
    using inv merge_inv_lengths [OF inv] by (fastforce simp: merge_inv_def)
  then obtain e where e: "(e, i) \<in> set h" by auto
  then have "me_key e < me_key x"
    using inv i by (fastforce simp: merge_inv_def)
  then have "entry_before e x" by (simp add: entry_before_def)
  moreover have "e \<in># pending h rs es"
    using e by (force simp: pending_def)
  ultimately show False
    using first entry_before_asym by metis
qed

lemma merge_inv_push:
  assumes inv: "merge_inv rep epoch todo (srcs, h) rs es" and i: "i < length srcs" "rs ! i = kv # r"
    and srcs': "list_all2 rep srcs' rs" "map epoch srcs' = es" and s: "rep s r" "epoch s = es ! i"
  shows "merge_inv rep epoch (todo - {i}) (srcs'[i := s], h @ [(entry_of (es ! i) kv, i)]) (rs[i := r]) es"
    "pending (h @ [(entry_of (es ! i) kv, i)]) (rs[i := r]) es = pending h rs es"
proof -
  note len = merge_inv_lengths [OF inv] list_all2_lengthD [OF srcs'(1)]
  have sorted: "sorted_wrt (<) (map fst (kv # r))"
    using inv i len by (metis (no_types, lifting) case_prodD merge_inv_def nth_mem)
  have "list_all2 rep (srcs'[i := s]) (rs[i := r])"
    using srcs'(1) s(1) i(1) by (simp add: list_all2_update_cong)
  moreover have "map epoch (srcs'[i := s]) = es"
    using srcs'(2) s(2) i(1) len by (simp add: map_update)
  moreover have "j < length srcs \<and> (\<forall>kv' \<in> set (rs[i := r] ! j). me_key e < fst kv')"
    if "(e, j) \<in> set (h @ [(entry_of (es ! i) kv, i)])" for e j
    using that inv i len sorted by (cases "j = i") (fastforce simp: merge_inv_def)+
  then have "\<forall>(e, j) \<in> set (h @ [(entry_of (es ! i) kv, i)]).
      j < length srcs \<and> (\<forall>kv' \<in> set (rs[i := r] ! j). me_key e < fst kv')"
    by blast
  moreover have "j \<in> snd ` set (h @ [(entry_of (es ! i) kv, i)])"
    if "j < length srcs" "j \<notin> todo - {i}" "rs[i := r] ! j \<noteq> []" for j
    using that inv by (cases "j = i") (auto simp: merge_inv_def)
  moreover have "\<forall>r' \<in> set (rs[i := r]). sorted_wrt (<) (map fst r')"
    using inv sorted set_update_subset_insert [of rs i r] by (auto simp: merge_inv_def)
  ultimately show "merge_inv rep epoch (todo - {i}) (srcs'[i := s], h @ [(entry_of (es ! i) kv, i)]) (rs[i := r]) es"
    unfolding merge_inv_def prod.case length_list_update len(3) len(1) by blast
  show "pending (h @ [(entry_of (es ! i) kv, i)]) (rs[i := r]) es = pending h rs es"
    using mset_stream_entries_update [of i rs es kv r] i len by (simp add: pending_def)
qed

lemma merge_inv_pop:
  assumes "merge_inv rep epoch {} (srcs, h) rs es" "mset h = add_mset (x, i) (mset h')"
  shows "merge_inv rep epoch {i} (srcs, h') rs es" "pending h rs es = add_mset x (pending h' rs es)"
    "i < length srcs" "\<forall>kv \<in> set (rs ! i). me_key x < fst kv"
proof -
  have set: "set h = insert (x, i) (set h')"
    using assms(2) by (metis set_mset_add_mset_insert set_mset_mset)
  show "merge_inv rep epoch {i} (srcs, h') rs es"
    using assms(1) set by (auto simp: merge_inv_def)
  show "i < length srcs" "\<forall>kv \<in> set (rs ! i). me_key x < fst kv"
    using assms(1) set by (auto simp: merge_inv_def)
  have "image_mset fst (mset h) = add_mset x (image_mset fst (mset h'))"
    using assms(2) by simp
  then show "pending h rs es = add_mset x (pending h' rs es)"
    by (simp add: pending_def)
qed


definition values_parse :: "(bytes \<times> bytes) list \<Rightarrow> bool" where
  "values_parse r \<longleftrightarrow> (\<forall>kv \<in> set r. \<exists>v. value_from_span (snd kv) = Inr v)"

text \<open>What the loop does to the sequence of entries that it takes from the heap.\<close>

definition process_entry ::
    "bool \<Rightarrow> (merge_entry \<Rightarrow> 'o \<Rightarrow> 'o expected) \<Rightarrow> merge_entry \<Rightarrow> deduplicator \<times> nat \<times> 'o
      \<Rightarrow> (deduplicator \<times> nat \<times> 'o) expected" where
  "process_entry discard emit x st = (case st of (d, acc) \<Rightarrow> pop_ready discard emit (dedup_push x d, acc))"

definition loop_result :: "('s, 'o) merge_state expected \<Rightarrow> (deduplicator \<times> nat \<times> 'o) expected" where
  "loop_result r = (case r of Inl e \<Rightarrow> Inl e | Inr st \<Rightarrow> Inr (ms_dedup st, ms_filtered st, ms_out st))"

section \<open>The newest entries\<close>

text \<open>
  The result of a merge on lists: the entries in the order of the merge, and of each run of entries
  with the same key the first.
\<close>

definition merge_rank :: "merge_entry \<Rightarrow> bytes \<times> nat" where
  "merge_rank e = (me_key e, 2 ^ 64 - unat (me_epoch e))"

definition merge_order :: "merge_entry list \<Rightarrow> merge_entry list" where
  "merge_order xs = sort_key merge_rank xs"

fun runs :: "merge_entry \<Rightarrow> merge_entry list \<Rightarrow> merge_entry list" where
  "runs held [] = [held]"
| "runs held (x # xs) = (if me_key held \<noteq> me_key x then held # runs x xs else runs held xs)"

fun newest :: "merge_entry list \<Rightarrow> merge_entry list" where
  "newest [] = []"
| "newest (x # xs) = runs x xs"

lemma merge_rank_epoch:
  fixes a b :: u64
  shows "2 ^ 64 - unat a < 2 ^ 64 - unat b \<longleftrightarrow> b < a" "2 ^ 64 - unat a = 2 ^ 64 - unat b \<longleftrightarrow> a = b"
proof -
  have "unat a < 2 ^ 64" "unat b < 2 ^ 64"
    using unsigned_less [where 'a = nat, of a] unsigned_less [where 'a = nat, of b] by simp_all
  then show "2 ^ 64 - unat a < 2 ^ 64 - unat b \<longleftrightarrow> b < a" "2 ^ 64 - unat a = 2 ^ 64 - unat b \<longleftrightarrow> a = b"
    by (auto simp: word_less_nat_alt word_unat_eq_iff)
qed

lemma merge_rank_less_iff: "merge_rank a < merge_rank b \<longleftrightarrow> entry_before a b"
  unfolding merge_rank_def entry_before_def less_prod_simp merge_rank_epoch by auto

lemma merge_rank_eq_iff: "merge_rank a = merge_rank b \<longleftrightarrow> (me_key a, me_epoch a) = (me_key b, me_epoch b)"
  unfolding merge_rank_def prod.inject merge_rank_epoch by (rule refl)

lemma merge_order_sorted:
  assumes "distinct (map (\<lambda>e. (me_key e, me_epoch e)) xs)"
  shows "sorted_wrt entry_before (merge_order xs)" "mset (merge_order xs) = mset xs"
proof -
  show mset: "mset (merge_order xs) = mset xs" by (simp add: merge_order_def)
  have "distinct (map merge_rank xs)"
    using assms by (simp add: distinct_map inj_on_def merge_rank_eq_iff)
  moreover have "mset (map merge_rank (merge_order xs)) = mset (map merge_rank xs)"
    using mset by simp
  ultimately have "distinct (map merge_rank (merge_order xs))"
    by (metis mset_eq_imp_distinct_iff)
  moreover have "sorted (map merge_rank (merge_order xs))"
    by (simp add: merge_order_def)
  ultimately have "sorted_wrt (<) (map merge_rank (merge_order xs))"
    by (simp add: strict_sorted_iff)
  then show "sorted_wrt entry_before (merge_order xs)"
    by (simp add: sorted_wrt_map merge_rank_less_iff)
qed

lemma stream_entries_epochs: "x \<in> set (stream_entries rs es) \<Longrightarrow> me_epoch x \<in> set es"
  by (induction rs es rule: stream_entries.induct) auto

lemma stream_entries_distinct:
  assumes "distinct es" "\<forall>r \<in> set rs. sorted_wrt (<) (map fst r)"
  shows "distinct (map (\<lambda>e. (me_key e, me_epoch e)) (stream_entries rs es))"
  using assms
proof (induction rs es rule: stream_entries.induct)
  case (1 r rs e es)
  have "distinct (map fst r)"
    using "1.prems" by (simp add: strict_sorted_iff)
  then have "distinct (map (\<lambda>x. (me_key x, me_epoch x)) (map (entry_of e) r))"
    by (auto simp: distinct_map inj_on_def)
  moreover have "(\<lambda>x. (me_key x, me_epoch x)) ` set (map (entry_of e) r)
      \<inter> (\<lambda>x. (me_key x, me_epoch x)) ` set (stream_entries rs es) = {}"
    using stream_entries_epochs [of _ rs es] "1.prems"(1) by auto
  ultimately show ?case
    using "1.IH" "1.prems" by (simp only: stream_entries.simps map_append distinct_append set_map) simp
qed simp_all

text \<open>
  On a list in the order of the merge, \<open>newest\<close> keeps exactly the entries whose epoch is the
  highest for their key, one per key and in ascending order of the keys.
\<close>

definition is_newest :: "merge_entry set \<Rightarrow> merge_entry \<Rightarrow> bool" where
  "is_newest A e \<longleftrightarrow> e \<in> A \<and> (\<forall>e' \<in> A. me_key e' = me_key e \<longrightarrow> me_epoch e' \<le> me_epoch e)"

lemma is_newest_dominated:
  assumes "held \<in> A" "me_key x = me_key held" "me_epoch x < me_epoch held"
  shows "is_newest (insert x A) e \<longleftrightarrow> is_newest A e"
proof
  assume "is_newest (insert x A) e"
  moreover from this have "e \<noteq> x"
    using assms by (auto simp: is_newest_def)
  ultimately show "is_newest A e"
    by (simp add: is_newest_def)
next
  assume e: "is_newest A e"
  then have "me_key held = me_key e \<longrightarrow> me_epoch held \<le> me_epoch e"
    using assms(1) by (simp add: is_newest_def)
  then have "me_key x = me_key e \<longrightarrow> me_epoch x \<le> me_epoch e"
    using assms(2,3) by auto
  with e show "is_newest (insert x A) e"
    by (simp add: is_newest_def)
qed

lemma is_newest_fresh:
  assumes "\<forall>y \<in> A. me_key y \<noteq> me_key held"
  shows "is_newest (insert held A) e \<longleftrightarrow> e = held \<or> is_newest A e"
  using assms by (cases "e = held") (auto simp: is_newest_def)

lemma runs_spec:
  assumes "sorted_wrt entry_before (held # xs)"
  shows "sorted_wrt (<) (map me_key (runs held xs)) \<and> set (runs held xs) = {e. is_newest (set (held # xs)) e}
    \<and> (\<forall>e \<in> set (runs held xs). me_key held \<le> me_key e)"
  using assms
proof (induction held xs rule: runs.induct)
  case (1 held)
  then show ?case by (auto simp: is_newest_def)
next
  case (2 held x xs)
  have held: "\<And>y. y \<in> set (x # xs) \<Longrightarrow> entry_before held y" and x: "\<And>y. y \<in> set xs \<Longrightarrow> entry_before x y"
    using "2.prems" by auto
  show ?case
  proof (cases "me_key held = me_key x")
    case True
    then have "me_epoch x < me_epoch held" using held [of x] by (simp add: entry_before_def)
    from is_newest_dominated [OF _ True [symmetric] this, of "set (held # xs)"]
    have "is_newest (set (held # x # xs)) = is_newest (set (held # xs))"
      by (simp add: fun_eq_iff insert_commute [of held])
    moreover have "sorted_wrt entry_before (held # xs)" using "2.prems" by simp
    ultimately show ?thesis
      using True "2.IH"(2) by simp
  next
    case False
    have less: "me_key held < me_key y" if "y \<in> set (x # xs)" for y
      using that held [OF that] held [of x] x [of y] False by (auto simp: entry_before_def)
    have IH: "sorted_wrt (<) (map me_key (runs x xs))" "set (runs x xs) = {e. is_newest (set (x # xs)) e}"
      using "2.IH"(1) [OF False] "2.prems" by simp_all
    have sub: "y \<in> set (x # xs)" if "y \<in> set (runs x xs)" for y
      using that unfolding IH(2) by (simp add: is_newest_def)
    have "\<forall>y \<in> set (x # xs). me_key y \<noteq> me_key held"
      using less by (metis less_irrefl)
    from is_newest_fresh [OF this]
    have "is_newest (set (held # x # xs)) e \<longleftrightarrow> e = held \<or> is_newest (set (x # xs)) e" for e
      by simp
    then have "set (runs held (x # xs)) = {e. is_newest (set (held # x # xs)) e}"
      using False IH(2) by simp blast
    moreover have "sorted_wrt (<) (map me_key (runs held (x # xs)))"
      "\<forall>e \<in> set (runs held (x # xs)). me_key held \<le> me_key e"
      using False IH(1) less [OF sub] by (auto intro: less_imp_le)
    ultimately show ?thesis by blast
  qed
qed

lemma runs_nonempty [simp]: "runs held xs \<noteq> []"
  by (induction held xs rule: runs.induct) auto

lemma length_runs: "length (runs held xs) \<le> Suc (length xs)"
  by (induction held xs rule: runs.induct) auto

text \<open>The deduplicator turns the sequence of entries into its runs.\<close>

lemma process_runs:
  assumes "dd_to_be_checked d = Some held" "dd_ready d = None"
  shows "(case fold_expected (process_entry discard emit) xs (d, acc) of Inl e \<Rightarrow> Inl e | Inr st \<Rightarrow> merge_finish discard emit st)
    = (case fold_expected (handle_item discard emit) (runs held xs) acc of
         Inl e \<Rightarrow> Inl e
       | Inr acc' \<Rightarrow> Inr (\<lparr>dd_to_be_checked = None, dd_ready = None,
           dd_deduplicated = dd_deduplicated d + (Suc (length xs) - length (runs held xs))\<rparr>, acc'))"
  using assms
proof (induction xs arbitrary: d held acc)
  case Nil
  then show ?case
    by (cases d) (simp add: merge_finish_def dedup_is_ready_def dedup_force_pop_def split: sum.splits)
next
  case (Cons x xs)
  show ?case
  proof (cases "me_key held = me_key x")
    case True
    let ?d = "d\<lparr>dd_deduplicated := dd_deduplicated d + 1\<rparr>"
    have "process_entry discard emit x (d, acc) = Inr (?d, acc)"
      using True Cons.prems by (simp add: process_entry_def dedup_push_def pop_ready_def dedup_is_ready_def)
    then show ?thesis
      using True Cons.IH [of ?d held acc] Cons.prems length_runs [of held xs]
      by (simp add: Suc_diff_le split: sum.splits)
  next
    case False
    let ?d = "d\<lparr>dd_to_be_checked := Some x, dd_ready := None\<rparr>"
    have "process_entry discard emit x (d, acc)
        = (case handle_item discard emit held acc of Inl e \<Rightarrow> Inl e | Inr acc' \<Rightarrow> Inr (?d, acc'))"
      using False Cons.prems
      by (simp add: process_entry_def dedup_push_def pop_ready_def dedup_is_ready_def dedup_pop_def split: sum.splits)
    then show ?thesis
    proof (cases "handle_item discard emit held acc")
      case (Inr acc')
      with \<open>process_entry discard emit x (d, acc) = _\<close> show ?thesis
        using False Cons.IH [of ?d x acc'] by (simp cong: sum.case_cong)
    qed (use False in simp)
  qed
qed

lemma fold_handle_item:
  "fold_expected (handle_item discard emit) xs (f, out)
    = (case fold_expected emit (filter (\<lambda>e. \<not> (discard \<and> is_tombstone e)) xs) out of
         Inl e \<Rightarrow> Inl e
       | Inr out' \<Rightarrow> Inr (f + length (filter (\<lambda>e. discard \<and> is_tombstone e) xs), out'))"
  by (induction xs arbitrary: f out) (auto simp: handle_item_def split: sum.splits)

section \<open>The merge delivers the entries in order\<close>

text \<open>A client that collects the output.\<close>

definition collect :: "merge_entry \<Rightarrow> merge_entry list \<Rightarrow> merge_entry list expected" where
  "collect e out = Inr (out @ [e])"

lemma fold_collect: "fold_expected collect xs out = Inr (out @ xs)"
  by (induction xs arbitrary: out) (simp_all add: collect_def)

locale merge_sources = max_heap pop + source ops rep
  for pop :: pop_op and ops :: "'s source_ops" and rep :: "'s \<Rightarrow> (bytes \<times> bytes) list \<Rightarrow> bool"
begin

abbreviation minv :: "nat set \<Rightarrow> 's list \<times> heap_item list \<Rightarrow> (bytes \<times> bytes) list list \<Rightarrow> u64 list \<Rightarrow> bool" where
  "minv \<equiv> merge_inv rep (so_epoch ops)"

lemma refresh_buffers_ok:
  assumes "list_all2 rep srcs rs" "0 < ra"
  shows "\<exists>srcs'. refresh_buffers ops ra srcs = Inr srcs' \<and> list_all2 rep srcs' rs
    \<and> map (so_epoch ops) srcs' = map (so_epoch ops) srcs
    \<and> (\<forall>i < length srcs. rs ! i \<noteq> [] \<longrightarrow> so_buffer_empty ops (srcs ! i) \<longrightarrow> \<not> so_buffer_empty ops (srcs' ! i))"
  using assms(1)
proof (induction srcs rs rule: list_all2_induct)
  case (Cons s srcs r rs)
  obtain srcs' where IH: "refresh_buffers ops ra srcs = Inr srcs'" "list_all2 rep srcs' rs"
      "map (so_epoch ops) srcs' = map (so_epoch ops) srcs"
      "\<And>i. i < length srcs \<Longrightarrow> rs ! i \<noteq> [] \<Longrightarrow> so_buffer_empty ops (srcs ! i) \<Longrightarrow> \<not> so_buffer_empty ops (srcs' ! i)"
    using Cons.IH by blast
  obtain s1 where s1: "so_refresh ops s = Inr s1" "rep s1 r" "so_epoch ops s1 = so_epoch ops s"
    using rep_refresh [OF Cons.hyps(1)] by blast
  let ?s = "if 100 * so_buffered ops s < 35 * ra then s1 else s"
  have "refresh_buffers ops ra (s # srcs) = Inr (?s # srcs')"
    using IH(1) s1(1) by simp
  moreover have "rep ?s r" "so_epoch ops ?s = so_epoch ops s"
    using s1 Cons.hyps(1) by auto
  moreover have "\<not> so_buffer_empty ops ?s" if "r \<noteq> []" "so_buffer_empty ops s"
    using that rep_refresh_buffer [of s "hd r" "tl r" s1] s1(1) Cons.hyps(1) buffer_empty [of s] assms(2) by auto
  ultimately show ?case
    using IH by (auto simp: nth_Cons' split: if_splits)
qed simp

lemma pull_ok:
  assumes inv: "minv todo (srcs, h) rs es" and i: "i < length srcs" "rs ! i = kv # r" and ra: "0 < ra"
  obtains srcs' s where "refresh_if_empty ops ra i srcs = Inr srcs'" "so_front ops (srcs' ! i) = kv"
    "front_entry ops (srcs' ! i) = entry_of (es ! i) kv" "so_pop_front ops (srcs' ! i) = Inr s"
    "minv (todo - {i}) (srcs'[i := s], h @ [(entry_of (es ! i) kv, i)]) (rs[i := r]) es"
    "pending (h @ [(entry_of (es ! i) kv, i)]) (rs[i := r]) es = pending h rs es"
proof -
  have reps: "list_all2 rep srcs rs" "map (so_epoch ops) srcs = es"
    using inv by (auto simp: merge_inv_def)
  obtain srcs' where srcs': "refresh_if_empty ops ra i srcs = Inr srcs'" "list_all2 rep srcs' rs"
      "map (so_epoch ops) srcs' = es" "\<not> so_buffer_empty ops (srcs' ! i)"
    using refresh_buffers_ok [OF reps(1) ra] reps i that
    by (cases "so_buffer_empty ops (srcs ! i)") (auto simp: refresh_if_empty_def)
  have len: "length srcs' = length srcs" using srcs'(2) reps(1) by (metis list_all2_lengthD)
  have at: "rep (srcs' ! i) (kv # r)" "so_epoch ops (srcs' ! i) = es ! i"
    using srcs'(2,3) i len by (auto simp: list_all2_conv_all_nth)
  obtain s where s: "so_pop_front ops (srcs' ! i) = Inr s" "rep s r" "so_epoch ops s = es ! i"
    using rep_pop [OF at(1) srcs'(4)] at(2) by auto
  have front: "so_front ops (srcs' ! i) = kv"
    using rep_front [OF at(1) srcs'(4)] .
  then have "front_entry ops (srcs' ! i) = entry_of (es ! i) kv"
    using at(2) by (simp add: front_entry_def entry_of_def)
  with srcs' s front merge_inv_push [OF inv i srcs'(2,3) s(2,3)] show ?thesis
    by (intro that)
qed

lemma minv_mono: "minv todo st rs es \<Longrightarrow> todo \<subseteq> todo' \<Longrightarrow> minv todo' st rs es"
  by (auto simp: merge_inv_def)

lemma init_heap_ok:
  assumes "minv (set is) (srcs, h) rs es" "\<forall>i \<in> set is. i < length srcs" "\<forall>r \<in> set rs. values_parse r" and ra: "0 < ra"
  shows "\<exists>srcs' h' rs'. init_heap ops ra is (srcs, h) = Inr (srcs', h') \<and> minv {} (srcs', h') rs' es
    \<and> pending h' rs' es = pending h rs es \<and> (\<forall>r \<in> set rs'. values_parse r)"
  using assms(1-3)
proof (induction "is" arbitrary: srcs h rs)
  case Nil
  then show ?case by auto
next
  case (Cons i "is")
  have i: "i < length srcs" using Cons.prems(2) by simp
  have "rep (srcs ! i) (rs ! i)" and len: "length rs = length srcs"
    using Cons.prems(1) i by (auto simp: merge_inv_def list_all2_conv_all_nth)
  then have eof: "so_is_eof ops (srcs ! i) \<longleftrightarrow> rs ! i = []"
    using rep_eof by blast
  show ?case
  proof (cases "rs ! i")
    case Nil
    then have "minv (set is) (srcs, h) rs es"
      using Cons.prems(1) by (fastforce simp: merge_inv_def)
    then show ?thesis
      using Cons.IH [of srcs h rs] Cons.prems Nil eof by simp
  next
    case (Cons kv r)
    obtain srcs' s where pull: "refresh_if_empty ops ra i srcs = Inr srcs'" "so_front ops (srcs' ! i) = kv"
      "front_entry ops (srcs' ! i) = entry_of (es ! i) kv" "so_pop_front ops (srcs' ! i) = Inr s"
      "minv (set (i # is) - {i}) (srcs'[i := s], h @ [(entry_of (es ! i) kv, i)]) (rs[i := r]) es"
      "pending (h @ [(entry_of (es ! i) kv, i)]) (rs[i := r]) es = pending h rs es"
      using pull_ok [OF Cons.prems(1) i Cons ra] .
    have "minv (set is) (srcs'[i := s], h @ [(entry_of (es ! i) kv, i)]) (rs[i := r]) es"
      using minv_mono [OF pull(5)] by auto
    moreover have "length srcs' = length srcs"
      using merge_inv_lengths(1) [OF pull(5)] len by simp
    moreover have "values_parse (kv # r)"
      using Cons.prems(3) Cons i len by (metis nth_mem)
    then have "\<forall>r \<in> set (rs[i := r]). values_parse r"
      using Cons.prems(3) set_update_subset_insert [of rs i r] by (auto simp: values_parse_def)
    ultimately show ?thesis
      using Cons.IH [of "srcs'[i := s]" "h @ [(entry_of (es ! i) kv, i)]" "rs[i := r]"] Cons.prems(2) pull eof Cons
      by (simp add: Let_def)
  qed
qed

lemma refill_ok:
  assumes inv: "minv {i} (srcs, h) rs es" and i: "i < length srcs" and ra: "0 < ra"
    and parse: "\<forall>r \<in> set rs. values_parse r"
  obtains srcs' h' rs' where "refill ops ra i (srcs, h) = Inr (srcs', h')" "minv {} (srcs', h') rs' es"
    "pending h' rs' es = pending h rs es" "\<forall>r \<in> set rs'. values_parse r"
proof (cases "rs ! i")
  case Nil
  have "rep (srcs ! i) []"
    using inv i Nil by (auto simp: merge_inv_def list_all2_conv_all_nth)
  then have "refill ops ra i (srcs, h) = Inr (srcs, h)"
    using rep_eof by (simp add: refill_def)
  moreover have "minv {} (srcs, h) rs es"
    using inv Nil by (auto simp: merge_inv_def)
  ultimately show ?thesis
    using that parse by blast
next
  case (Cons kv r)
  have "rep (srcs ! i) (kv # r)" and mem: "kv # r \<in> set rs"
    using inv i Cons nth_mem [of i rs] merge_inv_lengths [OF inv] by (auto simp: merge_inv_def list_all2_conv_all_nth)
  then have eof: "\<not> so_is_eof ops (srcs ! i)"
    using rep_eof by simp
  obtain srcs' s where pull: "refresh_if_empty ops ra i srcs = Inr srcs'" "so_front ops (srcs' ! i) = kv"
    "front_entry ops (srcs' ! i) = entry_of (es ! i) kv" "so_pop_front ops (srcs' ! i) = Inr s"
    "minv ({i} - {i}) (srcs'[i := s], h @ [(entry_of (es ! i) kv, i)]) (rs[i := r]) es"
    "pending (h @ [(entry_of (es ! i) kv, i)]) (rs[i := r]) es = pending h rs es"
    using pull_ok [OF inv i Cons ra] .
  have parse_r: "values_parse (kv # r)"
    using parse mem by blast
  then obtain v where "value_from_span (snd kv) = Inr v"
    by (auto simp: values_parse_def)
  then have "refill ops ra i (srcs, h) = Inr (srcs'[i := s], h @ [(entry_of (es ! i) kv, i)])"
    using eof pull by (simp add: refill_def)
  moreover have "\<forall>r \<in> set (rs[i := r]). values_parse r"
    using parse parse_r set_update_subset_insert [of rs i r] by (auto simp: values_parse_def)
  ultimately show ?thesis
    using that pull(5,6) by simp
qed

lemma merge_loop_process:
  assumes "minv {} (ms_sources st, ms_heap st) rs es" "sorted_wrt entry_before S" "mset S = pending (ms_heap st) rs es"
    and "\<forall>r \<in> set rs. values_parse r" "length S \<le> fuel" and ra: "0 < ra"
  shows "loop_result (merge_loop fuel pop ops ra discard emit st)
    = fold_expected (process_entry discard emit) S (ms_dedup st, ms_filtered st, ms_out st)"
  using assms(1-5)
proof (induction S arbitrary: st rs fuel)
  case Nil
  then have "ms_heap st = []" by (simp add: pending_def)
  then show ?case by (simp add: merge_loop.simps loop_result_def)
next
  case (Cons x S)
  have "set_mset (pending (ms_heap st) rs es) = set (x # S)"
    by (simp only: Cons.prems(3) [symmetric] set_mset_mset)
  then have x: "x \<in># pending (ms_heap st) rs es" "\<forall>y \<in># pending (ms_heap st) rs es. y = x \<or> entry_before x y"
    using Cons.prems(2) by auto
  have heap: "x \<in> fst ` set (ms_heap st)"
    using first_in_heap [OF Cons.prems(1) x] .
  then have nonempty: "ms_heap st \<noteq> []" by auto
  obtain y i h where pop: "pop heap_item_less (ms_heap st) = ((y, i), h)"
    by (cases "pop heap_item_less (ms_heap st)") auto
  note popped = merge_inv_pop [OF Cons.prems(1) pop_mset [OF nonempty pop]]
  have "\<not> entry_before x y"
    using heap pop_greatest [OF nonempty pop] by (auto simp: heap_item_less_before)
  moreover have "y \<in># pending (ms_heap st) rs es"
    using popped(2) by simp
  ultimately have y: "y = x" using x(2) by blast
  obtain srcs' h' rs' where refill: "refill ops ra i (ms_sources st, h) = Inr (srcs', h')" "minv {} (srcs', h') rs' es"
    "pending h' rs' es = pending h rs es" "\<forall>r \<in> set rs'. values_parse r"
    using refill_ok [OF popped(1,3) ra Cons.prems(4)] .
  obtain n where n: "fuel = Suc n" "length S \<le> n" using Cons.prems(5) by (cases fuel) auto
  have mset: "mset S = pending h' rs' es"
    using Cons.prems(3) popped(2) y refill(3) by simp
  show ?case
  proof (cases "process_entry discard emit x (ms_dedup st, ms_filtered st, ms_out st)")
    case (Inl e)
    then have "merge_step pop ops ra discard emit st = Inl e"
      using pop y refill(1) by (simp add: merge_step_def process_entry_def Let_def)
    then show ?thesis
      using nonempty n Inl by (simp add: merge_loop.simps loop_result_def)
  next
    case (Inr acc)
    obtain d f o' where acc: "acc = (d, f, o')" by (cases acc) auto
    let ?st = "\<lparr>ms_sources = srcs', ms_heap = h', ms_dedup = d, ms_filtered = f, ms_out = o'\<rparr>"
    have "merge_step pop ops ra discard emit st = Inr ?st"
      using Inr acc pop y refill(1) by (simp add: merge_step_def process_entry_def Let_def)
    then have "merge_loop fuel pop ops ra discard emit st = merge_loop n pop ops ra discard emit ?st"
      using nonempty n by (simp add: merge_loop.simps [of "Suc n"])
    then show ?thesis
      using Cons.IH [of ?st rs' n] Cons.prems(2) refill mset n(2) Inr acc by simp
  qed
qed

lemma k_way_merge_ok:
  assumes reps: "list_all2 rep srcs rs" and es: "es = map (so_epoch ops) srcs" "distinct es"
    and sorted: "\<forall>r \<in> set rs. sorted_wrt (<) (map fst r)" and parse: "\<forall>r \<in> set rs. values_parse r"
    and fuel: "length (stream_entries rs es) \<le> fuel" and ra: "0 < ra"
  defines "M \<equiv> newest (merge_order (stream_entries rs es))"
  shows "k_way_merge fuel pop ops ra discard emit srcs out =
    (if M = [] then Inl (generic_error ''No buffered item to force_pop'')
     else case fold_expected emit (filter (\<lambda>e. \<not> (discard \<and> is_tombstone e)) M) out of
       Inl e \<Rightarrow> Inl e
     | Inr out' \<Rightarrow> Inr (\<lparr>dd_to_be_checked = None, dd_ready = None,
         dd_deduplicated = length (stream_entries rs es) - length M\<rparr>,
         length (filter (\<lambda>e. discard \<and> is_tombstone e) M), out'))"
proof -
  let ?E = "stream_entries rs es"
  obtain srcs1 where srcs1: "refresh_buffers ops ra srcs = Inr srcs1" "list_all2 rep srcs1 rs"
      "map (so_epoch ops) srcs1 = es"
    using refresh_buffers_ok [OF reps ra] es(1) by blast
  have "minv (set [0..<length srcs1]) (srcs1, []) rs es"
    using srcs1(2,3) sorted by (auto simp: merge_inv_def)
  from init_heap_ok [OF this _ parse ra]
  obtain srcs2 h rs2 where init: "init_heap ops ra [0..<length srcs1] (srcs1, []) = Inr (srcs2, h)"
      "minv {} (srcs2, h) rs2 es" "pending h rs2 es = pending [] rs es" "\<forall>r \<in> set rs2. values_parse r"
    by auto
  note order = merge_order_sorted [OF stream_entries_distinct [OF es(2) sorted]]
  have mset: "mset (merge_order ?E) = pending h rs2 es"
    using init(3) order(2) by (simp add: pending_def)
  let ?st = "\<lparr>ms_sources = srcs2, ms_heap = h, ms_dedup = empty_dedup, ms_filtered = 0, ms_out = out\<rparr>"
  have len: "length (merge_order ?E) = length ?E" by (simp add: merge_order_def)
  have "loop_result (merge_loop fuel pop ops ra discard emit ?st)
      = fold_expected (process_entry discard emit) (merge_order ?E) (empty_dedup, 0, out)"
    using merge_loop_process [of ?st rs2 es "merge_order ?E" fuel ra discard emit] init order mset fuel ra len by simp
  moreover have "k_way_merge fuel pop ops ra discard emit srcs out
      = (case loop_result (merge_loop fuel pop ops ra discard emit ?st) of
           Inl e \<Rightarrow> Inl e | Inr st \<Rightarrow> merge_finish discard emit st)"
    using srcs1(1) init(1) by (simp add: k_way_merge_def loop_result_def split: sum.splits)
  ultimately have run: "k_way_merge fuel pop ops ra discard emit srcs out
      = (case fold_expected (process_entry discard emit) (merge_order ?E) (empty_dedup, 0, out) of
           Inl e \<Rightarrow> Inl e | Inr st \<Rightarrow> merge_finish discard emit st)"
    by (simp only:)
  show ?thesis
  proof (cases "merge_order ?E")
    case Nil
    then show ?thesis
      by (simp add: run M_def merge_finish_def empty_dedup_def dedup_is_ready_def dedup_force_pop_def)
  next
    case (Cons x xs)
    let ?d = "empty_dedup\<lparr>dd_to_be_checked := Some x\<rparr>"
    have M: "M = runs x xs" "M \<noteq> []" "Suc (length xs) = length ?E"
      using Cons len by (simp_all add: M_def)
    have "process_entry discard emit x (empty_dedup, 0, out) = Inr (?d, 0, out)"
      by (simp add: process_entry_def dedup_push_def empty_dedup_def pop_ready_def dedup_is_ready_def)
    then show ?thesis
      using M process_runs [of ?d x discard emit xs "(0, out)"]
      by (simp add: run Cons fold_handle_item empty_dedup_def split: sum.splits)
  qed
qed

lemma k_way_merge_collects:
  assumes reps: "list_all2 rep srcs rs" and es: "es = map (so_epoch ops) srcs" "distinct es"
    and sorted: "\<forall>r \<in> set rs. sorted_wrt (<) (map fst r)" and parse: "\<forall>r \<in> set rs. values_parse r"
    and fuel: "length (stream_entries rs es) \<le> fuel" and ra: "0 < ra" and nonempty: "stream_entries rs es \<noteq> []"
  shows "\<exists>d n out. k_way_merge fuel pop ops ra discard collect srcs [] = Inr (d, n, out)
    \<and> sorted_wrt (<) (map me_key out)
    \<and> set out = {e. is_newest (set (stream_entries rs es)) e \<and> \<not> (discard \<and> is_tombstone e)}"
proof -
  let ?E = "stream_entries rs es"
  let ?M = "newest (merge_order ?E)"
  note order = merge_order_sorted [OF stream_entries_distinct [OF es(2) sorted]]
  have set: "set (merge_order ?E) = set ?E"
    using mset_eq_setD [OF order(2)] .
  then obtain x xs where x: "merge_order ?E = x # xs"
    using nonempty by (cases "merge_order ?E") auto
  have M: "?M \<noteq> []" "sorted_wrt (<) (map me_key ?M)" "set ?M = {e. is_newest (set ?E) e}"
    using runs_spec [of x xs] order(1) set x by simp_all
  have "sorted_wrt (<) (map me_key (filter P ?M))" for P
    using M(2) by (simp add: sorted_wrt_map sorted_wrt_filter)
  then show ?thesis
    using k_way_merge_ok [OF reps es sorted parse fuel ra, where discard = discard and emit = collect and out = "[]"] M
    by (simp add: fold_collect)
qed

end

end
