(* ===== verification/Skiplist.thy ===== *)
theory Skiplist
  imports Merge
begin

text \<open>
  The ordered store behind a memtable: the entries and their order from \<^verbatim>\<open>src/db/skiplist.h\<close>, the
  operations of \<^verbatim>\<open>skiplist_wrapper\<close> in \<^verbatim>\<open>src/db/memtable.cc\<close> and the cursor over a memtable of
  \<^verbatim>\<open>src/db/merge/sst_stream.h\<close>. The concurrent skip list itself is a vendored third-party
  structure. It is represented by the sequence of its elements in order: insertion keeps the order
  and leaves an equal element in place, \<open>lower_bound\<close> is the position of the first element that is
  not smaller, and an iterator is a position.
\<close>

section \<open>Entries in order\<close>

record memtable_entry =
  mt_key :: bytes
  mt_seq :: u64
  mt_value :: bytes

definition memtable_less :: "memtable_entry \<Rightarrow> memtable_entry \<Rightarrow> bool" where
  "memtable_less a b =
     (if mt_key a \<noteq> mt_key b then mt_key a < mt_key b else mt_seq a > mt_seq b)"

fun skip_insert :: "memtable_entry \<Rightarrow> memtable_entry list \<Rightarrow> memtable_entry list" where
  "skip_insert e [] = [e]"
| "skip_insert e (x # xs) =
     (if memtable_less x e then x # skip_insert e xs else if memtable_less e x then e # x # xs else x # xs)"

fun skip_lower_bound :: "memtable_entry \<Rightarrow> memtable_entry list \<Rightarrow> nat" where
  "skip_lower_bound e [] = 0"
| "skip_lower_bound e (x # xs) = (if memtable_less x e then Suc (skip_lower_bound e xs) else 0)"

definition probe :: "bytes \<Rightarrow> memtable_entry" where
  "probe key = \<lparr>mt_key = key, mt_seq = -1, mt_value = []\<rparr>"

text \<open>
  \<open>wrapper_insert\<close> takes the next number of the shared counter. The flag of the pair is false when
  the skip list cannot allocate; \<open>mem\<close> says whether it can.
\<close>

definition wrapper_insert ::
    "bool \<Rightarrow> bytes \<Rightarrow> bytes \<Rightarrow> memtable_entry list \<times> u64 \<Rightarrow> (bool \<times> u64) \<times> memtable_entry list \<times> u64" where
  "wrapper_insert mem key v st = (case st of (xs, seq_nr) \<Rightarrow>
     (let seq = seq_nr
      in if mem then ((True, seq), skip_insert \<lparr>mt_key = key, mt_seq = seq, mt_value = v\<rparr> xs, seq_nr + 1)
         else ((False, 0), xs, seq_nr + 1)))"

definition wrapper_get :: "bytes \<Rightarrow> memtable_entry list \<Rightarrow> bytes option" where
  "wrapper_get key xs =
     (let it = skip_lower_bound (probe key) xs
      in if it \<noteq> length xs \<and> mt_key (xs ! it) = key then Some (mt_value (xs ! it)) else None)"

section \<open>The cursor\<close>

record memtable_cursor =
  mc_table :: "memtable_entry list"
  mc_it :: nat
  mc_end :: nat
  mc_max_seq :: u64
  mc_epoch :: u64

function skip_while :: "(memtable_entry \<Rightarrow> bool) \<Rightarrow> memtable_entry list \<Rightarrow> nat \<Rightarrow> nat \<Rightarrow> nat" where
  "skip_while P xs end_pos it =
     (if it \<noteq> end_pos \<and> it < length xs \<and> P (xs ! it) then skip_while P xs end_pos (it + 1) else it)"
  by pat_completeness auto
termination
  by (relation "measure (\<lambda>(P, xs, end_pos, it). length xs - it)") auto

declare skip_while.simps [simp del]

definition skip_invisible :: "memtable_cursor \<Rightarrow> memtable_cursor" where
  "skip_invisible c = c\<lparr>mc_it := skip_while (\<lambda>e. mt_seq e > mc_max_seq c) (mc_table c) (mc_end c) (mc_it c)\<rparr>"

definition skip_duplicate_keys :: "bytes \<Rightarrow> memtable_cursor \<Rightarrow> memtable_cursor" where
  "skip_duplicate_keys key c = c\<lparr>mc_it := skip_while (\<lambda>e. mt_key e = key) (mc_table c) (mc_end c) (mc_it c)\<rparr>"

definition make_memtable_cursor ::
    "memtable_entry list \<Rightarrow> bytes option \<Rightarrow> bytes option \<Rightarrow> u64 \<Rightarrow> u64 \<Rightarrow> memtable_cursor" where
  "make_memtable_cursor xs lower upper epoch max_seq =
     (let it = (case lower of Some l \<Rightarrow> skip_lower_bound (probe l) xs | None \<Rightarrow> 0);
          end_pos = (case upper of Some u \<Rightarrow> skip_lower_bound (probe u) xs | None \<Rightarrow> length xs);
          end_pos = (if end_pos \<noteq> length xs then end_pos + 1 else end_pos)
      in skip_invisible \<lparr>mc_table = xs, mc_it = it, mc_end = end_pos, mc_max_seq = max_seq, mc_epoch = epoch\<rparr>)"

definition mc_is_eof :: "memtable_cursor \<Rightarrow> bool" where
  "mc_is_eof c \<longleftrightarrow> mc_it c = mc_end c"

definition mc_front :: "memtable_cursor \<Rightarrow> bytes \<times> bytes" where
  "mc_front c = (let e = mc_table c ! mc_it c in (mt_key e, mt_value e))"

definition mc_pop_front :: "memtable_cursor \<Rightarrow> memtable_cursor expected" where
  "mc_pop_front c =
     (if mc_it c < length (mc_table c) then
        (let key = mt_key (mc_table c ! mc_it c)
         in Inr (skip_duplicate_keys key (skip_invisible (c\<lparr>mc_it := mc_it c + 1\<rparr>))))
      else Inl (generic_error ''out of range read''))"

text \<open>A cursor as a source of a merge: its entries are in memory, so there is nothing to refresh.\<close>

definition memtable_cursor_ops :: "memtable_cursor source_ops" where
  "memtable_cursor_ops =
     \<lparr>so_is_eof = mc_is_eof, so_buffer_empty = mc_is_eof, so_buffered = (\<lambda>c. mc_end c - mc_it c),
      so_front = mc_front, so_pop_front = mc_pop_front, so_refresh = Inr, so_epoch = mc_epoch\<rparr>"

section \<open>The store as a map\<close>

definition skip_sorted :: "memtable_entry list \<Rightarrow> bool" where
  "skip_sorted xs \<longleftrightarrow> sorted_wrt memtable_less xs"

lemma memtable_less_trans: "memtable_less a b \<Longrightarrow> memtable_less b c \<Longrightarrow> memtable_less a c"
  by (auto simp: memtable_less_def split: if_splits)

lemma memtable_less_asym: "memtable_less a b \<Longrightarrow> \<not> memtable_less b a"
  by (auto simp: memtable_less_def split: if_splits)

lemma set_skip_insert: "set (skip_insert e xs) \<subseteq> insert e (set xs)" "set xs \<subseteq> set (skip_insert e xs)"
  by (induction xs) auto

lemma skip_insert_sorted:
  assumes "skip_sorted xs"
  shows "skip_sorted (skip_insert e xs)"
  using assms
proof (induction xs)
  case (Cons x xs)
  have tail: "sorted_wrt memtable_less xs" "\<And>y. y \<in> set xs \<Longrightarrow> memtable_less x y"
    using Cons.prems by (auto simp: skip_sorted_def)
  have IH: "sorted_wrt memtable_less (skip_insert e xs)"
    using Cons.IH tail(1) by (simp add: skip_sorted_def)
  have "memtable_less x y" if "memtable_less x e" "y \<in> set (skip_insert e xs)" for y
    using that set_skip_insert(1) [of e xs] tail(2) by blast
  moreover have "memtable_less e y" if "memtable_less e x" "y \<in> set xs" for y
    using memtable_less_trans [OF that(1) tail(2) [OF that(2)]] .
  ultimately show ?case
    using IH tail by (simp add: skip_sorted_def)
qed (simp add: skip_sorted_def)

lemma memtable_less_probe: "memtable_less x (probe k) \<longleftrightarrow> mt_key x < k"
proof -
  have "\<not> mt_seq x > (-1 :: u64)" by (simp add: not_less)
  then show ?thesis by (auto simp: memtable_less_def probe_def)
qed

text \<open>On a sorted store, the probe finds the entry with the highest number for a key.\<close>

lemma wrapper_get_simps [simp]:
  "wrapper_get key [] = None"
  "wrapper_get key (x # xs) =
     (if mt_key x = key then Some (mt_value x) else if mt_key x < key then wrapper_get key xs else None)"
proof -
  show "wrapper_get key [] = None" by (simp add: wrapper_get_def)
  show "wrapper_get key (x # xs) =
     (if mt_key x = key then Some (mt_value x) else if mt_key x < key then wrapper_get key xs else None)"
    by (auto simp: wrapper_get_def Let_def memtable_less_probe)
qed

lemma wrapper_get_insert:
  assumes "skip_sorted xs" "\<forall>x \<in> set xs. mt_seq x < mt_seq e"
  shows "wrapper_get key (skip_insert e xs) = (if key = mt_key e then Some (mt_value e) else wrapper_get key xs)"
  using assms
proof (induction xs)
  case (Cons x xs)
  have IH: "wrapper_get key (skip_insert e xs) = (if key = mt_key e then Some (mt_value e) else wrapper_get key xs)"
    using Cons by (simp add: skip_sorted_def)
  have e: "mt_seq x < mt_seq e" using Cons.prems(2) by simp
  consider "mt_key x < mt_key e" | "mt_key x = mt_key e" | "mt_key e < mt_key x" by fastforce
  then show ?case
    using IH e by cases (auto simp: memtable_less_def)
qed auto

section \<open>What a cursor delivers\<close>

text \<open>Of every run of entries with the same key, a cursor delivers the first.\<close>

declare length_dropWhile_le [termination_simp]

fun key_runs :: "memtable_entry list \<Rightarrow> (bytes \<times> bytes) list" where
  "key_runs [] = []"
| "key_runs (e # es) = (mt_key e, mt_value e) # key_runs (dropWhile (\<lambda>x. mt_key x = mt_key e) es)"

lemma key_runs_eq_Nil [simp]: "key_runs es = [] \<longleftrightarrow> es = []"
  by (cases es) auto

definition mc_range :: "memtable_cursor \<Rightarrow> memtable_entry list" where
  "mc_range c = take (mc_end c - mc_it c) (drop (mc_it c) (mc_table c))"

definition memtable_cursor_rep :: "memtable_cursor \<Rightarrow> (bytes \<times> bytes) list \<Rightarrow> bool" where
  "memtable_cursor_rep c xs \<longleftrightarrow> mc_it c \<le> mc_end c \<and> mc_end c \<le> length (mc_table c)
     \<and> (\<forall>e \<in> set (mc_range c). mt_seq e \<le> mc_max_seq c) \<and> xs = key_runs (mc_range c)"

lemma take_drop_Cons:
  assumes "it < end_pos" "end_pos \<le> length xs"
  shows "take (end_pos - it) (drop it xs) = xs ! it # take (end_pos - Suc it) (drop (Suc it) xs)"
  using assms by (simp add: Cons_nth_drop_Suc [symmetric] take_Cons' Suc_diff_Suc)

lemma skip_while_range:
  assumes "it \<le> end_pos" "end_pos \<le> length xs"
  shows "it \<le> skip_while P xs end_pos it \<and> skip_while P xs end_pos it \<le> end_pos \<and>
    take (end_pos - skip_while P xs end_pos it) (drop (skip_while P xs end_pos it) xs)
      = dropWhile P (take (end_pos - it) (drop it xs))"
  using assms
proof (induction P xs end_pos it rule: skip_while.induct)
  case (1 P xs end_pos it)
  show ?case
  proof (cases "it < end_pos \<and> P (xs ! it)")
    case True
    then have step: "skip_while P xs end_pos it = skip_while P xs end_pos (it + 1)"
      using "1.prems" by (subst skip_while.simps) auto
    show ?thesis
      using "1.IH" True "1.prems" take_drop_Cons [of it end_pos xs] unfolding step by simp
  next
    case False
    then have "skip_while P xs end_pos it = it"
      using "1.prems" by (subst skip_while.simps) auto
    then show ?thesis
      using False "1.prems" take_drop_Cons [of it end_pos xs] by (cases "it < end_pos") auto
  qed
qed

lemma skip_while_none:
  assumes "it \<le> end_pos" "end_pos \<le> length xs" "\<forall>e \<in> set (take (end_pos - it) (drop it xs)). \<not> P e"
  shows "skip_while P xs end_pos it = it"
proof -
  have "\<not> P (xs ! it)" if "it < end_pos"
    using that assms take_drop_Cons [of it end_pos xs] by simp
  then show ?thesis
    using assms(1) by (subst skip_while.simps) auto
qed

lemma mc_range_Cons:
  assumes "mc_it c < mc_end c" "mc_end c \<le> length (mc_table c)"
  shows "mc_range c = mc_table c ! mc_it c # mc_range (c\<lparr>mc_it := mc_it c + 1\<rparr>)"
  using take_drop_Cons [OF assms] by (simp add: mc_range_def)

lemma mc_pop_front_rep:
  assumes "memtable_cursor_rep c (x # xs)"
  shows "\<exists>c'. mc_pop_front c = Inr c' \<and> memtable_cursor_rep c' xs \<and> mc_epoch c' = mc_epoch c"
proof -
  define c1 where "c1 = c\<lparr>mc_it := mc_it c + 1\<rparr>"
  define key where "key = mt_key (mc_table c ! mc_it c)"
  have bounds: "mc_it c < mc_end c" "mc_end c \<le> length (mc_table c)"
    using assms by (cases "mc_it c = mc_end c"; force simp: memtable_cursor_rep_def mc_range_def)+
  note range = mc_range_Cons [OF bounds, folded c1_def]
  have visible: "\<forall>e \<in> set (mc_range c1). \<not> mt_seq e > mc_max_seq c1"
    using assms range by (auto simp: memtable_cursor_rep_def c1_def not_less)
  have "skip_invisible c1 = c1"
    using skip_while_none [of "mc_it c1" "mc_end c1" "mc_table c1"] visible bounds
    by (simp add: skip_invisible_def mc_range_def c1_def)
  then have pop: "mc_pop_front c = Inr (skip_duplicate_keys key c1)"
    using bounds by (simp add: mc_pop_front_def key_def c1_def)
  let ?c' = "skip_duplicate_keys key c1"
  have skip: "mc_it ?c' \<le> mc_end ?c'" "mc_range ?c' = dropWhile (\<lambda>e. mt_key e = key) (mc_range c1)"
    using skip_while_range [of "mc_it c1" "mc_end c1" "mc_table c1" "\<lambda>e. mt_key e = key"] bounds
    by (auto simp: skip_duplicate_keys_def mc_range_def c1_def)
  have "xs = key_runs (mc_range ?c')"
    using assms range skip(2) by (simp add: memtable_cursor_rep_def key_def)
  moreover have "\<forall>e \<in> set (mc_range ?c'). mt_seq e \<le> mc_max_seq ?c'"
    using visible skip(2) by (auto simp: skip_duplicate_keys_def not_less dest: set_dropWhileD)
  ultimately show ?thesis
    using pop skip(1) bounds by (auto simp: memtable_cursor_rep_def skip_duplicate_keys_def c1_def)
qed

interpretation mc: merge_sources heap_pop memtable_cursor_ops memtable_cursor_rep
proof unfold_locales
  fix s x xs assume rep: "memtable_cursor_rep s (x # xs)"
  then have bounds: "mc_it s < mc_end s" "mc_end s \<le> length (mc_table s)"
    by (cases "mc_it s = mc_end s"; force simp: memtable_cursor_rep_def mc_range_def)+
  show "so_front memtable_cursor_ops s = x"
    using mc_range_Cons [OF bounds] rep by (simp add: memtable_cursor_ops_def mc_front_def memtable_cursor_rep_def Let_def)
  show "\<exists>s'. so_pop_front memtable_cursor_ops s = Inr s' \<and> memtable_cursor_rep s' xs
      \<and> so_epoch memtable_cursor_ops s' = so_epoch memtable_cursor_ops s"
    using mc_pop_front_rep [OF rep] by (simp add: memtable_cursor_ops_def)
  show "\<not> so_buffer_empty memtable_cursor_ops s'" if "so_buffer_empty memtable_cursor_ops s" for s'
    using bounds that by (simp add: memtable_cursor_ops_def mc_is_eof_def)
qed (auto simp: memtable_cursor_ops_def mc_is_eof_def memtable_cursor_rep_def mc_range_def)

interpretation mcc: cursor mc_is_eof mc_front mc_pop_front memtable_cursor_rep
proof unfold_locales
  fix c x xs assume rep: "memtable_cursor_rep c (x # xs)"
  then have "\<not> mc_is_eof c"
    using mc.rep_eof [OF rep] by (simp add: memtable_cursor_ops_def)
  then show "\<not> mc_is_eof c \<and> mc_front c = x"
    using mc.rep_front [OF rep] by (simp add: memtable_cursor_ops_def)
  show "\<exists>c'. mc_pop_front c = Inr c' \<and> memtable_cursor_rep c' xs"
    using mc_pop_front_rep [OF rep] by blast
next
  fix c assume "memtable_cursor_rep c []"
  then show "mc_is_eof c"
    using mc.rep_eof [of c "[]"] by (simp add: memtable_cursor_ops_def)
qed

lemma skip_sorted_Cons:
  "skip_sorted (x # xs) \<longleftrightarrow> skip_sorted xs \<and> (\<forall>y \<in> set xs. memtable_less x y)"
  by (auto simp: skip_sorted_def)

lemma skip_sorted_keys: "skip_sorted xs \<Longrightarrow> sorted (map mt_key xs)"
proof (induction xs)
  case (Cons x xs)
  have "mt_key x \<le> mt_key y" if "y \<in> set xs" for y
    using Cons.prems that by (cases "mt_key x = mt_key y") (auto simp: skip_sorted_Cons memtable_less_def)
  then show ?case using Cons by (simp add: skip_sorted_Cons)
qed simp

lemma skip_sorted_slice: "skip_sorted xs \<Longrightarrow> skip_sorted (take n (drop m xs))"
  by (simp add: skip_sorted_def)

lemma wrapper_get_find:
  "sorted (map mt_key xs) \<Longrightarrow> wrapper_get key xs = map_option mt_value (find (\<lambda>e. mt_key e = key) xs)"
proof (induction xs)
  case (Cons x xs)
  have "find (\<lambda>e. mt_key e = key) xs = None" if "key < mt_key x"
    using Cons.prems that by (fastforce simp: find_None_iff)
  then show ?case using Cons by (auto simp: not_less)
qed simp

lemma find_dropWhile:
  "k \<noteq> k' \<Longrightarrow> find (\<lambda>e. mt_key e = k) (dropWhile (\<lambda>e. mt_key e = k') xs) = find (\<lambda>e. mt_key e = k) xs"
  by (induction xs) auto

lemma map_of_key_runs: "map_of (key_runs xs) k = map_option mt_value (find (\<lambda>e. mt_key e = k) xs)"
proof (induction xs rule: key_runs.induct)
  case (2 e es)
  show ?case
  proof (cases "mt_key e = k")
    case False
    then show ?thesis using 2 find_dropWhile [of k "mt_key e" es] by simp
  qed simp
qed simp

lemma key_runs_keys: "fst ` set (key_runs xs) = mt_key ` set xs"
proof -
  have "k \<in> fst ` set (key_runs xs) \<longleftrightarrow> k \<in> mt_key ` set xs" for k
  proof -
    have "k \<in> fst ` set (key_runs xs) \<longleftrightarrow> find (\<lambda>e. mt_key e = k) xs \<noteq> None"
      using map_of_eq_None_iff [of "key_runs xs" k] by (simp add: map_of_key_runs)
    then show ?thesis by (auto simp: find_None_iff)
  qed
  then show ?thesis by blast
qed

lemma key_runs_sorted: "sorted (map mt_key xs) \<Longrightarrow> sorted_wrt (<) (map fst (key_runs xs))"
proof (induction xs rule: key_runs.induct)
  case (2 e es)
  let ?es = "dropWhile (\<lambda>x. mt_key x = mt_key e) es"
  have sorted: "sorted (map mt_key ?es)"
    using sorted_dropWhile [of "map mt_key es" "\<lambda>k. k = mt_key e"] 2(2) by (simp add: dropWhile_map o_def)
  have "mt_key e < mt_key y" if y: "y \<in> set ?es" for y
  proof -
    obtain z zs where z: "?es = z # zs" using y by (cases ?es) auto
    then have "mt_key z \<noteq> mt_key e"
      using hd_dropWhile [of "\<lambda>x. mt_key x = mt_key e" es] by simp
    moreover have "z \<in> set es"
      using set_dropWhileD [of z "\<lambda>x. mt_key x = mt_key e" es] z by simp
    then have "mt_key e \<le> mt_key z" using 2(2) by simp
    moreover have "mt_key z \<le> mt_key y" using sorted y z by auto
    ultimately show ?thesis by order
  qed
  then have "\<forall>k \<in> fst ` set (key_runs ?es). mt_key e < k"
    unfolding key_runs_keys by blast
  then show ?case using 2(1) sorted by simp
qed simp

section \<open>A sequence of insertions\<close>

fun wrapper_insert_all :: "(bytes \<times> bytes) list \<Rightarrow> memtable_entry list \<times> u64 \<Rightarrow> memtable_entry list \<times> u64" where
  "wrapper_insert_all [] st = st"
| "wrapper_insert_all ((key, v) # kvs) st = wrapper_insert_all kvs (snd (wrapper_insert True key v st))"

definition skiplist_inv :: "memtable_entry list \<times> u64 \<Rightarrow> bool" where
  "skiplist_inv st \<longleftrightarrow> skip_sorted (fst st) \<and> (\<forall>e \<in> set (fst st). mt_seq e < snd st)"

lemma seq_less_succ:
  assumes "unat n + 1 < 2 ^ 64"
  shows "unat (n + 1 :: u64) = unat n + 1" "n < n + 1"
proof -
  show "unat (n + 1) = unat n + 1"
    using iffD1 [OF unat_add_lem, of n 1] assms by simp
  then show "n < n + 1" by (simp add: word_less_nat_alt)
qed

lemma wrapper_insert_inv:
  assumes "skiplist_inv st" "unat (snd st) + 1 < 2 ^ 64"
  shows "skiplist_inv (snd (wrapper_insert mem key v st))"
    "wrapper_get k (fst (snd (wrapper_insert True key v st))) = (if k = key then Some v else wrapper_get k (fst st))"
proof -
  obtain xs n where st: "st = (xs, n)" by (cases st)
  have "mt_seq x < n + 1" if "x \<in> insert \<lparr>mt_key = key, mt_seq = n, mt_value = v\<rparr> (set xs)" for x
    using that assms seq_less_succ [of n] st by (fastforce simp: skiplist_inv_def)
  then show "skiplist_inv (snd (wrapper_insert mem key v st))"
    using assms(1) skip_insert_sorted set_skip_insert(1) st
    by (fastforce simp: skiplist_inv_def wrapper_insert_def Let_def)
  show "wrapper_get k (fst (snd (wrapper_insert True key v st))) = (if k = key then Some v else wrapper_get k (fst st))"
    using assms(1) st wrapper_get_insert [of xs "\<lparr>mt_key = key, mt_seq = n, mt_value = v\<rparr>" k]
    by (simp add: skiplist_inv_def wrapper_insert_def Let_def)
qed

lemma wrapper_insert_all_get:
  assumes "skiplist_inv st" "unat (snd st) + length kvs < 2 ^ 64"
  shows "wrapper_get k (fst (wrapper_insert_all kvs st))
    = (case map_of (rev kvs) k of Some v \<Rightarrow> Some v | None \<Rightarrow> wrapper_get k (fst st))"
  using assms
proof (induction kvs arbitrary: st)
  case (Cons kv kvs)
  obtain key v where kv: "kv = (key, v)" by (cases kv)
  let ?st = "snd (wrapper_insert True key v st)"
  have step: "skiplist_inv ?st" "unat (snd ?st) = unat (snd st) + 1"
    using wrapper_insert_inv(1) [of st True key v] Cons.prems seq_less_succ(1) [of "snd st"]
    by (auto simp: wrapper_insert_def Let_def split: prod.split)
  show ?case
    using Cons.IH [OF step(1)] step(2) Cons.prems wrapper_insert_inv(2) [where st = st and key = key and v = v and k = k] kv
    by (auto simp: map_add_def split: option.split)
qed simp

text \<open>
  C17: Any sequence of insertions into an empty memtable, as long as the counter of sequence numbers does
  not wrap around, leaves a store that maps every key to the value inserted last for it and maps
  every other key to nothing.
\<close>

theorem skiplist_insert_get:
  assumes "unat seq_nr + length kvs < 2 ^ 64"
  shows "wrapper_get k (fst (wrapper_insert_all kvs ([], seq_nr))) = map_of (rev kvs) k"
  using wrapper_insert_all_get [of "([], seq_nr)" kvs k] assms
  by (simp add: skiplist_inv_def skip_sorted_def split: option.split)

theorem skiplist_insert_get_witness:
  "wrapper_get [7] (fst (wrapper_insert_all [([7], [1]), ([3], [2]), ([7], [9 :: byte])] ([], 0))) = Some [9]"
  by (subst skiplist_insert_get) simp_all

section \<open>A scan of a memtable\<close>

lemma skip_lower_bound_split:
  assumes "sorted (map mt_key xs)"
  shows "skip_lower_bound (probe k) xs \<le> length xs"
    "\<forall>e \<in> set (take (skip_lower_bound (probe k) xs) xs). mt_key e < k"
    "\<forall>e \<in> set (drop (skip_lower_bound (probe k) xs) xs). k \<le> mt_key e"
  using assms by (induction xs) (auto simp: memtable_less_probe)

lemma skip_lower_bound_mono: "l \<le> u \<Longrightarrow> skip_lower_bound (probe l) xs \<le> skip_lower_bound (probe u) xs"
  by (induction xs) (auto simp: memtable_less_probe)

lemma find_append: "find P (xs @ ys) = (case find P xs of Some x \<Rightarrow> Some x | None \<Rightarrow> find P ys)"
  by (induction xs) auto

text \<open>The entries between the two positions that the cursor starts with.\<close>

definition scan_range :: "bytes \<Rightarrow> bytes \<Rightarrow> memtable_entry list \<Rightarrow> memtable_entry list" where
  "scan_range l u xs =
     (let n = skip_lower_bound (probe l) xs; m = skip_lower_bound (probe u) xs
      in take (min (length xs) (m + 1) - n) (drop n xs))"

lemma scan_range_find:
  assumes sorted: "sorted (map mt_key xs)" and bounds: "l \<le> k" "k \<le> u"
  shows "find (\<lambda>e. mt_key e = k) (scan_range l u xs) = find (\<lambda>e. mt_key e = k) xs"
proof -
  let ?P = "\<lambda>e. mt_key e = k"
  let ?n = "skip_lower_bound (probe l) xs" and ?m = "skip_lower_bound (probe u) xs"
  note lower = skip_lower_bound_split [OF sorted, of l] and upper = skip_lower_bound_split [OF sorted, of u]
  have nm: "?n \<le> ?m" using bounds skip_lower_bound_mono [of l u xs] by auto
  let ?rest = "drop (?m + 1) xs"
  have parts: "xs = take ?n xs @ scan_range l u xs @ ?rest"
  proof -
    have "scan_range l u xs @ ?rest = drop ?n xs"
      using nm append_take_drop_id [of "min (length xs) (?m + 1) - ?n" "drop ?n xs"]
      by (simp add: scan_range_def Let_def min_def split: if_splits)
    then show ?thesis by simp
  qed
  have before: "find ?P (take ?n xs) = None"
    using lower(2) bounds by (auto simp: find_None_iff)
  have "find ?P ?rest = None" if "find ?P (scan_range l u xs) = None"
  proof (rule ccontr)
    assume "find ?P ?rest \<noteq> None"
    then obtain e where e: "e \<in> set ?rest" "mt_key e = k" by (auto simp: find_None_iff)
    then have m: "?m < length xs" by (cases "?m < length xs") auto
    then have split: "drop ?m xs = xs ! ?m # ?rest" by (simp add: Cons_nth_drop_Suc)
    then have "u \<le> mt_key (xs ! ?m)" using upper(3) by auto
    moreover have "sorted (map mt_key (xs ! ?m # ?rest))"
      using sorted_wrt_drop [OF sorted, of ?m] split by (simp add: drop_map)
    then have "mt_key (xs ! ?m) \<le> k" using e by auto
    ultimately have "mt_key (xs ! ?m) = k" using bounds by order
    moreover have "xs ! ?m \<in> set (scan_range l u xs)"
      using m nm by (auto simp: scan_range_def Let_def min_def in_set_conv_nth intro!: exI [of _ "?m - ?n"])
    ultimately show False using that by (auto simp: find_None_iff)
  qed
  then show ?thesis
    using before by (subst (2) parts) (auto simp: find_append split: option.split)
qed

lemma scan_range_above:
  assumes sorted: "sorted (map mt_key xs)" and bounds: "l \<le> u"
  shows "length (filter (\<lambda>e. u < mt_key e) (scan_range l u xs)) \<le> 1"
proof -
  let ?n = "skip_lower_bound (probe l) xs" and ?m = "skip_lower_bound (probe u) xs"
  note upper = skip_lower_bound_split [OF sorted, of u]
  have nm: "?n \<le> ?m" by (rule skip_lower_bound_mono [OF bounds])
  have split: "scan_range l u xs = take (?m - ?n) (drop ?n xs) @ take 1 (drop ?m xs)"
  proof -
    have "scan_range l u xs = take (Suc (?m - ?n)) (drop ?n xs)"
      using nm by (auto simp: scan_range_def Let_def min_def Suc_diff_le)
    then show ?thesis
      using take_add [of "?m - ?n" 1 "drop ?n xs"] nm by simp
  qed
  have "take (?m - ?n) (drop ?n xs) = drop ?n (take ?m xs)"
    by (simp add: drop_take)
  then have "filter (\<lambda>e. u < mt_key e) (take (?m - ?n) (drop ?n xs)) = []"
    using upper(2) by (fastforce simp: filter_empty_conv dest: in_set_dropD)
  then show ?thesis
    using split by (simp add: le_trans [OF length_filter_le])
qed

lemma key_runs_above:
  "length (filter (\<lambda>kv. u < fst kv) (key_runs xs)) \<le> length (filter (\<lambda>e. u < mt_key e) xs)"
proof (induction xs rule: key_runs.induct)
  case (2 e es)
  have "length (filter P (dropWhile Q es)) \<le> length (filter P es)" for P Q :: "memtable_entry \<Rightarrow> bool"
    by (induction es) (auto simp: le_SucI)
  then show ?case using 2 le_trans by fastforce
qed simp

lemma length_key_runs: "length (key_runs xs) \<le> length xs"
  by (induction xs rule: key_runs.induct) (auto intro: le_trans [OF _ length_dropWhile_le])

lemma make_memtable_cursor_rep:
  assumes sorted: "skip_sorted xs" and visible: "\<forall>e \<in> set xs. mt_seq e \<le> max_seq" and bounds: "l \<le> u"
  shows "memtable_cursor_rep (make_memtable_cursor xs (Some l) (Some u) epoch max_seq) (key_runs (scan_range l u xs))"
proof -
  let ?n = "skip_lower_bound (probe l) xs" and ?m = "skip_lower_bound (probe u) xs"
  define end_pos where "end_pos = (if ?m \<noteq> length xs then ?m + 1 else ?m)"
  let ?c = "\<lparr>mc_table = xs, mc_it = ?n, mc_end = end_pos, mc_max_seq = max_seq, mc_epoch = epoch\<rparr>"
  note keys = skip_sorted_keys [OF sorted]
  have pos: "?n \<le> end_pos" "end_pos \<le> length xs" "end_pos = min (length xs) (?m + 1)"
    using skip_lower_bound_mono [OF bounds, of xs] skip_lower_bound_split(1) [OF keys, of u]
    by (auto simp: end_pos_def)
  have "\<not> mt_seq e > max_seq" if "e \<in> set (take (end_pos - ?n) (drop ?n xs))" for e
    using visible that by (auto simp: not_less dest!: in_set_takeD in_set_dropD)
  then have "skip_invisible ?c = ?c"
    using skip_while_none [OF pos(1,2)] by (simp add: skip_invisible_def)
  then have "make_memtable_cursor xs (Some l) (Some u) epoch max_seq = ?c"
    by (simp add: make_memtable_cursor_def end_pos_def)
  moreover have "mc_range ?c = scan_range l u xs"
    by (simp add: mc_range_def scan_range_def Let_def pos(3))
  moreover have "\<forall>e \<in> set (scan_range l u xs). mt_seq e \<le> max_seq"
    using visible by (auto simp: scan_range_def Let_def dest!: in_set_takeD in_set_dropD)
  ultimately show ?thesis
    using pos by (simp add: memtable_cursor_rep_def)
qed

text \<open>
  C16: A cursor over a memtable in which every entry is visible, opened for the keys from \<open>l\<close> to \<open>u\<close>, can be
  drained without an error. It delivers keys in strictly ascending order, none below \<open>l\<close> and at most
  one above \<open>u\<close>, and for every key in the range exactly the value that a lookup finds.
\<close>

theorem memtable_cursor_scan:
  assumes "skip_sorted xs" "\<forall>e \<in> set xs. mt_seq e \<le> max_seq" "l \<le> u"
  shows "\<exists>ps. drain mc_is_eof mc_front mc_pop_front (length xs)
      (make_memtable_cursor xs (Some l) (Some u) epoch max_seq) = Inr ps
    \<and> sorted_wrt (<) (map fst ps) \<and> (\<forall>kv \<in> set ps. l \<le> fst kv)
    \<and> (\<forall>k v. l \<le> k \<and> k \<le> u \<longrightarrow> ((k, v) \<in> set ps \<longleftrightarrow> wrapper_get k xs = Some v))
    \<and> length (filter (\<lambda>kv. u < fst kv) ps) \<le> 1"
proof -
  let ?ps = "key_runs (scan_range l u xs)"
  note keys = skip_sorted_keys [OF assms(1)]
  have range: "skip_sorted (scan_range l u xs)"
    using skip_sorted_slice [OF assms(1)] by (simp add: scan_range_def Let_def)
  then have sorted: "sorted_wrt (<) (map fst ?ps)"
    by (intro key_runs_sorted skip_sorted_keys)
  have "length ?ps \<le> length xs"
    using le_trans [OF length_key_runs] by (simp add: scan_range_def Let_def)
  then have "drain mc_is_eof mc_front mc_pop_front (length xs)
      (make_memtable_cursor xs (Some l) (Some u) epoch max_seq) = Inr ?ps"
    using mcc.drain_rep make_memtable_cursor_rep [OF assms] by blast
  moreover have "\<forall>kv \<in> set ?ps. l \<le> fst kv"
  proof -
    have "set (scan_range l u xs) \<subseteq> set (drop (skip_lower_bound (probe l) xs) xs)"
      by (auto simp: scan_range_def Let_def dest: in_set_takeD)
    then have "\<forall>k \<in> fst ` set ?ps. l \<le> k"
      unfolding key_runs_keys using skip_lower_bound_split(3) [OF keys, of l] by blast
    then show ?thesis by simp
  qed
  moreover have "(k, v) \<in> set ?ps \<longleftrightarrow> wrapper_get k xs = Some v" if "l \<le> k" "k \<le> u" for k v
  proof -
    have "distinct (map fst ?ps)" using sorted strict_sorted_iff by blast
    then have "(k, v) \<in> set ?ps \<longleftrightarrow> map_of ?ps k = Some v" by simp
    also have "\<dots> \<longleftrightarrow> wrapper_get k xs = Some v"
      using scan_range_find [OF keys that] wrapper_get_find [OF keys] by (simp add: map_of_key_runs)
    finally show ?thesis .
  qed
  moreover have "length (filter (\<lambda>kv. u < fst kv) ?ps) \<le> 1"
    using key_runs_above scan_range_above [OF keys assms(3)] by (rule le_trans)
  ultimately show ?thesis using sorted by blast
qed

definition sample_table :: "memtable_entry list" where
  "sample_table =
     [\<lparr>mt_key = [1], mt_seq = 3, mt_value = [10]\<rparr>, \<lparr>mt_key = [1], mt_seq = 2, mt_value = [11]\<rparr>,
      \<lparr>mt_key = [2], mt_seq = 9, mt_value = [12]\<rparr>, \<lparr>mt_key = [2], mt_seq = 4, mt_value = [13]\<rparr>]"

theorem memtable_cursor_scan_witness:
  "\<exists>ps. drain mc_is_eof mc_front mc_pop_front (length sample_table)
      (make_memtable_cursor sample_table (Some [1]) (Some [2]) 0 9) = Inr ps \<and> ([2], [12]) \<in> set ps"
proof -
  have "skip_sorted sample_table" "\<forall>e \<in> set sample_table. mt_seq e \<le> 9" "[1 :: byte] \<le> [2]"
    "wrapper_get [2] sample_table = Some [12]"
    by (simp_all add: sample_table_def skip_sorted_def memtable_less_def)
  then show ?thesis using memtable_cursor_scan [of sample_table 9 "[1]" "[2]" 0] by auto
qed

text \<open>
  Visibility. \<open>pop_front\<close> skips the entries that are newer than the snapshot before it skips the older
  versions of the key it leaves. When the key it leaves has an older version, the first entry of
  the next key is not checked again, so a cursor for the snapshot 5 delivers an entry with the
  number 9 here, and hides the version 4 which the snapshot should see.
\<close>

lemma memtable_cursor_invisible:
  "drain mc_is_eof mc_front mc_pop_front 4 (make_memtable_cursor sample_table None None 0 5)
     = Inr [([1], [10]), ([2], [12])]"
  by code_simp

end
