(* ===== verification/Sst_Stream.thy ===== *)
theory Sst_Stream
  imports Block_Buffer Merge
begin

text \<open>
  The reader of a file in chunks, \<^verbatim>\<open>src/fs/file_reader2.cc\<close>, and the stream of the pairs of an SST
  built on it, \<^verbatim>\<open>sst_stream\<close> in \<^verbatim>\<open>src/db/merge/sst_stream.h\<close>. A read goes to the kernel: it is the
  parameter \<open>rd\<close>, a function of the file, the length and the offset that returns what the buffer
  holds afterwards, or an error. \<open>reads_files\<close> states what is relied on. The stream is a provider of
  the stream contract, so the merge of SST files is an instance of the merge engine.
\<close>

type_synonym read_fn = "nat \<Rightarrow> nat \<Rightarrow> nat \<Rightarrow> bytes expected"

section \<open>Reading ahead\<close>

record file_reader2 =
  fr_file :: nat
  fr_direct :: bool
  fr_end_offset :: nat
  fr_read_ahead :: nat
  fr_current_offset :: nat

definition make_file_reader2 :: "nat \<Rightarrow> bool \<Rightarrow> nat \<Rightarrow> nat \<Rightarrow> nat \<Rightarrow> file_reader2" where
  "make_file_reader2 file direct start_offset end_offset read_ahead_size =
     (let buffer_size = (if \<not> is_page_aligned (of_nat read_ahead_size)
                         then unat (ceil_page_align (of_nat read_ahead_size)) else read_ahead_size)
      in \<lparr>fr_file = file, fr_direct = direct, fr_end_offset = end_offset, fr_read_ahead = buffer_size,
          fr_current_offset = start_offset\<rparr>)"

text \<open>A request is a pair of a length and an offset.\<close>

definition next_no_cache :: "file_reader2 \<Rightarrow> ((nat \<times> nat) option \<times> file_reader2)" where
  "next_no_cache r =
     (if fr_current_offset r \<ge> fr_end_offset r then (None, r)
      else
        (let bytes_to_read =
               (if fr_current_offset r + fr_read_ahead r > fr_end_offset r
                then fr_end_offset r - fr_current_offset r else fr_read_ahead r);
             aligned =
               (if fr_direct r \<and> \<not> is_page_aligned (of_nat bytes_to_read)
                then unat (ceil_page_align (of_nat bytes_to_read)) else bytes_to_read)
         in (Some (aligned, fr_current_offset r), r\<lparr>fr_current_offset := fr_current_offset r + aligned\<rparr>)))"

definition fr_is_eof :: "file_reader2 \<Rightarrow> bool" where
  "fr_is_eof r \<longleftrightarrow> fr_current_offset r \<ge> fr_end_offset r"

section \<open>The stream\<close>

record sst_stream =
  ss_buffers :: "bytes list"
  ss_reader :: file_reader2
  ss_block_reader :: block_buffer_reader
  ss_epoch :: u64

definition make_sst_stream :: "file_reader2 \<Rightarrow> u64 \<Rightarrow> sst_stream" where
  "make_sst_stream reader epoch =
     \<lparr>ss_buffers = [], ss_reader = reader, ss_block_reader = make_block_buffer_reader True, ss_epoch = epoch\<rparr>"

definition start_consuming_buffer :: "hash64 \<Rightarrow> bytes \<Rightarrow> sst_stream \<Rightarrow> sst_stream expected" where
  "start_consuming_buffer xxh buffer s =
     (case reader_reset xxh buffer 0 (length buffer) (ss_block_reader s) of
        Inl e \<Rightarrow> Inl e | Inr r \<Rightarrow> Inr (s\<lparr>ss_block_reader := r\<rparr>))"

definition ss_push :: "hash64 \<Rightarrow> bytes \<Rightarrow> sst_stream \<Rightarrow> sst_stream expected" where
  "ss_push xxh buffer s =
     (let s = s\<lparr>ss_buffers := ss_buffers s @ [buffer]\<rparr>
      in if length (ss_buffers s) = 1 then start_consuming_buffer xxh buffer s else Inr s)"

definition ss_refresh :: "hash64 \<Rightarrow> read_fn \<Rightarrow> sst_stream \<Rightarrow> sst_stream expected" where
  "ss_refresh xxh rd s =
     (if fr_is_eof (ss_reader s) then Inr s
      else case next_no_cache (ss_reader s) of
        (None, r) \<Rightarrow> Inr (s\<lparr>ss_reader := r\<rparr>)
      | (Some (len, off), r) \<Rightarrow>
          (case rd (fr_file r) len off of
             Inl e \<Rightarrow> Inl (generic_error (''Read request failed with error code: '' @ error_msg e))
           | Inr buffer \<Rightarrow> ss_push xxh buffer (s\<lparr>ss_reader := r\<rparr>)))"

definition ss_pop_front :: "hash64 \<Rightarrow> sst_stream \<Rightarrow> sst_stream expected" where
  "ss_pop_front xxh s =
     (case ss_buffers s of
        [] \<Rightarrow> Inl (generic_error ''out of range read'')
      | cur # rest \<Rightarrow>
          (case reader_next xxh cur (ss_block_reader s) of
             Inl e \<Rightarrow> Inl e
           | Inr r \<Rightarrow>
               (let s = s\<lparr>ss_block_reader := r\<rparr>
                in if \<not> reader_at_end r then Inr s
                   else
                     (let s = s\<lparr>ss_buffers := rest\<rparr>
                      in case rest of
                           [] \<Rightarrow> Inr s
                         | buffer # _ \<Rightarrow> start_consuming_buffer xxh buffer s))))"

definition ss_front :: "sst_stream \<Rightarrow> bytes \<times> bytes" where
  "ss_front s = reader_pair (ss_block_reader s)"

definition ss_size :: "sst_stream \<Rightarrow> nat" where
  "ss_size s = sum_list (map length (ss_buffers s))"

definition ss_buffer_empty :: "sst_stream \<Rightarrow> bool" where
  "ss_buffer_empty s \<longleftrightarrow> ss_buffers s = []"

definition ss_is_eof :: "sst_stream \<Rightarrow> bool" where
  "ss_is_eof s \<longleftrightarrow> fr_is_eof (ss_reader s) \<and> ss_buffer_empty s"

definition sst_stream_ops :: "hash64 \<Rightarrow> read_fn \<Rightarrow> sst_stream source_ops" where
  "sst_stream_ops xxh rd =
     \<lparr>so_is_eof = ss_is_eof, so_buffer_empty = ss_buffer_empty, so_buffered = ss_size, so_front = ss_front,
      so_pop_front = ss_pop_front xxh, so_refresh = ss_refresh xxh rd, so_epoch = ss_epoch\<rparr>"

section \<open>The contract\<close>

definition reads_files :: "read_fn \<Rightarrow> (nat \<Rightarrow> bytes) \<Rightarrow> bool" where
  "reads_files rd files \<longleftrightarrow>
     (\<forall>f len off. off + len \<le> length (files f) \<longrightarrow> rd f len off = Inr (read_at (files f) off len))"

text \<open>The pages the reader has not asked for yet.\<close>

definition unread :: "hash64 \<Rightarrow> (nat \<Rightarrow> bytes) \<Rightarrow> file_reader2 \<Rightarrow> (bytes \<times> bytes) list list \<Rightarrow> bool" where
  "unread xxh files r kvss \<longleftrightarrow>
     (\<exists>pages. fr_read_ahead r = PAGE_SIZE_IN_BYTES * pages \<and> 0 < pages)
     \<and> fr_end_offset r = fr_current_offset r + PAGE_SIZE_IN_BYTES * length kvss
     \<and> fr_end_offset r \<le> length (files (fr_file r))
     \<and> pages_hold xxh (files (fr_file r)) (fr_current_offset r) kvss \<and> [] \<notin> set kvss"

definition buffer_holds :: "hash64 \<Rightarrow> bytes \<Rightarrow> (bytes \<times> bytes) list list \<Rightarrow> bool" where
  "buffer_holds xxh b kvss \<longleftrightarrow> kvss \<noteq> [] \<and> [] \<notin> set kvss \<and> pages_hold xxh b 0 kvss
     \<and> length b = PAGE_SIZE_IN_BYTES * length kvss"

definition buffers_rep :: "hash64 \<Rightarrow> block_buffer_reader \<Rightarrow> bytes list \<Rightarrow> (bytes \<times> bytes) list \<Rightarrow> bool" where
  "buffers_rep xxh r bs xs \<longleftrightarrow> d_cfg (r_dec r) = default_block_config \<and>
     (case bs of
        [] \<Rightarrow> xs = []
      | b # bs \<Rightarrow> (\<exists>kvs kvsss. xs = kvs @ concat (concat kvsss) \<and> kvs \<noteq> [] \<and> reader_rep xxh b r kvs
                     \<and> list_all2 (buffer_holds xxh) bs kvsss))"

definition sst_stream_rep ::
    "hash64 \<Rightarrow> read_fn \<Rightarrow> (nat \<Rightarrow> bytes) \<Rightarrow> sst_stream \<Rightarrow> (bytes \<times> bytes) list \<Rightarrow> bool" where
  "sst_stream_rep xxh rd files s xs \<longleftrightarrow> reads_files rd files \<and>
     (\<exists>ys kvss. xs = ys @ concat kvss \<and> buffers_rep xxh (ss_block_reader s) (ss_buffers s) ys
        \<and> unread xxh files (ss_reader s) kvss)"

lemma is_page_aligned_pages: "is_page_aligned (of_nat (PAGE_SIZE_IN_BYTES * k))"
proof -
  define n where "n = 4096 * k"
  have "n mod 2 ^ 64 mod 4096 = 0"
    by (simp add: n_def mod_mod_cancel)
  then have "unat ((of_nat n :: u64) mod 4096) = 0"
    by (simp add: unat_mod unsigned_of_nat take_bit_eq_mod)
  then show ?thesis
    by (simp add: is_page_aligned_def PAGE_SIZE_IN_BYTES_def unat_eq_zero n_def)
qed

lemma pages_hold_read_at:
  assumes "pages_hold xxh mem (base + off) kvss" "off + PAGE_SIZE_IN_BYTES * length kvss \<le> n"
  shows "pages_hold xxh (read_at mem base n) off kvss"
  using assms
proof (induction kvss arbitrary: off)
  case (Cons kvs kvss)
  then have "read_at (read_at mem base n) off PAGE_SIZE_IN_BYTES = read_at mem (base + off) PAGE_SIZE_IN_BYTES"
    by (simp add: read_at_read_at)
  then show ?case using Cons by (simp add: add.assoc)
qed simp

lemma next_no_cache_unread:
  assumes un: "unread xxh files r kvss" and ne: "kvss \<noteq> []"
  obtains len r' now later where "next_no_cache r = (Some (len, fr_current_offset r), r')" "fr_file r' = fr_file r"
    "fr_current_offset r + len \<le> length (files (fr_file r))" "kvss = now @ later" "unread xxh files r' later"
    "buffer_holds xxh (read_at (files (fr_file r)) (fr_current_offset r) len) now"
proof -
  obtain pages where pages: "fr_read_ahead r = PAGE_SIZE_IN_BYTES * pages" "0 < pages"
    using un by (auto simp: unread_def)
  define m where "m = min pages (length kvss)"
  have m: "0 < m" "m \<le> length kvss"
    using pages ne by (auto simp: m_def)
  let ?len = "PAGE_SIZE_IN_BYTES * m" and ?r = "r\<lparr>fr_current_offset := fr_current_offset r + PAGE_SIZE_IN_BYTES * m\<rparr>"
  have eof: "fr_current_offset r < fr_end_offset r"
    using un ne by (simp add: unread_def)
  have "(if fr_current_offset r + fr_read_ahead r > fr_end_offset r
         then fr_end_offset r - fr_current_offset r else fr_read_ahead r) = ?len"
    using un pages by (auto simp: unread_def m_def min_def)
  then have "next_no_cache r = (Some (?len, fr_current_offset r), ?r)"
    using eof is_page_aligned_pages [of m] by (simp add: next_no_cache_def Let_def del: of_nat_mult)
  moreover have split: "pages_hold xxh (files (fr_file r)) (fr_current_offset r) (take m kvss)"
      "pages_hold xxh (files (fr_file r)) (fr_current_offset r + ?len) (drop m kvss)"
    using un m pages_hold_append [of xxh "files (fr_file r)" "fr_current_offset r" "take m kvss" "drop m kvss"]
    by (simp_all add: unread_def min_absorb2)
  have sizes: "fr_end_offset r = fr_current_offset r + ?len + PAGE_SIZE_IN_BYTES * length (drop m kvss)"
    using un m by (simp add: unread_def add_mult_distrib2 [symmetric])
  then have "fr_current_offset r + ?len \<le> length (files (fr_file r))"
    using un by (simp add: unread_def)
  moreover have "unread xxh files ?r (drop m kvss)"
    using un split sizes by (auto simp: unread_def dest: in_set_dropD)
  moreover have "buffer_holds xxh (read_at (files (fr_file r)) (fr_current_offset r) ?len) (take m kvss)"
    using un split m pages_hold_read_at [of xxh _ "fr_current_offset r" 0 "take m kvss" ?len] calculation(2)
    by (auto simp: buffer_holds_def unread_def min_absorb2 read_at_def dest: in_set_takeD)
  ultimately show ?thesis
    using that [of ?len ?r "take m kvss" "drop m kvss"] by simp
qed

lemma start_consuming_ok:
  assumes "buffer_holds xxh b kvss" "d_cfg (r_dec (ss_block_reader s)) = default_block_config"
  obtains r where "start_consuming_buffer xxh b s = Inr (s\<lparr>ss_block_reader := r\<rparr>)"
    "reader_rep xxh b r (concat kvss)" "d_cfg (r_dec r) = default_block_config" "concat kvss \<noteq> []"
proof -
  obtain kvs rest where kvss: "kvss = kvs # rest"
    using assms(1) by (cases kvss) (auto simp: buffer_holds_def)
  then obtain r where "reader_reset xxh b 0 (length b) (ss_block_reader s) = Inr r" "reader_rep xxh b r (concat kvss)"
    using reader_reset_rep [of xxh b 0 kvs rest "ss_block_reader s"] assms by (auto simp: buffer_holds_def)
  then show ?thesis
    using that assms(1) kvss by (auto simp: start_consuming_buffer_def reader_rep_def buffer_holds_def)
qed

lemma ss_push_ok:
  assumes ys: "buffers_rep xxh (ss_block_reader s) (ss_buffers s) ys" and b: "buffer_holds xxh b kvss"
  obtains r where "ss_push xxh b s = Inr (s\<lparr>ss_buffers := ss_buffers s @ [b], ss_block_reader := r\<rparr>)"
    "buffers_rep xxh r (ss_buffers s @ [b]) (ys @ concat kvss)"
proof (cases "ss_buffers s")
  case Nil
  obtain r where "start_consuming_buffer xxh b (s\<lparr>ss_buffers := [b]\<rparr>) = Inr (s\<lparr>ss_buffers := [b], ss_block_reader := r\<rparr>)"
      "reader_rep xxh b r (concat kvss)" "d_cfg (r_dec r) = default_block_config" "concat kvss \<noteq> []"
    using start_consuming_ok [OF b, of "s\<lparr>ss_buffers := [b]\<rparr>"] ys by (auto simp: buffers_rep_def)
  then show ?thesis
    using that [of r] Nil ys by (auto simp: ss_push_def buffers_rep_def)
next
  case (Cons b0 bs)
  obtain kvs kvsss where rep: "ys = kvs @ concat (concat kvsss)" "kvs \<noteq> []"
      "reader_rep xxh b0 (ss_block_reader s) kvs" "list_all2 (buffer_holds xxh) bs kvsss"
      "d_cfg (r_dec (ss_block_reader s)) = default_block_config"
    using ys Cons by (auto simp: buffers_rep_def)
  have "list_all2 (buffer_holds xxh) (bs @ [b]) (kvsss @ [kvss])"
    using rep(4) b by (simp add: list_all2_appendI)
  then have "buffers_rep xxh (ss_block_reader s) (ss_buffers s @ [b]) (ys @ concat kvss)"
    using rep Cons unfolding buffers_rep_def by (auto intro!: exI [of _ kvs] exI [of _ "kvsss @ [kvss]"])
  moreover have "ss_push xxh b s = Inr (s\<lparr>ss_buffers := ss_buffers s @ [b], ss_block_reader := ss_block_reader s\<rparr>)"
    using Cons by (simp add: ss_push_def)
  ultimately show ?thesis by (rule that [rotated])
qed

lemma ss_refresh_ok:
  assumes "sst_stream_rep xxh rd files s xs"
  shows "\<exists>s'. ss_refresh xxh rd s = Inr s' \<and> sst_stream_rep xxh rd files s' xs \<and> ss_epoch s' = ss_epoch s
    \<and> (xs \<noteq> [] \<and> ss_buffers s = [] \<longrightarrow> ss_buffers s' \<noteq> [])"
proof -
  obtain ys kvss where rep: "reads_files rd files" "xs = ys @ concat kvss"
      "buffers_rep xxh (ss_block_reader s) (ss_buffers s) ys" "unread xxh files (ss_reader s) kvss"
    using assms by (auto simp: sst_stream_rep_def)
  show ?thesis
  proof (cases "kvss = []")
    case True
    then have "ss_refresh xxh rd s = Inr s"
      using rep(4) by (simp add: ss_refresh_def fr_is_eof_def unread_def)
    moreover have "ss_buffers s = [] \<Longrightarrow> ys = []"
      using rep(3) by (simp add: buffers_rep_def)
    ultimately show ?thesis using assms True rep(2) by auto
  next
    case False
    let ?f = "fr_file (ss_reader s)" and ?off = "fr_current_offset (ss_reader s)"
    obtain len r' now later where req: "next_no_cache (ss_reader s) = (Some (len, ?off), r')" "fr_file r' = ?f"
      "?off + len \<le> length (files ?f)" "kvss = now @ later" "unread xxh files r' later"
      "buffer_holds xxh (read_at (files ?f) ?off len) now"
      using next_no_cache_unread [OF rep(4) False] .
    let ?b = "read_at (files ?f) ?off len" and ?s = "s\<lparr>ss_reader := r'\<rparr>"
    have "\<not> fr_is_eof (ss_reader s)"
      using rep(4) False by (simp add: fr_is_eof_def unread_def)
    moreover have "rd ?f len ?off = Inr ?b"
      using rep(1) req(3) by (simp add: reads_files_def)
    ultimately have refresh: "ss_refresh xxh rd s = ss_push xxh ?b ?s"
      using req(1,2) by (simp add: ss_refresh_def)
    obtain r where "ss_push xxh ?b ?s = Inr (?s\<lparr>ss_buffers := ss_buffers ?s @ [?b], ss_block_reader := r\<rparr>)"
        "buffers_rep xxh r (ss_buffers ?s @ [?b]) (ys @ concat now)"
      using ss_push_ok [of xxh ?s ys ?b now] rep(3) req(6) by auto
    then show ?thesis
      using refresh rep(1,2) req(4,5) by (auto simp: sst_stream_rep_def intro!: exI [of _ "ys @ concat now"] exI [of _ later])
  qed
qed

lemma sst_stream_repI:
  "reads_files rd files \<Longrightarrow> buffers_rep xxh (ss_block_reader s) (ss_buffers s) ys \<Longrightarrow>
     unread xxh files (ss_reader s) kvss \<Longrightarrow> sst_stream_rep xxh rd files s (ys @ concat kvss)"
  by (auto simp: sst_stream_rep_def)

lemma ss_is_eof_rep:
  assumes "sst_stream_rep xxh rd files s xs"
  shows "ss_is_eof s \<longleftrightarrow> xs = []"
proof -
  obtain ys kvss where rep: "xs = ys @ concat kvss" "buffers_rep xxh (ss_block_reader s) (ss_buffers s) ys"
      "unread xxh files (ss_reader s) kvss"
    using assms by (auto simp: sst_stream_rep_def)
  have "ss_buffer_empty s \<longleftrightarrow> ys = []"
    using rep(2) by (auto simp: buffers_rep_def ss_buffer_empty_def split: list.splits)
  moreover have "fr_is_eof (ss_reader s) \<longleftrightarrow> concat kvss = []"
    using rep(3) page_size_pos by (cases kvss) (auto simp: fr_is_eof_def unread_def simp del: page_size_pos)
  ultimately show ?thesis using rep(1) by (auto simp: ss_is_eof_def)
qed

lemma ss_pop_front_ok:
  assumes rep: "sst_stream_rep xxh rd files s (x # xs)" and ne: "ss_buffers s \<noteq> []"
  shows "ss_front s = x \<and> (\<exists>s'. ss_pop_front xxh s = Inr s' \<and> sst_stream_rep xxh rd files s' xs \<and> ss_epoch s' = ss_epoch s)"
proof -
  obtain b bs where b: "ss_buffers s = b # bs" using ne by (cases "ss_buffers s") auto
  obtain kvs kvsss kvss where parts: "reads_files rd files" "x # xs = kvs @ concat (concat kvsss) @ concat kvss"
      "kvs \<noteq> []" "reader_rep xxh b (ss_block_reader s) kvs" "list_all2 (buffer_holds xxh) bs kvsss"
      "unread xxh files (ss_reader s) kvss"
    using rep b by (auto simp: sst_stream_rep_def buffers_rep_def)
  then obtain kvs' where kvs: "kvs = x # kvs'" "xs = kvs' @ concat (concat kvsss) @ concat kvss"
    by (cases kvs) auto
  obtain r where r: "reader_next xxh b (ss_block_reader s) = Inr r" "reader_rep xxh b r kvs'"
    using br.rep_next parts(4) kvs(1) by blast
  have at_end: "reader_at_end r \<longleftrightarrow> kvs' = []"
    using br.rep_Nil br.rep_Cons r(2) by (cases kvs') blast+
  have cfg: "d_cfg (r_dec r) = default_block_config"
    using r(2) by (auto simp: reader_rep_def)
  have "\<exists>s'. ss_pop_front xxh s = Inr s' \<and> sst_stream_rep xxh rd files s' xs \<and> ss_epoch s' = ss_epoch s"
  proof (cases "kvs' = [] \<and> bs \<noteq> []")
    case False
    let ?s = "if kvs' = [] then s\<lparr>ss_block_reader := r, ss_buffers := []\<rparr> else s\<lparr>ss_block_reader := r\<rparr>"
    have "ss_pop_front xxh s = Inr ?s"
      using False b r(1) at_end by (auto simp: ss_pop_front_def)
    moreover have "buffers_rep xxh (ss_block_reader ?s) (ss_buffers ?s) (kvs' @ concat (concat kvsss))"
      using False b parts(5) r(2) cfg by (auto simp: buffers_rep_def)
    then have "sst_stream_rep xxh rd files ?s ((kvs' @ concat (concat kvsss)) @ concat kvss)"
      using parts(1,6) by (intro sst_stream_repI) auto
    ultimately show ?thesis using kvs(2) by auto
  next
    case True
    then obtain b' bs' now later where bs: "bs = b' # bs'" "kvsss = now # later"
        "buffer_holds xxh b' now" "list_all2 (buffer_holds xxh) bs' later"
      using parts(5) by (cases bs; cases kvsss) auto
    obtain r' where r': "start_consuming_buffer xxh b' (s\<lparr>ss_block_reader := r, ss_buffers := bs\<rparr>)
          = Inr (s\<lparr>ss_block_reader := r, ss_buffers := bs, ss_block_reader := r'\<rparr>)"
        "reader_rep xxh b' r' (concat now)" "d_cfg (r_dec r') = default_block_config" "concat now \<noteq> []"
      using start_consuming_ok [OF bs(3), of "s\<lparr>ss_block_reader := r, ss_buffers := bs\<rparr>"] cfg by auto
    have "ss_pop_front xxh s = Inr (s\<lparr>ss_block_reader := r, ss_buffers := bs, ss_block_reader := r'\<rparr>)"
      using True b r(1) at_end r'(1) bs(1) by (simp add: ss_pop_front_def)
    moreover have "buffers_rep xxh r' bs (concat (concat kvsss))"
      using bs r' unfolding buffers_rep_def by (auto simp del: concat_eq_Nil_conv intro!: exI [of _ "concat now"] exI [of _ later])
    ultimately show ?thesis
      using True parts(1,6) kvs(2) by (auto simp: sst_stream_rep_def)
  qed
  then show ?thesis
    using br.rep_Cons parts(4) kvs(1) by (auto simp: ss_front_def)
qed

interpretation ss: merge_sources heap_pop "sst_stream_ops xxh rd" "sst_stream_rep xxh rd files" for xxh rd files
proof unfold_locales
  fix s xs assume rep: "sst_stream_rep xxh rd files s xs"
  show "so_is_eof (sst_stream_ops xxh rd) s \<longleftrightarrow> xs = []"
    using ss_is_eof_rep [OF rep] by (simp add: sst_stream_ops_def)
  show "\<exists>s'. so_refresh (sst_stream_ops xxh rd) s = Inr s' \<and> sst_stream_rep xxh rd files s' xs
      \<and> so_epoch (sst_stream_ops xxh rd) s' = so_epoch (sst_stream_ops xxh rd) s"
    using ss_refresh_ok [OF rep] by (auto simp: sst_stream_ops_def)
next
  fix s x xs assume rep: "sst_stream_rep xxh rd files s (x # xs)"
  show "so_front (sst_stream_ops xxh rd) s = x" if "\<not> so_buffer_empty (sst_stream_ops xxh rd) s"
    using ss_pop_front_ok [OF rep] that by (simp add: sst_stream_ops_def ss_buffer_empty_def)
  show "\<exists>s'. so_pop_front (sst_stream_ops xxh rd) s = Inr s' \<and> sst_stream_rep xxh rd files s' xs
      \<and> so_epoch (sst_stream_ops xxh rd) s' = so_epoch (sst_stream_ops xxh rd) s"
    if "\<not> so_buffer_empty (sst_stream_ops xxh rd) s"
    using ss_pop_front_ok [OF rep] that by (simp add: sst_stream_ops_def ss_buffer_empty_def)
  show "\<not> so_buffer_empty (sst_stream_ops xxh rd) s'"
    if "so_buffer_empty (sst_stream_ops xxh rd) s" "so_refresh (sst_stream_ops xxh rd) s = Inr s'" for s'
    using ss_refresh_ok [OF rep] that by (auto simp: sst_stream_ops_def ss_buffer_empty_def)
qed (auto simp: sst_stream_ops_def ss_size_def ss_buffer_empty_def)

section \<open>Merging SST files\<close>

text \<open>
  \<open>sst_holds xxh content kvss\<close>: the index of an SST file is a run of non-empty pages, and its keys
  ascend. A merge opens one stream per file, over all its pages.
\<close>

definition sst_holds :: "hash64 \<Rightarrow> bytes \<Rightarrow> (bytes \<times> bytes) list list \<Rightarrow> bool" where
  "sst_holds xxh content kvss \<longleftrightarrow> pages_hold xxh content 0 kvss \<and> [] \<notin> set kvss
     \<and> PAGE_SIZE_IN_BYTES * length kvss \<le> length content
     \<and> sorted_wrt (<) (map fst (concat kvss)) \<and> values_parse (concat kvss)"

definition open_stream :: "nat \<Rightarrow> nat \<times> (bytes \<times> bytes) list list \<times> u64 \<Rightarrow> sst_stream" where
  "open_stream ra spec = (case spec of (file, kvss, epoch) \<Rightarrow>
     make_sst_stream (make_file_reader2 file True 0 (PAGE_SIZE_IN_BYTES * length kvss) ra) epoch)"

lemma read_ahead_pages:
  assumes "0 < ra" "ra + PAGE_SIZE_IN_BYTES \<le> 2 ^ 64"
  shows "\<exists>pages. fr_read_ahead (make_file_reader2 file direct a b ra) = PAGE_SIZE_IN_BYTES * pages \<and> 0 < pages"
proof -
  have ra: "unat (of_nat ra :: u64) = ra"
    using assms by (simp add: unsigned_of_nat take_bit_nat_eq_self PAGE_SIZE_IN_BYTES_def)
  have "unat (ceil_page_align (of_nat ra)) = (ra + 4096 - 1) div 4096 * 4096"
    using unat_round_up [of "of_nat PAGE_SIZE_IN_BYTES" 12 "of_nat ra"] assms(2) ra
    by (simp add: ceil_page_align_def PAGE_SIZE_IN_BYTES_def)
  moreover have "0 < (ra + 4096 - 1) div 4096"
    using assms(1) by (simp add: div_greater_zero_iff)
  moreover have "ra mod 4096 = 0" if "is_page_aligned (of_nat ra)"
  proof -
    have "unat ((of_nat ra :: u64) mod 4096) = 0"
      using that by (simp add: is_page_aligned_def PAGE_SIZE_IN_BYTES_def)
    then show ?thesis by (simp only: unat_mod ra) simp
  qed
  ultimately show ?thesis
  proof (cases "is_page_aligned (of_nat ra)")
    case True
    then have "ra = 4096 * (ra div 4096)" "0 < ra div 4096"
      using \<open>is_page_aligned (of_nat ra) \<Longrightarrow> ra mod 4096 = 0\<close> assms(1) by auto
    then show ?thesis
      using True by (auto simp: make_file_reader2_def PAGE_SIZE_IN_BYTES_def)
  qed (auto simp: make_file_reader2_def Let_def PAGE_SIZE_IN_BYTES_def)
qed

lemma open_stream_rep:
  assumes "reads_files rd files" "sst_holds xxh (files file) kvss" "0 < ra" "ra + PAGE_SIZE_IN_BYTES \<le> 2 ^ 64"
  shows "sst_stream_rep xxh rd files (open_stream ra (file, kvss, epoch)) (concat kvss)"
proof -
  let ?s = "open_stream ra (file, kvss, epoch)"
  have "buffers_rep xxh (ss_block_reader ?s) (ss_buffers ?s) []"
    by (simp add: buffers_rep_def open_stream_def make_sst_stream_def make_block_buffer_reader_def default_block_decoder_def)
  moreover have "unread xxh files (ss_reader ?s) kvss"
    using read_ahead_pages [OF assms(3,4)] assms(2)
    by (simp add: unread_def open_stream_def make_sst_stream_def sst_holds_def)
      (simp add: make_file_reader2_def Let_def)
  ultimately show ?thesis
    using sst_stream_repI [OF assms(1), of xxh ?s "[]" kvss] by simp
qed

lemma stream_entries_specs:
  "set (stream_entries (map (\<lambda>(f, kvss, e). concat kvss) specs) (map (\<lambda>(f, kvss, e). e) specs))
     = (\<Union>(f, kvss, epoch) \<in> set specs. entry_of epoch ` set (concat kvss))"
  by (induction specs) auto

text \<open>
  C3: Merging any number of SST files with distinct epochs, none of whose reads fail, ends within as
  many rounds as there are pairs. The output has every key at most once and in strictly ascending
  order. It consists of the entry with the highest epoch for each key of any input, except that
  tombstones are left out when deleted keys are discarded.
\<close>

theorem sst_merge_newest:
  assumes reads: "reads_files rd files"
    and holds: "\<forall>(file, kvss, epoch) \<in> set specs. sst_holds xxh (files file) kvss"
    and epochs: "distinct (map (\<lambda>(file, kvss, epoch). epoch) specs)"
    and some: "\<exists>(file, kvss, epoch) \<in> set specs. kvss \<noteq> []"
    and ra: "0 < ra" "ra + PAGE_SIZE_IN_BYTES \<le> 2 ^ 64"
    and fuel: "sum_list (map (\<lambda>(file, kvss, epoch). length (concat kvss)) specs) \<le> fuel"
  defines "A \<equiv> \<Union>(file, kvss, epoch) \<in> set specs. entry_of epoch ` set (concat kvss)"
  shows "\<exists>d n out. k_way_merge fuel heap_pop (sst_stream_ops xxh rd) ra discard collect
      (map (open_stream ra) specs) [] = Inr (d, n, out)
    \<and> sorted_wrt (<) (map me_key out)
    \<and> set out = {e. is_newest A e \<and> \<not> (discard \<and> is_tombstone e)}"
proof -
  let ?rs = "map (\<lambda>(f, kvss, e). concat kvss) specs" and ?es = "map (\<lambda>(f, kvss, e). e) specs"
  have reps: "list_all2 (sst_stream_rep xxh rd files) (map (open_stream ra) specs) ?rs"
    using holds open_stream_rep [OF reads _ ra] by (fastforce simp: list_all2_map1 list_all2_map2 list_all2_same)
  have es: "?es = map (so_epoch (sst_stream_ops xxh rd)) (map (open_stream ra) specs)"
    by (auto simp: sst_stream_ops_def open_stream_def make_sst_stream_def)
  have sorted: "\<forall>r \<in> set ?rs. sorted_wrt (<) (map fst r)" and parse: "\<forall>r \<in> set ?rs. values_parse r"
    using holds by (auto simp: sst_holds_def)
  have "length (stream_entries ?rs ?es) = sum_list (map (\<lambda>(f, kvss, e). length (concat kvss)) specs)"
    by (induction specs) auto
  then have fuel': "length (stream_entries ?rs ?es) \<le> fuel" using fuel by simp
  obtain f kvss e where one: "(f, kvss, e) \<in> set specs" "kvss \<noteq> []" using some by auto
  then have "concat kvss \<noteq> []"
    using holds by (cases kvss) (auto simp: sst_holds_def)
  then have "A \<noteq> {}" using one(1) by (fastforce simp: A_def)
  then have "stream_entries ?rs ?es \<noteq> []"
    using arg_cong [of _ "[]" set] unfolding A_def stream_entries_specs [symmetric] by auto
  then show ?thesis
    using ss.k_way_merge_collects [OF reps es epochs sorted parse fuel' ra(1), where discard = discard] stream_entries_specs [of specs]
    by (simp add: A_def)
qed

definition sample_xxh :: hash64 where
  "sample_xxh bs seed = 7"

text \<open>A file of one page with one pair, as the writer leaves it.\<close>

definition one_pair_sst :: "bytes \<times> bytes \<Rightarrow> bytes" where
  "one_pair_sst kv =
     (case writer_push sample_xxh (\<lambda>_ s. s) (fst kv) (snd kv)
             (make_block_buffer_writer 0 PAGE_SIZE_IN_BYTES, replicate PAGE_SIZE_IN_BYTES 0, ()) of
        (_, w, mem, _) \<Rightarrow> snd (force_commit sample_xxh (w, mem)))"

lemma one_pair_sst_holds:
  assumes "page_fits kv" "\<exists>v. value_from_span (snd kv) = Inr v"
  shows "sst_holds sample_xxh (one_pair_sst kv) [[kv]]" "length (one_pair_sst kv) = PAGE_SIZE_IN_BYTES"
proof -
  let ?w = "make_block_buffer_writer 0 PAGE_SIZE_IN_BYTES" and ?mem = "replicate PAGE_SIZE_IN_BYTES (0 :: byte)"
  obtain key v where kv: "kv = (key, v)" by (cases kv)
  have "writer_inv sample_xxh 1 ?w ?mem [] []"
    using writer_inv_new [of 1 0 ?mem sample_xxh] by simp
  from writer_push_fits [OF this, of key v "\<lambda>_ s. s" "()"] assms(1) kv
  obtain w mem where push: "writer_push sample_xxh (\<lambda>_ s. s) key v (?w, ?mem, ()) = (ok, w, mem, ())"
      "writer_inv sample_xxh 1 w mem [] [(key, v)]" "w_begin w = 0" "length mem = PAGE_SIZE_IN_BYTES"
    by (auto simp: page_fits_def make_block_buffer_writer_def)
  obtain e mem' where commit: "enc_commit sample_xxh (w_enc w, mem) = (e, mem')"
      "pages_hold sample_xxh mem' 0 [[kv]]" "length mem' = length mem"
    using writer_commit_page [OF writer_inv_ready [OF push(2)], unfolded push(3) append_Nil kv [symmetric]] by blast
  have "one_pair_sst kv = mem'"
    using push(1) commit(1) kv by (simp add: one_pair_sst_def force_commit_def)
  then show "sst_holds sample_xxh (one_pair_sst kv) [[kv]]" "length (one_pair_sst kv) = PAGE_SIZE_IN_BYTES"
    using commit(2,3) push(4) assms(2) by (simp_all add: sst_holds_def values_parse_def)
qed

definition sample_files :: "nat \<Rightarrow> bytes" where
  "sample_files f = (if f = 0 then one_pair_sst ([1], stored_value (In_Place [7])) else one_pair_sst ([1], stored_value Tombstone))"

definition sample_specs :: "(nat \<times> (bytes \<times> bytes) list list \<times> u64) list" where
  "sample_specs = [(0, [[([1], stored_value (In_Place [7]))]], 3), (1, [[([1], stored_value Tombstone)]], 4)]"

lemma sample_specs_hold:
  "\<forall>(file, kvss, epoch) \<in> set sample_specs. sst_holds sample_xxh (sample_files file) kvss"
  "length (sample_files f) = PAGE_SIZE_IN_BYTES"
proof -
  have "page_fits ([1], stored_value (In_Place [7]))" "page_fits ([1], stored_value Tombstone)"
    by (simp_all add: page_fits_def key_ok_def MIN_KEY_LEN_def MAX_KEY_LEN_def block_space_def entry_image_def
        restart_image_def value_image_def unsafe_varint.simps PAGE_SIZE_IN_BYTES_def)
  then show "\<forall>(file, kvss, epoch) \<in> set sample_specs. sst_holds sample_xxh (sample_files file) kvss"
      "length (sample_files f) = PAGE_SIZE_IN_BYTES"
    by (simp_all add: sample_specs_def sample_files_def one_pair_sst_holds)
qed

definition sample_rd :: read_fn where
  "sample_rd f len off = Inr (read_at (sample_files f) off len)"

lemma reads_sample_files: "reads_files sample_rd sample_files"
  by (simp add: reads_files_def sample_rd_def)

theorem sst_merge_newest_witness:
  "\<exists>d n out. k_way_merge 2 heap_pop (sst_stream_ops sample_xxh sample_rd)
      4096 False collect (map (open_stream 4096) sample_specs) [] = Inr (d, n, out)
    \<and> sorted_wrt (<) (map me_key out) \<and> set out = {entry_of 4 ([1], stored_value Tombstone)}"
proof -
  have epochs: "distinct (map (\<lambda>(file, kvss, epoch). epoch) sample_specs)"
    and some: "\<exists>(file, kvss, epoch) \<in> set sample_specs. kvss \<noteq> []"
    and ra: "0 < (4096 :: nat)" "4096 + PAGE_SIZE_IN_BYTES \<le> 2 ^ 64"
    and fuel: "sum_list (map (\<lambda>(file, kvss, epoch). length (concat kvss)) sample_specs) \<le> 2"
    by (simp_all add: sample_specs_def PAGE_SIZE_IN_BYTES_def)
  have entries: "(\<Union>(file, kvss, epoch) \<in> set sample_specs. entry_of epoch ` set (concat kvss))
      = {entry_of 3 ([1], stored_value (In_Place [7])), entry_of 4 ([1], stored_value Tombstone)}" (is "_ = {?old, ?new}")
    by (auto simp: sample_specs_def)
  have newest: "is_newest {?old, ?new} e \<longleftrightarrow> e = ?new" for e
    by (auto simp: is_newest_def)
  show ?thesis
    using sst_merge_newest [OF reads_sample_files sample_specs_hold(1) epochs some ra fuel, where discard = False]
    unfolding entries newest by simp
qed

end
