(* ===== verification/Range_Iterator.thy ===== *)
theory Range_Iterator
  imports Sst_Stream Skiplist
begin

text \<open>
  The iterator of a range scan, \<^verbatim>\<open>src/db/range_iterator.h\<close> and \<^verbatim>\<open>src/db/range_iterator.cc\<close>: a merge
  of the streams of SST files and of the cursors over memtables, one entry per call. The sources
  come in the order of the code, first the streams, then the cursors; a slot of the code is a
  position in this list. The lemmas are proved once over the stream contract and used for the two
  kinds of sources together.
\<close>

section \<open>Sources\<close>

datatype scan_source = Rbuf sst_stream | Mem memtable_cursor

fun source_is_eof :: "scan_source \<Rightarrow> bool" where
  "source_is_eof (Rbuf s) = ss_is_eof s"
| "source_is_eof (Mem c) = mc_is_eof c"

fun source_buffer_empty :: "scan_source \<Rightarrow> bool" where
  "source_buffer_empty (Rbuf s) = ss_buffer_empty s"
| "source_buffer_empty (Mem c) = mc_is_eof c"

fun source_front :: "scan_source \<Rightarrow> bytes \<times> bytes" where
  "source_front (Rbuf s) = ss_front s"
| "source_front (Mem c) = mc_front c"

fun source_pop_front :: "hash64 \<Rightarrow> scan_source \<Rightarrow> scan_source expected" where
  "source_pop_front xxh (Rbuf s) = map_sum id Rbuf (ss_pop_front xxh s)"
| "source_pop_front xxh (Mem c) = map_sum id Mem (mc_pop_front c)"

fun source_refresh :: "hash64 \<Rightarrow> read_fn \<Rightarrow> scan_source \<Rightarrow> scan_source expected" where
  "source_refresh xxh rd (Rbuf s) = map_sum id Rbuf (ss_refresh xxh rd s)"
| "source_refresh xxh rd (Mem c) = Inr (Mem c)"

fun source_epoch :: "scan_source \<Rightarrow> u64" where
  "source_epoch (Rbuf s) = ss_epoch s"
| "source_epoch (Mem c) = mc_epoch c"

fun source_buffered :: "scan_source \<Rightarrow> nat" where
  "source_buffered (Rbuf s) = ss_size s"
| "source_buffered (Mem c) = mc_end c - mc_it c"

definition scan_source_ops :: "hash64 \<Rightarrow> read_fn \<Rightarrow> scan_source source_ops" where
  "scan_source_ops xxh rd =
     \<lparr>so_is_eof = source_is_eof, so_buffer_empty = source_buffer_empty, so_buffered = source_buffered,
      so_front = source_front, so_pop_front = source_pop_front xxh, so_refresh = source_refresh xxh rd,
      so_epoch = source_epoch\<rparr>"

definition source_pop_entry :: "'s source_ops \<Rightarrow> 's \<Rightarrow> (merge_entry \<times> 's) expected" where
  "source_pop_entry ops s =
     (let e = front_entry ops s
      in case so_pop_front ops s of Inl err \<Rightarrow> Inl err | Inr s' \<Rightarrow> Inr (e, s'))"

section \<open>The iterator\<close>

record 's range_iterator =
  ri_sources :: "'s list"
  ri_lower :: "bytes option"
  ri_upper :: "bytes option"
  ri_dedup :: deduplicator
  ri_heap :: "heap_item list"
  ri_initialized :: bool
  ri_exhausted :: bool

definition make_range_iterator :: "'s list \<Rightarrow> bytes option \<Rightarrow> bytes option \<Rightarrow> 's range_iterator" where
  "make_range_iterator sources lower upper =
     \<lparr>ri_sources = sources, ri_lower = lower, ri_upper = upper, ri_dedup = empty_dedup, ri_heap = [],
      ri_initialized = False, ri_exhausted = False\<rparr>"

fun scan_refresh_buffers :: "'s source_ops \<Rightarrow> 's list \<Rightarrow> 's list expected" where
  "scan_refresh_buffers ops [] = Inr []"
| "scan_refresh_buffers ops (s # ss) =
     (case so_refresh ops s of
        Inl e \<Rightarrow> Inl (generic_error ''Failed to refresh scan buffer: '')
      | Inr s' \<Rightarrow> (case scan_refresh_buffers ops ss of Inl e \<Rightarrow> Inl e | Inr ss' \<Rightarrow> Inr (s' # ss')))"

text \<open>One round of the loops of \<open>_init\<close> and of the refill of the heap in \<open>_next_inner\<close>.\<close>

definition scan_pull :: "'s source_ops \<Rightarrow> nat \<Rightarrow> 's list \<times> heap_item list \<Rightarrow> ('s list \<times> heap_item list) expected" where
  "scan_pull ops i st = (case st of (srcs, h) \<Rightarrow>
     (if so_is_eof ops (srcs ! i) then Inr (srcs, h)
      else case (if so_buffer_empty ops (srcs ! i) then so_refresh ops (srcs ! i) else Inr (srcs ! i)) of
        Inl e \<Rightarrow> Inl (generic_error ''Failed to refresh scan buffer: '')
      | Inr s \<Rightarrow>
          (if so_is_eof ops s \<or> so_buffer_empty ops s then Inr (srcs[i := s], h)
           else case source_pop_entry ops s of
             Inl e \<Rightarrow> Inl e
           | Inr (e, s') \<Rightarrow> Inr (srcs[i := s'], h @ [(e, i)]))))"

definition scan_init :: "'s source_ops \<Rightarrow> 's range_iterator \<Rightarrow> status \<times> 's range_iterator" where
  "scan_init ops it =
     (case scan_refresh_buffers ops (ri_sources it) of
        Inl e \<Rightarrow> (Inl e, it)
      | Inr srcs \<Rightarrow>
          (case fold_expected (scan_pull ops) [0..<length srcs] (srcs, []) of
             Inl e \<Rightarrow> (Inl e, it)
           | Inr (srcs, h) \<Rightarrow> (ok, it\<lparr>ri_sources := srcs, ri_heap := h, ri_initialized := True\<rparr>)))"

definition scan_emit :: "merge_entry \<Rightarrow> 's range_iterator \<Rightarrow> (bytes \<times> bytes) expected \<times> 's range_iterator" where
  "scan_emit item it =
     (if (case ri_lower it of Some l \<Rightarrow> me_key item < l | None \<Rightarrow> False) then (Inl (Error '''' SKIP), it)
      else if (case ri_upper it of Some u \<Rightarrow> me_key item > u | None \<Rightarrow> False)
      then (Inl (Error ''End of scan'' END_OF_SCAN), it\<lparr>ri_exhausted := True\<rparr>)
      else case value_from_span (me_value item) of
        Inl e \<Rightarrow> (Inl (generic_error ''Failed to parse value: ''), it)
      | Inr Tombstone \<Rightarrow> (Inl (Error '''' SKIP), it)
      | Inr (In_Place bs) \<Rightarrow> (Inr (me_key item, bs), it)
      | Inr (Value_Ptr vp) \<Rightarrow> (Inr (me_key item, value_ptr_image vp), it))"

fun next_inner ::
    "nat \<Rightarrow> pop_op \<Rightarrow> 's source_ops \<Rightarrow> 's range_iterator \<Rightarrow> (bytes \<times> bytes) expected \<times> 's range_iterator" where
  "next_inner fuel pop ops it =
     (if ri_heap it = [] then (Inl (Error ''eof'' END_OF_SCAN), it)
      else case fuel of
        0 \<Rightarrow> (Inl (generic_error ''out of fuel''), it)
      | Suc n \<Rightarrow>
          (case pop heap_item_less (ri_heap it) of ((entry, i), h) \<Rightarrow>
             (let it = it\<lparr>ri_heap := h, ri_dedup := dedup_push entry (ri_dedup it)\<rparr>
              in case scan_pull ops i (ri_sources it, ri_heap it) of
                   Inl e \<Rightarrow> (Inl e, it)
                 | Inr (srcs, h) \<Rightarrow>
                     (let it = it\<lparr>ri_sources := srcs, ri_heap := h\<rparr>
                      in if dedup_is_ready (ri_dedup it) then
                           (case dedup_pop (ri_dedup it) of
                              Inl e \<Rightarrow> (Inl e, it)
                            | Inr (item, d) \<Rightarrow>
                                (case scan_emit item (it\<lparr>ri_dedup := d\<rparr>) of
                                   (Inr kv, it) \<Rightarrow> (Inr kv, it)
                                 | (Inl e, it) \<Rightarrow>
                                     (if error_code e = END_OF_SCAN then (Inl e, it)
                                      else next_inner n pop ops it)))
                         else next_inner n pop ops it))))"

declare next_inner.simps [simp del]

text \<open>
  The end of \<open>next\<close>: entries that are left in the deduplicator. It holds at most one that is ready
  and one that is not.
\<close>

definition scan_last :: "'s range_iterator \<Rightarrow> (bytes \<times> bytes) expected \<times> 's range_iterator" where
  "scan_last it =
     (case dedup_force_pop (ri_dedup it) of
        Inl e \<Rightarrow> (Inl e, it)
      | Inr (item, d) \<Rightarrow>
          (case scan_emit item (it\<lparr>ri_dedup := d, ri_exhausted := True\<rparr>) of
             (Inr kv, it) \<Rightarrow> (Inr kv, it)
           | (Inl e, it) \<Rightarrow> (Inl (Error ''End of scan'' END_OF_SCAN), it)))"

definition scan_drain :: "'s range_iterator \<Rightarrow> (bytes \<times> bytes) expected \<times> 's range_iterator" where
  "scan_drain it =
     (if dedup_is_ready (ri_dedup it) then
        (case dedup_pop (ri_dedup it) of
           Inl e \<Rightarrow> (Inl e, it)
         | Inr (item, d) \<Rightarrow>
             (case scan_emit item (it\<lparr>ri_dedup := d\<rparr>) of
                (Inr kv, it) \<Rightarrow> (Inr kv, it)
              | (Inl e, it) \<Rightarrow> (if error_code e = END_OF_SCAN then (Inl e, it) else scan_last it)))
      else scan_last it)"

definition scan_next ::
    "nat \<Rightarrow> pop_op \<Rightarrow> 's source_ops \<Rightarrow> 's range_iterator \<Rightarrow> (bytes \<times> bytes) expected \<times> 's range_iterator" where
  "scan_next fuel pop ops it =
     (case (if ri_initialized it then (ok, it) else scan_init ops it) of
        (Inl e, it) \<Rightarrow> (Inl (generic_error ''Failed to initialize scan iterator: ''), it)
      | (Inr _, it) \<Rightarrow>
          (if ri_exhausted it then (Inl (Error ''End of scan'' END_OF_SCAN), it)
           else case next_inner fuel pop ops it of
             (Inr kv, it) \<Rightarrow> (Inr kv, it)
           | (Inl e, it) \<Rightarrow>
               (if error_code e \<noteq> END_OF_SCAN
                then (Inl (generic_error ''Failed to get next item from scan iterator: ''), it)
                else scan_drain it)))"

text \<open>A client that asks for entries until the end of the scan.\<close>

fun scan_all ::
    "nat \<Rightarrow> nat \<Rightarrow> pop_op \<Rightarrow> 's source_ops \<Rightarrow> 's range_iterator \<Rightarrow> (bytes \<times> bytes) list expected" where
  "scan_all 0 fuel pop ops it = Inl (generic_error ''out of fuel'')"
| "scan_all (Suc n) fuel pop ops it =
     (case scan_next fuel pop ops it of
        (Inl e, it) \<Rightarrow> (if error_code e = END_OF_SCAN then Inr [] else Inl e)
      | (Inr kv, it) \<Rightarrow> (case scan_all n fuel pop ops it of Inl e \<Rightarrow> Inl e | Inr kvs \<Rightarrow> Inr (kv # kvs)))"

section \<open>What a scan delivers\<close>

text \<open>
  \<open>emits lower upper e\<close> is what one entry contributes to a scan; \<open>inner_spec\<close> is the result of
  \<open>_next_inner\<close> on the list of entries that are still to come, the newest of each key.
\<close>

definition emits :: "bytes option \<Rightarrow> bytes option \<Rightarrow> merge_entry \<Rightarrow> (bytes \<times> bytes) list" where
  "emits lower upper e =
     (if (case lower of Some l \<Rightarrow> me_key e < l | None \<Rightarrow> False) \<or> (case upper of Some u \<Rightarrow> me_key e > u | None \<Rightarrow> False)
      then []
      else case value_from_span (me_value e) of
        Inr (In_Place bs) \<Rightarrow> [(me_key e, bs)]
      | Inr (Value_Ptr vp) \<Rightarrow> [(me_key e, value_ptr_image vp)]
      | _ \<Rightarrow> [])"

definition beyond :: "bytes option \<Rightarrow> bytes option \<Rightarrow> merge_entry \<Rightarrow> bool" where
  "beyond lower upper e \<longleftrightarrow> (case upper of Some u \<Rightarrow> me_key e > u | None \<Rightarrow> False)
     \<and> \<not> (case lower of Some l \<Rightarrow> me_key e < l | None \<Rightarrow> False)"

lemma scan_emit_cases:
  obtains (Emitted) kv where "scan_emit item it = (Inr kv, it)" "emits (ri_lower it) (ri_upper it) item = [kv]"
      "\<not> beyond (ri_lower it) (ri_upper it) item"
  | (Beyond) e where "scan_emit item it = (Inl e, it\<lparr>ri_exhausted := True\<rparr>)" "error_code e = END_OF_SCAN"
      "emits (ri_lower it) (ri_upper it) item = []" "beyond (ri_lower it) (ri_upper it) item"
  | (Skipped) e where "scan_emit item it = (Inl e, it)" "error_code e \<noteq> END_OF_SCAN"
      "emits (ri_lower it) (ri_upper it) item = []" "\<not> beyond (ri_lower it) (ri_upper it) item"
proof -
  note facts = scan_emit_def emits_def beyond_def
  consider (below) "case ri_lower it of Some l \<Rightarrow> me_key item < l | None \<Rightarrow> False"
    | (above) "\<not> (case ri_lower it of Some l \<Rightarrow> me_key item < l | None \<Rightarrow> False)"
        "case ri_upper it of Some u \<Rightarrow> me_key item > u | None \<Rightarrow> False"
    | (within) "\<not> (case ri_lower it of Some l \<Rightarrow> me_key item < l | None \<Rightarrow> False)"
        "\<not> (case ri_upper it of Some u \<Rightarrow> me_key item > u | None \<Rightarrow> False)"
    by blast
  then show ?thesis
  proof cases
    case below
    show ?thesis by (rule Skipped [of "Error '''' SKIP"]) (use below in \<open>simp_all add: facts\<close>)
  next
    case above
    show ?thesis by (rule Beyond [of "Error ''End of scan'' END_OF_SCAN"]) (use above in \<open>simp_all add: facts\<close>)
  next
    case within
    show ?thesis
    proof (cases "value_from_span (me_value item)")
      case (Inl e)
      show ?thesis
        by (rule Skipped [of "generic_error ''Failed to parse value: ''"]) (use within Inl in \<open>simp_all add: facts\<close>)
    next
      case (Inr v)
      show ?thesis
      proof (cases v)
        case (Value_Ptr vp)
        show ?thesis
          by (rule Emitted [of "(me_key item, value_ptr_image vp)"]) (use within Inr Value_Ptr in \<open>simp_all add: facts\<close>)
      next
        case (In_Place bs)
        show ?thesis by (rule Emitted [of "(me_key item, bs)"]) (use within Inr In_Place in \<open>simp_all add: facts\<close>)
      next
        case Tombstone
        show ?thesis by (rule Skipped [of "Error '''' SKIP"]) (use within Inr Tombstone in \<open>simp_all add: facts\<close>)
      qed
    qed
  qed
qed

text \<open>The entries still to come: the runs of the held entry and those pending in the heap and the sources.\<close>

definition to_come :: "merge_entry option \<Rightarrow> merge_entry list \<Rightarrow> merge_entry list" where
  "to_come held S = (case held of None \<Rightarrow> newest S | Some h \<Rightarrow> runs h S)"

datatype inner_result =
    Drained merge_entry
  | Stopped merge_entry
  | Found "bytes \<times> bytes" "merge_entry list"

fun inner_spec :: "bytes option \<Rightarrow> bytes option \<Rightarrow> merge_entry list \<Rightarrow> inner_result" where
  "inner_spec lower upper [x] = Drained x"
| "inner_spec lower upper (x # y # R) =
     (if beyond lower upper x then Stopped y
      else case emits lower upper x of
        [] \<Rightarrow> inner_spec lower upper (y # R)
      | kv # _ \<Rightarrow> Found kv (y # R))"
| "inner_spec lower upper [] = undefined"

lemma runs_Cons: "\<exists>R. runs x xs = x # R"
  by (induction x xs rule: runs.induct) auto

text \<open>
  The state of an initialised iterator: \<open>held\<close> is the entry in the deduplicator, \<open>S\<close> the entries in
  the heap and the sources, in the order of the merge.
\<close>

definition scan_state ::
    "('s \<Rightarrow> (bytes \<times> bytes) list \<Rightarrow> bool) \<Rightarrow> ('s \<Rightarrow> u64) \<Rightarrow> 's range_iterator \<Rightarrow> merge_entry option \<Rightarrow> merge_entry list \<Rightarrow> bool" where
  "scan_state rep epoch it held S \<longleftrightarrow>
     (\<exists>rs es. merge_inv rep epoch {} (ri_sources it, ri_heap it) rs es \<and> mset S = pending (ri_heap it) rs es)
     \<and> sorted_wrt entry_before S \<and> dd_to_be_checked (ri_dedup it) = held \<and> dd_ready (ri_dedup it) = None
     \<and> ri_initialized it"

definition same_scan :: "'s range_iterator \<Rightarrow> 's range_iterator \<Rightarrow> bool" where
  "same_scan it it' \<longleftrightarrow> ri_lower it' = ri_lower it \<and> ri_upper it' = ri_upper it \<and> ri_initialized it' = ri_initialized it"

lemma same_scan_trans: "same_scan a b \<Longrightarrow> same_scan b c \<Longrightarrow> same_scan a c"
  by (simp add: same_scan_def)

text \<open>What a run of \<open>_next_inner\<close> from \<open>it\<close> with at most \<open>len\<close> pending entries leaves, per result.\<close>

definition inner_leaves ::
    "('s \<Rightarrow> (bytes \<times> bytes) list \<Rightarrow> bool) \<Rightarrow> ('s \<Rightarrow> u64) \<Rightarrow> 's range_iterator \<Rightarrow> nat \<Rightarrow>
      (bytes \<times> bytes) expected \<times> 's range_iterator \<Rightarrow> inner_result \<Rightarrow> bool" where
  "inner_leaves rep epoch it len out r = (case out of (res, it') \<Rightarrow> same_scan it it' \<and>
     (case r of
        Found kv R \<Rightarrow> res = Inr kv \<and> ri_exhausted it' = ri_exhausted it \<and>
          (\<exists>held S. scan_state rep epoch it' held S \<and> to_come held S = R \<and> length S \<le> len)
      | Drained x \<Rightarrow> (\<exists>e. res = Inl e \<and> error_code e = END_OF_SCAN)
          \<and> dd_to_be_checked (ri_dedup it') = Some x \<and> dd_ready (ri_dedup it') = None
      | Stopped x \<Rightarrow> (\<exists>e. res = Inl e \<and> error_code e = END_OF_SCAN)
          \<and> dd_to_be_checked (ri_dedup it') = Some x \<and> dd_ready (ri_dedup it') = None))"

lemma inner_leaves_mono:
  assumes "inner_leaves rep epoch it1 len out r" "same_scan it it1" "ri_exhausted it1 = ri_exhausted it" "len \<le> len'"
  shows "inner_leaves rep epoch it len' out r"
  using assms same_scan_trans [OF assms(2)] le_trans [OF _ assms(4)]
  by (cases r) (fastforce simp: inner_leaves_def)+

definition scan_list :: "bytes option \<Rightarrow> bytes option \<Rightarrow> merge_entry list \<Rightarrow> (bytes \<times> bytes) list" where
  "scan_list lower upper R = concat (map (emits lower upper) R)"

lemma emits_one: "emits lower upper x = kv # kvs \<Longrightarrow> kvs = []"
  by (auto simp: emits_def split: if_splits sum.splits value_t.splits)

lemma emits_iff:
  "(k, v) \<in> set (emits lower upper e) \<longleftrightarrow>
     (case lower of Some l \<Rightarrow> l \<le> k | None \<Rightarrow> True) \<and> (case upper of Some u \<Rightarrow> k \<le> u | None \<Rightarrow> True)
     \<and> me_key e = k \<and> (value_from_span (me_value e) = Inr (In_Place v)
        \<or> (\<exists>vp. value_from_span (me_value e) = Inr (Value_Ptr vp) \<and> v = value_ptr_image vp))"
proof (cases "value_from_span (me_value e)")
  case (Inr w)
  then show ?thesis by (cases w) (auto simp: emits_def not_less split: option.splits)
qed (simp add: emits_def)

lemma beyond_mono: "beyond lower upper x \<Longrightarrow> me_key x < me_key y \<Longrightarrow> emits lower upper y = []"
  by (auto simp: beyond_def emits_def split: option.splits)

lemma inner_spec_list:
  assumes "sorted_wrt (<) (map me_key R)" "R \<noteq> []"
  shows "case inner_spec lower upper R of
      Found kv R' \<Rightarrow> scan_list lower upper R = kv # scan_list lower upper R' \<and> length R' < length R
        \<and> R' \<noteq> [] \<and> sorted_wrt (<) (map me_key R')
    | Drained x \<Rightarrow> scan_list lower upper R = emits lower upper x
    | Stopped x \<Rightarrow> scan_list lower upper R = [] \<and> emits lower upper x = []"
  using assms
proof (induction lower upper R rule: inner_spec.induct)
  case (2 lower upper x y R)
  have tail: "sorted_wrt (<) (map me_key (y # R))" and less: "\<forall>z \<in> set (y # R). me_key x < me_key z"
    using "2.prems" by auto
  consider "beyond lower upper x" | "\<not> beyond lower upper x" "emits lower upper x = []"
    | kv where "\<not> beyond lower upper x" "emits lower upper x = [kv]"
    using emits_one by (cases "emits lower upper x") fastforce+
  then show ?case
  proof cases
    case 1
    then have "emits lower upper z = []" if "z \<in> set (y # R)" for z
      using beyond_mono [OF 1] less that by blast
    moreover have "emits lower upper x = []"
      using 1 by (auto simp: beyond_def emits_def split: option.splits)
    ultimately show ?thesis using 1 by (simp add: scan_list_def)
  next
    case 2
    then show ?thesis
      using "2.IH" tail by (auto simp: scan_list_def split: inner_result.splits)
  next
    case 3
    then show ?thesis using tail by (simp add: scan_list_def)
  qed
qed (simp_all add: scan_list_def)

context merge_sources
begin

lemma scan_pull_ok:
  assumes inv: "minv todo (srcs, h) rs es" and i: "i < length srcs"
  shows "\<exists>srcs' h' rs'. scan_pull ops i (srcs, h) = Inr (srcs', h') \<and> minv (todo - {i}) (srcs', h') rs' es
    \<and> pending h' rs' es = pending h rs es"
proof (cases "rs ! i")
  case Nil
  have "rep (srcs ! i) []"
    using inv i Nil by (auto simp: merge_inv_def list_all2_conv_all_nth)
  then have "scan_pull ops i (srcs, h) = Inr (srcs, h)"
    using rep_eof by (simp add: scan_pull_def)
  moreover have "minv (todo - {i}) (srcs, h) rs es"
    using inv Nil by (auto simp: merge_inv_def)
  ultimately show ?thesis by blast
next
  case (Cons kv r)
  have reps: "list_all2 rep srcs rs" "map (so_epoch ops) srcs = es"
    using inv by (auto simp: merge_inv_def)
  have at: "rep (srcs ! i) (kv # r)" "so_epoch ops (srcs ! i) = es ! i"
    using reps i Cons by (auto simp: list_all2_conv_all_nth)
  obtain s where s: "(if so_buffer_empty ops (srcs ! i) then so_refresh ops (srcs ! i) else Inr (srcs ! i)) = Inr s"
      "rep s (kv # r)" "so_epoch ops s = es ! i" "\<not> so_buffer_empty ops s"
    using at rep_refresh [OF at(1)] rep_refresh_buffer [OF at(1)] by (cases "so_buffer_empty ops (srcs ! i)") auto
  obtain s' where s': "so_pop_front ops s = Inr s'" "rep s' r" "so_epoch ops s' = es ! i"
    using rep_pop [OF s(2,4)] s(3) by auto
  have "front_entry ops s = entry_of (es ! i) kv"
    using rep_front [OF s(2,4)] s(3) by (simp add: front_entry_def entry_of_def)
  then have "scan_pull ops i (srcs, h) = Inr (srcs[i := s'], h @ [(entry_of (es ! i) kv, i)])"
    using s s'(1) rep_eof [OF at(1)] rep_eof [OF s(2)] by (simp add: scan_pull_def source_pop_entry_def)
  then show ?thesis
    using merge_inv_push [OF inv i Cons reps s'(2,3)] by blast
qed

lemma scan_pull_all_ok:
  assumes "minv (set is) (srcs, h) rs es" "\<forall>i \<in> set is. i < length srcs"
  shows "\<exists>srcs' h' rs'. fold_expected (scan_pull ops) is (srcs, h) = Inr (srcs', h') \<and> minv {} (srcs', h') rs' es
    \<and> pending h' rs' es = pending h rs es"
  using assms
proof (induction "is" arbitrary: srcs h rs)
  case Nil
  then show ?case by auto
next
  case (Cons i "is")
  then obtain srcs' h' rs' where pull: "scan_pull ops i (srcs, h) = Inr (srcs', h')"
      "minv (set (i # is) - {i}) (srcs', h') rs' es" "pending h' rs' es = pending h rs es"
    using scan_pull_ok [OF Cons.prems(1), of i] by auto
  have "minv (set is) (srcs', h') rs' es"
    using minv_mono [OF pull(2)] by auto
  moreover have "length srcs' = length srcs"
    using merge_inv_lengths(2) [OF pull(2)] merge_inv_lengths(2) [OF Cons.prems(1)] by simp
  ultimately show ?case
    using Cons.IH [of srcs' h' rs'] Cons.prems(2) pull by simp
qed

lemma scan_refresh_buffers_ok:
  assumes "list_all2 rep srcs rs"
  shows "\<exists>srcs'. scan_refresh_buffers ops srcs = Inr srcs' \<and> list_all2 rep srcs' rs
    \<and> map (so_epoch ops) srcs' = map (so_epoch ops) srcs"
  using assms
proof (induction srcs rs rule: list_all2_induct)
  case (Cons s srcs r rs)
  then show ?case using rep_refresh [OF Cons.hyps(1)] by auto
qed simp

lemma scan_round:
  assumes st: "scan_state rep (so_epoch ops) it held (x # S)"
  obtains i h srcs' h' where "ri_heap it \<noteq> []" "pop heap_item_less (ri_heap it) = ((x, i), h)"
    "scan_pull ops i (ri_sources it, h) = Inr (srcs', h')"
    "\<And>it' held'. ri_sources it' = srcs' \<Longrightarrow> ri_heap it' = h' \<Longrightarrow> dd_to_be_checked (ri_dedup it') = held' \<Longrightarrow>
       dd_ready (ri_dedup it') = None \<Longrightarrow> ri_initialized it' \<Longrightarrow> scan_state rep (so_epoch ops) it' held' S"
proof -
  obtain rs es where inv: "minv {} (ri_sources it, ri_heap it) rs es" "mset (x # S) = pending (ri_heap it) rs es"
      "sorted_wrt entry_before (x # S)"
    using st by (auto simp: scan_state_def)
  have "set_mset (pending (ri_heap it) rs es) = set (x # S)"
    by (simp only: inv(2) [symmetric] set_mset_mset)
  then have x: "x \<in># pending (ri_heap it) rs es" "\<forall>y \<in># pending (ri_heap it) rs es. y = x \<or> entry_before x y"
    using inv(3) by auto
  have heap: "x \<in> fst ` set (ri_heap it)"
    using first_in_heap [OF inv(1) x] .
  then have nonempty: "ri_heap it \<noteq> []" by auto
  obtain y i h where pop: "pop heap_item_less (ri_heap it) = ((y, i), h)"
    by (cases "pop heap_item_less (ri_heap it)") auto
  note popped = merge_inv_pop [OF inv(1) pop_mset [OF nonempty pop]]
  have "\<not> entry_before x y"
    using heap pop_greatest [OF nonempty pop] by (auto simp: heap_item_less_before)
  moreover have "y \<in># pending (ri_heap it) rs es"
    using popped(2) by simp
  ultimately have y: "y = x" using x(2) by blast
  obtain srcs' h' rs' where pull: "scan_pull ops i (ri_sources it, h) = Inr (srcs', h')"
      "minv ({i} - {i}) (srcs', h') rs' es" "pending h' rs' es = pending h rs es"
    using scan_pull_ok [OF popped(1,3)] by blast
  have "mset S = pending h' rs' es"
    using inv(2) popped(2) y pull(3) by simp
  then show ?thesis
    using that [OF nonempty _ pull(1)] pop y pull(2) inv(3) by (auto simp: scan_state_def)
qed

lemma next_inner_spec:
  assumes "scan_state rep (so_epoch ops) it held S" "to_come held S \<noteq> []" "length S \<le> fuel"
  shows "inner_leaves rep (so_epoch ops) it (length S) (next_inner fuel pop ops it)
    (inner_spec (ri_lower it) (ri_upper it) (to_come held S))"
  using assms
proof (induction S arbitrary: it held fuel)
  case Nil
  then obtain h where "held = Some h" by (cases held) (auto simp: to_come_def)
  moreover have "ri_heap it = []" using Nil.prems(1) by (auto simp: scan_state_def pending_def)
  ultimately show ?case
    using Nil.prems(1) by (simp add: to_come_def next_inner.simps scan_state_def same_scan_def inner_leaves_def)
next
  case (Cons x S)
  obtain i h srcs' h' where round: "ri_heap it \<noteq> []" "pop heap_item_less (ri_heap it) = ((x, i), h)"
    "scan_pull ops i (ri_sources it, h) = Inr (srcs', h')"
    "\<And>it' held'. ri_sources it' = srcs' \<Longrightarrow> ri_heap it' = h' \<Longrightarrow> dd_to_be_checked (ri_dedup it') = held' \<Longrightarrow>
       dd_ready (ri_dedup it') = None \<Longrightarrow> ri_initialized it' \<Longrightarrow> scan_state rep (so_epoch ops) it' held' S"
    using scan_round [OF Cons.prems(1)] by metis
  obtain n where n: "fuel = Suc n" "length S \<le> n" using Cons.prems(3) by (cases fuel) auto
  have d: "dd_to_be_checked (ri_dedup it) = held" "dd_ready (ri_dedup it) = None" "ri_initialized it"
    using Cons.prems(1) by (simp_all add: scan_state_def)
  define it1 where "it1 = it\<lparr>ri_dedup := dedup_push x (ri_dedup it), ri_sources := srcs', ri_heap := h'\<rparr>"
  have it1: "ri_lower it1 = ri_lower it" "ri_upper it1 = ri_upper it" "same_scan it it1"
    "ri_exhausted it1 = ri_exhausted it"
    by (simp_all add: it1_def same_scan_def)
  consider (quiet) held' where "dd_to_be_checked (ri_dedup it1) = Some held'" "dd_ready (ri_dedup it1) = None"
      "to_come held (x # S) = to_come (Some held') S"
    | (ready) y where "held = Some y" "dd_to_be_checked (ri_dedup it1) = Some x" "dd_ready (ri_dedup it1) = Some y"
      "to_come held (x # S) = y # runs x S"
    using d by (cases held; cases "me_key (the held) = me_key x") (auto simp: it1_def dedup_push_def to_come_def)
  then show ?case
  proof cases
    case quiet
    have "next_inner fuel pop ops it = next_inner n pop ops it1"
      using round n(1) quiet(2) by (subst next_inner.simps) (simp add: it1_def Let_def dedup_is_ready_def)
    moreover have "scan_state rep (so_epoch ops) it1 (Some held') S"
      using round(4) [of it1] quiet d(3) by (simp add: it1_def)
    moreover have "to_come (Some held') S \<noteq> []" by (simp add: to_come_def)
    ultimately show ?thesis
      using inner_leaves_mono [OF Cons.IH [of it1 "Some held'" n] it1(3,4), of "length (x # S)"] n(2) quiet(3) it1(1,2) by simp
  next
    case ready
    define it2 where "it2 = it1\<lparr>ri_dedup := (ri_dedup it1)\<lparr>dd_ready := None\<rparr>\<rparr>"
    have it2: "ri_lower it2 = ri_lower it" "ri_upper it2 = ri_upper it" "same_scan it it2"
      "ri_exhausted it2 = ri_exhausted it" "dd_to_be_checked (ri_dedup it2) = Some x" "dd_ready (ri_dedup it2) = None"
      using it1 ready by (simp_all add: it2_def same_scan_def)
    have st2: "scan_state rep (so_epoch ops) it2 (Some x) S"
      using round(4) [of it2] d(3) it2(5,6) by (simp add: it2_def it1_def)
    have unfold: "next_inner fuel pop ops it = (case scan_emit y it2 of
        (Inr kv, it) \<Rightarrow> (Inr kv, it)
      | (Inl e, it) \<Rightarrow> (if error_code e = END_OF_SCAN then (Inl e, it) else next_inner n pop ops it))"
      using round n(1) ready(3)
      by (subst next_inner.simps) (simp add: it2_def it1_def Let_def dedup_is_ready_def dedup_pop_def)
    obtain R where R: "runs x S = x # R" using runs_Cons by blast
    show ?thesis
    proof (cases rule: scan_emit_cases [of y it2])
      case (Emitted kv)
      then show ?thesis
        using unfold ready(4) R it2 st2
        by (auto simp: inner_leaves_def to_come_def intro!: exI [of _ "Some x"] exI [of _ S])
    next
      case (Beyond e)
      then show ?thesis
        using unfold ready(4) R it2 by (simp add: inner_leaves_def same_scan_def)
    next
      case (Skipped e)
      moreover have "inner_leaves rep (so_epoch ops) it2 (length S) (next_inner n pop ops it2)
          (inner_spec (ri_lower it2) (ri_upper it2) (x # R))"
        using Cons.IH [OF st2 _ n(2)] R by (simp add: to_come_def)
      from inner_leaves_mono [OF this it2(3,4), of "length (x # S)"]
      have "inner_leaves rep (so_epoch ops) it (length (x # S)) (next_inner n pop ops it2)
          (inner_spec (ri_lower it) (ri_upper it) (x # R))"
        using it2(1,2) by simp
      ultimately show ?thesis
        using unfold ready(4) R it2(1,2) by simp
    qed
  qed
qed

lemma scan_last_spec:
  assumes "dd_to_be_checked (ri_dedup it) = Some x" "dd_ready (ri_dedup it) = None"
  shows "\<exists>it'. ri_exhausted it' \<and> same_scan it it' \<and>
    (case emits (ri_lower it) (ri_upper it) x of
       [] \<Rightarrow> scan_drain it = (Inl (Error ''End of scan'' END_OF_SCAN), it')
     | kv # _ \<Rightarrow> scan_drain it = (Inr kv, it'))"
proof -
  define it1 where "it1 = it\<lparr>ri_dedup := (ri_dedup it)\<lparr>dd_to_be_checked := None\<rparr>, ri_exhausted := True\<rparr>"
  have it1: "ri_lower it1 = ri_lower it" "ri_upper it1 = ri_upper it" "same_scan it it1" "ri_exhausted it1"
    by (simp_all add: it1_def same_scan_def)
  have drain: "scan_drain it = (case scan_emit x it1 of
      (Inr kv, it) \<Rightarrow> (Inr kv, it) | (Inl e, it) \<Rightarrow> (Inl (Error ''End of scan'' END_OF_SCAN), it))"
    using assms by (simp add: scan_drain_def scan_last_def dedup_is_ready_def dedup_force_pop_def it1_def)
  show ?thesis
    by (cases rule: scan_emit_cases [of x it1]) (use it1 drain in \<open>auto simp: same_scan_def\<close>)
qed

lemma scan_next_spec:
  assumes st: "scan_state rep (so_epoch ops) it held S" "to_come held S \<noteq> []" "length S \<le> fuel" "\<not> ri_exhausted it"
    and sorted: "sorted_wrt (<) (map me_key (to_come held S))"
  defines "L \<equiv> scan_list (ri_lower it) (ri_upper it)"
  obtains (End) e it' where "L (to_come held S) = []" "scan_next fuel pop ops it = (Inl e, it')" "error_code e = END_OF_SCAN"
  | (Last) kv it' where "L (to_come held S) = [kv]" "scan_next fuel pop ops it = (Inr kv, it')"
      "ri_exhausted it'" "ri_initialized it'"
  | (More) kv it' held' S' where "L (to_come held S) = kv # L (to_come held' S')" "scan_next fuel pop ops it = (Inr kv, it')"
      "same_scan it it'" "scan_state rep (so_epoch ops) it' held' S'" "length (to_come held' S') < length (to_come held S)"
      "length S' \<le> length S" "to_come held' S' \<noteq> []" "\<not> ri_exhausted it'"
      "sorted_wrt (<) (map me_key (to_come held' S'))"
proof -
  have init: "ri_initialized it" using st(1) by (simp add: scan_state_def)
  note inner = next_inner_spec [OF st(1-3)] and list = inner_spec_list [OF sorted st(2), of "ri_lower it" "ri_upper it"]
  obtain res it1 where run: "next_inner fuel pop ops it = (res, it1)" by (cases "next_inner fuel pop ops it")
  have last: thesis
    if h: "L (to_come held S) = emits (ri_lower it) (ri_upper it) x" "\<exists>e. res = Inl e \<and> error_code e = END_OF_SCAN"
      "same_scan it it1" "dd_to_be_checked (ri_dedup it1) = Some x" "dd_ready (ri_dedup it1) = None" for x
  proof -
    have drain: "scan_next fuel pop ops it = scan_drain it1"
      using h(2) run init st(4) by (auto simp: scan_next_def)
    obtain it' where it': "ri_exhausted it'" "same_scan it1 it'"
        "case emits (ri_lower it1) (ri_upper it1) x of
           [] \<Rightarrow> scan_drain it1 = (Inl (Error ''End of scan'' END_OF_SCAN), it') | kv # _ \<Rightarrow> scan_drain it1 = (Inr kv, it')"
      using scan_last_spec [OF h(4,5)] by blast
    show thesis
    proof (cases "emits (ri_lower it) (ri_upper it) x")
      case Nil
      then show thesis using End drain it' h(1,3) by (auto simp: same_scan_def)
    next
      case (Cons kv kvs)
      then show thesis using Last [of kv it'] drain it' h(1,3) init emits_one [OF Cons] by (auto simp: same_scan_def)
    qed
  qed
  show thesis
  proof (cases "inner_spec (ri_lower it) (ri_upper it) (to_come held S)")
    case (Drained x)
    then show thesis using inner list last [of x] run unfolding L_def inner_leaves_def by simp
  next
    case (Stopped x)
    then show thesis using inner list last [of x] run unfolding L_def inner_leaves_def by simp
  next
    case (Found kv R)
    then obtain held' S' where found: "res = Inr kv" "same_scan it it1"
        "scan_state rep (so_epoch ops) it1 held' S'" "to_come held' S' = R" "length S' \<le> length S"
        "ri_exhausted it1 = ri_exhausted it"
      using inner run unfolding inner_leaves_def by auto
    have "scan_next fuel pop ops it = (Inr kv, it1)"
      using found(1) run init st(4) by (simp add: scan_next_def)
    then show thesis
      using More [of kv held' S' it1] Found list found st(4) unfolding L_def by simp
  qed
qed

lemma scan_all_spec:
  assumes "scan_state rep (so_epoch ops) it held S" "to_come held S \<noteq> []" "length S \<le> fuel" "\<not> ri_exhausted it"
    and "sorted_wrt (<) (map me_key (to_come held S))" "length (to_come held S) < n"
  shows "scan_all n fuel pop ops it = Inr (scan_list (ri_lower it) (ri_upper it) (to_come held S))"
  using assms
proof (induction n arbitrary: it held S)
  case (Suc n)
  show ?case
  proof (cases rule: scan_next_spec [OF Suc.prems(1-5)])
    case (1 e it')
    then show ?thesis by simp
  next
    case (2 kv it')
    obtain m where "n = Suc m" using Suc.prems(2,6) by (cases n) auto
    then have "scan_all n fuel pop ops it' = Inr []"
      using 2(3,4) by (simp add: scan_next_def)
    then show ?thesis using 2 by simp
  next
    case (3 kv it' held' S')
    then have "scan_all n fuel pop ops it' = Inr (scan_list (ri_lower it') (ri_upper it') (to_come held' S'))"
      using Suc.IH [of it' held' S'] Suc.prems(3,6) by simp
    then show ?thesis using 3 by (simp add: same_scan_def)
  qed
qed simp

lemma scan_init_ok:
  assumes reps: "list_all2 rep srcs rs" and es: "es = map (so_epoch ops) srcs" "distinct es"
    and sorted: "\<forall>r \<in> set rs. sorted_wrt (<) (map fst r)"
  obtains it where "scan_init ops (make_range_iterator srcs lower upper) = (ok, it)"
    "scan_state rep (so_epoch ops) it None (merge_order (stream_entries rs es))"
    "ri_lower it = lower" "ri_upper it = upper" "\<not> ri_exhausted it" "ri_dedup it = empty_dedup"
proof -
  obtain srcs1 where srcs1: "scan_refresh_buffers ops srcs = Inr srcs1" "list_all2 rep srcs1 rs"
      "map (so_epoch ops) srcs1 = es"
    using scan_refresh_buffers_ok [OF reps] es(1) by blast
  have "minv (set [0..<length srcs1]) (srcs1, []) rs es"
    using srcs1(2,3) sorted by (auto simp: merge_inv_def)
  from scan_pull_all_ok [OF this]
  obtain srcs2 h rs2 where pull: "fold_expected (scan_pull ops) [0..<length srcs1] (srcs1, []) = Inr (srcs2, h)"
      "minv {} (srcs2, h) rs2 es" "pending h rs2 es = pending [] rs es"
    by auto
  let ?it = "(make_range_iterator srcs lower upper)\<lparr>ri_sources := srcs2, ri_heap := h, ri_initialized := True\<rparr>"
  note order = merge_order_sorted [OF stream_entries_distinct [OF es(2) sorted]]
  have "scan_init ops (make_range_iterator srcs lower upper) = (ok, ?it)"
    using srcs1(1) pull(1) by (simp add: scan_init_def make_range_iterator_def)
  moreover have "mset (merge_order (stream_entries rs es)) = pending h rs2 es"
    using order(2) pull(3) by (simp add: pending_def)
  then have "scan_state rep (so_epoch ops) ?it None (merge_order (stream_entries rs es))"
    using pull(2) order(1) by (auto simp: scan_state_def make_range_iterator_def empty_dedup_def)
  ultimately show ?thesis
    by (rule that) (simp_all add: make_range_iterator_def)
qed

lemma scan_next_init:
  assumes "scan_init ops (make_range_iterator srcs lower upper) = (ok, it)" "ri_initialized it"
  shows "scan_next fuel pop ops (make_range_iterator srcs lower upper) = scan_next fuel pop ops it"
  using assms by (simp add: scan_next_def make_range_iterator_def)

lemma scan_all_collects:
  assumes reps: "list_all2 rep srcs rs" and es: "es = map (so_epoch ops) srcs" "distinct es"
    and sorted: "\<forall>r \<in> set rs. sorted_wrt (<) (map fst r)" and nonempty: "stream_entries rs es \<noteq> []"
    and fuel: "length (stream_entries rs es) \<le> fuel" "length (stream_entries rs es) < n"
  defines "E \<equiv> stream_entries rs es"
  shows "scan_all n fuel pop ops (make_range_iterator srcs lower upper) = Inr (scan_list lower upper (newest (merge_order E)))"
    "sorted_wrt (<) (map me_key (newest (merge_order E)))" "set (newest (merge_order E)) = {e. is_newest (set E) e}"
proof -
  note order = merge_order_sorted [OF stream_entries_distinct [OF es(2) sorted], folded E_def]
  have set: "set (merge_order E) = set E" "length (merge_order E) = length E"
    using mset_eq_setD [OF order(2)] mset_eq_length [OF order(2)] .
  obtain x xs where x: "merge_order E = x # xs"
    using nonempty set(1) by (cases "merge_order E") (auto simp: E_def)
  show spec: "sorted_wrt (<) (map me_key (newest (merge_order E)))" "set (newest (merge_order E)) = {e. is_newest (set E) e}"
    using runs_spec [of x xs] order(1) set(1) x by simp_all
  obtain it where it: "scan_init ops (make_range_iterator srcs lower upper) = (ok, it)"
    "scan_state rep (so_epoch ops) it None (merge_order E)" "ri_lower it = lower" "ri_upper it = upper" "\<not> ri_exhausted it"
    using scan_init_ok [OF reps es sorted] unfolding E_def by metis
  have R: "to_come None (merge_order E) = newest (merge_order E)" "newest (merge_order E) \<noteq> []"
    "length (newest (merge_order E)) \<le> length E"
    using x length_runs [of x xs] set(2) by (simp_all add: to_come_def)
  obtain m where m: "n = Suc m" using fuel(2) by (cases n) auto
  have "scan_all n fuel pop ops (make_range_iterator srcs lower upper) = scan_all n fuel pop ops it"
    using scan_next_init [OF it(1)] it(2) m by (simp add: scan_state_def)
  then show "scan_all n fuel pop ops (make_range_iterator srcs lower upper) = Inr (scan_list lower upper (newest (merge_order E)))"
    using scan_all_spec [OF it(2) _ _ it(5), of fuel n] R spec(1) fuel set(2) it(3,4) by (simp add: E_def)
qed

lemma scan_next_empty:
  assumes reps: "list_all2 rep srcs (map (\<lambda>_. []) srcs)" and epochs: "distinct (map (so_epoch ops) srcs)"
  shows "\<exists>it. scan_next fuel pop ops (make_range_iterator srcs lower upper)
    = (Inl (generic_error ''No buffered item to force_pop''), it)"
proof -
  let ?rs = "map (\<lambda>_. []) srcs :: (bytes \<times> bytes) list list" and ?es = "map (so_epoch ops) srcs"
  have empty: "stream_entries ?rs ?es = []"
    by (induction srcs) auto
  obtain it where it: "scan_init ops (make_range_iterator srcs lower upper) = (ok, it)"
    "scan_state rep (so_epoch ops) it None []" "\<not> ri_exhausted it" "ri_dedup it = empty_dedup"
    using scan_init_ok [OF reps refl epochs, unfolded empty merge_order_def, where lower = lower and upper = upper] by auto
  then have "ri_heap it = []" "ri_initialized it"
    by (auto simp: scan_state_def pending_def)
  then have "scan_next fuel pop ops it = (Inl (generic_error ''No buffered item to force_pop''), it)"
    using it(3,4) by (simp add: scan_next_def next_inner.simps scan_drain_def scan_last_def empty_dedup_def
        dedup_is_ready_def dedup_force_pop_def)
  then show ?thesis
    using scan_next_init [OF it(1) \<open>ri_initialized it\<close>] by simp
qed

end

section \<open>Scans over streams and memtables\<close>

fun scan_source_rep ::
    "hash64 \<Rightarrow> read_fn \<Rightarrow> (nat \<Rightarrow> bytes) \<Rightarrow> scan_source \<Rightarrow> (bytes \<times> bytes) list \<Rightarrow> bool" where
  "scan_source_rep xxh rd files (Rbuf s) xs = sst_stream_rep xxh rd files s xs"
| "scan_source_rep xxh rd files (Mem c) xs = memtable_cursor_rep c xs"

lemma sst_source_laws:
  assumes "sst_stream_rep xxh rd files s xs"
  shows "ss_is_eof s \<longleftrightarrow> xs = []" "\<exists>s'. ss_refresh xxh rd s = Inr s' \<and> sst_stream_rep xxh rd files s' xs \<and> ss_epoch s' = ss_epoch s"
  using ss.rep_eof [OF assms] ss.rep_refresh [OF assms] by (simp_all add: sst_stream_ops_def)

interpretation sc: merge_sources heap_pop "scan_source_ops xxh rd" "scan_source_rep xxh rd files" for xxh rd files
proof unfold_locales
  fix s xs assume rep: "scan_source_rep xxh rd files s xs"
  show "so_is_eof (scan_source_ops xxh rd) s \<longleftrightarrow> xs = []"
    using rep mc.rep_eof sst_source_laws(1) by (cases s) (auto simp: scan_source_ops_def memtable_cursor_ops_def)
  show "\<exists>s'. so_refresh (scan_source_ops xxh rd) s = Inr s' \<and> scan_source_rep xxh rd files s' xs
      \<and> so_epoch (scan_source_ops xxh rd) s' = so_epoch (scan_source_ops xxh rd) s"
    using rep sst_source_laws(2) by (cases s) (fastforce simp: scan_source_ops_def)+
next
  fix s x xs
  assume rep: "scan_source_rep xxh rd files s (x # xs)" and ne: "\<not> so_buffer_empty (scan_source_ops xxh rd) s"
  show "so_front (scan_source_ops xxh rd) s = x"
    using rep ne ss.rep_front mcc.rep_Cons
    by (cases s) (auto simp: scan_source_ops_def sst_stream_ops_def)
  show "\<exists>s'. so_pop_front (scan_source_ops xxh rd) s = Inr s' \<and> scan_source_rep xxh rd files s' xs
      \<and> so_epoch (scan_source_ops xxh rd) s' = so_epoch (scan_source_ops xxh rd) s"
  proof (cases s)
    case (Rbuf ss)
    then show ?thesis
      using ss_pop_front_ok [of xxh rd files ss x xs] rep ne
      by (fastforce simp: scan_source_ops_def ss_buffer_empty_def)
  next
    case (Mem c)
    then show ?thesis
      using mc_pop_front_rep [of c x xs] rep by (fastforce simp: scan_source_ops_def)
  qed
next
  fix s x xs s'
  assume "scan_source_rep xxh rd files s (x # xs)" "so_buffer_empty (scan_source_ops xxh rd) s"
    "so_refresh (scan_source_ops xxh rd) s = Inr s'"
  then show "\<not> so_buffer_empty (scan_source_ops xxh rd) s'"
    using ss_refresh_ok [of xxh rd files _ "x # xs"] mcc.rep_Cons
    by (cases s) (fastforce simp: scan_source_ops_def ss_buffer_empty_def)+
next
  fix s :: scan_source
  show "so_buffer_empty (scan_source_ops xxh rd) s \<Longrightarrow> so_buffered (scan_source_ops xxh rd) s = 0"
    by (cases s) (auto simp: scan_source_ops_def ss_size_def ss_buffer_empty_def mc_is_eof_def)
qed

text \<open>
  C22: A scan over any SST streams and memtable cursors that hold at least one entry, with distinct
  epochs, ends. It delivers pairs in strictly ascending order of their keys. A pair is delivered
  exactly if it comes from the newest entry of its key, that entry is no tombstone, and the key lies
  between the bounds of the scan. The upper bound is included, which is what the code does and not
  the half-open range that the comment on \<^verbatim>\<open>database::scan\<close> promises. No entry is a value pointer, on
  which \<open>_emit\<close> asserts that it is not implemented. Every entry in the range of a cursor is visible
  to its snapshot, as \<open>memtable_cursor_rep\<close> says; a table that is written during the scan is not
  covered.
\<close>

theorem range_scan:
  assumes reps: "list_all2 (scan_source_rep xxh rd files) srcs rs"
    and epochs: "distinct (map source_epoch srcs)"
    and sorted: "\<forall>r \<in> set rs. sorted_wrt (<) (map fst r)"
    and plain: "\<forall>r \<in> set rs. \<forall>x \<in> set r. \<nexists>vp. value_from_span (snd x) = Inr (Value_Ptr vp)"
    and nonempty: "stream_entries rs (map source_epoch srcs) \<noteq> []"
    and fuel: "length (stream_entries rs (map source_epoch srcs)) < n"
  defines "A \<equiv> set (stream_entries rs (map source_epoch srcs))"
  shows "\<exists>kvs. scan_all n n heap_pop (scan_source_ops xxh rd) (make_range_iterator srcs lower upper) = Inr kvs
    \<and> sorted_wrt (<) (map fst kvs)
    \<and> (\<forall>k v. (k, v) \<in> set kvs \<longleftrightarrow>
         (case lower of Some l \<Rightarrow> l \<le> k | None \<Rightarrow> True) \<and> (case upper of Some u \<Rightarrow> k \<le> u | None \<Rightarrow> True)
         \<and> (\<exists>e. is_newest A e \<and> me_key e = k \<and> value_from_span (me_value e) = Inr (In_Place v)))"
proof -
  let ?es = "map (so_epoch (scan_source_ops xxh rd)) srcs"
  have es: "map source_epoch srcs = ?es" by (simp add: scan_source_ops_def)
  let ?R = "newest (merge_order (stream_entries rs ?es))"
  have run: "scan_all n n heap_pop (scan_source_ops xxh rd) (make_range_iterator srcs lower upper) = Inr (scan_list lower upper ?R)"
    and R: "sorted_wrt (<) (map me_key ?R)" "set ?R = {e. is_newest A e}"
    using sc.scan_all_collects(1) [OF reps refl, where n = n and fuel = n and lower = lower and upper = upper]
      sc.scan_all_collects(2,3) [OF reps refl, where n = n and fuel = n] epochs sorted nonempty fuel
    unfolding A_def es by auto
  have keys: "k = me_key e" if "(k, v) \<in> set (emits lower upper e)" for k v e
    using that unfolding emits_iff by simp
  have "sorted_wrt (<) (map fst (scan_list lower upper R))" if "sorted_wrt (<) (map me_key R)" for R
    using that
  proof (induction R)
    case (Cons e R)
    have "me_key e < k" if "(k, v) \<in> set (scan_list lower upper R)" for k v
      using that Cons.prems keys by (fastforce simp: scan_list_def)
    moreover have "sorted_wrt (<) (map fst (emits lower upper e))"
      using emits_one [of lower upper e] by (cases "emits lower upper e") auto
    ultimately show ?case
      using Cons keys by (fastforce simp: scan_list_def sorted_wrt_append)
  qed (simp add: scan_list_def)
  then have "sorted_wrt (<) (map fst (scan_list lower upper ?R))"
    using R(1) .
  moreover have "\<nexists>vp. value_from_span (me_value e) = Inr (Value_Ptr vp)" if "is_newest A e" for e
    using that plain set_stream_entries [of rs "map source_epoch srcs" e] list_all2_lengthD [OF reps]
    by (fastforce simp: is_newest_def A_def)
  ultimately show ?thesis
    using run R(2) by (auto simp: scan_list_def emits_iff)
qed

definition scan_sample_table :: "memtable_entry list" where
  "scan_sample_table = [\<lparr>mt_key = [2], mt_seq = 0, mt_value = stored_value (In_Place [5])\<rparr>]"

definition scan_sample_sources :: "scan_source list" where
  "scan_sample_sources =
     [Rbuf (open_stream 4096 (0, [[([1], stored_value (In_Place [7]))]], 3)),
      Mem (make_memtable_cursor scan_sample_table (Some [1]) (Some [9]) (-1) 0)]"

lemma scan_sample_reps:
  "list_all2 (scan_source_rep sample_xxh sample_rd sample_files) scan_sample_sources
     [[([1], stored_value (In_Place [7]))], [([2], stored_value (In_Place [5]))]]"
proof -
  have "memtable_cursor_rep (make_memtable_cursor scan_sample_table (Some [1]) (Some [9]) (-1) 0)
      (key_runs (scan_range [1] [9] scan_sample_table))"
    by (rule make_memtable_cursor_rep) (simp_all add: scan_sample_table_def skip_sorted_def)
  moreover have "key_runs (scan_range [1] [9] scan_sample_table) = [([2], stored_value (In_Place [5]))]"
    by (simp add: scan_range_def scan_sample_table_def memtable_less_probe)
  moreover have "sst_stream_rep sample_xxh sample_rd sample_files
      (open_stream 4096 (0, [[([1], stored_value (In_Place [7]))]], 3)) (concat [[([1], stored_value (In_Place [7]))]])"
    using sample_specs_hold(1)
    by (intro open_stream_rep) (auto simp: reads_files_def sample_rd_def sample_specs_def PAGE_SIZE_IN_BYTES_def)
  ultimately show ?thesis by (simp add: scan_sample_sources_def)
qed

theorem range_scan_witness:
  "\<exists>kvs. scan_all 3 3 heap_pop (scan_source_ops sample_xxh sample_rd)
      (make_range_iterator scan_sample_sources (Some [1]) (Some [9])) = Inr kvs \<and> ([2], [5]) \<in> set kvs"
proof -
  let ?rs = "[[([1], stored_value (In_Place [7]))], [([2], stored_value (In_Place [5]))]] :: (bytes \<times> bytes) list list"
  have epochs: "map source_epoch scan_sample_sources = [3, -1]"
    by (simp add: scan_sample_sources_def open_stream_def make_sst_stream_def make_memtable_cursor_def skip_invisible_def Let_def)
  have "is_newest (set (stream_entries ?rs [3, -1])) (entry_of (-1) ([2], stored_value (In_Place [5])))"
    by (simp add: is_newest_def)
  then show ?thesis
    using range_scan [OF scan_sample_reps, where n = 3 and lower = "Some [1]" and upper = "Some [9]"] unfolding epochs by fastforce
qed

text \<open>
  C27: A scan over sources that hold no entry does not report the end of the scan. The
  deduplicator is asked for an entry it does not have, and its exception leaves \<open>next\<close>.
\<close>

theorem empty_scan_raises:
  assumes "list_all2 (scan_source_rep xxh rd files) srcs (map (\<lambda>_. []) srcs)" "distinct (map source_epoch srcs)"
  shows "\<exists>it. scan_next fuel heap_pop (scan_source_ops xxh rd) (make_range_iterator srcs lower upper)
    = (Inl (generic_error ''No buffered item to force_pop''), it)"
  using sc.scan_next_empty [OF assms(1)] assms(2) by (simp add: scan_source_ops_def)

theorem empty_scan_raises_witness:
  "\<exists>it. scan_next 1 heap_pop (scan_source_ops sample_xxh sample_rd)
      (make_range_iterator [Mem (make_memtable_cursor [] None None (-1) 0)] None None)
    = (Inl (generic_error ''No buffered item to force_pop''), it)"
  by (rule empty_scan_raises [where files = sample_files])
    (simp_all add: make_memtable_cursor_def skip_invisible_def skip_while.simps memtable_cursor_rep_def mc_range_def)

end
