(* ===== verification/Wal.thy ===== *)
theory Wal
  imports Keys
begin

text \<open>
  The write-ahead log, \<^verbatim>\<open>src/db/wal.h\<close> and \<^verbatim>\<open>src/db/wal.cc\<close>, and the stateful hasher it uses,
  \<^verbatim>\<open>hasher64\<close> of \<^verbatim>\<open>src/db/hasher.h\<close>. A log is one file per writer thread; a file is the list of
  its bytes. The hash function is the parameter \<open>xxh\<close>, a function of the bytes fed to the hasher
  since its last reset and of the seed. What a vectored write puts into the file is decided by the
  kernel; its result is the argument \<open>res\<close>.
\<close>

section \<open>The hasher\<close>

text \<open>The state of the hasher is the input since the last reset.\<close>

definition hasher_seed :: u64 where
  "hasher_seed = 0x9E3779B97F4A7C15"

definition hasher_reset :: bytes where
  "hasher_reset = []"

definition hasher_update :: "bytes \<Rightarrow> bytes \<Rightarrow> bytes" where
  "hasher_update input st = st @ input"

definition hasher_sum :: "(bytes \<Rightarrow> u64 \<Rightarrow> u64) \<Rightarrow> bytes \<Rightarrow> u64 \<times> bytes" where
  "hasher_sum xxh st = (xxh st hasher_seed, hasher_reset)"

section \<open>Writing\<close>

record wal_entry =
  we_seq_nr :: u64
  we_key :: bytes
  we_value :: bytes

definition low_32_bits :: "u64 \<Rightarrow> u32" where
  "low_32_bits h = ucast (h AND (push_bit 32 1 - 1))"

text \<open>The parts of an entry before its checksum, and the checksum over them.\<close>

definition entry_parts :: "u64 \<Rightarrow> bytes \<Rightarrow> bytes \<Rightarrow> bytes list" where
  "entry_parts seq_nr key v =
     [le_image 8 seq_nr, [encode_key_size (length key)], key, le_image 2 (of_nat (length v) :: u16), v]"

definition write_entry_bytes :: "(bytes \<Rightarrow> u64 \<Rightarrow> u64) \<Rightarrow> u64 \<Rightarrow> bytes \<Rightarrow> bytes \<Rightarrow> bytes" where
  "write_entry_bytes xxh seq_nr key v =
     (let parts = entry_parts seq_nr key v;
          checksum = low_32_bits (fst (hasher_sum xxh (fold hasher_update parts hasher_reset)))
      in concat parts @ le_image 4 checksum)"

text \<open>
  \<open>res\<close> is the result of the system call: a negative number is an error, otherwise the number of
  bytes that were appended to the file.
\<close>

definition write_entry ::
    "(bytes \<Rightarrow> u64 \<Rightarrow> u64) \<Rightarrow> int \<Rightarrow> u64 \<Rightarrow> bytes \<Rightarrow> bytes \<Rightarrow> bytes \<Rightarrow> status \<times> bytes" where
  "write_entry xxh res seq_nr key v file =
     (let entry = write_entry_bytes xxh seq_nr key v; expected_bytes = length entry
      in if res < 0 then (Inl (generic_error ''could not write into wal: ''), file)
         else
           (let file = file @ take (nat res) entry
            in if nat res \<noteq> expected_bytes then (Inl (generic_error ''partial write into wal: ''), file)
               else (ok, file)))"

text \<open>
  A log is the list of its files, one per thread; its name tells the thread and the slot. The
  constructor opens each file to append to it: \<open>opened\<close> holds for each thread what that gives,
  nothing if it fails, otherwise the contents of the file, which are empty for a new one.
\<close>

type_synonym wal_files = "bytes list"

definition make_wal :: "bytes option list \<Rightarrow> wal_files expected" where
  "make_wal opened = (if None \<in> set opened then Inl (generic_error ''could not open wal '') else Inr (map the opened))"

definition wal_append ::
    "(bytes \<Rightarrow> u64 \<Rightarrow> u64) \<Rightarrow> int \<Rightarrow> nat \<Rightarrow> u64 \<Rightarrow> bytes \<Rightarrow> bytes \<Rightarrow> wal_files \<Rightarrow> status \<times> wal_files" where
  "wal_append xxh res thread_idx seq_nr key v files =
     (case write_entry xxh res seq_nr key v (files ! thread_idx) of (s, file) \<Rightarrow> (s, files[thread_idx := file]))"

definition wal_reset :: "wal_files \<Rightarrow> wal_files" where
  "wal_reset files = map (\<lambda>_. []) files"

section \<open>Reading\<close>

text \<open>\<open>read_from_buf n bs\<close>: the next \<open>n\<close> bytes and what follows them, if there are so many.\<close>

definition read_from_buf :: "nat \<Rightarrow> bytes \<Rightarrow> (bytes \<times> bytes) option" where
  "read_from_buf n bs = (if n > length bs then None else Some (take n bs, drop n bs))"

definition read_wal_entry :: "(bytes \<Rightarrow> u64 \<Rightarrow> u64) \<Rightarrow> bytes \<Rightarrow> (wal_entry \<times> bytes) expected" where
  "read_wal_entry xxh bs =
     (case read_from_buf 8 bs of
        None \<Rightarrow> Inl (generic_error ''incomplete WAL entry sequence number'')
      | Some (seq_nr, bs) \<Rightarrow>
     (case read_from_buf 1 bs of
        None \<Rightarrow> Inl (generic_error ''incomplete WAL entry key size'')
      | Some (encoded_key_size, bs) \<Rightarrow>
     (let key_size = decode_key_size (hd encoded_key_size)
      in if key_size > MAX_KEY_LEN then Inl (generic_error ''invalid encoded key size'')
         else
     (case read_from_buf key_size bs of
        None \<Rightarrow> Inl (generic_error ''incomplete WAL entry key'')
      | Some (key, bs) \<Rightarrow>
     (case read_from_buf 2 bs of
        None \<Rightarrow> Inl (generic_error ''incomplete WAL entry value size'')
      | Some (value_size, bs) \<Rightarrow>
     (case read_from_buf (unat (le_word value_size :: u16)) bs of
        None \<Rightarrow> Inl (generic_error ''incomplete WAL entry value'')
      | Some (v, bs) \<Rightarrow>
     (case read_from_buf 4 bs of
        None \<Rightarrow> Inl (generic_error ''incomplete WAL entry checksum'')
      | Some (checksum, bs) \<Rightarrow>
          (let st = fold hasher_update [seq_nr, encoded_key_size, key, value_size, v] hasher_reset;
               computed_checksum = low_32_bits (fst (hasher_sum xxh st))
           in if (le_word checksum :: u32) \<noteq> computed_checksum
              then Inl (generic_error ''checksum mismatch for WAL entry'')
              else Inr (\<lparr>we_seq_nr = le_word seq_nr, we_key = key, we_value = v\<rparr>, bs)))))))))"

lemma read_from_buf_Some: "read_from_buf n bs = Some (a, r) \<Longrightarrow> length bs = n + length r \<and> length a = n \<and> bs = a @ r"
  by (auto simp: read_from_buf_def split: if_splits)

lemma read_wal_entry_shorter:
  assumes "read_wal_entry xxh bs = Inr (e, rest)"
  shows "length rest < length bs"
  using assms
  by (auto simp: read_wal_entry_def Let_def split: option.splits if_splits dest!: read_from_buf_Some)

text \<open>
  The entries of a file whose bytes are in the buffer. Opening the file and reading it into the
  buffer is not modelled; a file that cannot be read raises an exception there.
\<close>

function read_wal_file_generator :: "(bytes \<Rightarrow> u64 \<Rightarrow> u64) \<Rightarrow> bytes \<Rightarrow> wal_entry expected list" where
  "read_wal_file_generator xxh bs =
     (if bs = [] then []
      else case read_wal_entry xxh bs of
        Inl e \<Rightarrow> [Inl e]
      | Inr (e, rest) \<Rightarrow> Inr e # read_wal_file_generator xxh rest)"
  by pat_completeness auto
termination
  by (relation "measure (\<lambda>(xxh, bs). length bs)") (auto dest: read_wal_entry_shorter)

declare read_wal_file_generator.simps [simp del]

text \<open>
  A directory is the list of its regular files with their names, in the order in which it is
  enumerated.
\<close>

type_synonym directory = "(string \<times> bytes) list"

definition starts_with :: "string \<Rightarrow> string \<Rightarrow> bool" where
  "starts_with pre s \<longleftrightarrow> take (length pre) s = pre"

definition WAL_FILE_PREFIX :: string where
  "WAL_FILE_PREFIX = ''log''"

definition collect_wal_files :: "directory \<Rightarrow> bytes list" where
  "collect_wal_files dir = map snd (filter (\<lambda>(name, content). content \<noteq> [] \<and> starts_with WAL_FILE_PREFIX name) dir)"

text \<open>
  The entries are sorted with an unstable algorithm; the order of entries with equal numbers is not
  specified. The stable sort here is one of the results it may have.
\<close>

definition read_all_entries :: "(bytes \<Rightarrow> u64 \<Rightarrow> u64) \<Rightarrow> bytes list \<Rightarrow> wal_entry list expected" where
  "read_all_entries xxh files =
     (let results = concat (map (read_wal_file_generator xxh) files)
      in if \<exists>r \<in> set results. isl r
         then Inl (generic_error ''Errors occurred while reading WAL files; see log for details'')
         else Inr (sort_key we_seq_nr (map projr results)))"

fun replay_entries :: "(wal_entry \<Rightarrow> 's \<Rightarrow> (bool \<times> 's) expected) \<Rightarrow> wal_entry list \<Rightarrow> 's \<Rightarrow> 's expected" where
  "replay_entries on_entry [] st = Inr st"
| "replay_entries on_entry (e # es) st =
     (case on_entry e st of
        Inl err \<Rightarrow> Inl err
      | Inr (continue, st') \<Rightarrow> (if continue then replay_entries on_entry es st' else Inr st'))"

definition wal_replay ::
    "(bytes \<Rightarrow> u64 \<Rightarrow> u64) \<Rightarrow> directory \<Rightarrow> (wal_entry \<Rightarrow> 's \<Rightarrow> (bool \<times> 's) expected) \<Rightarrow> 's \<Rightarrow> 's expected" where
  "wal_replay xxh dir on_entry st =
     (let files = collect_wal_files dir
      in if files = [] then Inr st
         else case read_all_entries xxh files of
           Inl e \<Rightarrow> Inl e
         | Inr entries \<Rightarrow> replay_entries on_entry entries st)"

section \<open>Entries are read back\<close>

definition entry_ok :: "wal_entry \<Rightarrow> bool" where
  "entry_ok e \<longleftrightarrow> 1 \<le> length (we_key e) \<and> length (we_key e) \<le> MAX_KEY_LEN \<and> length (we_value e) < 2 ^ 16"

definition entry_bytes :: "(bytes \<Rightarrow> u64 \<Rightarrow> u64) \<Rightarrow> wal_entry \<Rightarrow> bytes" where
  "entry_bytes xxh e = write_entry_bytes xxh (we_seq_nr e) (we_key e) (we_value e)"

lemma read_from_buf_append [simp]: "n = length a \<Longrightarrow> read_from_buf n (a @ r) = Some (a, r)"
  by (simp add: read_from_buf_def)

lemma fold_hasher_update: "fold hasher_update parts st = st @ concat parts"
  by (induction parts arbitrary: st) (simp_all add: hasher_update_def)

lemma read_wal_entry_bytes:
  assumes "entry_ok e"
  shows "read_wal_entry xxh (entry_bytes xxh e @ rest) = Inr (e, rest)"
proof -
  let ?k = "we_key e" and ?v = "we_value e"
  have size: "unat (of_nat (length ?v) :: u16) = length ?v"
    using assms by (simp add: entry_ok_def unsigned_of_nat take_bit_nat_eq_self)
  have key: "decode_key_size (encode_key_size (length ?k)) = length ?k"
    using assms decode_encode_key_size by (simp add: entry_ok_def MAX_KEY_LEN_def)
  have "entry_bytes xxh e @ rest = le_image 8 (we_seq_nr e) @ [encode_key_size (length ?k)] @ ?k
      @ le_image 2 (of_nat (length ?v) :: u16) @ ?v
      @ le_image 4 (low_32_bits (xxh (concat (entry_parts (we_seq_nr e) ?k ?v)) hasher_seed)) @ rest"
    by (simp add: entry_bytes_def write_entry_bytes_def entry_parts_def hasher_sum_def Let_def
        fold_hasher_update hasher_reset_def)
  moreover have "length ?k \<le> MAX_KEY_LEN" using assms by (simp add: entry_ok_def)
  ultimately show ?thesis
    unfolding read_wal_entry_def
    by (simp add: key size le_simps Let_def fold_hasher_update hasher_update_def hasher_reset_def hasher_sum_def entry_parts_def del: append_Cons)
qed

lemma entry_bytes_not_Nil [simp]: "entry_bytes xxh e \<noteq> []"
  by (simp add: entry_bytes_def write_entry_bytes_def entry_parts_def Let_def numeral_eq_Suc)

lemma read_wal_file_entries:
  "\<forall>e \<in> set es. entry_ok e \<Longrightarrow>
     read_wal_file_generator xxh (concat (map (entry_bytes xxh) es) @ rest) = map Inr es @ read_wal_file_generator xxh rest"
  by (induction es) (simp_all add: read_wal_file_generator.simps [of xxh "entry_bytes xxh e @ r" for e r] read_wal_entry_bytes)

lemma read_wal_file_Nil [simp]: "read_wal_file_generator xxh [] = []"
  by (simp add: read_wal_file_generator.simps)

text \<open>What is read of a file does not depend on what follows it.\<close>

lemma read_from_buf_extend: "read_from_buf n bs = Some (a, r) \<Longrightarrow> read_from_buf n (bs @ q) = Some (a, r @ q)"
  by (auto simp: read_from_buf_def split: if_splits)

lemma read_wal_entry_extend:
  assumes "read_wal_entry xxh bs = Inr (e, rest)"
  shows "read_wal_entry xxh (bs @ q) = Inr (e, rest @ q)"
  using assms unfolding read_wal_entry_def
  by (auto simp: Let_def read_from_buf_extend split: option.splits if_splits)

lemma read_wal_entry_torn:
  assumes "entry_ok e" "p @ q = entry_bytes xxh e" "q \<noteq> []"
  shows "\<exists>err. read_wal_entry xxh p = Inl err"
proof (cases "read_wal_entry xxh p")
  case (Inr r)
  obtain e' rest where "r = (e', rest)" by (cases r)
  then have "read_wal_entry xxh (entry_bytes xxh e) = Inr (e', rest @ q)"
    using read_wal_entry_extend [of xxh p e' rest q] Inr assms(2) by simp
  then show ?thesis
    using read_wal_entry_bytes [OF assms(1), of xxh "[]"] assms(3) by simp
qed simp

text \<open>A file as the appends of one thread leave it.\<close>

fun wal_append_all :: "(bytes \<Rightarrow> u64 \<Rightarrow> u64) \<Rightarrow> (nat \<times> wal_entry) list \<Rightarrow> wal_files \<Rightarrow> wal_files" where
  "wal_append_all xxh [] files = files"
| "wal_append_all xxh ((t, e) # es) files =
     wal_append_all xxh es
       (snd (wal_append xxh (int (length (entry_bytes xxh e))) t (we_seq_nr e) (we_key e) (we_value e) files))"

lemma wal_append_ok:
  "wal_append xxh (int (length (entry_bytes xxh e))) t (we_seq_nr e) (we_key e) (we_value e) files
     = (ok, files[t := files ! t @ entry_bytes xxh e])"
  by (simp add: wal_append_def write_entry_def Let_def entry_bytes_def)

definition thread_entries :: "nat \<Rightarrow> (nat \<times> wal_entry) list \<Rightarrow> wal_entry list" where
  "thread_entries t es = map snd (filter (\<lambda>(t', _). t' = t) es)"

lemma wal_append_all_files:
  assumes "\<forall>(t, e) \<in> set es. t < length files"
  shows "length (wal_append_all xxh es files) = length files"
    "t < length files \<Longrightarrow>
       wal_append_all xxh es files ! t = files ! t @ concat (map (entry_bytes xxh) (thread_entries t es))"
  using assms
  by (induction xxh es files rule: wal_append_all.induct)
    (auto simp: wal_append_ok thread_entries_def nth_list_update)

lemma wal_append_all_append: "wal_append_all xxh (es @ es') files = wal_append_all xxh es' (wal_append_all xxh es files)"
  by (induction xxh es files rule: wal_append_all.induct) simp_all

lemma mset_thread_entries:
  assumes "\<forall>(t, e) \<in> set es. t < n"
  shows "mset (concat (map (\<lambda>t. thread_entries t es) [0..<n])) = mset (map snd es)"
  using assms
proof (induction es)
  case Nil
  then show ?case by (simp add: thread_entries_def)
next
  case (Cons te es)
  obtain t e where te: "te = (t, e)" by (cases te)
  have "mset (concat (map (\<lambda>u. thread_entries u (te # es)) [0..<n]))
      = mset (concat (map (\<lambda>u. thread_entries u es) [0..<n])) + (if t < n then {#e#} else {#})"
    by (induction n) (auto simp: thread_entries_def te)
  then show ?case using Cons te by simp
qed

lemma collect_wal_files_zip:
  assumes "length names = length files" "\<forall>name \<in> set names. starts_with WAL_FILE_PREFIX name"
  shows "collect_wal_files (zip names files) = filter (\<lambda>content. content \<noteq> []) files"
  using assms by (induction names files rule: list_induct2) (auto simp: collect_wal_files_def)

lemma concat_read_nonempty:
  "concat (map (read_wal_file_generator xxh) (filter (\<lambda>content. content \<noteq> []) files))
     = concat (map (read_wal_file_generator xxh) files)"
  by (induction files) auto

lemma read_wal_append_all:
  assumes "\<forall>(t, e) \<in> set es. t < n \<and> entry_ok e"
  shows "concat (map (read_wal_file_generator xxh) (wal_append_all xxh es (replicate n [])))
    = map Inr (concat (map (\<lambda>t. thread_entries t es) [0..<n]))"
proof -
  have ok: "\<forall>e \<in> set (thread_entries t es). entry_ok e" for t
    using assms by (auto simp: thread_entries_def)
  have t: "\<forall>(t, e) \<in> set es. t < length (replicate n [])"
    using assms by auto
  have "wal_append_all xxh es (replicate n []) = map (\<lambda>t. concat (map (entry_bytes xxh) (thread_entries t es))) [0..<n]"
    using wal_append_all_files(1) [OF t, of xxh] wal_append_all_files(2) [OF t, where xxh = xxh]
    by (intro nth_equalityI) simp_all
  then show ?thesis
    using read_wal_file_entries [OF ok, where xxh = xxh and rest = "[]"] by (simp add: map_concat o_def)
qed

lemma strictly_sorted_sort_key:
  assumes "distinct (map f xs)"
  shows "sorted_wrt (\<lambda>a b. f a < f b) (sort_key f xs)"
proof -
  have "distinct (map f (sort_key f xs))"
    using assms mset_eq_imp_distinct_iff [of "map f (sort_key f xs)" "map f xs"] by simp
  then have "sorted_wrt (<) (map f (sort_key f xs))"
    by (simp add: strict_sorted_iff)
  then show ?thesis by (simp add: sorted_wrt_map)
qed

text \<open>
  C23: The entries that any number of threads append to their files, in any interleaving and with
  distinct numbers, are replayed completely and in the order of their numbers, whatever the order
  in which the directory lists the files. The log may have been opened on files with the entries of
  an earlier run, which are replayed too.
\<close>

theorem wal_replay_in_order:
  assumes es: "\<forall>(t, e) \<in> set (old @ es). t < n \<and> entry_ok e" "distinct (map (we_seq_nr \<circ> snd) (old @ es))"
    and names: "length names = n" "\<forall>name \<in> set names. starts_with WAL_FILE_PREFIX name"
  shows "\<exists>files L. make_wal (map Some (wal_append_all xxh old (replicate n []))) = Inr files
    \<and> mset L = mset (map snd (old @ es)) \<and> sorted_wrt (\<lambda>a b. we_seq_nr a < we_seq_nr b) L
    \<and> wal_replay xxh (zip names (wal_append_all xxh es files)) on_entry st = replay_entries on_entry L st"
proof -
  let ?files = "wal_append_all xxh (old @ es) (replicate n [])" and ?E = "concat (map (\<lambda>t. thread_entries t (old @ es)) [0..<n])"
  have opened: "make_wal (map Some (wal_append_all xxh old (replicate n []))) = Inr (wal_append_all xxh old (replicate n []))"
    by (auto simp: make_wal_def comp_def)
  have len: "length ?files = n"
    using wal_append_all_files(1) [of "old @ es" "replicate n []" xxh] es(1) by auto
  have mset: "mset ?E = mset (map snd (old @ es))"
    using mset_thread_entries [of "old @ es" n] es(1) by blast
  have "distinct (map we_seq_nr (map snd (old @ es)))" using es(2) by simp
  then have "distinct (map we_seq_nr ?E)"
    using mset_eq_imp_distinct_iff [of "map we_seq_nr ?E" "map we_seq_nr (map snd (old @ es))"] mset by (simp only: mset_map)
  then have sorted: "sorted_wrt (\<lambda>a b. we_seq_nr a < we_seq_nr b) (sort_key we_seq_nr ?E)"
    by (rule strictly_sorted_sort_key)
  have files: "collect_wal_files (zip names ?files) = filter (\<lambda>content. content \<noteq> []) ?files"
    using collect_wal_files_zip names len by simp
  have "read_all_entries xxh (collect_wal_files (zip names ?files)) = Inr (sort_key we_seq_nr ?E)"
    using read_wal_append_all [OF es(1), of xxh] unfolding files read_all_entries_def concat_read_nonempty
    by (auto simp: Let_def o_def)
  then have "wal_replay xxh (zip names ?files) on_entry st = replay_entries on_entry (sort_key we_seq_nr ?E) st"
    by (auto simp: wal_replay_def Let_def read_all_entries_def)
  then show ?thesis using opened mset sorted unfolding wal_append_all_append by (metis mset_sort)
qed

definition sample_log :: "(nat \<times> wal_entry) list" where
  "sample_log = [(0, \<lparr>we_seq_nr = 1, we_key = [1], we_value = [1, 9]\<rparr>), (1, \<lparr>we_seq_nr = 0, we_key = [1], we_value = [1, 8]\<rparr>)]"

theorem wal_replay_in_order_witness:
  "\<exists>files L. make_wal [Some [], Some []] = Inr files \<and> mset L = mset (map snd sample_log) \<and> sorted_wrt (\<lambda>a b. we_seq_nr a < we_seq_nr b) L
    \<and> wal_replay (\<lambda>_ _. 5) (zip [''log.0.0'', ''log.1.0''] (wal_append_all (\<lambda>_ _. 5) sample_log files)) (\<lambda>e acc. Inr (True, acc @ [e])) []
      = replay_entries (\<lambda>e acc. Inr (True, acc @ [e])) L []"
proof -
  have "\<forall>(t, e) \<in> set ([] @ sample_log). t < 2 \<and> entry_ok e" "distinct (map (we_seq_nr \<circ> snd) ([] @ sample_log))"
    "length [''log.0.0'', ''log.1.0''] = 2" "\<forall>name \<in> set [''log.0.0'', ''log.1.0'']. starts_with WAL_FILE_PREFIX name"
    by (simp_all add: sample_log_def entry_ok_def MAX_KEY_LEN_def starts_with_def WAL_FILE_PREFIX_def)
  from wal_replay_in_order [OF this, of "\<lambda>_ _. 5" "\<lambda>e acc. Inr (True, acc @ [e])" "[]"] show ?thesis
    by (simp add: numeral_2_eq_2)
qed

text \<open>
  C25: A write that the crash cut short is detected. If the file of one thread ends in a proper,
  non-empty prefix of an entry, the replay of the directory fails, whatever the other files hold.
\<close>

theorem wal_torn_entry_detected:
  assumes es: "\<forall>(t, e) \<in> set es. t < n \<and> entry_ok e" and t: "t < n"
    and torn: "entry_ok e" "p @ q = entry_bytes xxh e" "p \<noteq> []" "q \<noteq> []"
    and names: "length names = n" "\<forall>name \<in> set names. starts_with WAL_FILE_PREFIX name"
  defines "files \<equiv> wal_append_all xxh es (replicate n [])"
  shows "wal_replay xxh (zip names (files[t := files ! t @ p])) on_entry st
    = Inl (generic_error ''Errors occurred while reading WAL files; see log for details'')"
proof -
  let ?files = "files[t := files ! t @ p]"
  have len: "length files = n" and content: "files ! t = concat (map (entry_bytes xxh) (thread_entries t es))"
    using wal_append_all_files(1) [of es "replicate n []" xxh] wal_append_all_files(2) [of es "replicate n []" t xxh] es t
    by (auto simp: files_def)
  have "\<forall>e \<in> set (thread_entries t es). entry_ok e"
    using es by (auto simp: thread_entries_def)
  moreover obtain err where "read_wal_file_generator xxh p = [Inl err]"
    using read_wal_entry_torn [OF torn(1,2,4)] torn(3) by (auto simp: read_wal_file_generator.simps [of xxh p])
  ultimately have "Inl err \<in> set (read_wal_file_generator xxh (files ! t @ p))"
    using read_wal_file_entries [of "thread_entries t es" xxh p] content by simp
  moreover have "files ! t @ p \<in> set ?files" using t len by (simp add: set_update_memI)
  ultimately have "\<exists>r \<in> set (concat (map (read_wal_file_generator xxh) ?files)). isl r"
    by (auto intro!: bexI [of _ "Inl err"])
  moreover have "collect_wal_files (zip names ?files) = filter (\<lambda>content. content \<noteq> []) ?files"
    using collect_wal_files_zip names len by simp
  ultimately have "read_all_entries xxh (collect_wal_files (zip names ?files))
      = Inl (generic_error ''Errors occurred while reading WAL files; see log for details'')"
    by (simp only: read_all_entries_def concat_read_nonempty Let_def if_True)
  then show ?thesis
    by (auto simp: wal_replay_def Let_def read_all_entries_def)
qed

theorem wal_torn_entry_detected_witness:
  "wal_replay (\<lambda>_ _. 5) (zip [''log.0.0'', ''log.1.0'']
      ((wal_append_all (\<lambda>_ _. 5) sample_log (replicate 2 []))
        [1 := wal_append_all (\<lambda>_ _. 5) sample_log (replicate 2 []) ! 1 @ [7]])) (\<lambda>e acc. Inr (True, acc @ [e])) []
    = Inl (generic_error ''Errors occurred while reading WAL files; see log for details'')"
proof -
  let ?e = "\<lparr>we_seq_nr = 7, we_key = [1], we_value = [1]\<rparr>"
  have "take 1 (entry_bytes (\<lambda>_ _. 5) ?e) = [7]" "drop 1 (entry_bytes (\<lambda>_ _. 5) ?e) \<noteq> []"
    by code_simp+
  then obtain q where q: "[7] @ q = entry_bytes (\<lambda>_ _. 5) ?e" "q \<noteq> []"
    by (metis append_take_drop_id)
  show ?thesis
    by (rule wal_torn_entry_detected [OF _ _ _ q(1) _ q(2)])
      (simp_all add: sample_log_def entry_ok_def MAX_KEY_LEN_def starts_with_def WAL_FILE_PREFIX_def)
qed

text \<open>
  The length of a value is stored in 16 bits, and a value in the log has its tag in front. A value
  of 65535 bytes or more is written in full, but no entry with it is ever read back.
\<close>

lemma wal_long_value_lost:
  assumes "2 ^ 16 \<le> length (we_value e)"
  shows "read_wal_entry xxh bs \<noteq> Inr (e, rest)"
proof
  assume "read_wal_entry xxh bs = Inr (e, rest)"
  then obtain n :: u16 where "length (we_value e) = unat n"
    unfolding read_wal_entry_def
    by (auto simp: Let_def split: option.splits if_splits dest!: read_from_buf_Some)
  then show False
    using assms unsigned_less [where 'a = nat, of n] by simp
qed

end
