(* ===== verification/Rw_Sync.thy ===== *)
theory Rw_Sync
  imports Main
begin

text \<open>
  The synchronisation of writers and flusher, \<^verbatim>\<open>src/async/rw_sync.h\<close>: a writer announces itself in
  the counter of its slot before it looks at the flag \<open>_frozen\<close>; the flusher sets the flag and then
  waits until no counter is positive. The threads interleave, so the operations are split into their
  atomic accesses and the object is a step relation. The code orders the store to the counter before
  the load of the flag with a fence, so the accesses of the model are sequentially consistent.
  \<open>slot\<close> gives the index that a thread passes.
\<close>

section \<open>State and steps\<close>

text \<open>Where a writer thread is in \<open>acquire_writer\<close> and \<open>release\<close>.\<close>

datatype writer_pc =
    Idle \<comment> \<open>holds no handle\<close>
  | Announced \<comment> \<open>has stored 1, is about to load the flag\<close>
  | Refused \<comment> \<open>has seen the flag, is about to withdraw\<close>
  | Writing \<comment> \<open>holds a valid handle\<close>

text \<open>Where the flusher is: before the freeze, at a counter in the scan, or past the wait.\<close>

datatype flusher_pc = Before | Scanning nat | Flushing

record rw_sync =
  rw_frozen :: bool
  rw_counters :: "int list"
  rw_writers :: "nat \<Rightarrow> writer_pc"
  rw_flusher :: flusher_pc

definition make_rw_sync :: "nat \<Rightarrow> rw_sync" where
  "make_rw_sync thread_count =
     \<lparr>rw_frozen = False, rw_counters = replicate thread_count 0, rw_writers = (\<lambda>_. Idle), rw_flusher = Before\<rparr>"

definition announce :: "nat \<Rightarrow> nat \<Rightarrow> rw_sync \<Rightarrow> rw_sync" where
  "announce i t s = s\<lparr>rw_counters := (rw_counters s)[i := 1], rw_writers := (rw_writers s)(t := Announced)\<rparr>"

definition check_frozen :: "nat \<Rightarrow> rw_sync \<Rightarrow> rw_sync" where
  "check_frozen t s = s\<lparr>rw_writers := (rw_writers s)(t := (if rw_frozen s then Refused else Writing))\<rparr>"

definition store_zero :: "nat \<Rightarrow> nat \<Rightarrow> rw_sync \<Rightarrow> rw_sync" where
  "store_zero i t s = s\<lparr>rw_counters := (rw_counters s)[i := 0], rw_writers := (rw_writers s)(t := Idle)\<rparr>"

definition freeze_writes :: "rw_sync \<Rightarrow> rw_sync" where
  "freeze_writes s = s\<lparr>rw_frozen := True, rw_flusher := Scanning 0\<rparr>"

text \<open>
  One load of \<open>any_active_writer\<close>, called in a loop by the flusher: a positive counter ends the scan
  and starts the next one.
\<close>

definition scan_counter :: "nat \<Rightarrow> rw_sync \<Rightarrow> rw_sync" where
  "scan_counter k s =
     (if k = length (rw_counters s) then s\<lparr>rw_flusher := Flushing\<rparr>
      else if rw_counters s ! k > 0 then s\<lparr>rw_flusher := Scanning 0\<rparr>
      else s\<lparr>rw_flusher := Scanning (k + 1)\<rparr>)"

inductive rw_step :: "(nat \<Rightarrow> nat) \<Rightarrow> rw_sync \<Rightarrow> rw_sync \<Rightarrow> bool" for slot where
  step_announce: "rw_writers s t = Idle \<Longrightarrow> slot t < length (rw_counters s) \<Longrightarrow> rw_step slot s (announce (slot t) t s)"
| step_check: "rw_writers s t = Announced \<Longrightarrow> rw_step slot s (check_frozen t s)"
| step_withdraw: "rw_writers s t = Refused \<Longrightarrow> rw_step slot s (store_zero (slot t) t s)"
| step_release: "rw_writers s t = Writing \<Longrightarrow> rw_step slot s (store_zero (slot t) t s)"
| step_freeze: "rw_flusher s = Before \<Longrightarrow> rw_step slot s (freeze_writes s)"
| step_scan: "rw_flusher s = Scanning k \<Longrightarrow> k \<le> length (rw_counters s) \<Longrightarrow> rw_step slot s (scan_counter k s)"

inductive rw_reachable :: "(nat \<Rightarrow> nat) \<Rightarrow> nat \<Rightarrow> rw_sync \<Rightarrow> bool" for slot n where
  rw_init: "rw_reachable slot n (make_rw_sync n)"
| rw_next: "rw_reachable slot n s \<Longrightarrow> rw_step slot s s' \<Longrightarrow> rw_reachable slot n s'"

lemmas rw_ops = announce_def check_frozen_def store_zero_def freeze_writes_def scan_counter_def

section \<open>Exclusion\<close>

text \<open>
  A thread that has announced itself keeps its counter at 1. The slots the flusher has passed belong
  to no thread that writes, and no thread starts to write once the flag is set.
\<close>

definition rw_inv :: "(nat \<Rightarrow> nat) \<Rightarrow> nat \<Rightarrow> rw_sync \<Rightarrow> bool" where
  "rw_inv slot n s \<longleftrightarrow> length (rw_counters s) = n
     \<and> (\<forall>t. rw_writers s t \<noteq> Idle \<longrightarrow> slot t < n \<and> rw_counters s ! slot t = 1)
     \<and> (case rw_flusher s of
          Before \<Rightarrow> True
        | Scanning k \<Rightarrow> rw_frozen s \<and> k \<le> n \<and> (\<forall>t. rw_writers s t = Writing \<longrightarrow> k \<le> slot t)
        | Flushing \<Rightarrow> rw_frozen s \<and> (\<forall>t. rw_writers s t \<noteq> Writing))"

lemma rw_inv_init: "rw_inv slot n (make_rw_sync n)"
  by (simp add: rw_inv_def make_rw_sync_def)

lemma rw_inv_announce:
  assumes "rw_inv slot n s" "inj slot" "rw_writers s t = Idle" "slot t < length (rw_counters s)"
  shows "rw_inv slot n (announce (slot t) t s)"
  using assms by (auto simp: rw_inv_def announce_def nth_list_update split: flusher_pc.splits)

lemma rw_inv_store_zero:
  assumes "rw_inv slot n s" "inj slot" "rw_writers s t \<noteq> Idle"
  shows "rw_inv slot n (store_zero (slot t) t s)"
  using assms by (auto simp: rw_inv_def store_zero_def nth_list_update inj_eq split: flusher_pc.splits)

lemma rw_inv_check:
  assumes "rw_inv slot n s" "rw_writers s t = Announced"
  shows "rw_inv slot n (check_frozen t s)"
  using assms by (auto simp: rw_inv_def check_frozen_def split: flusher_pc.splits)

lemma rw_inv_scan:
  assumes inv: "rw_inv slot n s" and k: "rw_flusher s = Scanning k"
  shows "rw_inv slot n (scan_counter k s)"
proof -
  have "k < slot t" if "rw_writers s t = Writing" "k < n" "\<not> rw_counters s ! k > 0" for t
  proof -
    have "rw_counters s ! slot t = 1" "k \<le> slot t"
      using inv k that(1) by (auto simp: rw_inv_def)
    then show ?thesis using that(3) by (cases "k = slot t") auto
  qed
  moreover have "rw_writers s t \<noteq> Writing" if "k = n" for t
  proof
    assume "rw_writers s t = Writing"
    then have "slot t < n" "k \<le> slot t"
      using inv k by (auto simp: rw_inv_def)
    then show False using that by simp
  qed
  ultimately show ?thesis
    using inv k by (auto simp: rw_inv_def scan_counter_def Suc_le_eq)
qed

lemma rw_inv_step:
  assumes "rw_step slot s s'" "rw_inv slot n s" "inj slot"
  shows "rw_inv slot n s'"
  using assms
proof (induction rule: rw_step.induct)
  case (step_freeze s)
  then show ?case by (auto simp: rw_inv_def freeze_writes_def)
qed (auto intro: rw_inv_announce rw_inv_check rw_inv_store_zero rw_inv_scan)

text \<open>
  C24: If no two threads use the same slot, then in every interleaving of any number of writers with the
  flusher no thread holds a write handle once the flusher has passed its wait, and none can get one
  afterwards.
\<close>

theorem rw_sync_exclusion:
  assumes "rw_reachable slot n s" "inj slot" "rw_flusher s = Flushing"
  shows "rw_writers s t \<noteq> Writing \<and> (rw_writers s t = Announced \<longrightarrow> rw_writers (check_frozen t s) t = Refused)"
proof -
  have "rw_inv slot n s"
    using assms(1) by (induction rule: rw_reachable.induct) (auto intro: rw_inv_init rw_inv_step assms(2))
  then show ?thesis
    using assms(3) by (auto simp: rw_inv_def check_frozen_def)
qed

theorem rw_sync_exclusion_witness:
  "rw_writers (scan_counter 1 (scan_counter 0 (freeze_writes (make_rw_sync 1)))) 0 \<noteq> Writing"
proof -
  have "rw_step id (make_rw_sync 1) (freeze_writes (make_rw_sync 1))"
    by (rule step_freeze) (simp add: make_rw_sync_def)
  moreover have "rw_step id (freeze_writes (make_rw_sync 1)) (scan_counter 0 (freeze_writes (make_rw_sync 1)))"
    by (rule step_scan) (simp_all add: make_rw_sync_def rw_ops)
  moreover have "rw_step id (scan_counter 0 (freeze_writes (make_rw_sync 1)))
      (scan_counter 1 (scan_counter 0 (freeze_writes (make_rw_sync 1))))"
    by (rule step_scan) (simp_all add: make_rw_sync_def rw_ops)
  ultimately have "rw_reachable id 1 (scan_counter 1 (scan_counter 0 (freeze_writes (make_rw_sync 1))))"
    by (meson rw_init rw_next)
  then show ?thesis
    using rw_sync_exclusion [of id 1 _ 0] by (simp add: make_rw_sync_def rw_ops)
qed

section \<open>The wait of the flusher\<close>

text \<open>When every counter is zero the scan of the flusher runs to its end.\<close>

lemma scan_to_end:
  assumes "rw_reachable slot n s" "rw_flusher s = Scanning k" "k \<le> length (rw_counters s)" "\<forall>c \<in> set (rw_counters s). c = 0"
  shows "rw_reachable slot n (s\<lparr>rw_flusher := Flushing\<rparr>)"
  using assms
proof (induction "length (rw_counters s) - k" arbitrary: s k)
  case 0
  then have "scan_counter k s = s\<lparr>rw_flusher := Flushing\<rparr>" by (simp add: scan_counter_def)
  then show ?case using rw_next [OF 0(2) step_scan [OF 0(3,4)]] by simp
next
  case (Suc d)
  then have k: "k < length (rw_counters s)" by simp
  then have "rw_counters s ! k = 0" using Suc.prems(4) by simp
  then have scan: "scan_counter k s = s\<lparr>rw_flusher := Scanning (k + 1)\<rparr>" using k by (simp add: scan_counter_def)
  have "rw_reachable slot n (s\<lparr>rw_flusher := Scanning (k + 1)\<rparr>)"
    using rw_next [OF Suc.prems(1) step_scan [OF Suc.prems(2,3)]] scan by simp
  from Suc.hyps(1) [OF _ this, of "k + 1"] Suc.hyps(2) Suc.prems(4) k show ?case by simp
qed

text \<open>
  The two threads 0 and \<open>n\<close> use the slot 0, as they do in \<open>put_async\<close>, which takes the number of the
  thread modulo the number of slots.
\<close>

lemma replicate_restore: "(replicate n (0 :: int))[0 := 1, 0 := 1, 0 := 0] = replicate n 0"
  by (cases n) auto

text \<open>
  C30: The counters do not count. With more threads than slots, two threads that share a slot can both
  hold a handle; when the first releases its handle the counter is 0 again, and the flusher passes
  its wait while the other thread still writes.
\<close>

theorem rw_sync_shared_slot_unsafe:
  assumes "0 < n"
  shows "\<exists>s. rw_reachable (\<lambda>t. t mod n) n s \<and> rw_flusher s = Flushing \<and> rw_writers s 0 = Writing"
proof -
  let ?slot = "\<lambda>t. t mod n" and ?s0 = "make_rw_sync n"
  define s1 where "s1 = announce 0 0 ?s0"
  define s2 where "s2 = check_frozen 0 s1"
  define s3 where "s3 = announce 0 n s2"
  define s4 where "s4 = check_frozen n s3"
  define s5 where "s5 = store_zero 0 n s4"
  define s6 where "s6 = freeze_writes s5"
  note defs = s1_def s2_def s3_def s4_def s5_def s6_def make_rw_sync_def rw_ops
  have "rw_reachable ?slot n s1"
    using rw_next [OF rw_init step_announce [of ?s0 0 ?slot]] assms by (simp add: make_rw_sync_def s1_def)
  from rw_next [OF this step_check [of _ 0]] have "rw_reachable ?slot n s2" by (simp add: defs)
  from rw_next [OF this step_announce [of _ n]] have "rw_reachable ?slot n s3" using assms by (simp add: defs)
  from rw_next [OF this step_check [of _ n]] have "rw_reachable ?slot n s4" by (simp add: defs)
  from rw_next [OF this step_release [of _ n]] have "rw_reachable ?slot n s5" by (simp add: defs)
  from rw_next [OF this step_freeze] have "rw_reachable ?slot n s6" by (simp add: defs)
  moreover have "rw_flusher s6 = Scanning 0" "rw_writers s6 0 = Writing" "\<forall>c \<in> set (rw_counters s6). c = 0"
    using assms replicate_restore [of n] by (auto simp: defs)
  ultimately show ?thesis
    using scan_to_end [of ?slot n s6 0] by (intro exI [of _ "s6\<lparr>rw_flusher := Flushing\<rparr>"]) simp
qed

theorem rw_sync_shared_slot_unsafe_witness:
  "\<exists>s. rw_reachable (\<lambda>t. t mod 4) 4 s \<and> rw_flusher s = Flushing \<and> rw_writers s 0 = Writing"
  by (rule rw_sync_shared_slot_unsafe) simp

end
