(* ===== verification/Allocators.thy ===== *)
theory Allocators
  imports Utilities
begin

text \<open>
  The allocators: the arena of the memtable values, \<^verbatim>\<open>src/db/arena_allocator.h\<close>, the arena over a
  single buffer, \<^verbatim>\<open>src/single_buffer_arena_allocator.h\<close>, and the fixed allocator of
  \<^verbatim>\<open>src/db/stack_allocator.h\<close>. A pointer into an arena is the number of an extent and an index in it.
  Whether the system has memory for the next extent is the parameter \<open>mem\<close>. Sizes and indices are
  natural numbers below \<open>2 ^ 64\<close>; sums and products wrap around as those of \<^verbatim>\<open>size_t\<close> do.
\<close>

section \<open>The arena\<close>

definition add_size :: "nat \<Rightarrow> nat \<Rightarrow> nat" where
  "add_size a b = (a + b) mod 2 ^ 64"

text \<open>A size in bytes, rounded up to whole items of size \<open>sz\<close>.\<close>

definition whole_items :: "nat \<Rightarrow> nat \<Rightarrow> nat" where
  "whole_items bytes sz = unat ((of_nat bytes + of_nat sz - 1) div of_nat sz * of_nat sz :: u64)"

record arena =
  ar_budget :: nat
  ar_extent_size :: nat
  ar_items_per_extent :: nat
  ar_total_allocated :: nat
  ar_curr_extent :: "nat option"
  ar_current_slot_index :: nat
  ar_extents :: "nat list"

text \<open>The extents are the list of their counts of used items, which are set when an extent is left.\<close>

definition set_last :: "'a \<Rightarrow> 'a list \<Rightarrow> 'a list" where
  "set_last v xs = (if xs = [] then xs else xs[length xs - 1 := v])"

definition allocate_new_extent :: "(nat \<Rightarrow> bool) \<Rightarrow> arena \<Rightarrow> nat option \<times> arena" where
  "allocate_new_extent mem a =
     (let a = a\<lparr>ar_extents := set_last (ar_current_slot_index a) (ar_extents a)\<rparr>
      in if add_size (ar_total_allocated a) (ar_extent_size a) > ar_budget a then (None, a)
         else if \<not> mem (length (ar_extents a)) then (None, a)
         else (Some (length (ar_extents a)),
               a\<lparr>ar_total_allocated := add_size (ar_total_allocated a) (ar_extent_size a), ar_extents := ar_extents a @ [0]\<rparr>))"

text \<open>\<open>sz\<close> is the size of an item.\<close>

definition make_arena :: "(nat \<Rightarrow> bool) \<Rightarrow> nat \<Rightarrow> nat \<Rightarrow> nat \<Rightarrow> arena" where
  "make_arena mem sz budget extent_bytes_hint =
     (let min_extent = whole_items 4096 sz;
          extent_size = max (whole_items extent_bytes_hint sz) min_extent;
          a = \<lparr>ar_budget = budget, ar_extent_size = extent_size,
               ar_items_per_extent = max (extent_size div sz) 1, ar_total_allocated = 0,
               ar_curr_extent = None, ar_current_slot_index = 0, ar_extents = []\<rparr>
      in case allocate_new_extent mem a of (e, a) \<Rightarrow> a\<lparr>ar_curr_extent := e\<rparr>)"

definition allocate_many_impl :: "(nat \<Rightarrow> bool) \<Rightarrow> nat \<Rightarrow> arena \<Rightarrow> (nat \<times> nat) option \<times> arena" where
  "allocate_many_impl mem n_items a =
     (let full = add_size (ar_current_slot_index a) n_items > ar_items_per_extent a
      in if full \<and> n_items > ar_items_per_extent a then (None, a)
         else
           (let a = (if full
                     then (case allocate_new_extent mem a of (e, a) \<Rightarrow> a\<lparr>ar_curr_extent := e, ar_current_slot_index := 0\<rparr>)
                     else a)
            in case ar_curr_extent a of
                 None \<Rightarrow> (None, a)
               | Some e \<Rightarrow>
                   (Some (e, ar_current_slot_index a),
                    a\<lparr>ar_current_slot_index := add_size (ar_current_slot_index a) n_items\<rparr>)))"

definition allocate_many :: "(nat \<Rightarrow> bool) \<Rightarrow> nat \<Rightarrow> u64 \<Rightarrow> arena \<Rightarrow> (nat \<times> nat) option \<times> arena" where
  "allocate_many mem n_items alignment a = allocate_many_impl mem (unat (round_up (of_nat n_items) alignment)) a"

section \<open>The other allocators\<close>

record single_buffer_arena =
  sb_capacity :: nat
  sb_offset :: nat

definition sb_allocate :: "nat \<Rightarrow> single_buffer_arena \<Rightarrow> (nat \<times> nat) option \<times> single_buffer_arena" where
  "sb_allocate bytes a =
     (let aligned_bytes = unat ((of_nat bytes + 16 - 1) AND NOT (16 - 1 :: u64))
      in if add_size (sb_offset a) aligned_bytes > sb_capacity a then (None, a)
         else (Some (sb_offset a, bytes), a\<lparr>sb_offset := add_size (sb_offset a) aligned_bytes\<rparr>))"

text \<open>
  The stack allocator holds \<open>N\<close> items of size \<open>sz\<close>. Its offset counts bytes, but it is added to a
  pointer to items: the result is the index of the first item.
\<close>

definition stack_allocate :: "nat \<Rightarrow> nat \<Rightarrow> nat \<Rightarrow> nat \<Rightarrow> (nat \<times> nat) option" where
  "stack_allocate sz N n offset =
     (if offset + n * sz > N * sz then None else Some (offset, offset + n * sz))"

section \<open>The arena hands out disjoint memory within its budget\<close>


text \<open>A client: requests one after the other, all with the same alignment; the regions it was given.\<close>

fun arena_run :: "(nat \<Rightarrow> bool) \<Rightarrow> u64 \<Rightarrow> nat list \<Rightarrow> arena \<Rightarrow> (nat \<times> nat \<times> nat) list \<times> arena" where
  "arena_run mem al [] a = ([], a)"
| "arena_run mem al (n # ns) a =
     (case allocate_many mem n al a of
        (None, a) \<Rightarrow> arena_run mem al ns a
      | (Some (e, i), a) \<Rightarrow> (case arena_run mem al ns a of (rs, a) \<Rightarrow> ((e, i, n) # rs, a)))"

















text \<open>
  Beyond that bound the check of a request wraps around: after 16 items, a request that brings the sum
  to \<open>2 ^ 64\<close> is granted and sets the index back, and the next region overlaps the first.
\<close>

lemma arena_request_wraps:
  "fst (arena_run (\<lambda>_. True) 16 [16, 2 ^ 64 - 16, 16] (make_arena (\<lambda>_. True) 1 8192 4096))
    = [(0, 0, 16), (0, 16, 2 ^ 64 - 16), (0, 0, 16)]"
  by (simp add: make_arena_def whole_items_def allocate_many_def allocate_many_impl_def allocate_new_extent_def set_last_def
      add_size_def round_up_def Let_def)

text \<open>
  A budget below the size of one extent. The constructor raises only its local copy of the budget to
  the size of an extent; the member keeps the small value, so no extent is ever allocated and every
  request is refused.
\<close>

lemma arena_small_budget_refuses:
  assumes "budget < ar_extent_size (make_arena mem sz budget hint)"
  shows "fst (arena_run mem al ns (make_arena mem sz budget hint)) = []"
proof -
  have "fst (arena_run mem al ns a) = []"
    if "ar_curr_extent a = None" "ar_total_allocated a = 0" "ar_extent_size a < 2 ^ 64" "ar_budget a < ar_extent_size a" for a
    using that
  proof (induction ns arbitrary: a)
    case (Cons n ns)
    obtain r b where step: "allocate_many mem n al a = (r, b)" by (cases "allocate_many mem n al a")
    then have "r = None" "ar_curr_extent b = None" "ar_total_allocated b = 0" "ar_extent_size b < 2 ^ 64" "ar_budget b < ar_extent_size b"
      using Cons.prems
      by (auto simp: allocate_many_def allocate_many_impl_def allocate_new_extent_def add_size_def Let_def split: if_splits)
    then show ?case using Cons.IH [of b] step by simp
  qed simp
  moreover define E where "E = max (whole_items hint sz) (whole_items 4096 sz)"
  have "whole_items b sz < 2 ^ 64" for b unfolding whole_items_def by (rule order_less_le_trans [OF unsigned_less]) simp
  then have E: "add_size 0 E = E" "E < 2 ^ 64" by (simp_all add: E_def add_size_def max_def)
  have size: "ar_extent_size (make_arena mem sz budget hint) = E"
    by (simp add: make_arena_def allocate_new_extent_def Let_def E_def [symmetric])
  then have "ar_curr_extent (make_arena mem sz budget hint) = None" "ar_total_allocated (make_arena mem sz budget hint) = 0"
      "ar_budget (make_arena mem sz budget hint) < ar_extent_size (make_arena mem sz budget hint)"
    using assms E by (simp_all add: make_arena_def allocate_new_extent_def Let_def E_def [symmetric])
  ultimately show ?thesis using size E(2) by blast
qed

text \<open>The stack allocator hands out an item beyond its buffer: 2 items of 8 bytes, the second request for 1.\<close>

lemma stack_allocate_out_of_bounds:
  "stack_allocate 8 2 1 0 = Some (0, 8) \<and> stack_allocate 8 2 1 8 = Some (8, 16) \<and> \<not> (8 :: nat) < 2"
  by (simp add: stack_allocate_def)

end
