(* ===== verification/Page_Buffer.thy ===== *)
theory Page_Buffer
  imports Utilities
begin

text \<open>
  The growing array of \<^verbatim>\<open>src/page_aligned_buffer.h\<close>. It is represented by its items and its
  capacity, both counted in items; \<open>sz\<close> is the size of an item in bytes. An operation that would
  write behind the allocated memory is undefined behaviour in the code and \<open>None\<close> here; the theorem
  below shows of every operation that this does not happen. Elsewhere in the development such a
  buffer is the list of its items, which is what this theory justifies.
\<close>

record 'a pab =
  pab_items :: "'a list"
  pab_capacity :: nat

definition allocate_capacity :: "nat \<Rightarrow> nat \<Rightarrow> nat" where
  "allocate_capacity sz c = unat (ceil_page_align (of_nat c * of_nat sz)) div sz"

definition pab_empty :: "'a pab" where
  "pab_empty = \<lparr>pab_items = [], pab_capacity = 0\<rparr>"

definition pab_make :: "nat \<Rightarrow> 'a \<Rightarrow> nat \<Rightarrow> nat \<Rightarrow> 'a pab" where
  "pab_make sz init n capacity = \<lparr>pab_items = replicate n init, pab_capacity = allocate_capacity sz capacity\<rparr>"

text \<open>\<open>grow\<close> moves the items into newly allocated memory, which must hold them.\<close>

definition pab_grow :: "nat \<Rightarrow> nat \<Rightarrow> 'a pab \<Rightarrow> 'a pab option" where
  "pab_grow sz new_capacity b =
     (let c = allocate_capacity sz new_capacity
      in if c < length (pab_items b) then None else Some (b\<lparr>pab_capacity := c\<rparr>))"

definition pab_append_unsafe :: "'a \<Rightarrow> 'a pab \<Rightarrow> 'a pab option" where
  "pab_append_unsafe x b =
     (if length (pab_items b) < pab_capacity b then Some (b\<lparr>pab_items := pab_items b @ [x]\<rparr>) else None)"

definition pab_emplace_back :: "nat \<Rightarrow> 'a \<Rightarrow> 'a pab \<Rightarrow> 'a pab option" where
  "pab_emplace_back sz x b =
     Option.bind
       (if length (pab_items b) = pab_capacity b then pab_grow sz (length (pab_items b) * 2) b else Some b)
       (pab_append_unsafe x)"

definition pab_resize :: "nat \<Rightarrow> 'a \<Rightarrow> nat \<Rightarrow> 'a pab \<Rightarrow> 'a pab option" where
  "pab_resize sz init n b =
     (let old = length (pab_items b)
      in if n < old then Some (b\<lparr>pab_items := take n (pab_items b)\<rparr>)
         else if n > old
         then Option.bind (if n > pab_capacity b then pab_grow sz n b else Some b)
           (\<lambda>b. if n \<le> pab_capacity b then Some (b\<lparr>pab_items := pab_items b @ replicate (n - old) init\<rparr>) else None)
         else Some b)"

definition pab_reserve :: "nat \<Rightarrow> nat \<Rightarrow> 'a pab \<Rightarrow> 'a pab option" where
  "pab_reserve sz n b = (if n > pab_capacity b then pab_grow sz n b else Some b)"

definition pab_shrink_to_fit :: "nat \<Rightarrow> 'a pab \<Rightarrow> 'a pab option" where
  "pab_shrink_to_fit sz b =
     (if unat (ceil_page_align (of_nat (length (pab_items b)) * of_nat sz)) < pab_capacity b * sz
      then pab_grow sz (length (pab_items b)) b else Some b)"

definition pab_free :: "'a pab \<Rightarrow> 'a pab" where
  "pab_free b = pab_empty"

section \<open>The buffer is a vector\<close>

definition pab_ok :: "'a pab \<Rightarrow> bool" where
  "pab_ok b \<longleftrightarrow> length (pab_items b) \<le> pab_capacity b"

lemma aligned_bytes:
  assumes "c * sz \<le> 2 ^ 63"
  shows "unat (ceil_page_align (of_nat c * of_nat sz)) = (c * sz + 4096 - 1) div 4096 * 4096"
proof -
  have "unat (of_nat c * of_nat sz :: u64) = c * sz"
    using assms by (simp add: unsigned_of_nat take_bit_nat_eq_self flip: of_nat_mult)
  then show ?thesis
    using unat_round_up [of "of_nat PAGE_SIZE_IN_BYTES" 12 "of_nat c * of_nat sz"] assms
    by (simp add: ceil_page_align_def PAGE_SIZE_IN_BYTES_def)
qed

lemma allocate_capacity_enough:
  assumes "0 < sz" "c * sz \<le> 2 ^ 63"
  shows "c \<le> allocate_capacity sz c"
proof -
  have "c * sz \<le> (c * sz + 4096 - 1) div 4096 * 4096" by (rule div_times_ge) simp
  then show ?thesis
    using assms(1) div_le_mono [of "c * sz" _ sz] by (simp add: allocate_capacity_def aligned_bytes [OF assms(2)])
qed

lemma pab_grow_some:
  assumes "0 < sz" "c * sz \<le> 2 ^ 63" "length (pab_items b) \<le> c"
  obtains b' where "pab_grow sz c b = Some b'" "pab_items b' = pab_items b" "c \<le> pab_capacity b'"
  using allocate_capacity_enough [OF assms(1,2)] assms(3) that by (auto simp: pab_grow_def Let_def)

locale growing_array =
  fixes items :: "'b \<Rightarrow> 'a list"
    and push :: "'a \<Rightarrow> 'b \<Rightarrow> 'b option"
    and room :: "'b \<Rightarrow> nat \<Rightarrow> bool"
  assumes push_room: "room b (Suc n) \<Longrightarrow> \<exists>b'. push x b = Some b' \<and> items b' = items b @ [x] \<and> room b' n"
begin

lemma push_all:
  "room b (length xs + n) \<Longrightarrow>
     \<exists>b'. fold (\<lambda>x r. Option.bind r (push x)) xs (Some b) = Some b' \<and> items b' = items b @ xs \<and> room b' n"
proof (induction xs arbitrary: b)
  case (Cons x xs)
  then obtain b1 where "push x b = Some b1" "items b1 = items b @ [x]" "room b1 (length xs + n)"
    using push_room [of b "length xs + n" x] by auto
  then show ?case using Cons.IH [of b1] by simp
qed simp

end

definition pab_room :: "nat \<Rightarrow> 'a pab \<Rightarrow> nat \<Rightarrow> bool" where
  "pab_room sz b n \<longleftrightarrow> 0 < sz \<and> pab_ok b \<and> 0 < pab_capacity b \<and> (length (pab_items b) + n) * 2 * sz \<le> 2 ^ 63"

interpretation pv: growing_array pab_items "pab_emplace_back sz" "pab_room sz" for sz
proof
  fix b :: "'a pab" and n x
  let ?k = "length (pab_items b)"
  assume room: "pab_room sz b (Suc n)"
  show "\<exists>b'. pab_emplace_back sz x b = Some b' \<and> pab_items b' = pab_items b @ [x] \<and> pab_room sz b' n"
  proof (cases "?k = pab_capacity b")
    case True
    have "?k * 2 * sz \<le> (?k + Suc n) * 2 * sz" by (intro mult_le_mono1) simp
    also have "\<dots> \<le> 2 ^ 63" using room by (simp only: pab_room_def)
    finally have bound: "?k * 2 * sz \<le> 2 ^ 63" .
    have "0 < sz" using room by (simp add: pab_room_def)
    obtain b' where "pab_grow sz (?k * 2) b = Some b'" "pab_items b' = pab_items b" "?k * 2 \<le> pab_capacity b'"
      by (rule pab_grow_some [OF \<open>0 < sz\<close> bound, of b]) simp_all
    then show ?thesis
      using True room by (auto simp: pab_emplace_back_def pab_append_unsafe_def pab_room_def pab_ok_def)
  next
    case False
    then show ?thesis
      using room by (auto simp: pab_emplace_back_def pab_append_unsafe_def pab_room_def pab_ok_def)
  qed
qed

lemma pab_resize_some:
  assumes "0 < sz" "n * sz \<le> 2 ^ 63" "pab_ok b"
  shows "\<exists>b'. pab_resize sz init n b = Some b' \<and> pab_ok b'
    \<and> pab_items b' = take n (pab_items b) @ replicate (n - length (pab_items b)) init"
proof (cases "length (pab_items b) < n \<and> pab_capacity b < n")
  case True
  obtain b' where "pab_grow sz n b = Some b'" "pab_items b' = pab_items b" "n \<le> pab_capacity b'"
    by (rule pab_grow_some [OF assms(1,2), of b]) (use True in simp)
  then show ?thesis using True by (simp add: pab_resize_def pab_ok_def Let_def)
next
  case False
  then show ?thesis using assms(3) by (auto simp: pab_resize_def pab_ok_def Let_def)
qed

lemma pab_reserve_some:
  assumes "0 < sz" "n * sz \<le> 2 ^ 63" "pab_ok b"
  shows "\<exists>b'. pab_reserve sz n b = Some b' \<and> pab_items b' = pab_items b \<and> max n (pab_capacity b) \<le> pab_capacity b'"
proof (cases "pab_capacity b < n")
  case True
  obtain b' where "pab_grow sz n b = Some b'" "pab_items b' = pab_items b" "n \<le> pab_capacity b'"
    by (rule pab_grow_some [OF assms(1,2), of b]) (use True assms(3) in \<open>simp_all add: pab_ok_def\<close>)
  then show ?thesis using True by (simp add: pab_reserve_def)
qed (simp add: pab_reserve_def)

lemma pab_shrink_some:
  assumes "0 < sz" "pab_capacity b * sz \<le> 2 ^ 63" "pab_ok b"
  shows "\<exists>b'. pab_shrink_to_fit sz b = Some b' \<and> pab_items b' = pab_items b \<and> pab_ok b'
    \<and> pab_capacity b' \<le> pab_capacity b \<and> pab_capacity b' * sz < length (pab_items b) * sz + 4096"
proof -
  let ?k = "length (pab_items b)" and ?n = "(length (pab_items b) * sz + 4096 - 1) div 4096 * 4096"
  have "?k * sz \<le> pab_capacity b * sz" using assms(3) by (intro mult_le_mono1) (simp add: pab_ok_def)
  then have k: "?k * sz \<le> 2 ^ 63" using assms(2) by linarith
  have n: "?n < ?k * sz + 4096" using div_times_less_eq_dividend [of "?k * sz + 4096 - 1" 4096] by linarith
  show ?thesis
  proof (cases "?n < pab_capacity b * sz")
    case True
    have c: "allocate_capacity sz ?k = ?n div sz" by (simp add: allocate_capacity_def aligned_bytes [OF k])
    have "?n div sz \<le> pab_capacity b" using True assms(1) div_le_mono [of ?n "pab_capacity b * sz" sz] by simp
    moreover have "?n div sz * sz < ?k * sz + 4096" using n div_times_less_eq_dividend [of ?n sz] by linarith
    ultimately show ?thesis
      using True allocate_capacity_enough [OF assms(1) k]
      by (simp add: pab_shrink_to_fit_def aligned_bytes [OF k] pab_grow_def Let_def c pab_ok_def)
  next
    case False
    then show ?thesis using assms(3) n by (simp add: pab_shrink_to_fit_def aligned_bytes [OF k])
  qed
qed

text \<open>
  C40: The buffer is a vector. Starting with a capacity above zero, any number of items that memory
  can hold is appended one after the other, through however many reallocations, and the buffer then
  holds exactly these items. A change of the size cuts the items or fills up with initial ones, a
  reservation keeps the items and gives the capacity asked for, and shrinking keeps the items and
  leaves less than one page unused. None of this writes behind the allocated memory.
\<close>

theorem page_aligned_buffer_vector:
  assumes "0 < sz"
  shows "(0 < capacity \<and> capacity * sz \<le> 2 ^ 63 \<and> length xs * 2 * sz \<le> 2 ^ 63 \<longrightarrow>
        (\<exists>b. fold (\<lambda>x r. Option.bind r (pab_emplace_back sz x)) xs (Some (pab_make sz init 0 capacity)) = Some b
          \<and> pab_items b = xs \<and> pab_ok b))
    \<and> (pab_ok b \<and> n * sz \<le> 2 ^ 63 \<longrightarrow>
        (\<exists>b'. pab_resize sz init n b = Some b' \<and> pab_ok b'
          \<and> pab_items b' = take n (pab_items b) @ replicate (n - length (pab_items b)) init)
        \<and> (\<exists>b'. pab_reserve sz n b = Some b' \<and> pab_items b' = pab_items b \<and> max n (pab_capacity b) \<le> pab_capacity b'))
    \<and> (pab_ok b \<and> pab_capacity b * sz \<le> 2 ^ 63 \<longrightarrow>
        (\<exists>b'. pab_shrink_to_fit sz b = Some b' \<and> pab_items b' = pab_items b \<and> pab_ok b'
          \<and> pab_capacity b' \<le> pab_capacity b \<and> pab_capacity b' * sz < length (pab_items b) * sz + 4096))"
proof (intro conjI impI)
  assume "0 < capacity \<and> capacity * sz \<le> 2 ^ 63 \<and> length xs * 2 * sz \<le> 2 ^ 63"
  then have "pab_room sz (pab_make sz init 0 capacity) (length xs + 0)"
    using assms allocate_capacity_enough [of sz capacity] by (simp add: pab_room_def pab_make_def pab_ok_def)
  from pv.push_all [OF this]
  show "\<exists>b. fold (\<lambda>x r. Option.bind r (pab_emplace_back sz x)) xs (Some (pab_make sz init 0 capacity)) = Some b
      \<and> pab_items b = xs \<and> pab_ok b"
    by (auto simp: pab_make_def pab_room_def)
next
  assume "pab_ok b \<and> n * sz \<le> 2 ^ 63"
  then show "\<exists>b'. pab_resize sz init n b = Some b' \<and> pab_ok b'
      \<and> pab_items b' = take n (pab_items b) @ replicate (n - length (pab_items b)) init"
    by (intro pab_resize_some [OF assms]) simp_all
next
  assume "pab_ok b \<and> n * sz \<le> 2 ^ 63"
  then show "\<exists>b'. pab_reserve sz n b = Some b' \<and> pab_items b' = pab_items b \<and> max n (pab_capacity b) \<le> pab_capacity b'"
    using pab_reserve_some [OF assms] by blast
next
  assume "pab_ok b \<and> pab_capacity b * sz \<le> 2 ^ 63"
  then show "\<exists>b'. pab_shrink_to_fit sz b = Some b' \<and> pab_items b' = pab_items b \<and> pab_ok b'
      \<and> pab_capacity b' \<le> pab_capacity b \<and> pab_capacity b' * sz < length (pab_items b) * sz + 4096"
    using pab_shrink_some [OF assms] by blast
qed

theorem page_aligned_buffer_vector_witness:
  "(\<exists>b. fold (\<lambda>x r. Option.bind r (pab_emplace_back 32 x)) [1, 2, 3 :: nat] (Some (pab_make 32 0 0 1)) = Some b
      \<and> pab_items b = [1, 2, 3] \<and> pab_ok b)
    \<and> (\<exists>b'. pab_resize 32 0 5 \<lparr>pab_items = [1, 2 :: nat], pab_capacity = 2\<rparr> = Some b' \<and> pab_items b' = [1, 2] @ replicate 3 0)"
proof -
  let ?b = "\<lparr>pab_items = [1, 2 :: nat], pab_capacity = 2\<rparr>"
  have sz: "0 < (32 :: nat)" by simp
  note vec = page_aligned_buffer_vector [OF sz, of 1 "[1, 2, 3]" 0 ?b 5]
  have "\<exists>b'. pab_resize 32 0 5 ?b = Some b' \<and> pab_ok b' \<and> pab_items b' = take 5 [1, 2] @ replicate (5 - 2) 0"
    using vec by (simp add: pab_ok_def)
  then show ?thesis using vec by auto
qed

text \<open>A buffer without capacity does not grow: it doubles nothing.\<close>

lemma emplace_back_without_capacity: "pab_emplace_back sz x pab_empty = None"
  by (simp add: pab_emplace_back_def pab_empty_def pab_grow_def allocate_capacity_def ceil_page_align_def
      round_up_def PAGE_SIZE_IN_BYTES_def pab_append_unsafe_def)

end
