(* ===== verification/Quotient_Filter.thy ===== *)
theory Quotient_Filter
  imports Utilities "HOL-Library.While_Combinator" "HOL-Library.Monad_Syntax"
begin

text \<open>
  The quotient filter of \<^verbatim>\<open>src/db/qf.h\<close> and \<^verbatim>\<open>src/db/qf.cc\<close>, with its wrapper
  \<^verbatim>\<open>src/db/quotient_filter.cc\<close>. The table is an array of 64-bit words in which elements of
  \<open>r + 3\<close> bits are packed; an element is a remainder with the flags occupied, continuation and
  shifted. The loops of the code are \<open>while_option\<close> or partial functions, in which \<open>None\<close> stands
  for a loop that does not end. This theory holds the operations and the facts about packing;
  the theory \<^verbatim>\<open>Quotient_Layout\<close> shows what the operations do to the set of fingerprints.
\<close>

record qf =
  qf_qbits :: byte
  qf_rbits :: byte
  qf_elem_bits :: byte
  qf_entries :: u32
  qf_index_mask :: u64
  qf_rmask :: u64
  qf_elem_mask :: u64
  qf_max_size :: u64
  qf_table :: "u64 list"

definition LOW_MASK :: "nat \<Rightarrow> u64" where
  "LOW_MASK n = push_bit n 1 - 1"

definition qf_table_size :: "nat \<Rightarrow> nat \<Rightarrow> u64" where
  "qf_table_size q r =
     (let bits = push_bit q 1 * of_nat (r + 3); n = bits div 8
      in if bits mod 8 \<noteq> 0 then n + 1 else n)"

definition qf_allocated_size :: "qf \<Rightarrow> u64" where
  "qf_allocated_size qf = ceil_page_align (qf_table_size (unat (qf_qbits qf)) (unat (qf_rbits qf)))"

definition qf_init :: "nat \<Rightarrow> nat \<Rightarrow> qf option" where
  "qf_init q r =
     (if q = 0 \<or> r = 0 \<or> q + r > 64 then None
      else
        (let elem_bits = (of_nat r + 3 :: byte)
         in Some \<lparr>qf_qbits = of_nat q, qf_rbits = of_nat r, qf_elem_bits = elem_bits, qf_entries = 0,
              qf_index_mask = LOW_MASK q, qf_rmask = LOW_MASK r, qf_elem_mask = LOW_MASK (unat elem_bits),
              qf_max_size = push_bit q 1,
              qf_table = replicate (unat (ceil_page_align (qf_table_size q r)) div 8) 0\<rparr>))"

text \<open>\<^verbatim>\<open>qf_clear\<close> clears the first \<open>n\<close> bytes of the table, which may end inside a word.\<close>

definition qf_clear :: "qf \<Rightarrow> qf" where
  "qf_clear qf =
     (let n = unat (qf_table_size (unat (qf_qbits qf)) (unat (qf_rbits qf)))
      in qf\<lparr>qf_entries := 0,
          qf_table := map (\<lambda>i. qf_table qf ! i AND NOT (mask (8 * (n - 8 * i)))) [0..<length (qf_table qf)]\<rparr>)"

section \<open>Elements\<close>

definition get_elem :: "qf \<Rightarrow> u64 \<Rightarrow> u64" where
  "get_elem qf idx =
     (let bitpos = ucast (qf_elem_bits qf) * idx;
          tabpos = unat (bitpos div 64);
          slotpos = unat (bitpos mod 64);
          n = unat (qf_elem_bits qf);
          spillbits = slotpos + n - 64;
          elt = drop_bit slotpos (qf_table qf ! tabpos) AND qf_elem_mask qf
      in if spillbits > 0
         then elt OR push_bit (n - spillbits) (qf_table qf ! (tabpos + 1) AND LOW_MASK spillbits)
         else elt)"

definition set_elem :: "qf \<Rightarrow> u64 \<Rightarrow> u64 \<Rightarrow> qf" where
  "set_elem qf idx elt =
     (let bitpos = ucast (qf_elem_bits qf) * idx;
          tabpos = unat (bitpos div 64);
          slotpos = unat (bitpos mod 64);
          n = unat (qf_elem_bits qf);
          spillbits = slotpos + n - 64;
          elt = elt AND qf_elem_mask qf;
          t = qf_table qf;
          t = t[tabpos := (t ! tabpos AND NOT (push_bit slotpos (qf_elem_mask qf))) OR push_bit slotpos elt];
          t = (if spillbits > 0
               then t[tabpos + 1 := (t ! (tabpos + 1) AND NOT (LOW_MASK spillbits)) OR drop_bit (n - spillbits) elt]
               else t)
      in qf\<lparr>qf_table := t\<rparr>)"

definition incr :: "qf \<Rightarrow> u64 \<Rightarrow> u64" where
  "incr qf idx = (idx + 1) AND qf_index_mask qf"

definition decr :: "qf \<Rightarrow> u64 \<Rightarrow> u64" where
  "decr qf idx = (idx - 1) AND qf_index_mask qf"

definition is_occupied :: "u64 \<Rightarrow> bool" where
  "is_occupied elt \<longleftrightarrow> elt AND 1 \<noteq> 0"

definition set_occupied :: "u64 \<Rightarrow> u64" where
  "set_occupied elt = elt OR 1"

definition clr_occupied :: "u64 \<Rightarrow> u64" where
  "clr_occupied elt = elt AND NOT 1"

definition is_continuation :: "u64 \<Rightarrow> bool" where
  "is_continuation elt \<longleftrightarrow> elt AND 2 \<noteq> 0"

definition set_continuation :: "u64 \<Rightarrow> u64" where
  "set_continuation elt = elt OR 2"

definition clr_continuation :: "u64 \<Rightarrow> u64" where
  "clr_continuation elt = elt AND NOT 2"

definition is_shifted :: "u64 \<Rightarrow> bool" where
  "is_shifted elt \<longleftrightarrow> elt AND 4 \<noteq> 0"

definition set_shifted :: "u64 \<Rightarrow> u64" where
  "set_shifted elt = elt OR 4"

definition clr_shifted :: "u64 \<Rightarrow> u64" where
  "clr_shifted elt = elt AND NOT 4"

definition get_remainder :: "u64 \<Rightarrow> u64" where
  "get_remainder elt = drop_bit 3 elt"

definition is_empty_element :: "u64 \<Rightarrow> bool" where
  "is_empty_element elt \<longleftrightarrow> elt AND 7 = 0"

definition is_cluster_start :: "u64 \<Rightarrow> bool" where
  "is_cluster_start elt \<longleftrightarrow> is_occupied elt \<and> \<not> is_continuation elt \<and> \<not> is_shifted elt"

definition is_run_start :: "u64 \<Rightarrow> bool" where
  "is_run_start elt \<longleftrightarrow> \<not> is_continuation elt \<and> (is_occupied elt \<or> is_shifted elt)"

definition hash_to_quotient :: "qf \<Rightarrow> u64 \<Rightarrow> u64" where
  "hash_to_quotient qf hash = drop_bit (unat (qf_rbits qf)) hash AND qf_index_mask qf"

definition hash_to_remainder :: "qf \<Rightarrow> u64 \<Rightarrow> u64" where
  "hash_to_remainder qf hash = hash AND qf_rmask qf"

section \<open>Insertion and lookup\<close>

text \<open>\<open>next_where qf P s\<close> is the loop \<^verbatim>\<open>do s = incr(s) while(P(get_elem(s)))\<close>.\<close>

definition next_where :: "qf \<Rightarrow> (u64 \<Rightarrow> bool) \<Rightarrow> u64 \<Rightarrow> u64 option" where
  "next_where qf P s = while_option (\<lambda>s. P (get_elem qf s)) (incr qf) (incr qf s)"

partial_function (option) find_run :: "qf \<Rightarrow> u64 \<Rightarrow> u64 \<Rightarrow> u64 \<Rightarrow> u64 option" where
  "find_run qf fq b s =
     (if b = fq then Some s
      else do {
        s \<leftarrow> next_where qf is_continuation s;
        b \<leftarrow> next_where qf (\<lambda>e. \<not> is_occupied e) b;
        find_run qf fq b s
      })"

definition find_run_index :: "qf \<Rightarrow> u64 \<Rightarrow> u64 option" where
  "find_run_index qf fq = do {
     b \<leftarrow> while_option (\<lambda>b. is_shifted (get_elem qf b)) (decr qf) fq;
     find_run qf fq b b
   }"

partial_function (option) insert_into :: "qf \<Rightarrow> u64 \<Rightarrow> u64 \<Rightarrow> qf option" where
  "insert_into qf s cur =
     (let prev = get_elem qf s
      in if is_empty_element prev then Some (set_elem qf s cur)
         else
           (let prev = set_shifted prev
            in if is_occupied prev
               then insert_into (set_elem qf s (set_occupied cur)) (incr qf s) (clr_occupied prev)
               else insert_into (set_elem qf s cur) (incr qf s) prev))"

text \<open>
  The position in a run at which the search for a remainder stops, and whether it is there. Both
  \<^verbatim>\<open>qf_insert\<close> and \<^verbatim>\<open>qf_may_contain\<close> contain this loop.
\<close>

partial_function (option) scan_run :: "qf \<Rightarrow> u64 \<Rightarrow> u64 \<Rightarrow> (bool \<times> u64) option" where
  "scan_run qf fr s =
     (let rem = get_remainder (get_elem qf s)
      in if rem = fr then Some (True, s)
         else if rem > fr then Some (False, s)
         else if is_continuation (get_elem qf (incr qf s)) then scan_run qf fr (incr qf s)
         else Some (False, incr qf s))"

definition qf_insert :: "qf \<Rightarrow> u64 \<Rightarrow> (bool \<times> qf) option" where
  "qf_insert qf hash =
     (if ucast (qf_entries qf) \<ge> qf_max_size qf then Some (False, qf)
      else
        (let fq = hash_to_quotient qf hash;
             fr = hash_to_remainder qf hash;
             T_fq = get_elem qf fq;
             entry = push_bit 3 fr AND NOT 7
         in if is_empty_element T_fq
            then Some (True, (set_elem qf fq (set_occupied entry))\<lparr>qf_entries := qf_entries qf + 1\<rparr>)
            else
              (let qf = (if is_occupied T_fq then qf else set_elem qf fq (set_occupied T_fq))
               in do {
                 start \<leftarrow> find_run_index qf fq;
                 (dup, s) \<leftarrow> (if is_occupied T_fq then scan_run qf fr start else Some (False, start));
                 if dup then Some (True, qf)
                 else
                   (let entry' = (if is_occupied T_fq \<and> s \<noteq> start then set_continuation entry else entry);
                        qf' = (if is_occupied T_fq \<and> s = start
                               then set_elem qf start (set_continuation (get_elem qf start)) else qf);
                        entry' = (if s \<noteq> fq then set_shifted entry' else entry')
                    in do {
                      qf' \<leftarrow> insert_into qf' s entry';
                      Some (True, qf'\<lparr>qf_entries := qf_entries qf' + 1\<rparr>)
                    })
               })))"

definition qf_may_contain :: "qf \<Rightarrow> u64 \<Rightarrow> bool option" where
  "qf_may_contain qf hash =
     (let fq = hash_to_quotient qf hash;
          fr = hash_to_remainder qf hash
      in if \<not> is_occupied (get_elem qf fq) then Some False
         else do {
           s \<leftarrow> find_run_index qf fq;
           (found, _) \<leftarrow> scan_run qf fr s;
           Some found
         })"

section \<open>Removal\<close>

partial_function (option) delete_entry :: "qf \<Rightarrow> u64 \<Rightarrow> u64 \<Rightarrow> u64 \<Rightarrow> u64 \<Rightarrow> u64 \<Rightarrow> qf option" where
  "delete_entry qf orig s sp quot cur =
     (let nxt = get_elem qf sp;
          cur_occupied = is_occupied cur
      in if is_empty_element nxt \<or> is_cluster_start nxt \<or> sp = orig then Some (set_elem qf s 0)
         else do {
           quot \<leftarrow> (if is_run_start nxt then next_where qf (\<lambda>e. \<not> is_occupied e) quot else Some quot);
           let updated_next = (if is_run_start nxt \<and> cur_occupied \<and> quot = s then clr_shifted nxt else nxt);
           let qf = set_elem qf s (if cur_occupied then set_occupied updated_next else clr_occupied updated_next);
           delete_entry qf orig sp (incr qf sp) quot nxt
         })"

text \<open>
  The search loop of \<^verbatim>\<open>qf_remove\<close> gives up when the remainder is not in the run; the result then
  is \<open>True\<close> with an unchanged filter.
\<close>

definition qf_remove :: "qf \<Rightarrow> u64 \<Rightarrow> (bool \<times> qf) option" where
  "qf_remove qf hash =
     (if drop_bit (unat (qf_qbits qf) + unat (qf_rbits qf)) hash \<noteq> 0 then Some (False, qf)
      else
        (let fq = hash_to_quotient qf hash;
             fr = hash_to_remainder qf hash;
             T_fq = get_elem qf fq
         in if \<not> is_occupied T_fq \<or> qf_entries qf = 0 then Some (True, qf)
            else do {
              start \<leftarrow> find_run_index qf fq;
              (found, s) \<leftarrow> scan_run qf fr start;
              if \<not> found then Some (True, qf)
              else
                (let kill = (if s = fq then T_fq else get_elem qf s);
                     replace_run_start = is_run_start kill;
                     qf = (if is_run_start kill \<and> \<not> is_continuation (get_elem qf (incr qf s))
                           then set_elem qf fq (clr_occupied T_fq) else qf)
                 in do {
                   qf \<leftarrow> delete_entry qf s s (incr qf s) fq (get_elem qf s);
                   let nxt = get_elem qf s;
                   let updated_next = (if is_continuation nxt then clr_continuation nxt else nxt);
                   let updated_next = (if s = fq \<and> is_run_start updated_next then clr_shifted updated_next
                                       else updated_next);
                   let qf = (if replace_run_start \<and> updated_next \<noteq> nxt then set_elem qf s updated_next else qf);
                   Some (True, qf\<lparr>qf_entries := qf_entries qf - 1\<rparr>)
                 })
            }))"

section \<open>Iteration and union\<close>

record qf_iterator =
  qfi_index :: u64
  qfi_quotient :: u64
  qfi_visited :: u64

text \<open>\<open>i\<close> is what the uninitialised iterator object holds.\<close>

definition qfi_start :: "qf \<Rightarrow> qf_iterator \<Rightarrow> qf_iterator" where
  "qfi_start qf i =
     (let i = i\<lparr>qfi_visited := ucast (qf_entries qf)\<rparr>
      in if qf_entries qf = 0 then i
         else
           (let start = (case find (\<lambda>p. is_cluster_start (get_elem qf (of_nat p))) [0..<unat (qf_max_size qf)] of
                           None \<Rightarrow> qf_max_size qf | Some p \<Rightarrow> of_nat p)
            in i\<lparr>qfi_visited := 0, qfi_index := start\<rparr>))"

definition qfi_done :: "qf \<Rightarrow> qf_iterator \<Rightarrow> bool" where
  "qfi_done qf i \<longleftrightarrow> ucast (qf_entries qf) = qfi_visited i"

text \<open>A call on an iterator that is done aborts the program. It is not modelled: \<open>qfi_next\<close> is \<open>None\<close> there.\<close>

partial_function (option) qfi_next :: "qf \<Rightarrow> qf_iterator \<Rightarrow> (u64 \<times> qf_iterator) option" where
  "qfi_next qf i =
     (if qfi_done qf i then None
      else do {
        let elt = get_elem qf (qfi_index i);
        quot \<leftarrow> (if is_cluster_start elt then Some (qfi_index i)
                 else if is_run_start elt then next_where qf (\<lambda>e. \<not> is_occupied e) (qfi_quotient i)
                 else Some (qfi_quotient i));
        let i = i\<lparr>qfi_quotient := quot, qfi_index := incr qf (qfi_index i)\<rparr>;
        if is_empty_element elt then qfi_next qf i
        else Some (push_bit (unat (qf_rbits qf)) quot OR get_remainder elt, i\<lparr>qfi_visited := qfi_visited i + 1\<rparr>)
      })"

partial_function (option) insert_elements :: "qf \<Rightarrow> qf_iterator \<Rightarrow> qf \<Rightarrow> qf option" where
  "insert_elements qf i out =
     (if qfi_done qf i then Some out
      else do {
        (hash, i) \<leftarrow> qfi_next qf i;
        (_, out) \<leftarrow> qf_insert out hash;
        insert_elements qf i out
      })"

text \<open>The outer result is \<open>None\<close> when a loop does not end, the inner one when the filter cannot be made.\<close>

definition qf_merge :: "qf_iterator \<Rightarrow> qf \<Rightarrow> qf \<Rightarrow> qf option option" where
  "qf_merge i qf1 qf2 =
     (let q = 1 + max (unat (qf_qbits qf1)) (unat (qf_qbits qf2));
          r = max (unat (qf_rbits qf1)) (unat (qf_rbits qf2))
      in case qf_init q r of
           None \<Rightarrow> Some None
         | Some out \<Rightarrow> do {
             out \<leftarrow> insert_elements qf1 (qfi_start qf1 i) out;
             out \<leftarrow> insert_elements qf2 (qfi_start qf2 i) out;
             Some (Some out)
           })"

section \<open>The wrapper\<close>

text \<open>
  The header of a stored filter is the image of the C structure: its fields with one byte of padding
  and the pointer to the table, whose values are arbitrary.
\<close>

definition header_as_byte_span :: "byte \<Rightarrow> u64 \<Rightarrow> qf \<Rightarrow> bytes" where
  "header_as_byte_span pad ptr qf =
     [qf_qbits qf, qf_rbits qf, qf_elem_bits qf, pad] @ le_image 4 (qf_entries qf)
       @ le_image 8 (qf_index_mask qf) @ le_image 8 (qf_rmask qf) @ le_image 8 (qf_elem_mask qf)
       @ le_image 8 (qf_max_size qf) @ le_image 8 ptr"

definition data_as_byte_span :: "qf \<Rightarrow> bytes" where
  "data_as_byte_span qf = take (unat (qf_allocated_size qf)) (concat (map (le_image 8) (qf_table qf)))"

fun u64s_of_image :: "bytes \<Rightarrow> u64 list" where
  "u64s_of_image (a # b # c # d # e # f # g # h # bs) = le_word [a, b, c, d, e, f, g, h] # u64s_of_image bs"
| "u64s_of_image _ = []"

definition qf_of_header :: "bytes \<Rightarrow> qf" where
  "qf_of_header h =
     \<lparr>qf_qbits = h ! 0, qf_rbits = h ! 1, qf_elem_bits = h ! 2, qf_entries = le_word (read_at h 4 4),
      qf_index_mask = le_word (read_at h 8 8), qf_rmask = le_word (read_at h 16 8),
      qf_elem_mask = le_word (read_at h 24 8), qf_max_size = le_word (read_at h 32 8), qf_table = []\<rparr>"

definition quotient_filter_load :: "bytes \<Rightarrow> bytes \<Rightarrow> u64 \<Rightarrow> qf expected" where
  "quotient_filter_load header_data table_data table_size =
     (let raw_qf = qf_of_header header_data;
          actual_size = qf_allocated_size raw_qf
      in if actual_size \<noteq> table_size then Inl (generic_error ''quotient_filter::load: table size mismatch'')
         else Inr (raw_qf\<lparr>qf_table := u64s_of_image (take (unat actual_size) table_data)\<rparr>))"

definition quotient_filter_make :: "nat \<Rightarrow> nat \<Rightarrow> qf expected" where
  "quotient_filter_make q r =
     (case qf_init q r of
        None \<Rightarrow> Inl (generic_error ''Could not initialize the QF. q+r should be <= 64; also, check the memory'')
      | Some qf \<Rightarrow> Inr qf)"

text \<open>
  On a filter on which the loops do not end, the wrapper would not return; here it is given the
  answer no. The filters the program builds are not of this kind, see the theory
  \<^verbatim>\<open>Quotient_Layout\<close>.
\<close>

definition quotient_filter_insert :: "u64 \<Rightarrow> qf \<Rightarrow> bool \<times> qf" where
  "quotient_filter_insert hash qf = (case qf_insert qf hash of None \<Rightarrow> (False, qf) | Some r \<Rightarrow> r)"

definition quotient_filter_may_contain :: "qf \<Rightarrow> u64 \<Rightarrow> bool" where
  "quotient_filter_may_contain qf hash \<longleftrightarrow> qf_may_contain qf hash = Some True"

definition quotient_filter_remove :: "u64 \<Rightarrow> qf \<Rightarrow> bool \<times> qf" where
  "quotient_filter_remove hash qf = (case qf_remove qf hash of None \<Rightarrow> (False, qf) | Some r \<Rightarrow> r)"

text \<open>A stored filter is read back unchanged.\<close>

lemma u64s_of_image_append:
  "length bs = 8 \<Longrightarrow> u64s_of_image (bs @ rest) = le_word bs # u64s_of_image rest"
  by (cases bs rule: u64s_of_image.cases) (simp_all del: le_word.simps)

lemma u64s_of_image_images: "u64s_of_image (concat (map (le_image 8) ws)) = ws"
  by (induction ws) (simp_all add: u64s_of_image_append le_simps)

lemma length_images: "length (concat (map (le_image 8) ws)) = 8 * length ws"
  by (induction ws) simp_all

definition qf_stored :: "qf \<Rightarrow> bool" where
  "qf_stored qf \<longleftrightarrow> unat (qf_allocated_size qf) = 8 * length (qf_table qf)"

lemma quotient_filter_load_stored:
  assumes "qf_stored qf"
  shows "quotient_filter_load (header_as_byte_span pad ptr qf @ pad1) (data_as_byte_span qf @ pad2) (qf_allocated_size qf) = Inr qf"
proof -
  have header: "qf_of_header (header_as_byte_span pad ptr qf @ pad1) = qf\<lparr>qf_table := []\<rparr>"
    by (simp add: qf_of_header_def header_as_byte_span_def read_at_def le_simps)
  have "data_as_byte_span qf = concat (map (le_image 8) (qf_table qf))"
    using assms by (simp add: data_as_byte_span_def qf_stored_def length_images)
  then show ?thesis
    using assms header
    by (simp add: quotient_filter_load_def Let_def qf_allocated_size_def u64s_of_image_images qf_stored_def length_images)
qed

end
