(* ===== verification/Sst.thy ===== *)
theory Sst
  imports Sst_Stream Quotient_Filter
begin

text \<open>
  An SST file in memory, \<^verbatim>\<open>src/db/sst.h\<close> and \<^verbatim>\<open>src/db/sst.cc\<close>: its footer, its index of the last
  keys of the pages, the index above that one, its filter and its state in a compaction. A lookup
  finds the page by binary search and reads it; loading a file reads the footer and the two indices
  back. The kernel's reads are the parameter \<open>rd\<close> of the theory \<^verbatim>\<open>Sst_Stream\<close>.
\<close>

section \<open>The footer\<close>

record sst_footer =
  f_header :: bytes
  f_version :: byte
  f_upper_bound :: u64
  f_indexed_keys :: u64
  f_meta_index_entries :: u64
  f_index_offset :: u64
  f_meta_index_offset :: u64
  f_qf_offset :: u64
  f_qf_size :: u64
  f_footer_offset :: u64
  f_epoch :: u64
  f_max_seq_nr :: u64

definition FOOTER_MAGIC :: bytes where
  "FOOTER_MAGIC = map of_char ''hedge_FOOTER''"

definition CURRENT_FOOTER_VERSION :: byte where
  "CURRENT_FOOTER_VERSION = 1"

definition empty_sst_footer :: sst_footer where
  "empty_sst_footer =
     \<lparr>f_header = FOOTER_MAGIC @ replicate 4 0, f_version = CURRENT_FOOTER_VERSION, f_upper_bound = 0,
      f_indexed_keys = 0, f_meta_index_entries = 0, f_index_offset = 0, f_meta_index_offset = 0, f_qf_offset = 0,
      f_qf_size = 0, f_footer_offset = 0, f_epoch = 0, f_max_seq_nr = 0\<rparr>"

text \<open>The image of the structure: seven bytes of padding stand between the version and the first word.\<close>

definition sizeof_sst_footer :: nat where
  "sizeof_sst_footer = 104"

definition footer_words :: "sst_footer \<Rightarrow> u64 list" where
  "footer_words f =
     [f_upper_bound f, f_indexed_keys f, f_meta_index_entries f, f_index_offset f, f_meta_index_offset f,
      f_qf_offset f, f_qf_size f, f_footer_offset f, f_epoch f, f_max_seq_nr f]"

definition sst_footer_image :: "bytes \<Rightarrow> sst_footer \<Rightarrow> bytes" where
  "sst_footer_image padding f =
     f_header f @ [f_version f] @ padding @ concat (map (le_image 8) (footer_words f))"

definition sst_footer_of_image :: "bytes \<Rightarrow> sst_footer" where
  "sst_footer_of_image bs =
     (let w = (\<lambda>i. le_word (read_at bs (24 + 8 * i) 8))
      in \<lparr>f_header = read_at bs 0 16, f_version = bs ! 16, f_upper_bound = w 0, f_indexed_keys = w 1,
          f_meta_index_entries = w 2, f_index_offset = w 3, f_meta_index_offset = w 4, f_qf_offset = w 5,
          f_qf_size = w 6, f_footer_offset = w 7, f_epoch = w 8, f_max_seq_nr = w 9\<rparr>)"

section \<open>The object\<close>

datatype compaction_progress_state = PICKABLE_FOR_COMPACTION | IN_COMPACTION | COMPACTED | COMPACTION_ERROR

record page_range =
  first_page_id :: nat
  last_page_id :: nat

record sst =
  sst_file :: nat
  meta_index :: "bytes list"
  super_index :: "bytes list option"
  sst_qf :: "qf option"
  footer :: sst_footer
  compaction_state :: compaction_progress_state

definition make_sst :: "nat \<Rightarrow> bytes list \<Rightarrow> sst_footer \<Rightarrow> bytes list option \<Rightarrow> qf option \<Rightarrow> sst" where
  "make_sst file mi f si q =
     \<lparr>sst_file = file, meta_index = mi, super_index = si, sst_qf = q, footer = f,
      compaction_state = PICKABLE_FOR_COMPACTION\<rparr>"

definition sst_upper_bound :: "sst \<Rightarrow> u64" where
  "sst_upper_bound s = f_upper_bound (footer s)"

definition sst_size :: "sst \<Rightarrow> u64" where
  "sst_size s = f_indexed_keys (footer s)"

definition sst_epoch :: "sst \<Rightarrow> u64" where
  "sst_epoch s = f_epoch (footer s)"

definition sst_max_seq_nr :: "sst \<Rightarrow> u64" where
  "sst_max_seq_nr s = f_max_seq_nr (footer s)"

definition pickable_for_compaction :: "sst \<Rightarrow> bool" where
  "pickable_for_compaction s \<longleftrightarrow> compaction_state s = PICKABLE_FOR_COMPACTION"

fun valid_transition :: "compaction_progress_state \<Rightarrow> compaction_progress_state \<Rightarrow> bool" where
  "valid_transition PICKABLE_FOR_COMPACTION new \<longleftrightarrow> new = IN_COMPACTION \<or> new = COMPACTION_ERROR"
| "valid_transition IN_COMPACTION new \<longleftrightarrow> new = COMPACTED \<or> new = COMPACTION_ERROR"
| "valid_transition COMPACTED new \<longleftrightarrow> new = COMPACTION_ERROR"
| "valid_transition COMPACTION_ERROR new \<longleftrightarrow> False"

definition set_compaction_state :: "compaction_progress_state \<Rightarrow> sst \<Rightarrow> sst expected" where
  "set_compaction_state new s =
     (if compaction_state s = COMPACTION_ERROR then Inr s
      else if \<not> valid_transition (compaction_state s) new then Inl (generic_error ''Invalid transition: '')
      else Inr (s\<lparr>compaction_state := new\<rparr>))"

text \<open>Without a filter the probe answers no.\<close>

definition probe_filter :: "u64 \<Rightarrow> sst \<Rightarrow> bool" where
  "probe_filter key_hash s \<longleftrightarrow> (case sst_qf s of None \<Rightarrow> False | Some q \<Rightarrow> quotient_filter_may_contain q key_hash)"

section \<open>The index above the index\<close>

definition KEYS_PER_META_INDEX_PAGE :: nat where
  "KEYS_PER_META_INDEX_PAGE = PAGE_SIZE_IN_BYTES div 32"

definition SUPER_INDEX_ENABLE_THRESHOLD :: nat where
  "SUPER_INDEX_ENABLE_THRESHOLD = 16"

definition create_super_index :: "bytes list \<Rightarrow> bytes list" where
  "create_super_index mi =
     (let super_index_size = hedge_ceil (length mi) KEYS_PER_META_INDEX_PAGE
      in map (\<lambda>i. mi ! min ((i + 1) * KEYS_PER_META_INDEX_PAGE - 1) (length mi - 1)) [0..<super_index_size])"

definition super_index_of :: "bytes list \<Rightarrow> bytes list option" where
  "super_index_of mi =
     (if length mi > KEYS_PER_META_INDEX_PAGE * SUPER_INDEX_ENABLE_THRESHOLD
      then Some (create_super_index mi) else None)"

text \<open>\<open>search_range b e\<close> is \<^verbatim>\<open>std::lower_bound\<close> on the positions from \<open>b\<close> to \<open>e\<close> of the index.\<close>

definition search_range :: "nat \<Rightarrow> nat \<Rightarrow> bytes list \<Rightarrow> bytes \<Rightarrow> nat option" where
  "search_range b e mi key =
     (let it = bsearch (\<lambda>i. mi ! i < key) b (e - b)
      in if it = length mi then None else Some it)"

definition find_page_id :: "sst \<Rightarrow> bytes \<Rightarrow> nat option" where
  "find_page_id s key =
     (let mi = meta_index s
      in case super_index s of
           None \<Rightarrow> search_range 0 (length mi) mi key
         | Some si \<Rightarrow>
             (let page = lower_bound (<) si key
              in if page = length si then None
                 else
                   (let b = page * KEYS_PER_META_INDEX_PAGE;
                        last_page_size = length mi mod KEYS_PER_META_INDEX_PAGE;
                        e = (if page = length si - 1 \<and> last_page_size \<noteq> 0 then b + last_page_size
                             else b + KEYS_PER_META_INDEX_PAGE)
                    in search_range b e mi key)))"

definition find_range :: "sst \<Rightarrow> bytes option \<Rightarrow> bytes option \<Rightarrow> page_range option" where
  "find_range s lower upper =
     (case (case lower of None \<Rightarrow> Some 0 | Some k \<Rightarrow> find_page_id s k) of
        None \<Rightarrow> None
      | Some first \<Rightarrow>
          (let default = length (meta_index s) - 1;
               last = (case upper of None \<Rightarrow> default
                       | Some k \<Rightarrow> (case find_page_id s k of None \<Rightarrow> default | Some p \<Rightarrow> p))
           in Some \<lparr>first_page_id = first, last_page_id = last\<rparr>))"

section \<open>Lookup\<close>

definition find_in_page :: "hash64 \<Rightarrow> bytes \<Rightarrow> bytes \<Rightarrow> value_t expected" where
  "find_in_page xxh key page =
     (let reader = make_block_decoder page 0 default_block_config
      in case sanity_check xxh page reader of
           Inl _ \<Rightarrow> Inl (generic_error (''checksum mismatch for key '' @ to_hex_string key))
         | Inr _ \<Rightarrow>
             (case dec_find page key reader of
                Inl e \<Rightarrow> Inl e
              | Inr v \<Rightarrow> (if v = [] then Inl (Error [] KEY_NOT_FOUND) else value_from_span v)))"

definition load_page_async :: "read_fn \<Rightarrow> sst \<Rightarrow> nat \<Rightarrow> bytes expected" where
  "load_page_async rd s off =
     (case rd (sst_file s) PAGE_SIZE_IN_BYTES off of
        Inl _ \<Rightarrow> Inl (generic_error ''An error occurred while reading page at offset '')
      | Inr page \<Rightarrow>
          (if length page \<noteq> PAGE_SIZE_IN_BYTES then Inl (generic_error ''Read bytes instead of '')
           else Inr page))"

definition lookup_async :: "hash64 \<Rightarrow> read_fn \<Rightarrow> bytes \<Rightarrow> sst \<Rightarrow> value_t expected" where
  "lookup_async xxh rd key s =
     (case find_page_id s key of
        None \<Rightarrow> Inl (Error [] KEY_NOT_FOUND)
      | Some page_id \<Rightarrow>
          (let page_start_offset = unat (f_index_offset (footer s) + of_nat (page_id * PAGE_SIZE_IN_BYTES))
           in case load_page_async rd s page_start_offset of
                Inl e \<Rightarrow> Inl e
              | Inr page \<Rightarrow> find_in_page xxh key page))"

section \<open>Loading a file\<close>

text \<open>\<open>pread content n off\<close> is what the system call reads from a file: less than asked for at the end of the file.\<close>

definition pread :: "bytes \<Rightarrow> u64 \<Rightarrow> u64 \<Rightarrow> bytes" where
  "pread content n off = read_at content (unat off) (unat n)"

fun read_meta_keys :: "nat \<Rightarrow> bytes \<Rightarrow> bytes list expected" where
  "read_meta_keys 0 raw = Inr []"
| "read_meta_keys (Suc n) raw =
     (case read_key_unsafe raw of
        Inl e \<Rightarrow> Inl e
      | Inr k \<Rightarrow>
          (case read_meta_keys n (drop (serialized_key_total_length k) raw) of
             Inl e \<Rightarrow> Inl e | Inr ks \<Rightarrow> Inr (k # ks)))"

definition load_footer :: "bytes \<Rightarrow> sst_footer expected" where
  "load_footer content =
     (let footer_page_size = round_up (of_nat sizeof_sst_footer) (of_nat PAGE_SIZE_IN_BYTES);
          footer_offset = of_nat (length content) - footer_page_size;
          footer_buf = pread content footer_page_size footer_offset
      in if length footer_buf \<noteq> unat footer_page_size then Inl (generic_error ''sst::load: failed to read footer from '')
         else
           (let f = sst_footer_of_image (take sizeof_sst_footer footer_buf)
            in if take 12 (f_header f) \<noteq> FOOTER_MAGIC then Inl (generic_error ''sst::load: invalid footer magic in '')
               else Inr f))"

definition load_meta_index :: "bytes \<Rightarrow> sst_footer \<Rightarrow> bytes list expected" where
  "load_meta_index content f =
     (let meta_end = (if f_qf_size f > 0 then f_qf_offset f else f_footer_offset f);
          meta_size = meta_end - f_meta_index_offset f
      in if meta_size > 0
         then
           (let raw_meta = pread content meta_size (f_meta_index_offset f)
            in if length raw_meta \<noteq> unat meta_size
               then Inl (generic_error ''sst::load: failed to read meta-index from '')
               else read_meta_keys (unat (f_meta_index_entries f)) raw_meta)
         else Inr (replicate (unat (f_meta_index_entries f)) []))"

definition load_qf :: "bytes \<Rightarrow> sst_footer \<Rightarrow> qf option expected" where
  "load_qf content f =
     (if f_qf_size f > 0
      then
        (let qf_header_buf = pread content (of_nat PAGE_SIZE_IN_BYTES) (f_qf_offset f)
         in if length qf_header_buf \<noteq> PAGE_SIZE_IN_BYTES
            then Inl (generic_error ''sst::load: failed to read QF header from '')
            else
              (let data_size = f_qf_size f - of_nat PAGE_SIZE_IN_BYTES;
                   data_read_size = ceil_page_align data_size;
                   qf_data_buf = pread content data_read_size (f_qf_offset f + of_nat PAGE_SIZE_IN_BYTES)
               in if length qf_data_buf \<noteq> unat data_read_size
                  then Inl (generic_error ''sst::load: failed to read QF data from '')
                  else
                    (case quotient_filter_load qf_header_buf qf_data_buf data_size of
                       Inl e \<Rightarrow> Inl (generic_error (''sst::load: failed to load quotient filter: '' @ error_msg e))
                     | Inr q \<Rightarrow> Inr (Some q))))
      else Inr None)"

definition sst_load :: "nat \<Rightarrow> bytes \<Rightarrow> sst expected" where
  "sst_load file content =
     (case load_footer content of
        Inl e \<Rightarrow> Inl e
      | Inr f \<Rightarrow>
          (case load_meta_index content f of
             Inl e \<Rightarrow> Inl e
           | Inr mi \<Rightarrow>
               (case load_qf content f of
                  Inl e \<Rightarrow> Inl e
                | Inr q \<Rightarrow> Inr (make_sst file mi f (super_index_of mi) q))))"

section \<open>The page of a key\<close>

lemma partition_point_unique:
  "partition_point right lo hi r \<Longrightarrow> partition_point right lo hi r' \<Longrightarrow> r = r'"
  unfolding partition_point_def by (cases r r' rule: linorder_cases) auto

lemma partition_point_narrow:
  "partition_point right 0 n r \<Longrightarrow> b \<le> r \<Longrightarrow> r \<le> e \<Longrightarrow> e \<le> n \<Longrightarrow> partition_point right b e r"
  unfolding partition_point_def by auto

lemma sorted_partitioned:
  assumes "sorted (mi :: bytes list)" "hi \<le> length mi"
  shows "partitioned (\<lambda>i. mi ! i < key) lo hi"
  unfolding partitioned_def
proof clarify
  fix i j
  assume ij: "i \<le> j" "j < hi" and less: "mi ! j < key"
  have "mi ! i \<le> mi ! j" by (rule sorted_nth_mono [OF assms(1) ij(1)]) (use ij assms(2) in simp)
  with less show "mi ! i < key" by simp
qed

text \<open>\<open>page_for mi key\<close>: the first page whose last key is not smaller.\<close>

definition page_for :: "bytes list \<Rightarrow> bytes \<Rightarrow> nat" where
  "page_for mi key = length (takeWhile (\<lambda>k. k < key) mi)"

lemma page_for_partition_point:
  assumes "sorted mi"
  shows "partition_point (\<lambda>i. mi ! i < key) 0 (length mi) (page_for mi key)"
proof -
  have "mi ! i < key" if "i < page_for mi key" for i
    using that nth_mem [of i "takeWhile (\<lambda>k. k < key) mi"]
    by (auto simp: page_for_def takeWhile_nth dest: set_takeWhileD)
  moreover have "\<not> mi ! i < key" if "page_for mi key \<le> i" "i < length mi" for i
    using that nth_length_takeWhile [of "\<lambda>k. k < key" mi] sorted_nth_mono [OF assms that]
    by (auto simp: page_for_def)
  ultimately show ?thesis
    by (simp add: partition_point_def) (simp add: page_for_def length_takeWhile_le)
qed

lemma search_range_page_for:
  assumes "sorted mi" "b \<le> page_for mi key" "page_for mi key \<le> e" "e \<le> length mi"
  shows "search_range b e mi key = (if page_for mi key = length mi then None else Some (page_for mi key))"
proof -
  have "partition_point (\<lambda>i. mi ! i < key) b e (bsearch (\<lambda>i. mi ! i < key) b (e - b))"
    using bsearch_partition_point [OF sorted_partitioned [OF assms(1), of "b + (e - b)" key b]] assms by simp
  then have "bsearch (\<lambda>i. mi ! i < key) b (e - b) = page_for mi key"
    using partition_point_unique partition_point_narrow [OF page_for_partition_point [OF assms(1)] assms(2-4)] by blast
  then show ?thesis by (simp add: search_range_def)
qed

lemma keys_per_page [simp]: "KEYS_PER_META_INDEX_PAGE = 128"
  by (simp add: KEYS_PER_META_INDEX_PAGE_def PAGE_SIZE_IN_BYTES_def)

lemma length_create_super_index: "length (create_super_index mi) = (length mi + 127) div 128"
  by (simp add: create_super_index_def hedge_ceil_def)

lemma create_super_index_nth:
  "i < (length mi + 127) div 128 \<Longrightarrow> create_super_index mi ! i = mi ! min (i * 128 + 127) (length mi - 1)"
  by (simp add: create_super_index_def hedge_ceil_def add.commute)

lemma sorted_create_super_index:
  assumes "sorted mi"
  shows "sorted (create_super_index mi)"
proof -
  have "create_super_index mi ! i \<le> create_super_index mi ! j" if "i \<le> j" "j < (length mi + 127) div 128" for i j
    using that sorted_nth_mono [OF assms, of "min (i * 128 + 127) (length mi - 1)" "min (j * 128 + 127) (length mi - 1)"]
    by (simp add: create_super_index_nth min.coboundedI1)
  then show ?thesis
    by (simp add: sorted_iff_nth_mono length_create_super_index)
qed

definition super_ok :: "sst \<Rightarrow> bool" where
  "super_ok s \<longleftrightarrow> super_index s = None \<or> super_index s = Some (create_super_index (meta_index s))"

lemma super_index_page:
  assumes mi: "sorted mi" and page: "page = lower_bound (<) (create_super_index mi) key"
  shows "page < length (create_super_index mi) \<Longrightarrow> page * 128 \<le> page_for mi key"
    "page = length (create_super_index mi) \<longleftrightarrow> page_for mi key = length mi"
    "page < length (create_super_index mi) \<Longrightarrow> page_for mi key \<le> min (page * 128 + 127) (length mi - 1)"
    "page \<le> length (create_super_index mi)"
proof -
  let ?si = "create_super_index mi"
  note point = page_for_partition_point [OF mi, of key]
  have super: "partition_point (\<lambda>i. ?si ! i < key) 0 (length ?si) page"
    unfolding page by (rule lower_bound_partition_point [OF sorted_partitioned [OF sorted_create_super_index [OF mi]]]) simp
  show "page \<le> length ?si" using super by (simp add: partition_point_def)
  have below: "min ((page - 1) * 128 + 127) (length mi - 1) < page_for mi key" if "0 < page"
  proof -
    have "page - 1 < (length mi + 127) div 128" "?si ! (page - 1) < key"
      using super that by (auto simp: partition_point_def length_create_super_index)
    moreover from this have "min ((page - 1) * 128 + 127) (length mi - 1) < length mi"
      by (cases mi) auto
    ultimately show ?thesis
      using point by (auto simp: partition_point_def create_super_index_nth not_le [symmetric])
  qed
  show "page * 128 \<le> page_for mi key" if "page < length ?si"
  proof (cases "page = 0")
    case False
    have "page * 128 \<le> length mi - 1"
      using that by (simp add: length_create_super_index)
    then show ?thesis
      using below False by (cases page) (auto simp: min_def split: if_splits)
  qed simp
  show above: "page_for mi key \<le> min (page * 128 + 127) (length mi - 1)" if "page < length ?si"
  proof -
    have "\<not> ?si ! page < key" "page < (length mi + 127) div 128"
      using super that by (auto simp: partition_point_def length_create_super_index)
    then show ?thesis
      using point by (auto simp: partition_point_def create_super_index_nth not_less [symmetric])
  qed
  show "page = length ?si \<longleftrightarrow> page_for mi key = length mi"
  proof (cases "page = length ?si")
    case True
    have "page_for mi key = length mi"
    proof (cases mi)
      case (Cons k ks)
      then have "0 < page" using True by (simp add: length_create_super_index)
      then show ?thesis
        using below True Cons point
        by (auto simp: length_create_super_index partition_point_def min_def div_mult2_eq split: if_splits)
    qed (simp add: page_for_def)
    with True show ?thesis by simp
  next
    case False
    then have "page < length ?si" using super by (simp add: partition_point_def)
    moreover from this have "mi \<noteq> []" by (auto simp: length_create_super_index)
    ultimately show ?thesis
      using above False by (cases mi) auto
  qed
qed

lemma super_page_end:
  fixes n page :: nat
  assumes "page < (n + 127) div 128"
  defines "e \<equiv> if page = (n + 127) div 128 - 1 \<and> n mod 128 \<noteq> 0 then page * 128 + n mod 128 else page * 128 + 128"
  shows "min (page * 128 + 127) (n - 1) \<le> e" "e \<le> n"
proof -
  define q r where "q = n div 128" and "r = n mod 128"
  have n: "n = 128 * q + r" "r < 128" by (simp_all add: q_def r_def)
  have "(n + 127) div 128 = (if r = 0 then q else q + 1)"
    unfolding n(1) by (cases r) (use n(2) in auto)
  then show "min (page * 128 + 127) (n - 1) \<le> e" "e \<le> n"
    using assms(1) n unfolding e_def r_def [symmetric] by (auto split: if_splits)
qed

lemma find_page_id_page_for:
  assumes mi: "sorted (meta_index s)" and super: "super_ok s"
  shows "find_page_id s key =
    (if page_for (meta_index s) key = length (meta_index s) then None else Some (page_for (meta_index s) key))"
proof (cases "super_index s")
  case None
  have "page_for (meta_index s) key \<le> length (meta_index s)"
    by (simp add: page_for_def length_takeWhile_le)
  then show ?thesis
    using None search_range_page_for [OF mi] by (simp add: find_page_id_def)
next
  case (Some si)
  let ?mi = "meta_index s"
  have si: "si = create_super_index ?mi" using Some super by (simp add: super_ok_def)
  define page where "page = lower_bound (<) si key"
  note point = super_index_page [OF mi page_def [unfolded si]]
  have len: "length si = (length ?mi + 127) div 128" by (simp add: si length_create_super_index)
  show ?thesis
  proof (cases "page = length si")
    case True
    then show ?thesis
      using point(2) Some by (simp add: find_page_id_def Let_def page_def si)
  next
    case False
    have less: "page < length si" using point(4) False by (simp add: si)
    let ?r = "length ?mi mod 128"
    let ?e = "if page = length si - 1 \<and> ?r \<noteq> 0 then page * 128 + ?r else page * 128 + 128"
    have "page_for ?mi key \<le> min (page * 128 + 127) (length ?mi - 1)"
      using point(3) less by (simp only: si)
    note e = le_trans [OF this super_page_end(1) [OF less [unfolded len], folded len]]
      super_page_end(2) [OF less [unfolded len], folded len]
    have "find_page_id s key = search_range (page * 128) ?e ?mi key"
      using Some False by (simp add: find_page_id_def Let_def page_def [symmetric] del: One_nat_def)
    then show ?thesis
      using search_range_page_for [OF mi point(1) [folded si, OF less] e] by (rule trans)
  qed
qed

text \<open>
  C32: The index above the index changes no answer. Whatever the size of an ascending index, the
  search through both levels returns the page that a search of the whole index returns: the first
  page whose last key is not smaller than the key, and none if there is no such page.
\<close>

theorem super_index_same_page:
  assumes "sorted mi"
  shows "find_page_id (make_sst file mi f (super_index_of mi) q) key = find_page_id (make_sst file mi f None q) key
    \<and> (\<forall>p. find_page_id (make_sst file mi f (super_index_of mi) q) key = Some p \<longleftrightarrow>
          p < length mi \<and> key \<le> mi ! p \<and> (\<forall>i < p. mi ! i < key))"
proof -
  have find: "find_page_id (make_sst file mi f si q) key
      = (if page_for mi key = length mi then None else Some (page_for mi key))"
    if "si = None \<or> si = Some (create_super_index mi)" for si
    using find_page_id_page_for [of "make_sst file mi f si q"] assms that by (simp add: make_sst_def super_ok_def)
  have least: "page_for mi key = p \<longleftrightarrow> key \<le> mi ! p \<and> (\<forall>i < p. mi ! i < key)" if "p < length mi" for p
  proof
    show "key \<le> mi ! p \<and> (\<forall>i < p. mi ! i < key)" if "page_for mi key = p"
      using page_for_partition_point [OF assms, of key] that \<open>p < length mi\<close> by (auto simp: partition_point_def)
    show "page_for mi key = p" if h: "key \<le> mi ! p \<and> (\<forall>i < p. mi ! i < key)"
    proof (rule partition_point_unique [OF page_for_partition_point [OF assms]])
      have "\<not> mi ! i < key" if "p \<le> i" "i < length mi" for i
        using sorted_nth_mono [OF assms that] h by (meson leD le_less_trans)
      then show "partition_point (\<lambda>i. mi ! i < key) 0 (length mi) p"
        using h \<open>p < length mi\<close> by (simp add: partition_point_def)
    qed
  qed
  have "page_for mi key \<le> length mi" by (simp add: page_for_def length_takeWhile_le)
  then have "(if page_for mi key = length mi then None else Some (page_for mi key)) = Some p \<longleftrightarrow>
      p < length mi \<and> key \<le> mi ! p \<and> (\<forall>i < p. mi ! i < key)" for p
    using least [of p] by auto
  then show ?thesis
    using find by (auto simp: super_index_of_def simp del: option.inject)
qed

definition sample_index :: "bytes list" where
  "sample_index = replicate 2100 [7]"

lemma sorted_sample_index: "sorted sample_index" "length sample_index = 2100"
  unfolding sample_index_def by (rule sorted_replicate, rule length_replicate)

theorem super_index_same_page_witness:
  "sorted sample_index \<and> super_index_of sample_index \<noteq> None
    \<and> find_page_id (make_sst 0 sample_index empty_sst_footer (super_index_of sample_index) None) [7]
      = find_page_id (make_sst 0 sample_index empty_sst_footer None None) [7]"
  using super_index_same_page [OF sorted_sample_index(1), of 0 empty_sst_footer None "[7]"] sorted_sample_index
  by (simp add: super_index_of_def SUPER_INDEX_ENABLE_THRESHOLD_def)

section \<open>Lookup returns what the pages hold\<close>

text \<open>
  \<open>sst_rep xxh files s kvss\<close>: the file of \<open>s\<close> holds the pages \<open>kvss\<close> and the index of \<open>s\<close> has the last
  key of each.
\<close>

definition sst_rep :: "hash64 \<Rightarrow> (nat \<Rightarrow> bytes) \<Rightarrow> sst \<Rightarrow> (bytes \<times> bytes) list list \<Rightarrow> bool" where
  "sst_rep xxh files s kvss \<longleftrightarrow> sst_holds xxh (files (sst_file s)) kvss \<and> length (files (sst_file s)) < 2 ^ 64
     \<and> f_index_offset (footer s) = 0 \<and> meta_index s = map (\<lambda>kvs. fst (last kvs)) kvss \<and> super_ok s"

lemma pages_keys_order:
  assumes sorted: "sorted_wrt (<) (map fst (concat kvss))" and ne: "[] \<notin> set kvss" and i: "i < j" "j < length kvss"
    and kv: "kv \<in> set (kvss ! i)" "kv' \<in> set (kvss ! j)"
  shows "fst kv < fst kv'"
proof -
  have "concat kvss = concat (take j kvss) @ concat (drop j kvss)"
    by (simp flip: concat_append)
  then have order: "\<forall>a \<in> set (concat (take j kvss)). \<forall>b \<in> set (concat (drop j kvss)). fst a < fst b"
    using sorted by (simp add: sorted_wrt_append)
  have "kvss ! i \<in> set (take j kvss)" "kvss ! j \<in> set (drop j kvss)"
    using i nth_mem [of i "take j kvss"] nth_mem [of 0 "drop j kvss"] by simp_all
  then have "kv \<in> set (concat (take j kvss))" "kv' \<in> set (concat (drop j kvss))"
    using kv by (simp_all only: set_concat) blast+
  with order show ?thesis by blast
qed

lemma sorted_page:
  assumes "sorted_wrt (<) (map fst (concat kvss))" "kvs \<in> set kvss"
  shows "sorted_wrt (<) (map fst kvs)"
proof -
  obtain xs ys where "kvss = xs @ kvs # ys" using assms(2) by (meson split_list)
  then show ?thesis using assms(1) by (simp add: sorted_wrt_append)
qed

lemma page_keys_le_last:
  fixes kvs :: "(bytes \<times> 'b) list"
  assumes "sorted_wrt (<) (map fst (concat kvss))" "kvs \<in> set kvss" "kv \<in> set kvs"
  shows "fst kv \<le> fst (last kvs)"
proof -
  obtain i where "i < length kvs" "kv = kvs ! i" using assms(3) by (auto simp: in_set_conv_nth)
  then show ?thesis
    using sorted_wrt_less_nth_mono [OF sorted_page [OF assms(1,2)], of i "length kvs - 1"]
    by (cases "kvs = []") (auto simp: last_conv_nth)
qed

lemma sorted_last_keys:
  fixes kvss :: "(bytes \<times> 'b) list list"
  assumes "sorted_wrt (<) (map fst (concat kvss))" "[] \<notin> set kvss"
  shows "sorted (map (\<lambda>kvs. fst (last kvs)) kvss)"
proof (rule sorted_iff_nth_mono [THEN iffD2], clarsimp)
  fix i j
  assume "i \<le> j" "j < length kvss"
  moreover from this have "kvss ! i \<noteq> []" "kvss ! j \<noteq> []"
    using assms(2) by (metis nth_mem order_le_less_trans)+
  ultimately show "fst (last (kvss ! i)) \<le> fst (last (kvss ! j))"
    using pages_keys_order [OF assms, of i j "last (kvss ! i)" "last (kvss ! j)"] by (cases "i = j") auto
qed

lemma pages_hold_nth:
  "pages_hold xxh mem base kvss \<Longrightarrow> p < length kvss \<Longrightarrow>
     holds_block xxh default_block_config (read_at mem (base + PAGE_SIZE_IN_BYTES * p) PAGE_SIZE_IN_BYTES) (kvss ! p)
     \<and> (\<forall>kv \<in> set (kvss ! p). key_ok (fst kv))"
proof (induction kvss arbitrary: base p)
  case (Cons kvs kvss)
  then show ?case
    using Cons.IH [of "base + PAGE_SIZE_IN_BYTES" "p - 1"] by (cases p) (simp_all add: add.assoc)
qed simp

lemma find_in_page_holds:
  assumes "holds_block xxh default_block_config (read_at mem base PAGE_SIZE_IN_BYTES) kvs"
    "\<forall>kv \<in> set kvs. key_ok (fst kv)" "sorted_wrt (<) (map fst kvs)" "values_parse kvs"
  shows "find_in_page xxh key (read_at mem base PAGE_SIZE_IN_BYTES) =
    (case map_of kvs key of None \<Rightarrow> Inl (Error [] KEY_NOT_FOUND) | Some v \<Rightarrow> value_from_span v)"
proof -
  let ?page = "read_at mem base PAGE_SIZE_IN_BYTES"
  have page: "read_at ?page 0 (block_size_in_bytes default_block_config) = ?page"
    by (simp add: read_at_read_at)
  then have holds: "holds_block xxh default_block_config (read_at ?page 0 (block_size_in_bytes default_block_config)) kvs"
    using assms(1) by simp
  have "sanity_check xxh ?page (make_block_decoder ?page 0 default_block_config) = ok"
    using make_block_decoder_written [OF holds config_ok_default] by (simp add: sanity_check_def)
  moreover have "v \<noteq> []" if "map_of kvs key = Some v" for v
    using that assms(4) by (auto simp: values_parse_def dest!: map_of_SomeD)
  ultimately show ?thesis
    using dec_find_written [OF holds config_ok_default assms(2,3), of key]
    by (auto simp: find_in_page_def Let_def found_def split: option.splits)
qed

lemma in_concat_nth:
  assumes "x \<in> set (concat xss)"
  obtains i where "i < length xss" "x \<in> set (xss ! i)"
proof -
  obtain xs where "xs \<in> set xss" "x \<in> set xs" using assms by auto
  then show ?thesis using that by (auto simp: in_set_conv_nth [of xs])
qed

lemma map_of_concat_page:
  assumes sorted: "sorted_wrt (<) (map fst (concat kvss))" and ne: "[] \<notin> set kvss" and p: "p < length kvss"
    and before: "\<forall>i < p. fst (last (kvss ! i)) < key" and at: "key \<le> fst (last (kvss ! p))"
  shows "map_of (concat kvss) key = map_of (kvss ! p) (key :: bytes)"
proof -
  have split: "concat kvss = concat (take p kvss) @ kvss ! p @ concat (drop (Suc p) kvss)"
    using p by (metis concat.simps(2) concat_append id_take_nth_drop)
  have "map_of (concat (take p kvss)) key = None"
  proof -
    have "fst kv \<noteq> key" if kv: "kv \<in> set (concat (take p kvss))" for kv
    proof -
      obtain i where "i < length (take p kvss)" "kv \<in> set (take p kvss ! i)"
        using in_concat_nth [OF kv] .
      then have "i < p" "i < length kvss" "kv \<in> set (kvss ! i)" by simp_all
      then have "fst kv \<le> fst (last (kvss ! i))" "fst (last (kvss ! i)) < key"
        using page_keys_le_last [OF sorted, of "kvss ! i" kv] before by auto
      then show ?thesis by auto
    qed
    then show ?thesis by (auto simp: map_of_eq_None_iff)
  qed
  moreover have "map_of (concat (drop (Suc p) kvss)) key = None"
  proof -
    have "fst kv \<noteq> key" if kv: "kv \<in> set (concat (drop (Suc p) kvss))" for kv
    proof -
      obtain i where "i < length (drop (Suc p) kvss)" "kv \<in> set (drop (Suc p) kvss ! i)"
        using in_concat_nth [OF kv] .
      then have "p < Suc p + i" "Suc p + i < length kvss" "kv \<in> set (kvss ! (Suc p + i))" by simp_all
      moreover have "last (kvss ! p) \<in> set (kvss ! p)"
        using p ne by (metis last_in_set nth_mem)
      ultimately have "fst (last (kvss ! p)) < fst kv"
        using pages_keys_order [OF sorted ne] by blast
      then show ?thesis using at by auto
    qed
    then show ?thesis by (auto simp: map_of_eq_None_iff)
  qed
  ultimately show ?thesis
    by (simp add: split map_add_def split: option.splits)
qed

lemma lookup_async_page:
  assumes rep: "sst_rep xxh files s kvss" and reads: "reads_files rd files" and p: "p < length kvss"
  shows "load_page_async rd s (unat (f_index_offset (footer s) + of_nat (p * PAGE_SIZE_IN_BYTES)))
    = Inr (read_at (files (sst_file s)) (PAGE_SIZE_IN_BYTES * p) PAGE_SIZE_IN_BYTES)"
proof -
  have size: "PAGE_SIZE_IN_BYTES * p + PAGE_SIZE_IN_BYTES \<le> length (files (sst_file s))"
  proof -
    have "PAGE_SIZE_IN_BYTES * Suc p \<le> PAGE_SIZE_IN_BYTES * length kvss" using p by (intro mult_le_mono2) simp
    then show ?thesis using rep by (simp add: sst_rep_def sst_holds_def)
  qed
  then have "p * PAGE_SIZE_IN_BYTES < 2 ^ 64"
    using rep by (simp add: sst_rep_def mult.commute)
  then have "unat (f_index_offset (footer s) + of_nat (p * PAGE_SIZE_IN_BYTES)) = PAGE_SIZE_IN_BYTES * p"
    using rep by (simp add: sst_rep_def unsigned_of_nat take_bit_nat_eq_self mult.commute del: of_nat_mult)
  then show ?thesis
    using size reads by (simp add: load_page_async_def reads_files_def mem_simps)
qed

lemma sst_lookup_rep:
  assumes "sst_rep xxh files s kvss" "reads_files rd files"
  shows "lookup_async xxh rd key s =
    (case map_of (concat kvss) key of None \<Rightarrow> Inl (Error [] KEY_NOT_FOUND) | Some v \<Rightarrow> value_from_span v)"
proof -
  have holds: "pages_hold xxh (files (sst_file s)) 0 kvss" "[] \<notin> set kvss"
      "sorted_wrt (<) (map fst (concat kvss))" "values_parse (concat kvss)"
    using assms(1) by (auto simp: sst_rep_def sst_holds_def)
  have mi: "meta_index s = map (\<lambda>kvs. fst (last kvs)) kvss" "super_ok s"
    using assms(1) by (auto simp: sst_rep_def)
  have sorted: "sorted (meta_index s)" using sorted_last_keys [OF holds(3,2)] by (simp add: mi)
  define p where "p = page_for (meta_index s) key"
  note find = find_page_id_page_for [OF sorted mi(2), of key, folded p_def]
  note point = page_for_partition_point [OF sorted, of key, folded p_def]
  show ?thesis
  proof (cases "p = length kvss")
    case True
    have "fst kv \<noteq> key" if kv: "kv \<in> set (concat kvss)" for kv
    proof -
      obtain i where i: "i < length kvss" "kv \<in> set (kvss ! i)" using in_concat_nth [OF kv] .
      then have "fst kv \<le> fst (last (kvss ! i))" using page_keys_le_last [OF holds(3), of "kvss ! i" kv] by simp
      moreover have "fst (last (kvss ! i)) < key"
        using point i True by (auto simp: partition_point_def mi)
      ultimately show ?thesis by auto
    qed
    then have "map_of (concat kvss) key = None" by (auto simp: map_of_eq_None_iff)
    then show ?thesis using find True by (simp add: lookup_async_def mi)
  next
    case False
    then have p: "p < length kvss" using point by (simp add: partition_point_def mi)
    have before: "\<forall>i < p. fst (last (kvss ! i)) < key" and at: "key \<le> fst (last (kvss ! p))"
      using point p by (auto simp: partition_point_def mi)
    have page: "sorted_wrt (<) (map fst (kvss ! p))" "values_parse (kvss ! p)"
      using sorted_page [OF holds(3) nth_mem [OF p]] holds(4) nth_mem [OF p] unfolding values_parse_def set_concat
      by blast+
    note lookup = find_in_page_holds [OF pages_hold_nth [OF holds(1) p, THEN conjunct1]
        pages_hold_nth [OF holds(1) p, THEN conjunct2] page, of key]
    show ?thesis
      using find False p lookup lookup_async_page [OF assms p] map_of_concat_page [OF holds(3,2) p before at]
      by (simp add: lookup_async_def mi Let_def)
  qed
qed

text \<open>
  C31: On an SST file whose pages are intact, a lookup returns the value of the key, and
  \<open>KEY_NOT_FOUND\<close> for every key the file does not hold.
\<close>

theorem sst_lookup:
  assumes "sst_rep xxh files s kvss" "reads_files rd files"
  shows "lookup_async xxh rd key s =
    (case map_of (concat kvss) key of None \<Rightarrow> Inl (Error [] KEY_NOT_FOUND) | Some v \<Rightarrow> value_from_span v)"
  by (rule sst_lookup_rep [OF assms])

definition sample_sst :: sst where
  "sample_sst = make_sst 0 [[1]] empty_sst_footer None None"

lemma sample_sst_rep: "sst_rep sample_xxh sample_files sample_sst [[([1], stored_value (In_Place [7]))]]"
  using sample_specs_hold
  by (simp add: sst_rep_def sample_sst_def make_sst_def empty_sst_footer_def super_ok_def sample_specs_def
      PAGE_SIZE_IN_BYTES_def)

theorem sst_lookup_witness:
  "lookup_async sample_xxh sample_rd [1] sample_sst = Inr (In_Place [7])
    \<and> lookup_async sample_xxh sample_rd [2] sample_sst = Inl (Error [] KEY_NOT_FOUND)"
  using sst_lookup [OF sample_sst_rep reads_sample_files, of "[1]"] sst_lookup [OF sample_sst_rep reads_sample_files, of "[2]"]
  by simp

section \<open>Ranges of pages\<close>

definition in_bounds :: "bytes option \<Rightarrow> bytes option \<Rightarrow> bytes \<Rightarrow> bool" where
  "in_bounds lower upper key \<longleftrightarrow>
     (case lower of None \<Rightarrow> True | Some l \<Rightarrow> l \<le> key) \<and> (case upper of None \<Rightarrow> True | Some u \<Rightarrow> key \<le> u)"

text \<open>
  C33: The range of pages for two bounds misses no pair: every page that holds a key between the
  bounds, both included, is in it, and it does not reach beyond the last page.
\<close>

theorem find_range_covers:
  assumes rep: "sst_rep xxh files s kvss" and i: "i < length kvss" and kv: "kv \<in> set (kvss ! i)"
    and bounds: "in_bounds lower upper (fst kv)"
  shows "\<exists>r. find_range s lower upper = Some r \<and> first_page_id r \<le> i \<and> i \<le> last_page_id r
    \<and> last_page_id r < length kvss"
proof -
  have holds: "[] \<notin> set kvss" "sorted_wrt (<) (map fst (concat kvss))"
    and mi: "meta_index s = map (\<lambda>kvs. fst (last kvs)) kvss" "super_ok s"
    using rep by (auto simp: sst_rep_def sst_holds_def)
  have sorted: "sorted (meta_index s)" using sorted_last_keys [OF holds(2,1)] by (simp add: mi)
  note find = find_page_id_page_for [OF sorted mi(2)]
  note point = page_for_partition_point [OF sorted, unfolded mi(1)]
  have last: "fst kv \<le> fst (last (kvss ! i))" using page_keys_le_last [OF holds(2)] i kv by simp
  have low: "page_for (meta_index s) l \<le> i" if "l \<le> fst kv" for l
    using point [of l] that last i by (auto simp: partition_point_def mi(1) not_le [symmetric])
  have high: "i \<le> page_for (meta_index s) u" if "fst kv \<le> u" for u
  proof (rule ccontr)
    assume "\<not> i \<le> page_for (meta_index s) u"
    then have p: "page_for (meta_index s) u < i" by simp
    then have "u \<le> fst (last (kvss ! page_for (meta_index s) u))"
      using point [of u] i by (auto simp: partition_point_def mi(1))
    moreover have "kvss ! page_for (meta_index s) u \<in> set kvss" using p i by simp
    then have "last (kvss ! page_for (meta_index s) u) \<in> set (kvss ! page_for (meta_index s) u)"
      using holds(1) by (metis last_in_set)
    ultimately show False
      using pages_keys_order [OF holds(2,1) p i _ kv] that by (meson leD le_less_trans less_le_trans)
  qed
  define p0 where "p0 = (case lower of None \<Rightarrow> 0 | Some l \<Rightarrow> page_for (meta_index s) l)"
  define p1 where "p1 = (case upper of None \<Rightarrow> length kvss - 1
    | Some u \<Rightarrow> (if page_for (meta_index s) u = length kvss then length kvss - 1 else page_for (meta_index s) u))"
  have "p0 \<le> i"
    using low bounds by (auto simp: p0_def in_bounds_def split: option.splits)
  moreover have "i \<le> p1" "p1 < length kvss"
    using high bounds i point by (auto simp: p1_def in_bounds_def partition_point_def mi(1) less_le split: option.splits)
  moreover have "find_range s lower upper = Some \<lparr>first_page_id = p0, last_page_id = p1\<rparr>"
    using \<open>p0 \<le> i\<close> i find by (auto simp: find_range_def p0_def p1_def mi(1) Let_def split: option.splits)
  ultimately show ?thesis by simp
qed

theorem find_range_covers_witness:
  "\<exists>r. find_range sample_sst (Some [1]) (Some [4]) = Some r \<and> first_page_id r \<le> 0 \<and> 0 \<le> last_page_id r
    \<and> last_page_id r < 1"
  using find_range_covers [OF sample_sst_rep, of 0 "([1], stored_value (In_Place [7]))" "Some [1]" "Some [4]"]
  by (simp add: in_bounds_def)

section \<open>Compaction states\<close>

primrec state_rank :: "compaction_progress_state \<Rightarrow> nat" where
  "state_rank PICKABLE_FOR_COMPACTION = 0"
| "state_rank IN_COMPACTION = 1"
| "state_rank COMPACTED = 2"
| "state_rank COMPACTION_ERROR = 3"

definition try_set_compaction_state :: "compaction_progress_state \<Rightarrow> sst \<Rightarrow> sst" where
  "try_set_compaction_state new s = (case set_compaction_state new s of Inl _ \<Rightarrow> s | Inr s' \<Rightarrow> s')"

lemma try_set_rank: "state_rank (compaction_state s) \<le> state_rank (compaction_state (try_set_compaction_state new s))"
  by (cases "compaction_state s") (auto simp: try_set_compaction_state_def set_compaction_state_def)

lemma try_set_rank_all:
  "state_rank (compaction_state s) \<le> state_rank (compaction_state (fold try_set_compaction_state news s))"
  by (induction news arbitrary: s) (auto intro: le_trans [OF try_set_rank])

lemma state_rank_iff:
  "c = PICKABLE_FOR_COMPACTION \<longleftrightarrow> state_rank c = 0" "c = COMPACTION_ERROR \<longleftrightarrow> 3 \<le> state_rank c"
  by (cases c; simp)+

text \<open>
  C34: A file that left the state \<open>PICKABLE_FOR_COMPACTION\<close> is never picked again, and the error
  state is final, in every sequence of state changes, refused ones included.
\<close>

theorem compaction_state_final:
  shows "(pickable_for_compaction (fold try_set_compaction_state news s) \<longrightarrow> pickable_for_compaction s)
    \<and> (compaction_state s = COMPACTION_ERROR \<longrightarrow>
         compaction_state (fold try_set_compaction_state news s) = COMPACTION_ERROR)"
  using try_set_rank_all [of s news] unfolding pickable_for_compaction_def state_rank_iff by linarith

theorem compaction_state_final_witness:
  "compaction_state (fold try_set_compaction_state [IN_COMPACTION, COMPACTED, PICKABLE_FOR_COMPACTION, COMPACTION_ERROR] sample_sst)
      = COMPACTION_ERROR
    \<and> \<not> pickable_for_compaction (fold try_set_compaction_state [PICKABLE_FOR_COMPACTION]
          (fold try_set_compaction_state [IN_COMPACTION] sample_sst))"
proof -
  let ?s = "fold try_set_compaction_state [IN_COMPACTION] sample_sst"
  have "\<not> pickable_for_compaction ?s"
    by (simp add: try_set_compaction_state_def set_compaction_state_def sample_sst_def make_sst_def pickable_for_compaction_def)
  with compaction_state_final [of "[PICKABLE_FOR_COMPACTION]" ?s] show ?thesis
    by (simp add: try_set_compaction_state_def set_compaction_state_def sample_sst_def make_sst_def)
qed

end
