(* ===== verification/Files.thy ===== *)
theory Files
  imports Utilities
begin

text \<open>
  Files, \<^verbatim>\<open>src/fs/fs.hpp\<close>. The calls into the kernel are the fields of a parameter \<open>io\<close> of type
  \<^verbatim>\<open>io_ops\<close>; each is a function on the state of the file system and returns what the call returns.
  \<open>kernel_laws io\<close> states their documented behaviour: a call that fails returns a negative number, a
  write may transfer a part of the data only, and the status of a file may be unavailable. The code
  relies on more, without checking it: \<open>kernel_ok io\<close> adds that the status of every file can be read
  and that a write which does not fail transfers all of the data. The state has the directory, the
  contents of the files, the open descriptors and the program's counter of file identifiers.
\<close>

type_synonym path = string

section \<open>The file system\<close>

record fs_state =
  fs_dir :: "(path \<times> nat) list"
  fs_data :: "nat \<Rightarrow> bytes"
  fs_fds :: "(nat \<times> nat) list"
  fs_ids :: u64

definition fd_data :: "fs_state \<Rightarrow> nat \<Rightarrow> bytes" where
  "fd_data st fd = (case map_of (fs_fds st) fd of None \<Rightarrow> [] | Some i \<Rightarrow> fs_data st i)"

text \<open>The answer to a question for the status of a file: its size, that there is none, or another failure.\<close>

datatype stat_result = Found u64 | Absent | Stat_Error int

record io_ops =
  io_statx :: "path \<Rightarrow> fs_state \<Rightarrow> stat_result"
  io_open :: "path \<Rightarrow> u32 \<Rightarrow> fs_state \<Rightarrow> int \<times> fs_state"
  io_fallocate :: "nat \<Rightarrow> u64 \<Rightarrow> fs_state \<Rightarrow> int \<times> fs_state"
  io_write :: "nat \<Rightarrow> bytes \<Rightarrow> nat \<Rightarrow> fs_state \<Rightarrow> int \<times> fs_state"
  io_ftruncate :: "nat \<Rightarrow> nat \<Rightarrow> fs_state \<Rightarrow> int \<times> fs_state"
  io_fdatasync :: "nat \<Rightarrow> fs_state \<Rightarrow> int \<times> fs_state"
  io_remove :: "path \<Rightarrow> fs_state \<Rightarrow> fs_state"
  io_close :: "nat \<Rightarrow> fs_state \<Rightarrow> fs_state"
  io_strerror :: "int \<Rightarrow> string"

section \<open>Opening a file\<close>

datatype open_mode =
    undefined_mode
  | read_only
  | write_new
  | write_append_new
  | read_write
  | read_write_new
  | read_write_append
  | read_write_create_append

definition O_CREAT :: u32 where "O_CREAT = 0x40"
definition O_TRUNC :: u32 where "O_TRUNC = 0x200"
definition O_APPEND :: u32 where "O_APPEND = 0x400"
definition O_DIRECT :: u32 where "O_DIRECT = 0x4000"

primrec mode_flags :: "open_mode \<Rightarrow> u32" where
  "mode_flags undefined_mode = -1"
| "mode_flags read_only = 0"
| "mode_flags write_new = 1 OR O_CREAT OR O_TRUNC"
| "mode_flags write_append_new = 1 OR O_CREAT OR O_TRUNC OR O_APPEND"
| "mode_flags read_write = 2"
| "mode_flags read_write_new = 2 OR O_CREAT OR O_TRUNC"
| "mode_flags read_write_append = 2 OR O_APPEND"
| "mode_flags read_write_create_append = 2 OR O_CREAT OR O_APPEND"

record fs_file =
  file_id :: u64
  file_fd :: nat
  file_size :: u64
  file_path :: path
  file_mode :: open_mode
  file_use_direct :: bool

definition open_guard :: "path \<Rightarrow> open_mode \<Rightarrow> bool \<Rightarrow> status" where
  "open_guard path mode present =
     (if \<not> present \<and> mode = read_only then Inl (generic_error (''File does not exist: '' @ path))
      else if present \<and> (mode = write_new \<or> mode = read_write_new \<or> mode = read_write_append)
      then Inl (generic_error (''File already exists: '' @ path))
      else ok)"

definition open_flags :: "open_mode \<Rightarrow> bool \<Rightarrow> u32" where
  "open_flags mode use_direct = (if use_direct then mode_flags mode OR O_DIRECT else mode_flags mode)"

text \<open>The check of the size of a file that exists, and the allocation for a new one.\<close>

definition expect_size ::
    "io_ops \<Rightarrow> path \<Rightarrow> open_mode \<Rightarrow> nat \<Rightarrow> u64 \<Rightarrow> u64 option \<Rightarrow> fs_state \<Rightarrow> status \<times> fs_state" where
  "expect_size io path mode fd fsize expected_size st =
     (case expected_size of
        None \<Rightarrow> (ok, st)
      | Some n \<Rightarrow>
          (if mode = read_write \<or> mode = read_only
           then (if fsize \<noteq> n then Inl (generic_error ''File size different than expected: '') else ok, st)
           else if mode = write_new \<or> mode = read_write_new
           then
             (case io_fallocate io fd n st of
                (res, st) \<Rightarrow>
                  (if res < 0
                   then (Inl (generic_error (''Failed to allocate space for file: '' @ io_strerror io (- res))),
                         io_close io fd (io_remove io path st))
                   else (ok, st)))
           else (ok, st)))"

definition wrap_fd :: "path \<Rightarrow> open_mode \<Rightarrow> bool \<Rightarrow> nat \<Rightarrow> u64 \<Rightarrow> fs_state \<Rightarrow> fs_file \<times> fs_state" where
  "wrap_fd path mode use_direct fd fsize st =
     (\<lparr>file_id = fs_ids st, file_fd = fd, file_size = fsize, file_path = path, file_mode = mode,
       file_use_direct = use_direct\<rparr>, st\<lparr>fs_ids := fs_ids st + 1\<rparr>)"

text \<open>
  The two variants differ in where the size comes from: the asynchronous one takes the size found
  before opening and the expected size for a file that was not there, the synchronous one asks
  again after opening and, having allocated, takes the expected size. They also differ in what a
  failure to read the status means: the asynchronous one takes it for the absence of the file, the
  calls of \<^verbatim>\<open>std::filesystem\<close> in the synchronous one raise an exception, after opening also for absence.
\<close>

definition stat_size :: "stat_result \<Rightarrow> u64 option" where
  "stat_size r = (case r of Found n \<Rightarrow> Some n | _ \<Rightarrow> None)"

definition filesystem_error :: error where
  "filesystem_error = generic_error ''filesystem error''"

definition from_path_async ::
    "io_ops \<Rightarrow> path \<Rightarrow> open_mode \<Rightarrow> bool \<Rightarrow> u64 option \<Rightarrow> fs_state \<Rightarrow> fs_file expected \<times> fs_state" where
  "from_path_async io path mode use_direct expected_size st =
     (let statx = stat_size (io_statx io path st)
      in case open_guard path mode (statx \<noteq> None) of
           Inl e \<Rightarrow> (Inl e, st)
         | Inr _ \<Rightarrow>
             (case io_open io path (open_flags mode use_direct) st of
                (fd, st) \<Rightarrow>
                  (if fd < 0
                   then (Inl (generic_error (''Failed to open file descriptor: '' @ io_strerror io (- fd))), st)
                   else
                     (let fsize = (case statx of Some n \<Rightarrow> n
                                  | None \<Rightarrow> (case expected_size of Some n \<Rightarrow> n | None \<Rightarrow> 0))
                      in case expect_size io path mode (nat fd) fsize expected_size st of
                           (Inl e, st) \<Rightarrow> (Inl e, st)
                         | (Inr _, st) \<Rightarrow>
                             (case wrap_fd path mode use_direct (nat fd) fsize st of (f, st) \<Rightarrow> (Inr f, st))))))"

definition from_path ::
    "io_ops \<Rightarrow> path \<Rightarrow> open_mode \<Rightarrow> bool \<Rightarrow> u64 option \<Rightarrow> fs_state \<Rightarrow> fs_file expected \<times> fs_state" where
  "from_path io path mode use_direct expected_size st =
     (case io_statx io path st of
        Stat_Error _ \<Rightarrow> (Inl filesystem_error, st)
      | statx \<Rightarrow>
     (case open_guard path mode (statx \<noteq> Absent) of
        Inl e \<Rightarrow> (Inl e, st)
      | Inr _ \<Rightarrow>
          (case io_open io path (open_flags mode use_direct) st of
             (fd, st) \<Rightarrow>
               (if fd < 0
                then (Inl (generic_error (''Failed to open file descriptor '' @ io_strerror io (- fd))), st)
                else case io_statx io path st of
                  Found fsize \<Rightarrow>
                    (case expect_size io path mode (nat fd) fsize expected_size st of
                       (Inl e, st) \<Rightarrow> (Inl e, st)
                     | (Inr _, st) \<Rightarrow>
                         (let fsize = (case expected_size of
                                        Some n \<Rightarrow> if mode = write_new \<or> mode = read_write_new then n else fsize
                                      | None \<Rightarrow> fsize)
                          in case wrap_fd path mode use_direct (nat fd) fsize st of (f, st) \<Rightarrow> (Inr f, st)))
                | _ \<Rightarrow> (Inl filesystem_error, st)))))"

section \<open>What the kernel promises\<close>

definition pwrite :: "bytes \<Rightarrow> nat \<Rightarrow> bytes \<Rightarrow> bytes" where
  "pwrite content off data =
     take off content @ replicate (off - length content) 0 @ data @ drop (off + length data) content"

definition set_length :: "nat \<Rightarrow> bytes \<Rightarrow> bytes" where
  "set_length n content = take n content @ replicate (n - length content) 0"

definition set_data :: "nat \<Rightarrow> bytes \<Rightarrow> fs_state \<Rightarrow> fs_state" where
  "set_data i content st = st\<lparr>fs_data := (fs_data st)(i := content)\<rparr>"

text \<open>A single call transfers at most this much.\<close>

definition MAX_RW_COUNT :: nat where
  "MAX_RW_COUNT = 0x7ffff000"

definition fresh_inode :: "nat \<Rightarrow> fs_state \<Rightarrow> bool" where
  "fresh_inode i st \<longleftrightarrow> i \<notin> snd ` set (fs_dir st) \<and> i \<notin> snd ` set (fs_fds st)"

definition open_result :: "path \<Rightarrow> u32 \<Rightarrow> int \<Rightarrow> fs_state \<Rightarrow> fs_state \<Rightarrow> bool" where
  "open_result path flags fd st st' \<longleftrightarrow>
     fd < 0 \<and> st' = st \<or>
     0 \<le> fd \<and> nat fd \<notin> fst ` set (fs_fds st) \<and>
     (case map_of (fs_dir st) path of
        None \<Rightarrow> flags AND O_CREAT \<noteq> 0 \<and>
          (\<exists>i. fresh_inode i st \<and>
             st' = set_data i [] (st\<lparr>fs_dir := (path, i) # fs_dir st, fs_fds := (nat fd, i) # fs_fds st\<rparr>))
      | Some i \<Rightarrow>
          st' = (if flags AND O_TRUNC \<noteq> 0 then set_data i [] else id) (st\<lparr>fs_fds := (nat fd, i) # fs_fds st\<rparr>))"

text \<open>A write that does not fail has transferred \<open>r\<close> bytes.\<close>

definition write_result :: "nat \<Rightarrow> bytes \<Rightarrow> nat \<Rightarrow> int \<Rightarrow> fs_state \<Rightarrow> fs_state \<Rightarrow> bool" where
  "write_result i data off r st st' \<longleftrightarrow>
     0 \<le> r \<and> nat r \<le> length data \<and> st' = set_data i (pwrite (fs_data st i) off (take (nat r) data)) st
     \<or> r < 0 \<and> (\<exists>content. st' = set_data i content st)"

definition resize_result :: "nat \<Rightarrow> nat \<Rightarrow> int \<Rightarrow> fs_state \<Rightarrow> fs_state \<Rightarrow> bool" where
  "resize_result i n r st st' \<longleftrightarrow>
     r = 0 \<and> st' = set_data i (set_length n (fs_data st i)) st \<or> r < 0 \<and> st' = st"

definition stat_of :: "path \<Rightarrow> fs_state \<Rightarrow> stat_result" where
  "stat_of path st =
     (case map_of (fs_dir st) path of None \<Rightarrow> Absent | Some i \<Rightarrow> Found (of_nat (length (fs_data st i))))"

definition kernel_laws :: "io_ops \<Rightarrow> bool" where
  "kernel_laws io \<longleftrightarrow>
     (\<forall>path st. io_statx io path st = stat_of path st \<or> (\<exists>e. io_statx io path st = Stat_Error e))
     \<and> (\<forall>path flags st fd st'. io_open io path flags st = (fd, st') \<longrightarrow> open_result path flags fd st st')
     \<and> (\<forall>fd i data off st r st'. map_of (fs_fds st) fd = Some i \<longrightarrow>
          io_write io fd data off st = (r, st') \<longrightarrow> write_result i data off r st st')
     \<and> (\<forall>fd i n st r st'. map_of (fs_fds st) fd = Some i \<longrightarrow>
          io_ftruncate io fd n st = (r, st') \<longrightarrow> resize_result i n r st st')
     \<and> (\<forall>fd i n st r st'. map_of (fs_fds st) fd = Some i \<longrightarrow>
          io_fallocate io fd n st = (r, st') \<longrightarrow> resize_result i (max (unat n) (length (fs_data st i))) r st st')
     \<and> (\<forall>fd st. snd (io_fdatasync io fd st) = st)
     \<and> (\<forall>path st. io_remove io path st = st\<lparr>fs_dir := filter (\<lambda>e. fst e \<noteq> path) (fs_dir st)\<rparr>)
     \<and> (\<forall>fd st. io_close io fd st = st\<lparr>fs_fds := filter (\<lambda>e. fst e \<noteq> fd) (fs_fds st)\<rparr>)"

text \<open>What the code relies on beyond that.\<close>

definition statx_answers :: "io_ops \<Rightarrow> bool" where
  "statx_answers io \<longleftrightarrow> (\<forall>path st. io_statx io path st = stat_of path st)"

definition writes_whole :: "io_ops \<Rightarrow> bool" where
  "writes_whole io \<longleftrightarrow> (\<forall>fd i data off st. map_of (fs_fds st) fd = Some i \<longrightarrow> length data \<le> MAX_RW_COUNT \<longrightarrow>
     fst (io_write io fd data off st) < 0 \<or> fst (io_write io fd data off st) = int (length data))"

definition kernel_ok :: "io_ops \<Rightarrow> bool" where
  "kernel_ok io \<longleftrightarrow> kernel_laws io \<and> statx_answers io \<and> writes_whole io"

lemma kernel_lawsD:
  assumes "kernel_laws io"
  shows "io_statx io path st = stat_of path st \<or> (\<exists>e. io_statx io path st = Stat_Error e)"
    "io_open io path flags st = (fd, st') \<Longrightarrow> open_result path flags fd st st'"
    "map_of (fs_fds st) h = Some i \<Longrightarrow> io_write io h data off st = (r, st') \<Longrightarrow> write_result i data off r st st'"
    "map_of (fs_fds st) h = Some i \<Longrightarrow> io_ftruncate io h n st = (r, st') \<Longrightarrow> resize_result i n r st st'"
    "map_of (fs_fds st) h = Some i \<Longrightarrow> io_fallocate io h m st = (r, st')
      \<Longrightarrow> resize_result i (max (unat m) (length (fs_data st i))) r st st'"
    "snd (io_fdatasync io h st) = st"
    "io_remove io path st = st\<lparr>fs_dir := filter (\<lambda>e. fst e \<noteq> path) (fs_dir st)\<rparr>"
    "io_close io h st = st\<lparr>fs_fds := filter (\<lambda>e. fst e \<noteq> h) (fs_fds st)\<rparr>"
  using assms unfolding kernel_laws_def by simp_all

lemma kernel_ok_laws: "kernel_ok io \<Longrightarrow> kernel_laws io"
  by (simp add: kernel_ok_def)

definition whole_write_result :: "nat \<Rightarrow> bytes \<Rightarrow> nat \<Rightarrow> int \<Rightarrow> fs_state \<Rightarrow> fs_state \<Rightarrow> bool" where
  "whole_write_result i data off r st st' \<longleftrightarrow>
     r = int (length data) \<and> st' = set_data i (pwrite (fs_data st i) off data) st
     \<or> r < 0 \<and> (\<exists>content. st' = set_data i content st)"

lemma kernel_okD:
  assumes "kernel_ok io"
  shows "io_statx io path st = stat_of path st"
    "io_open io path flags st = (fd, st') \<Longrightarrow> open_result path flags fd st st'"
    "map_of (fs_fds st) h = Some i \<Longrightarrow> length data \<le> MAX_RW_COUNT \<Longrightarrow> io_write io h data off st = (r, st')
      \<Longrightarrow> whole_write_result i data off r st st'"
    "map_of (fs_fds st) h = Some i \<Longrightarrow> io_ftruncate io h n st = (r, st') \<Longrightarrow> resize_result i n r st st'"
    "map_of (fs_fds st) h = Some i \<Longrightarrow> io_fallocate io h m st = (r, st')
      \<Longrightarrow> resize_result i (max (unat m) (length (fs_data st i))) r st st'"
    "snd (io_fdatasync io h st) = st"
    "io_remove io path st = st\<lparr>fs_dir := filter (\<lambda>e. fst e \<noteq> path) (fs_dir st)\<rparr>"
    "io_close io h st = st\<lparr>fs_fds := filter (\<lambda>e. fst e \<noteq> h) (fs_fds st)\<rparr>"
proof -
  note laws = kernel_lawsD [OF kernel_ok_laws [OF assms]]
  show "io_statx io path st = stat_of path st" using assms by (simp add: kernel_ok_def statx_answers_def)
  show "whole_write_result i data off r st st'"
    if "map_of (fs_fds st) h = Some i" "length data \<le> MAX_RW_COUNT" "io_write io h data off st = (r, st')"
  proof -
    have "r < 0 \<or> r = int (length data)"
      using assms that unfolding kernel_ok_def writes_whole_def by (metis fst_conv)
    then show ?thesis
      using laws(3) [OF that(1,3)] by (auto simp: write_result_def whole_write_result_def)
  qed
qed (simp_all add: kernel_lawsD(2,4-8) [OF kernel_ok_laws [OF assms]])

text \<open>A kernel whose calls do not fail.\<close>

definition io_succeeds :: "io_ops \<Rightarrow> bool" where
  "io_succeeds io \<longleftrightarrow>
     (\<forall>path flags st. flags AND O_CREAT \<noteq> 0 \<longrightarrow> 0 \<le> fst (io_open io path flags st))
     \<and> (\<forall>fd i data off st. map_of (fs_fds st) fd = Some i \<longrightarrow> 0 \<le> fst (io_write io fd data off st))
     \<and> (\<forall>fd i n st. map_of (fs_fds st) fd = Some i \<longrightarrow> 0 \<le> fst (io_ftruncate io fd n st))
     \<and> (\<forall>fd i n st. map_of (fs_fds st) fd = Some i \<longrightarrow> 0 \<le> fst (io_fallocate io fd n st))
     \<and> (\<forall>fd st. 0 \<le> fst (io_fdatasync io fd st))"

section \<open>Descriptors and contents\<close>

lemma pwrite_within:
  assumes "off \<le> length content"
  shows "take (off + length data) (pwrite content off data) = take off content @ data"
    "length (pwrite content off data) = max (off + length data) (length content)"
  using assms by (auto simp: pwrite_def)

lemma length_set_length [simp]: "length (set_length n content) = n"
  by (simp add: set_length_def)

lemma set_data_simps [simp]:
  "fs_dir (set_data i c st) = fs_dir st" "fs_fds (set_data i c st) = fs_fds st" "fs_ids (set_data i c st) = fs_ids st"
  "fs_data (set_data i c st) = (fs_data st)(i := c)"
  by (simp_all add: set_data_def)

lemma fresh_inode_lookup:
  "fresh_inode i st \<Longrightarrow> map_of (fs_dir st) p \<noteq> Some i" "fresh_inode i st \<Longrightarrow> map_of (fs_fds st) fd \<noteq> Some i"
  using map_of_SomeD by (force simp: fresh_inode_def)+

lemma mode_flags_bits:
  "open_flags mode d AND O_CREAT \<noteq> 0 \<longleftrightarrow>
     mode \<in> {undefined_mode, write_new, write_append_new, read_write_new, read_write_create_append}"
  "open_flags mode d AND O_TRUNC \<noteq> 0 \<longleftrightarrow> mode \<in> {undefined_mode, write_new, write_append_new, read_write_new}"
  by (cases mode; simp add: open_flags_def O_CREAT_def O_TRUNC_def O_APPEND_def O_DIRECT_def)+

text \<open>What opening does to the state: no content a name refers to is lost, and no name either.\<close>

definition keeps_files :: "fs_state \<Rightarrow> fs_state \<Rightarrow> bool" where
  "keeps_files st st' \<longleftrightarrow>
     (\<forall>p i. map_of (fs_dir st) p = Some i \<longrightarrow> map_of (fs_dir st') p = Some i \<and> fs_data st' i = fs_data st i)"

lemma keeps_files_refl [simp]: "keeps_files st st"
  by (simp add: keeps_files_def)

lemma map_of_filter_absent: "map_of xs path = None \<Longrightarrow> map_of (filter (\<lambda>e. fst e \<noteq> path) xs) p = map_of xs p"
  by (induction xs) (auto split: if_splits)

lemma open_keeps_files:
  assumes io: "kernel_laws io" and new: "mode \<in> {write_new, read_write_new} \<longrightarrow> map_of (fs_dir st) path = None"
    and mode: "mode \<noteq> write_append_new" "mode \<noteq> undefined_mode"
    and opened: "io_open io path (open_flags mode d) st = (fd, st')" and fd: "0 \<le> fd"
  obtains "keeps_files st st'" "fs_ids st' = fs_ids st" "mode \<noteq> write_new" "mode \<noteq> read_write_new"
      "map_of (fs_dir st) path \<noteq> None"
  | i where "fresh_inode i st" "nat fd \<notin> fst ` set (fs_fds st)" "map_of (fs_dir st) path = None"
      "st' = set_data i [] (st\<lparr>fs_dir := (path, i) # fs_dir st, fs_fds := (nat fd, i) # fs_fds st\<rparr>)"
proof (cases "map_of (fs_dir st) path")
  case None
  then show ?thesis
    using kernel_lawsD(2) [OF io opened] fd that(2) by (auto simp: open_result_def)
next
  case (Some i)
  then have new: "mode \<noteq> write_new" "mode \<noteq> read_write_new" using new by auto
  then have "open_flags mode d AND O_TRUNC = 0" using mode_flags_bits(2) [of mode d] mode by auto
  then have "st' = st\<lparr>fs_fds := (nat fd, i) # fs_fds st\<rparr>"
    using kernel_lawsD(2) [OF io opened] Some fd by (simp add: open_result_def)
  then show ?thesis using that(1) new Some by (simp add: keeps_files_def)
qed

lemma expect_size_cases:
  assumes io: "kernel_laws io" and fd: "map_of (fs_fds st) fd = Some i"
    and res: "expect_size io path mode fd fsize expected st = (r, st')"
  obtains "st' = st"
  | n where "expected = Some n" "mode = write_new \<or> mode = read_write_new" "r = ok"
      "st' = set_data i (set_length (max (unat n) (length (fs_data st i))) (fs_data st i)) st"
  | e where "mode = write_new \<or> mode = read_write_new" "r = Inl e"
      "st' = st\<lparr>fs_dir := filter (\<lambda>e. fst e \<noteq> path) (fs_dir st), fs_fds := filter (\<lambda>e. fst e \<noteq> fd) (fs_fds st)\<rparr>"
proof (cases "expected \<noteq> None \<and> (mode = write_new \<or> mode = read_write_new)")
  case False
  then show ?thesis using res that(1) by (auto simp: expect_size_def split: if_splits option.splits)
next
  case True
  then obtain n where n: "expected = Some n" by auto
  obtain c st1 where alloc: "io_fallocate io fd n st = (c, st1)" by (cases "io_fallocate io fd n st")
  note law = kernel_lawsD(5) [OF io fd alloc]
  show ?thesis
  proof (cases "c < 0")
    case True
    then have "st1 = st" using law by (auto simp: resize_result_def)
    then show ?thesis
      using True \<open>expected \<noteq> None \<and> _\<close> n alloc res that(3) kernel_lawsD(7,8) [OF io]
      by (auto simp: expect_size_def)
  next
    case False
    then show ?thesis
      using \<open>expected \<noteq> None \<and> _\<close> n alloc res that(2) law by (auto simp: expect_size_def resize_result_def)
  qed
qed

lemma expect_size_keeps_files:
  assumes io: "kernel_laws io" and fresh: "fresh_inode i st" and absent: "map_of (fs_dir st) path = None"
    and st1: "st1 = set_data i [] (st\<lparr>fs_dir := (path, i) # fs_dir st, fs_fds := (fd, i) # fs_fds st\<rparr>)"
  shows "keeps_files st (snd (expect_size io path mode fd fsize expected st1))"
proof -
  obtain r st' where res: "expect_size io path mode fd fsize expected st1 = (r, st')" by fastforce
  have fd: "map_of (fs_fds st1) fd = Some i" by (simp add: st1)
  show ?thesis
    using fresh_inode_lookup(1) [OF fresh] absent unfolding keeps_files_def res
    by (cases rule: expect_size_cases [OF io fd res]) (auto simp: st1 map_of_filter_absent)
qed

lemma expect_size_other:
  assumes "mode \<noteq> write_new" "mode \<noteq> read_write_new"
  shows "snd (expect_size io path mode fd fsize expected st) = st"
  using assms by (simp add: expect_size_def split: option.splits)

lemma keeps_files_ids [simp]: "keeps_files st (st'\<lparr>fs_ids := n\<rparr>) \<longleftrightarrow> keeps_files st st'"
  by (simp add: keeps_files_def)

lemma opened_keeps_files:
  assumes "kernel_laws io" "mode \<in> {write_new, read_write_new} \<longrightarrow> map_of (fs_dir st) path = None"
    "mode \<noteq> write_append_new" "mode \<noteq> undefined_mode"
    "io_open io path (open_flags mode d) st = (fd, st1)" "0 \<le> fd"
  shows "keeps_files st (snd (expect_size io path mode (nat fd) fsize expected st1))" "keeps_files st st1"
proof -
  show "keeps_files st (snd (expect_size io path mode (nat fd) fsize expected st1))"
    using assms
  proof (cases rule: open_keeps_files [OF assms])
    case 1
    then show ?thesis by (simp add: expect_size_other)
  next
    case (2 i)
    then show ?thesis using expect_size_keeps_files [OF assms(1)] by blast
  qed
  show "keeps_files st st1"
    using assms
  proof (cases rule: open_keeps_files [OF assms])
    case (2 i)
    then show ?thesis using fresh_inode_lookup(1) [OF 2(1)] by (auto simp: keeps_files_def)
  qed
qed

lemma open_fails_keeps: "kernel_laws io \<Longrightarrow> io_open io path flags st = (fd, st1) \<Longrightarrow> fd < 0 \<Longrightarrow> st1 = st"
  using kernel_lawsD(2) by (fastforce simp: open_result_def)

lemma from_path_async_keeps:
  assumes io: "kernel_laws io" "mode \<noteq> write_append_new" "mode \<noteq> undefined_mode"
    and stat: "mode \<in> {write_new, read_write_new} \<longrightarrow> (\<forall>e. io_statx io path st \<noteq> Stat_Error e)"
  shows "keeps_files st (snd (from_path_async io path mode d expected st))"
proof (cases "open_guard path mode (stat_size (io_statx io path st) \<noteq> None)")
  case (Inl e)
  then show ?thesis by (simp add: from_path_async_def)
next
  case (Inr u)
  have new: "mode \<in> {write_new, read_write_new} \<longrightarrow> map_of (fs_dir st) path = None"
    using Inr stat kernel_lawsD(1) [OF io(1), of path st]
    by (auto simp: open_guard_def stat_size_def stat_of_def split: if_splits option.splits)
  obtain fd st1 where opened: "io_open io path (open_flags mode d) st = (fd, st1)"
    by (cases "io_open io path (open_flags mode d) st")
  show ?thesis
  proof (cases "fd < 0")
    case True
    then show ?thesis using Inr opened open_fails_keeps [OF io(1) opened] by (simp add: from_path_async_def)
  next
    case False
    then have keeps: "keeps_files st (snd (expect_size io path mode (nat fd) fsize expected st1))" for fsize
      by (intro opened_keeps_files(1) [OF io(1) new io(2,3) opened]) simp
    let ?fsize = "case stat_size (io_statx io path st) of Some n \<Rightarrow> n | None \<Rightarrow> (case expected of Some n \<Rightarrow> n | None \<Rightarrow> 0)"
    obtain r st2 where "expect_size io path mode (nat fd) ?fsize expected st1 = (r, st2)" by fastforce
    then show ?thesis
      using False Inr opened keeps [of ?fsize] by (cases r) (simp_all add: from_path_async_def Let_def wrap_fd_def)
  qed
qed

lemma from_path_passed:
  assumes io: "kernel_laws io" "mode \<noteq> write_append_new" "mode \<noteq> undefined_mode"
    and stat: "io_statx io path st = stat_of path st" and guard: "open_guard path mode (stat_of path st \<noteq> Absent) = ok"
  shows "keeps_files st (snd (from_path io path mode d expected st))"
proof -
  have new: "mode \<in> {write_new, read_write_new} \<longrightarrow> map_of (fs_dir st) path = None"
    using guard by (auto simp: open_guard_def stat_of_def split: if_splits option.splits)
  obtain fd st1 where opened: "io_open io path (open_flags mode d) st = (fd, st1)"
    by (cases "io_open io path (open_flags mode d) st")
  have run: "from_path io path mode d expected st = (if fd < 0
      then (Inl (generic_error (''Failed to open file descriptor '' @ io_strerror io (- fd))), st1)
      else case io_statx io path st1 of
        Found fsize \<Rightarrow>
          (case expect_size io path mode (nat fd) fsize expected st1 of
             (Inl e, st) \<Rightarrow> (Inl e, st)
           | (Inr _, st) \<Rightarrow>
               (let fsize = (case expected of
                              Some n \<Rightarrow> if mode = write_new \<or> mode = read_write_new then n else fsize
                            | None \<Rightarrow> fsize)
                in case wrap_fd path mode d (nat fd) fsize st of (f, st) \<Rightarrow> (Inr f, st)))
      | _ \<Rightarrow> (Inl filesystem_error, st1))"
    using guard opened stat by (cases "map_of (fs_dir st) path") (simp_all add: from_path_def stat_of_def)
  show ?thesis
  proof (cases "fd < 0")
    case True
    then show ?thesis using run open_fails_keeps [OF io(1) opened] by simp
  next
    case False
    then have keeps: "keeps_files st (snd (expect_size io path mode (nat fd) fsize expected st1))" "keeps_files st st1" for fsize
      using opened_keeps_files [OF io(1) new io(2,3) opened] by simp_all
    show ?thesis
    proof (cases "io_statx io path st1")
      case (Found fsize)
      obtain r st2 where "expect_size io path mode (nat fd) fsize expected st1 = (r, st2)" by fastforce
      then show ?thesis
        using run False Found keeps(1) [of fsize] by (cases r) (simp_all add: wrap_fd_def Let_def)
    qed (use run False keeps(2) in simp_all)
  qed
qed

lemma from_path_keeps:
  assumes io: "kernel_laws io" "mode \<noteq> write_append_new" "mode \<noteq> undefined_mode"
  shows "keeps_files st (snd (from_path io path mode d expected st))"
proof -
  consider (failed) e where "io_statx io path st = Stat_Error e"
    | (refused) e where "io_statx io path st = stat_of path st" "open_guard path mode (stat_of path st \<noteq> Absent) = Inl e"
    | (passed) "io_statx io path st = stat_of path st" "open_guard path mode (stat_of path st \<noteq> Absent) = ok"
    using kernel_lawsD(1) [OF io(1), of path st] by (cases "open_guard path mode (stat_of path st \<noteq> Absent)") auto
  then show ?thesis
  proof cases
    case refused
    then show ?thesis
      by (cases "map_of (fs_dir st) path") (simp_all add: from_path_def stat_of_def)
  next
    case passed
    then show ?thesis by (rule from_path_passed [OF io])
  qed (simp add: from_path_def)
qed

text \<open>
  C39: Opening a file, in every mode the code uses and whether it succeeds or fails, loses no file:
  every name still refers to the same file with the same content, also when the space for a new file
  cannot be allocated and the new file is removed again. Every call of the kernel may fail. There is
  one exception: in the two modes that create a file, the asynchronous variant needs that the status
  of the path can be read, since it takes a failure for the absence of the file. Nothing else changes
  the files between the calls.
\<close>

theorem from_path_keeps_files:
  assumes "kernel_laws io" "mode \<noteq> write_append_new" "mode \<noteq> undefined_mode"
  shows "keeps_files st (snd (from_path io path mode d expected st))
    \<and> ((mode \<in> {write_new, read_write_new} \<longrightarrow> (\<forall>e. io_statx io path st \<noteq> Stat_Error e))
        \<longrightarrow> keeps_files st (snd (from_path_async io path mode d expected st)))"
  using from_path_keeps [OF assms] from_path_async_keeps [OF assms] by blast

text \<open>A kernel with these laws: numbers are taken above all that are in use, and no call fails.\<close>

definition next_number :: "fs_state \<Rightarrow> nat" where
  "next_number st = Suc (sum_list (map snd (fs_dir st)) + sum_list (map fst (fs_fds st)) + sum_list (map snd (fs_fds st)))"

definition sample_io :: io_ops where
  "sample_io =
     \<lparr>io_statx = stat_of,
      io_open = \<lambda>path flags st.
        (case map_of (fs_dir st) path of
           None \<Rightarrow>
             (if flags AND O_CREAT = 0 then (-2, st)
              else
                (let n = next_number st
                 in (int n, set_data n [] (st\<lparr>fs_dir := (path, n) # fs_dir st, fs_fds := (n, n) # fs_fds st\<rparr>))))
         | Some i \<Rightarrow>
             (int (next_number st),
              (if flags AND O_TRUNC \<noteq> 0 then set_data i [] else id) (st\<lparr>fs_fds := (next_number st, i) # fs_fds st\<rparr>))),
      io_fallocate = \<lambda>fd n st.
        (case map_of (fs_fds st) fd of
           None \<Rightarrow> (-9, st)
         | Some i \<Rightarrow> (0, set_data i (set_length (max (unat n) (length (fs_data st i))) (fs_data st i)) st)),
      io_write = \<lambda>fd data off st.
        (case map_of (fs_fds st) fd of
           None \<Rightarrow> (-9, st) | Some i \<Rightarrow> (int (length data), set_data i (pwrite (fs_data st i) off data) st)),
      io_ftruncate = \<lambda>fd n st.
        (case map_of (fs_fds st) fd of
           None \<Rightarrow> (-9, st) | Some i \<Rightarrow> (0, set_data i (set_length n (fs_data st i)) st)),
      io_fdatasync = \<lambda>fd st. (0, st),
      io_remove = \<lambda>path st. st\<lparr>fs_dir := filter (\<lambda>e. fst e \<noteq> path) (fs_dir st)\<rparr>,
      io_close = \<lambda>fd st. st\<lparr>fs_fds := filter (\<lambda>e. fst e \<noteq> fd) (fs_fds st)\<rparr>,
      io_strerror = \<lambda>_. []\<rparr>"

lemma member_less_sum: "(x :: nat) \<in> f ` set xs \<Longrightarrow> x \<le> sum_list (map f xs)"
  by (induction xs) auto

lemma next_number_fresh: "fresh_inode (next_number st) st" "next_number st \<notin> fst ` set (fs_fds st)"
  using member_less_sum [of "next_number st" snd "fs_dir st"] member_less_sum [of "next_number st" snd "fs_fds st"]
    member_less_sum [of "next_number st" fst "fs_fds st"]
  by (auto simp: fresh_inode_def next_number_def)

lemma kernel_ok_sample_io: "kernel_ok sample_io"
proof -
  have "open_result path flags fd st st'" if "io_open sample_io path flags st = (fd, st')" for path flags st fd st'
    using that next_number_fresh [of st] unfolding open_result_def sample_io_def
    by (cases "map_of (fs_dir st) path") (auto simp: Let_def split: if_splits intro: rev_image_eqI)
  then have "kernel_laws sample_io"
    by (simp add: kernel_laws_def) (auto simp: sample_io_def write_result_def resize_result_def split: option.splits)
  then show ?thesis by (simp add: kernel_ok_def statx_answers_def writes_whole_def sample_io_def)
qed

lemma io_succeeds_sample_io: "io_succeeds sample_io"
  by (simp add: io_succeeds_def sample_io_def Let_def split: option.split)

definition empty_fs :: fs_state where
  "empty_fs = \<lparr>fs_dir = [], fs_data = (\<lambda>_. []), fs_fds = [], fs_ids = 0\<rparr>"

theorem from_path_keeps_files_witness:
  "let st = set_data 1 [7] (empty_fs\<lparr>fs_dir := [(''a'', 1)]\<rparr>);
       st' = snd (from_path_async sample_io ''b'' read_write_new False (Some 3) st)
   in map_of (fs_dir st') ''a'' = Some 1 \<and> fs_data st' 1 = [7]"
  using from_path_keeps_files [OF kernel_ok_laws [OF kernel_ok_sample_io], of read_write_new
      "set_data 1 [7] (empty_fs\<lparr>fs_dir := [(''a'', 1)]\<rparr>)" "''b''" False "Some 3"]
  by (simp add: keeps_files_def sample_io_def stat_of_def)

text \<open>
  The exception is real. If the status of a file cannot be read for a moment, the asynchronous
  variant opens it as a new one and empties it.
\<close>

lemma statx_failure_truncates:
  "let io = sample_io\<lparr>io_statx := \<lambda>_ _. Stat_Error 12\<rparr>; st = set_data 1 [7] (empty_fs\<lparr>fs_dir := [(''a'', 1)]\<rparr>);
       st' = snd (from_path_async io ''a'' read_write_new False None st)
   in kernel_laws io \<and> fs_data st 1 = [7] \<and> fs_data st' 1 = []"
proof -
  have "kernel_laws (sample_io\<lparr>io_statx := \<lambda>_ _. Stat_Error 12\<rparr>)"
    using kernel_ok_laws [OF kernel_ok_sample_io] by (simp add: kernel_laws_def)
  then show ?thesis
    by (simp add: from_path_async_def stat_size_def open_guard_def sample_io_def empty_fs_def open_flags_def O_TRUNC_def O_CREAT_def
        expect_size_def wrap_fd_def Let_def)
qed

section \<open>New files\<close>

text \<open>A file that was just created: its bytes are those the allocation gave it.\<close>

lemma from_path_async_new:
  assumes io: "kernel_ok io" and res: "from_path_async io path read_write_new d (Some n) st = (Inr f, st')"
  obtains i where "fresh_inode i st" "file_fd f \<notin> fst ` set (fs_fds st)" "map_of (fs_dir st) path = None"
    "st' = set_data i (replicate (unat n) 0)
      (st\<lparr>fs_dir := (path, i) # fs_dir st, fs_fds := (file_fd f, i) # fs_fds st, fs_ids := fs_ids st + 1\<rparr>)"
proof -
  have absent: "map_of (fs_dir st) path = None"
    using res kernel_okD(1) [OF io]
    by (auto simp: from_path_async_def open_guard_def stat_size_def stat_of_def split: if_splits option.splits)
  then have guard: "open_guard path read_write_new (stat_size (stat_of path st) \<noteq> None) = ok"
    by (simp add: open_guard_def stat_size_def stat_of_def)
  obtain fd st1 where opened: "io_open io path (open_flags read_write_new d) st = (fd, st1)"
    by (cases "io_open io path (open_flags read_write_new d) st")
  have fd: "0 \<le> fd"
    using res opened guard kernel_okD(1) [OF io] by (auto simp: from_path_async_def split: if_splits)
  obtain i where i: "fresh_inode i st" "nat fd \<notin> fst ` set (fs_fds st)"
      "st1 = set_data i [] (st\<lparr>fs_dir := (path, i) # fs_dir st, fs_fds := (nat fd, i) # fs_fds st\<rparr>)"
    using open_keeps_files [OF kernel_ok_laws [OF io] _ _ _ opened fd] absent by auto
  obtain r st2 where size: "expect_size io path read_write_new (nat fd) n (Some n) st1 = (r, st2)" by fastforce
  have ok: "r = ok" "st' = st2\<lparr>fs_ids := fs_ids st2 + 1\<rparr>" "file_fd f = nat fd"
    using res opened guard fd kernel_okD(1) [OF io] absent size
    by (auto simp: from_path_async_def wrap_fd_def stat_size_def stat_of_def Let_def split: sum.splits)
  obtain c st3 where alloc: "io_fallocate io (nat fd) n st1 = (c, st3)" by fastforce
  have "resize_result i (unat n) c st1 st3"
    using kernel_okD(5) [OF io _ alloc, of i] i(3) by simp
  then have "st2 = set_data i (replicate (unat n) 0) st1"
    using size ok(1) alloc i(3) by (auto simp: expect_size_def resize_result_def set_length_def split: if_splits)
  then have "st' = set_data i (replicate (unat n) 0)
      (st\<lparr>fs_dir := (path, i) # fs_dir st, fs_fds := (file_fd f, i) # fs_fds st, fs_ids := fs_ids st + 1\<rparr>)"
    using ok i(3) by (simp add: set_data_def)
  then show ?thesis using that i absent ok(3) by simp
qed

text \<open>The mode \<open>read_write_append\<close> opens no file: one that exists is refused, and it does not create one.\<close>

lemma read_write_append_never_opens:
  assumes "kernel_ok io"
  shows "\<exists>e. fst (from_path_async io path read_write_append d expected st) = Inl e"
proof (cases "map_of (fs_dir st) path")
  case None
  obtain fd st1 where opened: "io_open io path (open_flags read_write_append d) st = (fd, st1)"
    by (cases "io_open io path (open_flags read_write_append d) st")
  then have "fd < 0"
    using kernel_okD(2) [OF assms opened] None mode_flags_bits(1) [of read_write_append d] by (auto simp: open_result_def)
  then show ?thesis
    using opened None kernel_okD(1) [OF assms] by (simp add: from_path_async_def open_guard_def stat_size_def stat_of_def)
next
  case (Some i)
  then show ?thesis using kernel_okD(1) [OF assms] by (simp add: from_path_async_def open_guard_def stat_size_def stat_of_def)
qed

text \<open>The state after a new file has been created and opened: nothing else changes.\<close>

definition adds_file :: "path \<Rightarrow> nat \<Rightarrow> fs_state \<Rightarrow> fs_state \<Rightarrow> bool" where
  "adds_file path fd st st' \<longleftrightarrow>
     map_of (fs_dir st) path = None \<and> fd \<notin> fst ` set (fs_fds st)
     \<and> (\<exists>i content n. fresh_inode i st \<and> st' = set_data i content
          (st\<lparr>fs_dir := (path, i) # fs_dir st, fs_fds := (fd, i) # fs_fds st, fs_ids := n\<rparr>))"

lemma adds_file_keeps_files: "adds_file path fd st st' \<Longrightarrow> keeps_files st st'"
  using fresh_inode_lookup(1) by (auto simp: adds_file_def keeps_files_def)

lemma adds_file_names:
  assumes "adds_file path fd st st'"
  shows "map_of (fs_dir st') p = None \<longleftrightarrow> p \<noteq> path \<and> map_of (fs_dir st) p = None"
    "fst ` set (fs_fds st') = insert fd (fst ` set (fs_fds st))"
  using assms by (auto simp: adds_file_def split: if_splits)

lemma adds_file_data:
  assumes "adds_file path fd st st'" "h \<in> fst ` set (fs_fds st)"
  shows "fd_data st' h = fd_data st h"
proof -
  obtain i content n where new: "fresh_inode i st" "fd \<notin> fst ` set (fs_fds st)"
      "st' = set_data i content (st\<lparr>fs_dir := (path, i) # fs_dir st, fs_fds := (fd, i) # fs_fds st, fs_ids := n\<rparr>)"
    using assms(1) by (auto simp: adds_file_def)
  have "map_of (fs_fds st) h \<noteq> Some i" by (rule fresh_inode_lookup(2) [OF new(1)])
  moreover have "h \<noteq> fd" using assms(2) new(2) by auto
  ultimately show ?thesis by (auto simp: fd_data_def new(3) split: option.split)
qed

text \<open>What the operations that only create files leave intact: the named files and the open ones.\<close>

definition extends_fs :: "fs_state \<Rightarrow> fs_state \<Rightarrow> bool" where
  "extends_fs st st' \<longleftrightarrow> keeps_files st st'
     \<and> (\<forall>h \<in> fst ` set (fs_fds st). h \<in> fst ` set (fs_fds st') \<and> fd_data st' h = fd_data st h)"

lemma extends_fs_refl [simp]: "extends_fs st st"
  by (simp add: extends_fs_def)

lemma extends_fs_trans: "extends_fs st st1 \<Longrightarrow> extends_fs st1 st2 \<Longrightarrow> extends_fs st st2"
  unfolding extends_fs_def keeps_files_def by metis

lemma adds_file_extends: "adds_file path fd st st' \<Longrightarrow> extends_fs st st'"
  using adds_file_keeps_files adds_file_data adds_file_names(2) unfolding extends_fs_def by blast

end
