(* ===== verification/Write_Buffer.thy ===== *)
theory Write_Buffer
  imports Block_Buffer Files
begin

text \<open>
  The buffer through which SST files are written, \<^verbatim>\<open>merge_write_buffer\<close> in
  \<^verbatim>\<open>src/db/merge/write_buffer.h\<close>, together with the way both its users drive it: write a pair; when
  the buffer is full, flush it to the file and write the pair again; at the end record the key of
  the last page and flush. The growing arrays of the code are lists here (theory \<^verbatim>\<open>Page_Buffer\<close>). An
  operation that fails has no resulting state.
\<close>

definition bind_expected :: "'a expected \<Rightarrow> ('a \<Rightarrow> 'b expected) \<Rightarrow> 'b expected" where
  "bind_expected x f = (case x of Inl e \<Rightarrow> Inl e | Inr a \<Rightarrow> f a)"

lemma bind_expected_simps [simp]:
  "bind_expected (Inl e) f = Inl e" "bind_expected (Inr a) f = f a"
  by (simp_all add: bind_expected_def)

lemma bind_expected_Inr: "bind_expected x f = Inr b \<longleftrightarrow> (\<exists>a. x = Inr a \<and> f a = Inr b)"
  by (cases x) auto

definition checked_write :: "io_ops \<Rightarrow> string \<Rightarrow> nat \<Rightarrow> bytes \<Rightarrow> nat \<Rightarrow> fs_state \<Rightarrow> (nat \<times> fs_state) expected" where
  "checked_write io msg fd data off st =
     (case io_write io fd data off st of
        (res, st) \<Rightarrow> if res < 0 then Inl (generic_error (msg @ io_strerror io (- res))) else Inr (nat res, st))"

section \<open>The index of last keys\<close>

text \<open>\<open>append_meta_index_key\<close> extends the buffer and writes the key with its size into the new part.\<close>

definition append_meta_index_key :: "bytes \<Rightarrow> bytes \<Rightarrow> bytes" where
  "append_meta_index_key key buffer =
     (let buf_size = length buffer
      in write_key_unsafe (buffer @ replicate (length key + 1) 0) buf_size key)"

type_synonym meta_state = "bytes list \<times> bytes"

definition add_meta_key :: "bytes \<Rightarrow> meta_state \<Rightarrow> meta_state" where
  "add_meta_key key m = (case m of (mi, encoded) \<Rightarrow> (mi @ [key], append_meta_index_key key encoded))"

definition key_image :: "bytes \<Rightarrow> bytes" where
  "key_image key = encode_key_size (length key) # key"

definition meta_image :: "bytes list \<Rightarrow> bytes" where
  "meta_image ks = concat (map key_image ks)"

lemma append_meta_index_key_eq: "append_meta_index_key key buffer = buffer @ key_image key"
  by (simp add: append_meta_index_key_def write_key_unsafe_append write_at_def key_image_def)

lemma add_meta_key_image: "add_meta_key key (ks, meta_image ks) = (ks @ [key], meta_image (ks @ [key]))"
  by (simp add: add_meta_key_def append_meta_index_key_eq meta_image_def)

section \<open>The buffer\<close>

record merge_write_buffer =
  wb_buf :: bytes
  wb_writer :: block_buffer_writer
  wb_indexed_kvs :: nat

definition make_merge_write_buffer :: "nat \<Rightarrow> merge_write_buffer" where
  "make_merge_write_buffer buf_size =
     \<lparr>wb_buf = replicate buf_size 0, wb_writer = make_block_buffer_writer 0 buf_size, wb_indexed_kvs = 0\<rparr>"

definition write_item ::
    "hash64 \<Rightarrow> bytes \<Rightarrow> bytes \<Rightarrow> merge_write_buffer \<times> meta_state \<Rightarrow> status \<times> merge_write_buffer \<times> meta_state" where
  "write_item xxh key v st = (case st of (wb, m) \<Rightarrow>
     (case writer_push xxh add_meta_key key v (wb_writer wb, wb_buf wb, m) of
        (Inl e, w, buf, m) \<Rightarrow> (Inl e, wb\<lparr>wb_buf := buf, wb_writer := w\<rparr>, m)
      | (Inr _, w, buf, m) \<Rightarrow>
          (ok, wb\<lparr>wb_buf := buf, wb_writer := w, wb_indexed_kvs := wb_indexed_kvs wb + 1\<rparr>, m)))"

definition wb_empty :: "merge_write_buffer \<Rightarrow> bool" where
  "wb_empty wb = writer_empty (wb_writer wb)"

text \<open>The page cache of the repository offers no slots, so nothing is copied into it.\<close>

record page_handle =
  ph_data :: nat
  ph_idx :: nat

definition get_write_slots_range :: "u32 \<Rightarrow> nat \<Rightarrow> nat \<Rightarrow> page_handle option list" where
  "get_write_slots_range new_file_id start_page num_pages = []"

definition populate_cache :: "u32 \<Rightarrow> nat \<Rightarrow> nat \<Rightarrow> merge_write_buffer \<Rightarrow> bytes \<Rightarrow> bytes" where
  "populate_cache new_file_id write_offset bytes_written wb cache =
     (let guards = get_write_slots_range new_file_id (write_offset div PAGE_SIZE_IN_BYTES) (bytes_written div PAGE_SIZE_IN_BYTES)
      in fold (\<lambda>(cur_page, guard) cache.
           case guard of None \<Rightarrow> cache
           | Some page \<Rightarrow> write_at cache (ph_data page + ph_idx page)
               (read_at (wb_buf wb) (cur_page * PAGE_SIZE_IN_BYTES) PAGE_SIZE_IN_BYTES))
         (zip [0..<length guards] guards) cache)"

lemma populate_cache_nothing [simp]: "populate_cache new_file_id off n wb cache = cache"
  by (simp add: populate_cache_def get_write_slots_range_def)

text \<open>The result of the flush is the number of bytes written and the error code of the call.\<close>

definition wb_flush ::
    "hash64 \<Rightarrow> io_ops \<Rightarrow> nat \<Rightarrow> nat \<Rightarrow> merge_write_buffer \<times> fs_state \<Rightarrow> (nat \<times> int) \<times> merge_write_buffer \<times> fs_state" where
  "wb_flush xxh io fd write_offset s = (case s of (wb, st) \<Rightarrow>
     (case force_commit xxh (wb_writer wb, wb_buf wb) of
        (w, buf) \<Rightarrow>
          (let bytes_written = writer_bytes_written w
           in case io_write io fd (take bytes_written buf) write_offset st of
                (res, st) \<Rightarrow>
                  ((if res \<ge> 0 then nat res else 0, if res < 0 then res else 0),
                   wb\<lparr>wb_buf := buf, wb_writer := writer_reset w\<rparr>, st))))"

section \<open>Writing pairs to a file\<close>

record index_writer =
  iw_buffer :: merge_write_buffer
  iw_meta :: meta_state
  iw_bytes_written :: nat
  iw_fs :: fs_state

definition iw_flush :: "hash64 \<Rightarrow> io_ops \<Rightarrow> string \<Rightarrow> nat \<Rightarrow> index_writer \<Rightarrow> index_writer expected" where
  "iw_flush xxh io msg fd s =
     (case wb_flush xxh io fd (iw_bytes_written s) (iw_buffer s, iw_fs s) of
        ((n, code), wb, st) \<Rightarrow>
          (if code \<noteq> 0 then Inl (generic_error (msg @ io_strerror io (- code)))
           else Inr (s\<lparr>iw_buffer := wb, iw_fs := st, iw_bytes_written := iw_bytes_written s + n\<rparr>)))"

definition iw_put ::
    "hash64 \<Rightarrow> io_ops \<Rightarrow> string \<Rightarrow> string \<Rightarrow> nat \<Rightarrow> bytes \<times> bytes \<Rightarrow> index_writer \<Rightarrow> index_writer expected" where
  "iw_put xxh io flush_msg retry_msg fd kv s =
     (case write_item xxh (fst kv) (snd kv) (iw_buffer s, iw_meta s) of
        (Inr _, wb, m) \<Rightarrow> Inr (s\<lparr>iw_buffer := wb, iw_meta := m\<rparr>)
      | (Inl _, wb, m) \<Rightarrow>
          bind_expected (iw_flush xxh io flush_msg fd (s\<lparr>iw_buffer := wb, iw_meta := m\<rparr>))
            (\<lambda>s. case write_item xxh (fst kv) (snd kv) (iw_buffer s, iw_meta s) of
                   (Inr _, wb, m) \<Rightarrow> Inr (s\<lparr>iw_buffer := wb, iw_meta := m\<rparr>)
                 | (Inl _, _) \<Rightarrow> Inl (generic_error retry_msg)))"

definition iw_finish :: "hash64 \<Rightarrow> io_ops \<Rightarrow> string \<Rightarrow> nat \<Rightarrow> index_writer \<Rightarrow> index_writer expected" where
  "iw_finish xxh io msg fd s =
     (if wb_empty (iw_buffer s) then Inr s
      else
        (let last_key = e_last_key (w_enc (wb_writer (iw_buffer s)))
         in iw_flush xxh io msg fd (s\<lparr>iw_meta := add_meta_key last_key (iw_meta s)\<rparr>)))"

section \<open>What has been written\<close>

lemma pages_hold_transfer:
  assumes "pages_hold xxh mem base kvss"
    and "\<And>k. k < length kvss \<Longrightarrow> read_at mem' (base' + PAGE_SIZE_IN_BYTES * k) PAGE_SIZE_IN_BYTES
      = read_at mem (base + PAGE_SIZE_IN_BYTES * k) PAGE_SIZE_IN_BYTES"
  shows "pages_hold xxh mem' base' kvss"
  using assms
proof (induction kvss arbitrary: base base')
  case (Cons kvs kvss)
  have "pages_hold xxh mem' (base' + PAGE_SIZE_IN_BYTES) kvss"
    using Cons.prems(1) Cons.prems(2) [of "Suc _"] by (intro Cons.IH [of "base + PAGE_SIZE_IN_BYTES"]) (simp_all add: add.assoc)
  then show ?case using Cons.prems(1) Cons.prems(2) [of 0] by simp
qed simp

lemma read_at_take_same: "off + n \<le> m \<Longrightarrow> read_at (take m xs) off n = read_at xs off n"
  by (simp add: read_at_def drop_take min_def)

lemma pages_hold_prefix:
  assumes "pages_hold xxh mem 0 kvss" "PAGE_SIZE_IN_BYTES * length kvss \<le> n" "take n mem' = take n mem"
  shows "pages_hold xxh mem' 0 kvss"
proof (rule pages_hold_transfer [OF assms(1)])
  fix k assume "k < length kvss"
  then have "PAGE_SIZE_IN_BYTES * Suc k \<le> PAGE_SIZE_IN_BYTES * length kvss" by (intro mult_le_mono2) simp
  then have "PAGE_SIZE_IN_BYTES * k + PAGE_SIZE_IN_BYTES \<le> n" using assms(2) by simp
  then have read: "read_at m (PAGE_SIZE_IN_BYTES * k) PAGE_SIZE_IN_BYTES
      = read_at (take n m) (PAGE_SIZE_IN_BYTES * k) PAGE_SIZE_IN_BYTES" for m :: bytes
    by (simp add: read_at_take_same)
  show "read_at mem' (0 + PAGE_SIZE_IN_BYTES * k) PAGE_SIZE_IN_BYTES
      = read_at mem (0 + PAGE_SIZE_IN_BYTES * k) PAGE_SIZE_IN_BYTES"
    using read [of mem'] read [of mem] assms(3) by simp
qed

lemma pages_hold_pwrite:
  assumes file_pages: "pages_hold xxh content 0 kvss0" "PAGE_SIZE_IN_BYTES * length kvss0 \<le> length content"
    and buffer: "pages_hold xxh buf 0 kvss" "PAGE_SIZE_IN_BYTES * length kvss \<le> length buf"
  defines "content' \<equiv> pwrite content (PAGE_SIZE_IN_BYTES * length kvss0) (take (PAGE_SIZE_IN_BYTES * length kvss) buf)"
  shows "pages_hold xxh content' 0 (kvss0 @ kvss)" "PAGE_SIZE_IN_BYTES * length (kvss0 @ kvss) \<le> length content'"
proof -
  let ?a = "PAGE_SIZE_IN_BYTES * length kvss0" and ?b = "PAGE_SIZE_IN_BYTES * length kvss"
  have data: "length (take ?b buf) = ?b" using buffer(2) by simp
  have img: "take (?a + ?b) content' = take ?a content @ take ?b buf" "length content' = max (?a + ?b) (length content)"
    using pwrite_within [OF file_pages(2), of "take ?b buf"] unfolding data content'_def by simp_all
  show "PAGE_SIZE_IN_BYTES * length (kvss0 @ kvss) \<le> length content'"
    using img(2) by (simp add: distrib_left)
  have "take ?a content' = take ?a content"
    using arg_cong [OF img(1), of "take ?a"] file_pages(2) by simp
  then have "pages_hold xxh content' 0 kvss0" by (intro pages_hold_prefix [OF file_pages(1)]) simp_all
  moreover have "pages_hold xxh content' ?a kvss"
  proof (rule pages_hold_transfer [OF buffer(1)])
    fix k assume "k < length kvss"
    then have "PAGE_SIZE_IN_BYTES * Suc k \<le> ?b" by (intro mult_le_mono2) simp
    then have k: "PAGE_SIZE_IN_BYTES * k + PAGE_SIZE_IN_BYTES \<le> ?b" by simp
    have "drop ?a (take (?a + ?b) content') = take ?b buf" using img(1) file_pages(2) by simp
    then have "take ?b (drop ?a content') = take ?b buf" by (simp add: drop_take)
    then have "read_at (take ?b (drop ?a content')) (PAGE_SIZE_IN_BYTES * k) PAGE_SIZE_IN_BYTES
        = read_at (take ?b buf) (PAGE_SIZE_IN_BYTES * k) PAGE_SIZE_IN_BYTES" by simp
    then show "read_at content' (?a + PAGE_SIZE_IN_BYTES * k) PAGE_SIZE_IN_BYTES
        = read_at buf (0 + PAGE_SIZE_IN_BYTES * k) PAGE_SIZE_IN_BYTES"
      using k by (simp add: read_at_take_same) (simp add: read_at_def add.commute)
  qed
  ultimately show "pages_hold xxh content' 0 (kvss0 @ kvss)" by (simp add: pages_hold_append)
qed

text \<open>
  The pages \<open>kvss0\<close> are in the file \<open>i\<close>, nothing else in the file system has changed since \<open>st0\<close>; the
  buffer has \<open>n\<close> pages, of which \<open>kvss\<close> are finished and \<open>cur\<close> is being filled.
\<close>

definition iw_file ::
    "hash64 \<Rightarrow> nat \<Rightarrow> nat \<Rightarrow> fs_state \<Rightarrow> index_writer \<Rightarrow> (bytes \<times> bytes) list list \<Rightarrow> bool" where
  "iw_file xxh fd i st0 s kvss0 \<longleftrightarrow>
     map_of (fs_fds st0) fd = Some i \<and> (\<exists>content. iw_fs s = set_data i content st0)
     \<and> pages_hold xxh (fs_data (iw_fs s) i) 0 kvss0 \<and> iw_bytes_written s \<le> length (fs_data (iw_fs s) i)
     \<and> iw_bytes_written s = PAGE_SIZE_IN_BYTES * length kvss0 \<and> [] \<notin> set kvss0"

definition iw_buffered ::
    "nat \<Rightarrow> index_writer \<Rightarrow> (bytes \<times> bytes) list list \<Rightarrow> (bytes \<times> bytes) list \<Rightarrow> bool" where
  "iw_buffered n s kvss pairs \<longleftrightarrow>
     w_begin (wb_writer (iw_buffer s)) = 0 \<and> length (wb_buf (iw_buffer s)) = PAGE_SIZE_IN_BYTES * n
     \<and> iw_meta s = (map (last_key_of []) kvss, meta_image (map (last_key_of []) kvss))
     \<and> wb_indexed_kvs (iw_buffer s) = length pairs"

definition iw_inv ::
    "hash64 \<Rightarrow> nat \<Rightarrow> nat \<Rightarrow> nat \<Rightarrow> fs_state \<Rightarrow> index_writer \<Rightarrow> (bytes \<times> bytes) list list
      \<Rightarrow> (bytes \<times> bytes) list list \<Rightarrow> (bytes \<times> bytes) list \<Rightarrow> bool" where
  "iw_inv xxh n fd i st0 s kvss0 kvss cur \<longleftrightarrow>
     iw_file xxh fd i st0 s kvss0 \<and> iw_buffered n s (kvss0 @ kvss) (concat kvss0 @ concat kvss @ cur)
     \<and> writer_inv xxh n (wb_writer (iw_buffer s)) (wb_buf (iw_buffer s)) kvss cur"

definition iw_full ::
    "hash64 \<Rightarrow> nat \<Rightarrow> nat \<Rightarrow> nat \<Rightarrow> fs_state \<Rightarrow> index_writer \<Rightarrow> (bytes \<times> bytes) list list
      \<Rightarrow> (bytes \<times> bytes) list list \<Rightarrow> (bytes \<times> bytes) list \<Rightarrow> bool" where
  "iw_full xxh n fd i st0 s kvss0 kvss cur \<longleftrightarrow>
     iw_file xxh fd i st0 s kvss0 \<and> iw_buffered n s (kvss0 @ kvss @ [cur]) (concat kvss0 @ concat kvss @ cur)
     \<and> writer_ready xxh n (wb_writer (iw_buffer s)) (wb_buf (iw_buffer s)) kvss cur \<and> cur \<noteq> []"

lemma add_meta_key_last:
  "add_meta_key (last_key_of [] cur) (map (last_key_of []) kvss, meta_image (map (last_key_of []) kvss))
    = (map (last_key_of []) (kvss @ [cur]), meta_image (map (last_key_of []) (kvss @ [cur])))"
  by (simp add: add_meta_key_image)

lemma write_item_cases:
  assumes inv: "iw_inv xxh n fd i st0 s kvss0 kvss cur" and kv: "page_fits kv"
  obtains wb m kvss' cur' where "write_item xxh (fst kv) (snd kv) (iw_buffer s, iw_meta s) = (ok, wb, m)"
      "iw_inv xxh n fd i st0 (s\<lparr>iw_buffer := wb, iw_meta := m\<rparr>) kvss0 kvss' cur'"
      "concat kvss' @ cur' = concat kvss @ cur @ [kv]" "cur' \<noteq> []"
  | e wb m where "write_item xxh (fst kv) (snd kv) (iw_buffer s, iw_meta s) = (Inl e, wb, m)"
      "iw_full xxh n fd i st0 (s\<lparr>iw_buffer := wb, iw_meta := m\<rparr>) kvss0 kvss cur" "cur \<noteq> []"
proof -
  let ?wb = "iw_buffer s"
  have w: "writer_inv xxh n (wb_writer ?wb) (wb_buf ?wb) kvss cur"
    and file_inv: "iw_file xxh fd i st0 s kvss0" and buf: "iw_buffered n s (kvss0 @ kvss) (concat kvss0 @ concat kvss @ cur)"
    using inv by (simp_all add: iw_inv_def)
  have same: "iw_file xxh fd i st0 (s\<lparr>iw_buffer := b, iw_meta := m\<rparr>) kvss0" for b m
    using file_inv by (simp add: iw_file_def)
  have key: "key_ok (fst kv)" "page_fits (fst kv, snd kv)" using kv by (simp_all add: page_fits_def)
  show ?thesis
  proof (cases "block_space default_block_config (cur @ [(fst kv, snd kv)]) \<le> PAGE_SIZE_IN_BYTES")
    case True
    from writer_push_fits [OF w key(1) True, of add_meta_key "iw_meta s"]
    obtain w' buf' where push: "writer_push xxh add_meta_key (fst kv) (snd kv) (wb_writer ?wb, wb_buf ?wb, iw_meta s) = (ok, w', buf', iw_meta s)"
      "writer_inv xxh n w' buf' kvss (cur @ [(fst kv, snd kv)])" "w_begin w' = w_begin (wb_writer ?wb)" "length buf' = length (wb_buf ?wb)"
      by blast
    show ?thesis
    proof (rule that(1))
      show "write_item xxh (fst kv) (snd kv) (?wb, iw_meta s)
          = (ok, ?wb\<lparr>wb_buf := buf', wb_writer := w', wb_indexed_kvs := wb_indexed_kvs ?wb + 1\<rparr>, iw_meta s)"
        by (simp add: write_item_def push(1))
      show "iw_inv xxh n fd i st0 (s\<lparr>iw_buffer := ?wb\<lparr>wb_buf := buf', wb_writer := w', wb_indexed_kvs := wb_indexed_kvs ?wb + 1\<rparr>,
          iw_meta := iw_meta s\<rparr>) kvss0 kvss (cur @ [kv])"
        using push(2-4) same buf by (simp add: iw_inv_def iw_buffered_def)
    qed simp_all
  next
    case False
    then have full: "PAGE_SIZE_IN_BYTES < block_space default_block_config (cur @ [(fst kv, snd kv)])" by simp
    then have "cur \<noteq> []" using kv by (auto simp: page_fits_def)
    have meta: "add_meta_key (last_key_of [] cur) (iw_meta s)
        = (map (last_key_of []) (kvss0 @ kvss @ [cur]), meta_image (map (last_key_of []) (kvss0 @ kvss @ [cur])))"
      using buf add_meta_key_last [of cur "kvss0 @ kvss"] by (simp add: iw_buffered_def)
    from writer_push_page_full [OF w key(2) full, of add_meta_key "iw_meta s"]
    obtain w' buf' where push: "w_begin w' = w_begin (wb_writer ?wb)" "length buf' = length (wb_buf ?wb)"
      "if Suc (length kvss) = n
       then writer_push xxh add_meta_key (fst kv) (snd kv) (wb_writer ?wb, wb_buf ?wb, iw_meta s)
           = (Inl (Error [] BUFFER_FULL), w', buf', add_meta_key (last_key_of [] cur) (iw_meta s))
         \<and> writer_ready xxh n w' buf' kvss cur
       else writer_push xxh add_meta_key (fst kv) (snd kv) (wb_writer ?wb, wb_buf ?wb, iw_meta s)
           = (ok, w', buf', add_meta_key (last_key_of [] cur) (iw_meta s))
         \<and> writer_inv xxh n w' buf' (kvss @ [cur]) [(fst kv, snd kv)]"
      by blast
    let ?m = "add_meta_key (last_key_of [] cur) (iw_meta s)"
    show ?thesis
    proof (cases "Suc (length kvss) = n")
      case True
      show ?thesis
      proof (rule that(2))
        show "write_item xxh (fst kv) (snd kv) (?wb, iw_meta s)
            = (Inl (Error [] BUFFER_FULL), ?wb\<lparr>wb_buf := buf', wb_writer := w'\<rparr>, ?m)"
          using push(3) True by (simp add: write_item_def)
        show "iw_full xxh n fd i st0 (s\<lparr>iw_buffer := ?wb\<lparr>wb_buf := buf', wb_writer := w'\<rparr>, iw_meta := ?m\<rparr>) kvss0 kvss cur"
          using push True same buf meta \<open>cur \<noteq> []\<close> by (simp add: iw_full_def iw_buffered_def)
      qed fact
    next
      case False
      show ?thesis
      proof (rule that(1))
        show "write_item xxh (fst kv) (snd kv) (?wb, iw_meta s)
            = (ok, ?wb\<lparr>wb_buf := buf', wb_writer := w', wb_indexed_kvs := wb_indexed_kvs ?wb + 1\<rparr>, ?m)"
          using push(3) False by (simp add: write_item_def)
        show "iw_inv xxh n fd i st0 (s\<lparr>iw_buffer := ?wb\<lparr>wb_buf := buf', wb_writer := w', wb_indexed_kvs := wb_indexed_kvs ?wb + 1\<rparr>,
            iw_meta := ?m\<rparr>) kvss0 (kvss @ [cur]) [kv]"
          using push False same buf meta by (simp add: iw_inv_def iw_buffered_def)
      qed simp_all
    qed
  qed
qed

lemma writer_ready_reset:
  assumes "writer_ready xxh n w mem kvss cur" "w_begin w = 0"
    and that: "e_cfg e = default_block_config" "length mem' = length mem"
  shows "writer_inv xxh n (writer_reset (w\<lparr>w_enc := e\<rparr>)) mem' [] []"
proof -
  have n: "0 < n" "PAGE_SIZE_IN_BYTES * n \<le> length mem'" "w_end w = PAGE_SIZE_IN_BYTES * n"
    using assms that(2) by (auto simp: writer_ready_def)
  have "writer_inv xxh n (make_block_buffer_writer 0 (PAGE_SIZE_IN_BYTES * n)) mem' [] []"
    using writer_inv_new [of n 0 mem' xxh] n by simp
  moreover have "writer_reset (w\<lparr>w_enc := e\<rparr>) = make_block_buffer_writer 0 (PAGE_SIZE_IN_BYTES * n)"
    using assms(2) n(3) that(1) by (simp add: writer_reset_def make_block_buffer_writer_def enc_reset_eq)
  ultimately show ?thesis by simp
qed

lemma iw_flush_full:
  assumes io: "kernel_ok io" and inv: "iw_full xxh n fd i st0 s kvss0 kvss cur"
    and small: "PAGE_SIZE_IN_BYTES * n \<le> MAX_RW_COUNT"
  obtains s' where "iw_flush xxh io msg fd s = Inr s'" "iw_inv xxh n fd i st0 s' (kvss0 @ kvss @ [cur]) [] []"
  | e where "iw_flush xxh io msg fd s = Inl e" "\<not> io_succeeds io"
proof -
  let ?wb = "iw_buffer s" and ?w = "wb_writer (iw_buffer s)" and ?pages = "kvss @ [cur]"
  let ?content = "fs_data (iw_fs s) i"
  have w: "writer_ready xxh n ?w (wb_buf ?wb) kvss cur" and file_inv: "iw_file xxh fd i st0 s kvss0"
    and buf: "iw_buffered n s (kvss0 @ ?pages) (concat kvss0 @ concat kvss @ cur)" and "cur \<noteq> []"
    using inv by (simp_all add: iw_full_def)
  obtain e buf' where commit: "enc_commit xxh (w_enc ?w, wb_buf ?wb) = (e, buf')"
      "pages_hold xxh buf' 0 ?pages" "length buf' = length (wb_buf ?wb)" "e_cfg e = default_block_config"
  proof -
    have zero: "w_begin ?w = 0" using buf by (simp add: iw_buffered_def)
    show thesis by (rule writer_commit_page [OF w, unfolded zero]) (rule that)
  qed
  have "length kvss < n" "w_cur ?w = PAGE_SIZE_IN_BYTES * length kvss"
    using w buf by (auto simp: writer_ready_def iw_buffered_def)
  then have written: "writer_bytes_written (?w\<lparr>w_enc := e\<rparr>) = PAGE_SIZE_IN_BYTES * length ?pages"
    using buf by (simp add: writer_bytes_written_def iw_buffered_def)
  have le: "PAGE_SIZE_IN_BYTES * length ?pages \<le> PAGE_SIZE_IN_BYTES * n"
    by (rule mult_le_mono2) (use \<open>length kvss < n\<close> in simp)
  let ?data = "take (PAGE_SIZE_IN_BYTES * length ?pages) buf'"
  have len: "length ?data = PAGE_SIZE_IN_BYTES * length ?pages" "length ?data \<le> MAX_RW_COUNT"
    using le small commit(3) buf by (simp_all add: iw_buffered_def)
  have fd: "map_of (fs_fds (iw_fs s)) fd = Some i" using file_inv by (auto simp: iw_file_def)
  obtain r st where wr: "io_write io fd ?data (iw_bytes_written s) (iw_fs s) = (r, st)" by fastforce
  have off: "iw_bytes_written s = PAGE_SIZE_IN_BYTES * length kvss0" using file_inv by (simp add: iw_file_def)
  let ?wb' = "?wb\<lparr>wb_buf := buf', wb_writer := writer_reset (?w\<lparr>w_enc := e\<rparr>)\<rparr>"
  have flush: "iw_flush xxh io msg fd s = (if r < 0 then Inl (generic_error (msg @ io_strerror io (- r)))
      else Inr (s\<lparr>iw_buffer := ?wb', iw_fs := st, iw_bytes_written := iw_bytes_written s + nat r\<rparr>))"
    using commit(1) wr written by (simp add: iw_flush_def wb_flush_def force_commit_def Let_def del: length_append)
  show ?thesis
  proof (cases "r < 0")
    case True
    have "\<not> io_succeeds io" using True wr fd unfolding io_succeeds_def by (metis fst_conv not_le)
    then show ?thesis using flush True that(2) by simp
  next
    case False
    then have r: "r = int (length ?data)" "st = set_data i (pwrite ?content (iw_bytes_written s) ?data) (iw_fs s)"
      using kernel_okD(3) [OF io fd len(2) wr] by (auto simp: whole_write_result_def)
    have held: "pages_hold xxh ?content 0 kvss0" "PAGE_SIZE_IN_BYTES * length kvss0 \<le> length ?content"
      using file_inv by (simp_all add: iw_file_def)
    have fits: "PAGE_SIZE_IN_BYTES * length ?pages \<le> length buf'" using le commit(3) buf by (simp add: iw_buffered_def)
    note new = pages_hold_pwrite [OF held commit(2) fits, folded off]
    let ?s = "s\<lparr>iw_buffer := ?wb', iw_fs := st, iw_bytes_written := iw_bytes_written s + nat r\<rparr>"
    have "[] \<notin> set (kvss0 @ ?pages)" using file_inv w \<open>cur \<noteq> []\<close> by (auto simp: iw_file_def writer_ready_def)
    moreover have "iw_bytes_written s + nat r = PAGE_SIZE_IN_BYTES * length (kvss0 @ ?pages)"
      unfolding r(1) len(1) nat_int off by (simp add: distrib_left)
    ultimately have "iw_file xxh fd i st0 ?s (kvss0 @ ?pages)"
      using file_inv r(2) new by (auto simp: iw_file_def set_data_def)
    moreover have "iw_buffered n ?s (kvss0 @ ?pages) (concat (kvss0 @ ?pages))"
      using buf commit(3) by (simp add: iw_buffered_def writer_reset_def)
    moreover have "writer_inv xxh n (writer_reset (?w\<lparr>w_enc := e\<rparr>)) buf' [] []"
      using writer_ready_reset [OF w _ commit(4,3)] buf by (simp add: iw_buffered_def)
    ultimately have "iw_inv xxh n fd i st0 ?s (kvss0 @ ?pages) [] []" by (simp add: iw_inv_def)
    then show ?thesis using flush False that(1) by simp
  qed
qed

text \<open>The pairs written so far are those on the finished pages and on the one in the buffer.\<close>

definition iw_rep ::
    "hash64 \<Rightarrow> nat \<Rightarrow> nat \<Rightarrow> nat \<Rightarrow> fs_state \<Rightarrow> index_writer \<Rightarrow> (bytes \<times> bytes) list \<Rightarrow> bool" where
  "iw_rep xxh n fd i st0 s pairs \<longleftrightarrow>
     (\<exists>kvss0 kvss cur. iw_inv xxh n fd i st0 s kvss0 kvss cur \<and> concat kvss0 @ concat kvss @ cur = pairs
        \<and> (cur = [] \<longrightarrow> pairs = []))"

lemma iw_put_rep:
  assumes io: "kernel_ok io" and rep: "iw_rep xxh n fd i st0 s pairs"
    and small: "PAGE_SIZE_IN_BYTES * n \<le> MAX_RW_COUNT" and kv: "page_fits kv"
  obtains s' where "iw_put xxh io m1 m2 fd kv s = Inr s'" "iw_rep xxh n fd i st0 s' (pairs @ [kv])"
  | e where "iw_put xxh io m1 m2 fd kv s = Inl e" "\<not> io_succeeds io"
proof -
  obtain kvss0 kvss cur where inv: "iw_inv xxh n fd i st0 s kvss0 kvss cur" "concat kvss0 @ concat kvss @ cur = pairs"
    using rep by (auto simp: iw_rep_def)
  show ?thesis
  proof (cases rule: write_item_cases [OF inv(1) kv])
    case (1 wb m kvss' cur')
    then have "iw_rep xxh n fd i st0 (s\<lparr>iw_buffer := wb, iw_meta := m\<rparr>) (pairs @ [kv])"
      unfolding iw_rep_def using inv(2) by (intro exI [of _ kvss0] exI [of _ kvss'] exI [of _ cur']) auto
    with 1(1) show ?thesis using that(1) by (simp add: iw_put_def)
  next
    case (2 e wb m)
    let ?s = "s\<lparr>iw_buffer := wb, iw_meta := m\<rparr>"
    show ?thesis
    proof (cases rule: iw_flush_full [OF io 2(2) small, of m1])
      case (1 s1)
      show ?thesis
      proof (cases rule: write_item_cases [OF 1(2) kv])
        case (1 wb' m' kvss' cur')
        then have "iw_rep xxh n fd i st0 (s1\<lparr>iw_buffer := wb', iw_meta := m'\<rparr>) (pairs @ [kv])"
          unfolding iw_rep_def using inv(2)
          by (intro exI [of _ "kvss0 @ kvss @ [cur]"] exI [of _ kvss'] exI [of _ cur']) auto
        with 1(1) show ?thesis
          using that(1) \<open>write_item _ _ _ _ = (Inl e, wb, m)\<close> \<open>iw_flush _ _ _ _ _ = Inr s1\<close> by (simp add: iw_put_def)
      qed simp
    next
      case (2 e')
      then show ?thesis using that(2) \<open>write_item _ _ _ _ = (Inl e, wb, m)\<close> by (simp add: iw_put_def)
    qed
  qed
qed

lemma iw_finish_rep:
  assumes io: "kernel_ok io" and rep: "iw_rep xxh n fd i st0 s pairs"
    and small: "PAGE_SIZE_IN_BYTES * n \<le> MAX_RW_COUNT"
  obtains s' kvss where "iw_finish xxh io msg fd s = Inr s'" "iw_file xxh fd i st0 s' kvss" "concat kvss = pairs"
      "iw_meta s' = (map (last_key_of []) kvss, meta_image (map (last_key_of []) kvss))"
      "wb_indexed_kvs (iw_buffer s') = length pairs"
  | e where "iw_finish xxh io msg fd s = Inl e" "\<not> io_succeeds io"
proof -
  obtain kvss0 kvss cur where inv: "iw_inv xxh n fd i st0 s kvss0 kvss cur"
      and pairs: "concat kvss0 @ concat kvss @ cur = pairs" "cur = [] \<longrightarrow> pairs = []"
    using rep by (auto simp: iw_rep_def)
  let ?w = "wb_writer (iw_buffer s)"
  have w: "writer_inv xxh n ?w (wb_buf (iw_buffer s)) kvss cur" and file_inv: "iw_file xxh fd i st0 s kvss0"
    and buf: "iw_buffered n s (kvss0 @ kvss) (concat kvss0 @ concat kvss @ cur)"
    using inv by (simp_all add: iw_inv_def)
  have count: "e_kvs_count (w_enc ?w) = of_nat (length cur)" and last: "e_last_key (w_enc ?w) = last_key_of [] cur"
    and pos: "w_cur ?w = PAGE_SIZE_IN_BYTES * length kvss" "w_begin ?w = 0"
    using w buf by (auto simp: writer_inv_def encoder_inv_def iw_buffered_def)
  show ?thesis
  proof (cases "cur = []")
    case True
    then have "kvss0 = []" "kvss = []"
      using pairs file_inv w by (cases kvss0; cases kvss; auto simp: iw_file_def writer_inv_def)+
    moreover have "iw_finish xxh io msg fd s = Inr s"
      using True count pos \<open>kvss = []\<close> by (simp add: iw_finish_def wb_empty_def writer_empty_def)
    ultimately show ?thesis
      using that(1) [of s "[]"] file_inv buf pairs True by (simp add: iw_buffered_def)
  next
    case False
    have small_count: "length cur < 2 ^ 32"
      using length_entries_image [of cur "restart_group_size default_block_config" 0 "[]"] w
      by (auto simp: writer_inv_def encoder_inv_def block_space_def PAGE_SIZE_IN_BYTES_def)
    have "e_kvs_count (w_enc ?w) \<noteq> 0"
      using False small_count by (auto simp: count word_of_nat_eq_0_iff dest: dvd_imp_le)
    then have finish: "iw_finish xxh io msg fd s = iw_flush xxh io msg fd (s\<lparr>iw_meta := add_meta_key (last_key_of [] cur) (iw_meta s)\<rparr>)"
      by (simp add: iw_finish_def wb_empty_def writer_empty_def last)
    have full: "iw_full xxh n fd i st0 (s\<lparr>iw_meta := add_meta_key (last_key_of [] cur) (iw_meta s)\<rparr>) kvss0 kvss cur"
      using file_inv buf writer_inv_ready [OF w] False add_meta_key_last [of cur "kvss0 @ kvss"]
      by (simp add: iw_full_def iw_file_def iw_buffered_def)
    show ?thesis
    proof (cases rule: iw_flush_full [OF io full small, of msg])
      case (1 s')
      then have s': "iw_file xxh fd i st0 s' (kvss0 @ kvss @ [cur])" "iw_buffered n s' (kvss0 @ kvss @ [cur]) pairs"
        using pairs(1) by (simp_all add: iw_inv_def)
      show ?thesis
        using that(1) [OF _ s'(1)] s'(2) 1(1) finish pairs(1) by (simp add: iw_buffered_def)
    next
      case (2 e)
      then show ?thesis using that(2) finish by simp
    qed
  qed
qed

end
