(* ===== verification/Quotient_Packing.thy ===== *)
theory Quotient_Packing
  imports Quotient_Filter
begin

text \<open>
  The packed table of the quotient filter read as an array of elements: a write to one element is
  read back, masked to the element's width, and changes no other element. The accesses stay inside
  the table. \<open>tbit t b\<close> is bit \<open>b\<close> of the whole table.
\<close>

definition tbit :: "u64 list \<Rightarrow> nat \<Rightarrow> bool" where
  "tbit t b \<longleftrightarrow> bit (t ! (b div 64)) (b mod 64)"

text \<open>
  \<open>qf_shape q r qf\<close>: the fields that never change, for a filter of \<open>2 ^ q\<close> elements with remainders
  of \<open>r\<close> bits.
\<close>

definition qf_shape :: "nat \<Rightarrow> nat \<Rightarrow> qf \<Rightarrow> bool" where
  "qf_shape q r qf \<longleftrightarrow> 0 < q \<and> q < 32 \<and> 0 < r \<and> q + r \<le> 56 \<and> unat (qf_qbits qf) = q \<and> unat (qf_rbits qf) = r
     \<and> unat (qf_elem_bits qf) = r + 3
     \<and> qf_index_mask qf = mask q \<and> qf_rmask qf = mask r \<and> qf_elem_mask qf = mask (r + 3) \<and> qf_max_size qf = 2 ^ q
     \<and> (r + 3) * 2 ^ q \<le> 64 * length (qf_table qf)"

lemma LOW_MASK_mask: "LOW_MASK n = mask n"
  by (simp add: LOW_MASK_def mask_eq_decr_exp)

lemma elem_bound:
  assumes "qf_shape q r qf" "i < 2 ^ q" "k < r + 3"
  shows "(r + 3) * i + k < (r + 3) * 2 ^ q" "(r + 3) * i + k < 64 * length (qf_table qf)"
proof -
  have "(r + 3) * i + k < (r + 3) * Suc i" using assms(3) by simp
  also have "\<dots> \<le> (r + 3) * 2 ^ q" using assms(2) by (intro mult_le_mono2) simp
  finally show "(r + 3) * i + k < (r + 3) * 2 ^ q" .
  then show "(r + 3) * i + k < 64 * length (qf_table qf)" using assms(1) by (simp add: qf_shape_def)
qed

lemma bitpos:
  assumes shape: "qf_shape q r qf" and i: "i < 2 ^ q"
  shows "unat (ucast (qf_elem_bits qf) * of_nat i :: u64) = (r + 3) * i"
proof -
  have q: "q + r \<le> 56" and n: "unat (qf_elem_bits qf) = r + 3" using shape by (simp_all add: qf_shape_def)
  have "(2 :: nat) ^ q \<le> 2 ^ 56" by (rule power_increasing) (use q in simp_all)
  then have "i < 2 ^ 56" using i by simp
  then have "(r + 3) * i \<le> 59 * 2 ^ 56" using q by (intro mult_le_mono) simp_all
  then have lt: "(r + 3) * i < 2 ^ 64" by simp
  have "unat (ucast (qf_elem_bits qf) :: u64) = take_bit 64 (r + 3)"
    by (simp add: unsigned_ucast_eq n)
  also have "\<dots> = r + 3" using q by (intro take_bit_nat_eq_self) simp
  finally have "unat (ucast (qf_elem_bits qf) :: u64) = r + 3" .
  moreover have "unat (of_nat i :: u64) = i"
    using \<open>i < 2 ^ 56\<close> by (simp add: unsigned_of_nat take_bit_nat_eq_self)
  ultimately show ?thesis
    using lt iffD1 [OF unat_mult_lem, of "ucast (qf_elem_bits qf) :: u64" "of_nat i"] by simp
qed

lemma tbit_slot:
  assumes "k + s < 128" "p = 64 * t + s" "s < 64"
  shows "tbit tab (p + k) = (if s + k < 64 then bit (tab ! t) (s + k) else bit (tab ! (t + 1)) (s + k - 64))"
proof -
  have p: "p + k = 64 * t + (s + k)" using assms(2) by simp
  show ?thesis
  proof (cases "s + k < 64")
    case True
    then show ?thesis unfolding p tbit_def by simp
  next
    case False
    define d u where "d = s + k - 64" and "u = t + 1"
    have "p + k = 64 * u + d" "d < 64" using False assms p by (simp_all add: d_def u_def)
    then show ?thesis using False unfolding tbit_def d_def [symmetric] u_def [symmetric] by simp
  qed
qed

lemma bit_beyond: "64 \<le> n \<Longrightarrow> \<not> bit (w :: u64) n"
  using bit_imp_le_length [of w n] by auto

lemma bit_get_elem:
  assumes shape: "qf_shape q r qf" and i: "i < 2 ^ q"
  shows "bit (get_elem qf (of_nat i)) k \<longleftrightarrow> k < r + 3 \<and> tbit (qf_table qf) ((r + 3) * i + k)"
proof -
  define p t s where "p = (r + 3) * i" and "t = p div 64" and "s = p mod 64"
  have n: "r + 3 \<le> 58" "unat (qf_elem_bits qf) = r + 3" "qf_elem_mask qf = mask (r + 3)"
    using shape by (auto simp: qf_shape_def)
  have pos: "unat (ucast (qf_elem_bits qf) * of_nat i div 64 :: u64) = t"
    "unat (ucast (qf_elem_bits qf) * of_nat i mod 64 :: u64) = s"
    using bitpos [OF shape i] by (simp_all add: unat_div unat_mod t_def s_def p_def)
  have p: "p = 64 * t + s" "s < 64" by (simp_all add: t_def s_def)
  have tb: "tbit (qf_table qf) (p + k) = (if s + k < 64 then bit (qf_table qf ! t) (s + k)
      else bit (qf_table qf ! (t + 1)) (s + k - 64))" if "k < r + 3"
    using that n p by (intro tbit_slot) auto
  show ?thesis
  proof (cases "k < r + 3")
    case True
    then show ?thesis
      using tb p(2) n(1) unfolding get_elem_def Let_def pos n(2,3) p_def [symmetric]
      by (cases "s + k < 64")
        (auto simp: LOW_MASK_mask bit_or_iff bit_and_iff bit_mask_iff bit_drop_bit_eq bit_push_bit_iff bit_beyond
          less_diff_conv2 add.commute)
  next
    case False
    then show ?thesis
      using p(2) unfolding get_elem_def Let_def pos n(2,3)
      by (auto simp: LOW_MASK_mask bit_or_iff bit_and_iff bit_mask_iff bit_push_bit_iff)
  qed
qed

lemma tbit_set_elem:
  assumes shape: "qf_shape q r qf" and i: "i < 2 ^ q"
  shows "tbit (qf_table (set_elem qf (of_nat i) v)) b \<longleftrightarrow>
    (if (r + 3) * i \<le> b \<and> b < (r + 3) * i + (r + 3) then bit v (b - (r + 3) * i) else tbit (qf_table qf) b)"
proof -
  define p t s where "p = (r + 3) * i" and "t = p div 64" and "s = p mod 64"
  have n: "r + 3 \<le> 58" "unat (qf_elem_bits qf) = r + 3" "qf_elem_mask qf = mask (r + 3)"
    using shape by (auto simp: qf_shape_def)
  have pos: "unat (ucast (qf_elem_bits qf) * of_nat i div 64 :: u64) = t"
    "unat (ucast (qf_elem_bits qf) * of_nat i mod 64 :: u64) = s"
    using bitpos [OF shape i] by (simp_all add: unat_div unat_mod t_def s_def p_def)
  have p: "p = 64 * t + s" "s < 64" by (simp_all add: t_def s_def)
  define tb x where "tb = b div 64" and "x = b mod 64"
  have b: "b = 64 * tb + x" "x < 64" by (simp_all add: tb_def x_def)
  have bound: "p + (r + 2) < 64 * length (qf_table qf)"
    using elem_bound(2) [OF shape i, of "r + 2"] by (simp add: p_def)
  then have len: "t < length (qf_table qf)" "s + (r + 3) > 64 \<Longrightarrow> t + 1 < length (qf_table qf)"
    using p by auto
  show ?thesis
  proof -
    consider "tb = t" | "tb = t + 1" | "tb \<noteq> t" "tb \<noteq> t + 1" by blast
    then show ?thesis
    proof cases
      case 1
      then show ?thesis
        using p b n(1) len unfolding set_elem_def Let_def pos n(2,3) p_def [symmetric] tbit_def tb_def [symmetric] x_def [symmetric]
        by (auto simp: LOW_MASK_mask bit_or_iff bit_and_iff bit_not_iff bit_mask_iff bit_drop_bit_eq bit_push_bit_iff nth_list_update)
    next
      case 2
      then show ?thesis
        using p b n(1) len unfolding set_elem_def Let_def pos n(2,3) p_def [symmetric] tbit_def tb_def [symmetric] x_def [symmetric]
        by (auto simp: LOW_MASK_mask bit_or_iff bit_and_iff bit_not_iff bit_mask_iff bit_drop_bit_eq bit_push_bit_iff nth_list_update)
    next
      case 3
      then have "\<not> (p \<le> b \<and> b < p + (r + 3))" using p b n(1) by linarith
      then show ?thesis
        using 3 unfolding set_elem_def Let_def pos n(2,3) p_def [symmetric] tbit_def tb_def [symmetric] x_def [symmetric]
        by auto
    qed
  qed
qed

lemma qf_shape_set_elem [simp]: "qf_shape q r (set_elem qf i v) = qf_shape q r qf"
  by (simp add: qf_shape_def set_elem_def Let_def)

lemma qf_entries_set_elem [simp]: "qf_entries (set_elem qf i v) = qf_entries qf"
  by (simp add: set_elem_def Let_def)

lemma qf_shape_entries [simp]: "qf_shape q r (qf\<lparr>qf_entries := n\<rparr>) = qf_shape q r qf"
  by (simp add: qf_shape_def)

lemma elem_disjoint:
  fixes n i j k :: nat
  assumes "k < n"
  shows "n * i \<le> n * j + k \<and> n * j + k < n * i + n \<longleftrightarrow> i = j"
proof (cases i j rule: linorder_cases)
  case less
  then have "n * Suc i \<le> n * j" by (intro mult_le_mono2) simp
  with less show ?thesis by simp
next
  case greater
  then have "n * Suc j \<le> n * i" by (intro mult_le_mono2) simp
  with greater assms show ?thesis by simp
qed (use assms in simp)

theorem get_set_elem:
  assumes "qf_shape q r qf" "i < 2 ^ q" "j < 2 ^ q"
  shows "get_elem (set_elem qf (of_nat i) v) (of_nat j) = (if i = j then v AND mask (r + 3) else get_elem qf (of_nat j))"
proof (rule bit_word_eqI)
  fix k
  show "bit (get_elem (set_elem qf (of_nat i) v) (of_nat j)) k =
      bit (if i = j then v AND mask (r + 3) else get_elem qf (of_nat j)) k"
    using assms elem_disjoint [of k "r + 3" i j] bit_imp_le_length [of v k]
    by (auto simp: bit_get_elem [of q r] tbit_set_elem [of q r] bit_and_iff bit_mask_iff)
qed

lemma get_elem_entries [simp]: "get_elem (qf\<lparr>qf_entries := n\<rparr>) i = get_elem qf i"
  by (simp add: get_elem_def Let_def)

lemma and_mask_of_nat: "(of_nat i :: u64) AND mask q = of_nat (i mod 2 ^ q)"
  using take_bit_of_nat [where 'a = "64 word", of q i] by (simp only: take_bit_eq_mask) (simp only: take_bit_eq_mod flip: take_bit_eq_mask)

lemma incr_of_nat: "qf_shape q r qf \<Longrightarrow> incr qf (of_nat i) = of_nat ((i + 1) mod 2 ^ q)"
  using and_mask_of_nat [of "i + 1" q] by (simp add: incr_def qf_shape_def add.commute)

lemma decr_of_nat: "qf_shape q r qf \<Longrightarrow> 0 < i \<Longrightarrow> i < 2 ^ q \<Longrightarrow> decr qf (of_nat i) = of_nat (i - 1)"
  using and_mask_of_nat [of "i - 1" q] by (simp add: decr_def qf_shape_def)

lemma decr_0: "qf_shape q r qf \<Longrightarrow> decr qf 0 = of_nat (2 ^ q - 1)"
  by (simp add: decr_def qf_shape_def mask_eq_decr_exp)

section \<open>Elements\<close>

definition mk_elt :: "bool \<Rightarrow> bool \<Rightarrow> bool \<Rightarrow> u64 \<Rightarrow> u64" where
  "mk_elt occ con shi rm = of_bool occ OR push_bit 1 (of_bool con) OR push_bit 2 (of_bool shi) OR push_bit 3 rm"

lemma bit_2_int: "bit (2 :: int) k \<longleftrightarrow> k = 1" and bit_4_int: "bit (4 :: int) k \<longleftrightarrow> k = 2"
    and bit_7_int: "bit (7 :: int) k \<longleftrightarrow> k < 3"
  using bit_exp_iff [where 'a = int, of 1 k] bit_exp_iff [where 'a = int, of 2 k] bit_mask_iff [where 'a = int, of 3 k]
  by (auto simp: mask_eq_exp_minus_1)

lemma bit_mk_elt:
  "bit (mk_elt occ con shi rm) k \<longleftrightarrow>
     (if k = 0 then occ else if k = 1 then con else if k = 2 then shi else k < 64 \<and> bit rm (k - 3))"
  by (auto simp: mk_elt_def bit_or_iff bit_push_bit_iff bit_1_iff bit_2_int bit_4_int)

lemmas elt_bits = bit_mk_elt bit_2_int bit_4_int bit_7_int bit_1_iff bit_or_iff bit_and_iff bit_not_iff

lemma flag_bits:
  "is_occupied elt \<longleftrightarrow> bit elt 0" "is_continuation elt \<longleftrightarrow> bit elt 1" "is_shifted elt \<longleftrightarrow> bit elt 2"
  "is_empty_element elt \<longleftrightarrow> \<not> bit elt 0 \<and> \<not> bit elt 1 \<and> \<not> bit elt 2"
proof -
  show "is_occupied elt \<longleftrightarrow> bit elt 0"
    using and_exp_eq_0_iff_not_bit [of elt 0] by (simp add: is_occupied_def)
  show "is_continuation elt \<longleftrightarrow> bit elt 1"
    using and_exp_eq_0_iff_not_bit [of elt 1] by (simp add: is_continuation_def)
  show "is_shifted elt \<longleftrightarrow> bit elt 2"
    using and_exp_eq_0_iff_not_bit [of elt 2] by (simp add: is_shifted_def)
  have "elt AND 7 = 0 \<longleftrightarrow> (\<forall>k < 64. \<not> (bit elt k \<and> k < 3))"
    by (simp add: bit_eq_iff [where 'a = "64 word"] bit_and_iff bit_7_int)
  also have "\<dots> \<longleftrightarrow> \<not> bit elt 0 \<and> \<not> bit elt 1 \<and> \<not> bit elt 2"
  proof
    assume h: "\<forall>k < 64. \<not> (bit elt k \<and> k < 3)"
    show "\<not> bit elt 0 \<and> \<not> bit elt 1 \<and> \<not> bit elt 2"
      using h [rule_format, of 0] h [rule_format, of 1] h [rule_format, of 2] by simp
  next
    assume h: "\<not> bit elt 0 \<and> \<not> bit elt 1 \<and> \<not> bit elt 2"
    have "\<not> bit elt k" if "k < 3" for k
    proof -
      have "k = 0 \<or> k = 1 \<or> k = 2" using that by auto
      then show ?thesis using h by auto
    qed
    then show "\<forall>k < 64. \<not> (bit elt k \<and> k < 3)" by blast
  qed
  finally show "is_empty_element elt \<longleftrightarrow> \<not> bit elt 0 \<and> \<not> bit elt 1 \<and> \<not> bit elt 2"
    unfolding is_empty_element_def .
qed

lemma elt_flags [simp]:
  "is_occupied (mk_elt occ con shi rm) \<longleftrightarrow> occ"
  "is_continuation (mk_elt occ con shi rm) \<longleftrightarrow> con"
  "is_shifted (mk_elt occ con shi rm) \<longleftrightarrow> shi"
  "is_empty_element (mk_elt occ con shi rm) \<longleftrightarrow> \<not> occ \<and> \<not> con \<and> \<not> shi"
  by (simp_all add: flag_bits bit_mk_elt)

lemma elt_updates [simp]:
  "set_occupied (mk_elt occ con shi rm) = mk_elt True con shi rm"
  "clr_occupied (mk_elt occ con shi rm) = mk_elt False con shi rm"
  "set_continuation (mk_elt occ con shi rm) = mk_elt occ True shi rm"
  "set_shifted (mk_elt occ con shi rm) = mk_elt occ con True rm"
  by (rule bit_word_eqI; simp add: set_occupied_def clr_occupied_def set_continuation_def set_shifted_def elt_bits; auto)+

lemma remainder_small:
  assumes "r \<le> 55" "rm AND mask r = (rm :: u64)"
  shows "get_remainder (mk_elt occ con shi rm) = rm" "mk_elt occ con shi rm AND mask (r + 3) = mk_elt occ con shi rm"
    "push_bit 3 rm AND NOT 7 = mk_elt False False False rm"
proof -
  have seven: "(7 :: u64) = mask 3" by (simp add: mask_eq_exp_minus_1)
  have high: "k < r" if "bit rm k" for k
    using that assms(2) by (metis bit_and_iff bit_mask_iff)
  show "get_remainder (mk_elt occ con shi rm) = rm"
    using high assms(1) by (intro bit_word_eqI) (fastforce simp: get_remainder_def bit_drop_bit_eq bit_mk_elt)
  show "mk_elt occ con shi rm AND mask (r + 3) = mk_elt occ con shi rm"
    using high by (intro bit_word_eqI) (fastforce simp: bit_and_iff bit_mask_iff bit_mk_elt)
  show "push_bit 3 rm AND NOT 7 = mk_elt False False False rm"
    unfolding seven by (intro bit_word_eqI) (auto simp: bit_and_iff bit_not_iff bit_push_bit_iff bit_mask_iff bit_mk_elt)
qed

lemma mk_elt_0: "mk_elt False False False 0 = 0"
  by (simp add: mk_elt_def)

lemma hash_parts:
  assumes "qf_shape q r qf"
  shows "hash_to_remainder qf hash AND mask r = hash_to_remainder qf hash"
    "of_nat (unat (hash_to_quotient qf hash)) = hash_to_quotient qf hash" "unat (hash_to_quotient qf hash) < 2 ^ q"
proof -
  show "hash_to_remainder qf hash AND mask r = hash_to_remainder qf hash"
    using assms by (simp add: hash_to_remainder_def qf_shape_def)
  show "of_nat (unat (hash_to_quotient qf hash)) = hash_to_quotient qf hash" by simp
  have "unat (take_bit q (drop_bit r hash)) = take_bit q (unat (drop_bit r hash))"
    by (simp add: unsigned_take_bit_eq)
  also have "\<dots> < 2 ^ q" by simp
  finally show "unat (hash_to_quotient qf hash) < 2 ^ q"
    using assms by (simp add: hash_to_quotient_def qf_shape_def take_bit_eq_mask)
qed

end
