(* ===== verification/Quotient_Layout.thy ===== *)
theory Quotient_Layout
  imports Quotient_Packing
begin

text \<open>
  What the operations of the quotient filter do to the set of fingerprints. Seen from a slot at
  which no cluster is cut, the table is determined by the sorted list of its fingerprints: each
  element stands in its canonical slot, or in the first slot after its predecessor. \<open>lay\<close> computes
  these places with the flags the table must have there. The searches of the code are shown to
  find the places \<open>lay\<close> gives, insertion to produce the table of the longer list, and the wrap
  around the end of the table is handled by moving the cut.
\<close>

section \<open>Places\<close>

text \<open>A fingerprint is a pair of a quotient and a remainder. An entry of \<open>lay\<close> is a slot with its flags and remainder.\<close>

type_synonym slot_map = "nat \<rightharpoonup> bool \<times> bool \<times> u64"

fun lay :: "nat \<Rightarrow> nat option \<Rightarrow> (nat \<times> u64) list \<Rightarrow> (nat \<times> bool \<times> bool \<times> u64) list" where
  "lay n prev [] = []"
| "lay n prev ((fq, fr) # L) = (max n fq, prev = Some fq, max n fq \<noteq> fq, fr) # lay (max n fq + 1) (Some fq) L"

fun lay_end :: "nat \<Rightarrow> (nat \<times> u64) list \<Rightarrow> nat" where
  "lay_end n [] = n"
| "lay_end n ((fq, fr) # L) = lay_end (max n fq + 1) L"

definition last_quot :: "nat option \<Rightarrow> (nat \<times> u64) list \<Rightarrow> nat option" where
  "last_quot prev A = (if A = [] then prev else Some (fst (last A)))"

lemma lay_append: "lay n prev (A @ B) = lay n prev A @ lay (lay_end n A) (last_quot prev A) B"
  by (induction n prev A rule: lay.induct) (auto simp: last_quot_def)

lemma lay_end_append [simp]: "lay_end n (A @ B) = lay_end (lay_end n A) B"
  by (induction n A rule: lay_end.induct) auto

lemma lay_end_ge: "n \<le> lay_end n A"
  by (induction n A rule: lay_end.induct) auto

lemma lay_end_mono: "m \<le> n \<Longrightarrow> lay_end m A \<le> lay_end n A"
  by (induction n A arbitrary: m rule: lay_end.induct) auto

lemma lay_slots: "p \<in> fst ` set (lay n prev A) \<Longrightarrow> n \<le> p \<and> p < lay_end n A"
proof (induction n prev A rule: lay.induct)
  case (2 n prev fq fr L)
  then show ?case using lay_end_ge [of "max n fq + 1" L] by (cases "p = max n fq") auto
qed simp

lemma lay_distinct: "distinct (map fst (lay n prev A))"
proof (induction n prev A rule: lay.induct)
  case (2 n prev fq fr L)
  then show ?case using lay_slots [of "max n fq" "max n fq + 1" "Some fq" L] by (auto simp del: set_map simp flip: image_set)
qed simp

lemma length_lay [simp]: "length (lay n prev A) = length A"
  by (induction n prev A rule: lay.induct) auto

lemma map_of_lay_append:
  "map_of (lay n prev (A @ B)) p =
     (if p < lay_end n A then map_of (lay n prev A) p else map_of (lay (lay_end n A) (last_quot prev A) B) p)"
proof -
  have "map_of (lay n prev A) p = None" if "\<not> p < lay_end n A"
    using that lay_slots [of p n prev A] by (auto simp: map_of_eq_None_iff)
  moreover have "map_of (lay (lay_end n A) (last_quot prev A) B) p = None" if "p < lay_end n A"
    using that lay_slots [of p "lay_end n A" _ B] by (fastforce simp: map_of_eq_None_iff)
  ultimately show ?thesis
    by (auto simp: lay_append map_add_def split: option.splits)
qed

lemma map_of_lay_at:
  "map_of (lay n prev (A @ (fq, fr) # B)) (max (lay_end n A) fq)
     = Some (last_quot prev A = Some fq, max (lay_end n A) fq \<noteq> fq, fr)"
  by (simp add: map_of_lay_append)

lemma lay_elem_ex:
  "map_of (lay n prev L) p = Some (con, shi, rm) \<Longrightarrow>
     \<exists>A fq B. L = A @ (fq, rm) # B \<and> p = max (lay_end n A) fq \<and> con = (last_quot prev A = Some fq) \<and> shi = (p \<noteq> fq)"
proof (induction n prev L rule: lay.induct)
  case (2 n prev fq fr L)
  show ?case
  proof (cases "p = max n fq")
    case True
    then have "(fq, fr) # L = [] @ (fq, rm) # L \<and> p = max (lay_end n []) fq
        \<and> con = (last_quot prev [] = Some fq) \<and> shi = (p \<noteq> fq)"
      using "2.prems" by (auto simp: last_quot_def)
    then show ?thesis by blast
  next
    case False
    then have "map_of (lay (max n fq + 1) (Some fq) L) p = Some (con, shi, rm)" using "2.prems" by auto
    from "2.IH" [OF this] obtain A q B where "L = A @ (q, rm) # B" "p = max (lay_end (max n fq + 1) A) q"
        "con = (last_quot (Some fq) A = Some q)" "shi = (p \<noteq> q)"
      by blast
    then have "(fq, fr) # L = ((fq, fr) # A) @ (q, rm) # B \<and> p = max (lay_end n ((fq, fr) # A)) q
        \<and> con = (last_quot prev ((fq, fr) # A) = Some q) \<and> shi = (p \<noteq> q)"
      by (simp add: last_quot_def)
    then show ?thesis by blast
  qed
qed simp

lemma lay_elem:
  assumes "map_of (lay n prev L) p = Some (con, shi, rm)"
  obtains A fq B where "L = A @ (fq, rm) # B" "p = max (lay_end n A) fq" "con = (last_quot prev A = Some fq)" "shi = (p \<noteq> fq)"
  using lay_elem_ex [OF assms] by blast

section \<open>Clusters\<close>

text \<open>
  \<open>fp_sorted\<close>: ascending in the quotient and, for one quotient, in the remainder. \<open>pre q L\<close> are the
  fingerprints with a smaller quotient, \<open>run q L\<close> those with that quotient.
\<close>

definition fp_less :: "nat \<times> u64 \<Rightarrow> nat \<times> u64 \<Rightarrow> bool" where
  "fp_less x y \<longleftrightarrow> fst x < fst y \<or> fst x = fst y \<and> snd x < snd y"

definition fp_sorted :: "(nat \<times> u64) list \<Rightarrow> bool" where
  "fp_sorted L \<longleftrightarrow> sorted_wrt fp_less L"

definition pre :: "nat \<Rightarrow> (nat \<times> u64) list \<Rightarrow> (nat \<times> u64) list" where
  "pre q L = takeWhile (\<lambda>x. fst x < q) L"

definition run :: "nat \<Rightarrow> (nat \<times> u64) list \<Rightarrow> (nat \<times> u64) list" where
  "run q L = takeWhile (\<lambda>x. fst x = q) (dropWhile (\<lambda>x. fst x < q) L)"

definition post :: "nat \<Rightarrow> (nat \<times> u64) list \<Rightarrow> (nat \<times> u64) list" where
  "post q L = dropWhile (\<lambda>x. fst x = q) (dropWhile (\<lambda>x. fst x < q) L)"

definition run_start :: "nat \<Rightarrow> (nat \<times> u64) list \<Rightarrow> nat" where
  "run_start q L = max (lay_end 0 (pre q L)) q"

lemma split_run: "L = pre q L @ run q L @ post q L"
  by (simp add: pre_def run_def post_def)

lemma fp_sorted_append: "fp_sorted (A @ B) \<longleftrightarrow> fp_sorted A \<and> fp_sorted B \<and> (\<forall>a \<in> set A. \<forall>b \<in> set B. fp_less a b)"
  by (simp add: fp_sorted_def sorted_wrt_append)

lemma fp_sorted_Cons: "fp_sorted (x # L) \<longleftrightarrow> fp_sorted L \<and> (\<forall>b \<in> set L. fp_less x b)"
  by (auto simp: fp_sorted_def)

lemma fp_less_fst: "fp_less a b \<Longrightarrow> fst a \<le> fst b"
  by (auto simp: fp_less_def)

lemma pre_fst: "x \<in> set (pre q L) \<Longrightarrow> fst x < q"
  by (auto simp: pre_def dest: set_takeWhileD)

lemma run_fst: "x \<in> set (run q L) \<Longrightarrow> fst x = q"
  by (auto simp: run_def dest: set_takeWhileD)

lemma dropWhile_pre_ge:
  assumes "fp_sorted L" "x \<in> set (dropWhile (\<lambda>x. fst x < q) L)"
  shows "q \<le> fst x"
proof -
  obtain y ys where d: "dropWhile (\<lambda>x. fst x < q) L = y # ys" using assms(2) by (cases "dropWhile (\<lambda>x. fst x < q) L") auto
  then have "\<not> fst y < q" using hd_dropWhile [of "\<lambda>x. fst x < q" L] by auto
  moreover have "fp_sorted (y # ys)"
    using assms(1) fp_sorted_append [of "takeWhile (\<lambda>x. fst x < q) L" "dropWhile (\<lambda>x. fst x < q) L"]
    unfolding d [symmetric] by simp
  ultimately show ?thesis
    using assms(2) d by (auto simp: fp_sorted_Cons dest!: bspec fp_less_fst)
qed

lemma post_fst:
  assumes "fp_sorted L" "x \<in> set (post q L)"
  shows "q < fst x"
proof -
  let ?D = "dropWhile (\<lambda>x. fst x < q) L"
  have sorted: "fp_sorted ?D"
    using assms(1) fp_sorted_append [of "takeWhile (\<lambda>x. fst x < q) L" ?D] by simp
  obtain y ys where d: "post q L = y # ys" using assms(2) by (cases "post q L") auto
  then have y: "fst y \<noteq> q" "y \<in> set ?D"
    using hd_dropWhile [of "\<lambda>x. fst x = q" ?D] set_dropWhileD [of y "\<lambda>x. fst x = q" ?D] by (auto simp: post_def)
  have "fp_sorted (y # ys)"
    using sorted fp_sorted_append [of "takeWhile (\<lambda>x. fst x = q) ?D" "post q L"] d by (simp add: post_def)
  then show ?thesis
    using y dropWhile_pre_ge [OF assms(1) y(2)] assms(2) d
    by (auto simp: fp_sorted_Cons dest!: bspec fp_less_fst)
qed

lemma fp_sorted_before: "fp_sorted (A @ x # B) \<Longrightarrow> a \<in> set A \<Longrightarrow> fst a \<le> fst x"
  by (auto simp: fp_sorted_append dest!: bspec fp_less_fst)

lemma shifted_run_start:
  assumes sorted: "fp_sorted L" and p: "map_of (lay 0 None L) p = Some (con, True, rm)"
  shows "p < lay_end 0 (pre p L)"
proof -
  obtain A fq B where L: "L = A @ (fq, rm) # B" "p = max (lay_end 0 A) fq" "p \<noteq> fq"
    using lay_elem [OF p] by metis
  then have less: "fq < p" by simp
  then have "\<forall>a \<in> set A. fst a < p"
    using fp_sorted_before [of A "(fq, rm)" B] sorted L(1) by fastforce
  then have "pre p L = A @ (fq, rm) # takeWhile (\<lambda>x. fst x < p) B"
    using less by (simp add: pre_def L(1))
  then have "lay_end 0 (pre p L) = lay_end (Suc p) (takeWhile (\<lambda>x. fst x < p) B)"
    using L(2) by simp
  then show ?thesis
    using lay_end_ge [of "Suc p" "takeWhile (\<lambda>x. fst x < p) B"] by simp
qed

lemma unshifted_run_start:
  assumes sorted: "fp_sorted L" and p: "map_of (lay 0 None L) p = Some (con, False, rm)"
  shows "lay_end 0 (pre p L) \<le> p" "run_start p L = p"
proof -
  obtain A B where L: "L = A @ (p, rm) # B" "p = max (lay_end 0 A) p"
    using lay_elem [OF p] by metis
  have "pre p L = takeWhile (\<lambda>x. fst x < p) A"
    by (simp add: L(1) pre_def takeWhile_append) (metis takeWhile_eq_all_conv)
  then have "lay_end 0 A = lay_end (lay_end 0 (pre p L)) (dropWhile (\<lambda>x. fst x < p) A)"
    using lay_end_append [of 0 "takeWhile (\<lambda>x. fst x < p) A" "dropWhile (\<lambda>x. fst x < p) A"] by simp
  then show le: "lay_end 0 (pre p L) \<le> p"
    using lay_end_ge [of "lay_end 0 (pre p L)"] L(2) by (metis le_trans max.cobounded1)
  then show "run_start p L = p" by (simp add: run_start_def)
qed

lemma shifted_used_before:
  assumes "map_of (lay 0 None L) p = Some (con, True, rm)"
  shows "0 < p" "map_of (lay 0 None L) (p - 1) \<noteq> None"
proof -
  obtain A fq B where L: "L = A @ (fq, rm) # B" "p = max (lay_end 0 A) fq" "p \<noteq> fq"
    using lay_elem [OF assms] by metis
  then have ends: "p = lay_end 0 A" "0 < p" by auto
  then obtain A' a b where A: "A = A' @ [(a, b)]" by (cases A rule: rev_cases) auto
  then have "p - 1 = max (lay_end 0 A') a" using ends by simp
  then show "0 < p" "map_of (lay 0 None L) (p - 1) \<noteq> None"
    using ends map_of_lay_at [of 0 None A' a b "(fq, rm) # B"] by (simp_all add: L(1) A)
qed

lemma end_used:
  assumes "\<forall>a \<in> set A. fst a < p" "p < lay_end 0 A"
  shows "map_of (lay 0 None A) p \<noteq> None"
  using assms
proof (induction A rule: rev_induct)
  case (snoc x A)
  obtain a b where x: "x = (a, b)" by (cases x)
  show ?case
  proof (cases "p = max (lay_end 0 A) a")
    case True
    then show ?thesis using map_of_lay_at [of 0 None A a b "[]"] by (simp add: x)
  next
    case False
    then have "p < lay_end 0 A" using snoc.prems x by (auto simp: max_def split: if_splits)
    then show ?thesis using snoc by (simp add: map_of_lay_append)
  qed
qed simp

lemma map_of_lay_pre: "p < lay_end 0 (pre q L) \<Longrightarrow> map_of (lay 0 None L) p = map_of (lay 0 None (pre q L)) p"
  by (subst split_run [of L q]) (simp add: map_of_lay_append)

lemma unused_run_start: "map_of (lay 0 None L) p = None \<Longrightarrow> lay_end 0 (pre p L) \<le> p"
  using end_used [of "pre p L" p] map_of_lay_pre [of p p L] pre_fst [of _ p L] by force

text \<open>A slot whose quotient occurs is in use.\<close>

lemma quotient_used:
  assumes "(fq, fr) \<in> set L" "fp_sorted L"
  shows "map_of (lay 0 None L) fq \<noteq> None"
proof (cases "lay_end 0 (pre fq L) \<le> fq")
  case True
  have "(fq, fr) \<in> set (run fq L)"
    using assms split_run [of L fq] pre_fst [of "(fq, fr)" fq L] post_fst [OF assms(2), of "(fq, fr)" fq]
    by (metis Un_iff fst_conv less_irrefl set_append)
  then obtain x xs where run: "run fq L = x # xs" by (cases "run fq L") auto
  then have "x = (fq, snd x)" using run_fst [of x fq L] by (cases x) auto
  then have "L = pre fq L @ (fq, snd x) # xs @ post fq L" using split_run [of L fq] run by (metis append_Cons)
  then show ?thesis
    using map_of_lay_at [of 0 None "pre fq L" fq "snd x" "xs @ post fq L"] True by (simp add: max_absorb2)
next
  case False
  then show ?thesis using unused_run_start [of L fq] by blast
qed

section \<open>Tables\<close>

text \<open>
  \<open>idx q c p\<close> is the slot \<open>p\<close> places after the cut \<open>c\<close>. \<open>tab_is q qf c Q M\<close>: from the cut on, the table has
  the flags and remainders of \<open>M\<close>, and the slots in \<open>Q\<close> are marked as occupied.
\<close>

definition idx :: "nat \<Rightarrow> nat \<Rightarrow> nat \<Rightarrow> u64" where
  "idx q c p = of_nat ((c + p) mod 2 ^ q)"

definition slot_elt :: "nat set \<Rightarrow> slot_map \<Rightarrow> nat \<Rightarrow> u64" where
  "slot_elt Q M p =
     (case M p of None \<Rightarrow> mk_elt (p \<in> Q) False False 0 | Some (con, shi, rm) \<Rightarrow> mk_elt (p \<in> Q) con shi rm)"

definition tab_is :: "nat \<Rightarrow> qf \<Rightarrow> nat \<Rightarrow> nat set \<Rightarrow> slot_map \<Rightarrow> bool" where
  "tab_is q qf c Q M \<longleftrightarrow> (\<forall>p < 2 ^ q. get_elem qf (idx q c p) = slot_elt Q M p)"

lemma idx_incr: "qf_shape q r qf \<Longrightarrow> incr qf (idx q c p) = idx q c (Suc p)"
  by (simp add: idx_def incr_of_nat mod_Suc_eq)

lemma idx_funpow: "qf_shape q r qf \<Longrightarrow> (incr qf ^^ j) (idx q c p) = idx q c (p + j)"
  by (induction j) (simp_all add: idx_incr)

lemma idx_decr:
  assumes "qf_shape q r qf" "0 < p"
  shows "decr qf (idx q c p) = idx q c (p - 1)"
proof (cases "(c + p) mod 2 ^ q = 0")
  case True
  have "(c + (p - 1)) mod 2 ^ q = 2 ^ q - 1"
    using True assms(2) mod_Suc [of "c + (p - 1)" "2 ^ q"] by (auto split: if_splits)
  then show ?thesis using True decr_0 [OF assms(1)] by (simp add: idx_def)
next
  case False
  have "(c + (p - 1)) mod 2 ^ q = (c + p) mod 2 ^ q - 1"
    using False assms(2) mod_Suc [of "c + (p - 1)" "2 ^ q"] by (auto split: if_splits)
  then show ?thesis
    using False decr_of_nat [OF assms(1), of "(c + p) mod 2 ^ q"] by (simp add: idx_def)
qed

lemma unat_idx:
  assumes "qf_shape q r qf"
  shows "unat (idx q c p) = (c + p) mod 2 ^ q"
proof -
  have "(2 :: nat) ^ q \<le> 2 ^ 64" by (rule power_increasing) (use assms in \<open>simp_all add: qf_shape_def\<close>)
  moreover have "(c + p) mod 2 ^ q < 2 ^ q" by simp
  ultimately have "(c + p) mod 2 ^ q < 2 ^ 64" by (rule order.strict_trans2 [rotated])
  then show ?thesis by (simp add: idx_def unsigned_of_nat take_bit_nat_eq_self)
qed

lemma mod_add_inj:
  fixes c n :: nat
  assumes "(c + p) mod n = (c + p') mod n" "p \<le> p'" "p' < n"
  shows "p = p'"
proof -
  have "n dvd (c + p') - (c + p)"
    using assms(1,2) mod_eq_dvd_iff_nat [of "c + p" "c + p'" n] by simp
  then have "p' - p = 0" using assms(3) nat_dvd_not_less [of "p' - p" n] by (cases "p' - p = 0") auto
  then show ?thesis using assms(2) by simp
qed

lemma idx_inject:
  assumes "qf_shape q r qf" "p < 2 ^ q" "p' < 2 ^ q"
  shows "idx q c p = idx q c p' \<longleftrightarrow> p = p'"
  using mod_add_inj [of c p "2 ^ q" p'] mod_add_inj [of c p' "2 ^ q" p] assms unat_idx [OF assms(1), of c]
  by (metis nat_le_linear)

lemma idx_wrap: "idx q c (2 ^ q) = idx q c 0"
  by (simp add: idx_def)

lemma while_option_steps:
  "(\<forall>j < k. b ((f ^^ j) x)) \<Longrightarrow> \<not> b ((f ^^ k) x) \<Longrightarrow> while_option b f x = Some ((f ^^ k) x)"
proof (induction k arbitrary: x)
  case 0
  then show ?case by (subst while_option_unfold) simp
next
  case (Suc k)
  have "while_option b f (f x) = Some ((f ^^ k) (f x))"
    using Suc.prems(1) [rule_format, of "Suc _"] Suc.prems(2) by (intro Suc.IH) (auto simp: funpow_swap1)
  then show ?case
    using Suc.prems(1) [rule_format, of 0] by (subst while_option_unfold) (simp add: funpow_swap1)
qed

lemma next_where_steps:
  assumes "qf_shape q r qf" "0 < k" "\<forall>j. 0 < j \<and> j < k \<longrightarrow> P (get_elem qf (idx q c (p + j)))"
    "\<not> P (get_elem qf (idx q c (p + k)))"
  shows "next_where qf P (idx q c p) = Some (idx q c (p + k))"
proof -
  have "while_option (\<lambda>s. P (get_elem qf s)) (incr qf) (idx q c (Suc p)) = Some ((incr qf ^^ (k - 1)) (idx q c (Suc p)))"
  proof (rule while_option_steps)
    show "\<forall>j < k - 1. P (get_elem qf ((incr qf ^^ j) (idx q c (Suc p))))"
    proof (intro allI impI)
      fix j assume "j < k - 1"
      then show "P (get_elem qf ((incr qf ^^ j) (idx q c (Suc p))))"
        using assms(3) [rule_format, of "Suc j"] assms(2) by (simp add: idx_funpow [OF assms(1)])
    qed
    show "\<not> P (get_elem qf ((incr qf ^^ (k - 1)) (idx q c (Suc p))))"
      using assms(2,4) by (simp add: idx_funpow [OF assms(1)])
  qed
  then show ?thesis
    using assms(2) by (simp add: next_where_def idx_incr [OF assms(1)] idx_funpow [OF assms(1)])
qed

lemma get_elem_tab: "tab_is q qf c Q M \<Longrightarrow> p < 2 ^ q \<Longrightarrow> get_elem qf (idx q c p) = slot_elt Q M p"
  by (simp add: tab_is_def)

lemma slot_elt_flags [simp]:
  "is_occupied (slot_elt Q M p) \<longleftrightarrow> p \<in> Q"
  "is_continuation (slot_elt Q M p) \<longleftrightarrow> (\<exists>shi rm. M p = Some (True, shi, rm))"
  "is_shifted (slot_elt Q M p) \<longleftrightarrow> (\<exists>con rm. M p = Some (con, True, rm))"
  "is_empty_element (slot_elt Q M p) \<longleftrightarrow> p \<notin> Q \<and> (M p = None \<or> (\<exists>rm. M p = Some (False, False, rm)))"
  by (auto simp: slot_elt_def split: option.splits)

lemma slot_elt_cong: "M p = M' p' \<Longrightarrow> (p \<in> Q \<longleftrightarrow> p' \<in> Q') \<Longrightarrow> slot_elt Q M p = slot_elt Q' M' p'"
  by (simp add: slot_elt_def split: option.splits)

text \<open>A write to one slot.\<close>

lemma get_set_idx:
  assumes "qf_shape q r qf" "p < 2 ^ q" "p' < 2 ^ q"
  shows "get_elem (set_elem qf (idx q c p) v) (idx q c p') = (if p = p' then v AND mask (r + 3) else get_elem qf (idx q c p'))"
proof -
  have "(c + p) mod 2 ^ q = (c + p') mod 2 ^ q \<longleftrightarrow> p = p'"
    using idx_inject [OF assms, of c] by (metis idx_def)
  then show ?thesis
    using get_set_elem [OF assms(1), of "(c + p) mod 2 ^ q" "(c + p') mod 2 ^ q" v] by (simp add: idx_def)
qed

definition masked :: "nat \<Rightarrow> slot_map \<Rightarrow> bool" where
  "masked r M \<longleftrightarrow> (\<forall>con shi rm p. M p = Some (con, shi, rm) \<longrightarrow> rm AND mask r = rm)"

lemma set_elem_tab:
  assumes shape: "qf_shape q r qf" and tab: "tab_is q qf c Q M" and p: "p < 2 ^ q" and rm: "rm AND mask r = rm"
  shows "tab_is q (set_elem qf (idx q c p) (mk_elt occ con shi rm)) c (if occ then insert p Q else Q - {p}) (M(p \<mapsto> (con, shi, rm)))"
  unfolding tab_is_def
proof (intro allI impI)
  fix p' :: nat
  assume p': "p' < 2 ^ q"
  have "r \<le> 55" using shape by (simp add: qf_shape_def)
  then show "get_elem (set_elem qf (idx q c p) (mk_elt occ con shi rm)) (idx q c p')
      = slot_elt (if occ then insert p Q else Q - {p}) (M(p \<mapsto> (con, shi, rm))) p'"
    using get_set_idx [OF shape p p', of c] remainder_small(2) [OF _ rm, of occ con shi] get_elem_tab [OF tab p']
    by (auto simp: slot_elt_def split: option.splits)
qed

section \<open>Finding a run\<close>

text \<open>
  What the searches rely on: a table that has the elements of a sorted list at their places, with
  at least the quotients of the list marked.
\<close>

definition layout :: "nat \<Rightarrow> nat \<Rightarrow> qf \<Rightarrow> nat \<Rightarrow> nat set \<Rightarrow> (nat \<times> u64) list \<Rightarrow> bool" where
  "layout q r qf c Q L \<longleftrightarrow> qf_shape q r qf \<and> fp_sorted L \<and> lay_end 0 L \<le> 2 ^ q
     \<and> (\<forall>x \<in> set L. fst x < 2 ^ q \<and> snd x AND mask r = snd x)
     \<and> fst ` set L \<subseteq> Q \<and> tab_is q qf c Q (map_of (lay 0 None L))"

lemma layout_shape: "layout q r qf c Q L \<Longrightarrow> qf_shape q r qf"
  by (simp add: layout_def)

lemma layout_elem:
  "layout q r qf c Q L \<Longrightarrow> p < 2 ^ q \<Longrightarrow> get_elem qf (idx q c p) = slot_elt Q (map_of (lay 0 None L)) p"
  by (simp add: layout_def get_elem_tab)

lemma lay_first: "map_of (lay 0 None L) 0 = Some (con, shi, rm) \<Longrightarrow> \<not> con \<and> \<not> shi"
proof (elim lay_elem)
  fix A fq B
  assume h: "L = A @ (fq, rm) # B" "0 = max (lay_end 0 A) fq" "con = (last_quot None A = Some fq)" "shi = (0 \<noteq> fq)"
  then have "lay_end 0 A = 0" by simp
  have "A = []"
  proof (rule ccontr)
    assume "A \<noteq> []"
    then obtain a b A' where "A = (a, b) # A'" by (cases A) auto
    then show False using lay_end_ge [of "Suc a" A'] \<open>lay_end 0 A = 0\<close> by simp
  qed
  then show "\<not> con \<and> \<not> shi" using h by (simp add: last_quot_def)
qed

lemma lay_end_run: "\<forall>x \<in> set R. fst x = b \<Longrightarrow> lay_end n R = (if R = [] then n else max n b + length R)"
proof (induction R arbitrary: n)
  case (Cons x R)
  then have "lay_end n (x # R) = lay_end (max n b + 1) R" by (cases x) simp
  then show ?case using Cons by (auto simp: max_def)
qed simp

lemma lay_run_slot:
  assumes "k < length (run b L)"
  shows "map_of (lay 0 None L) (run_start b L + k) = Some (0 < k, run_start b L + k \<noteq> b, snd (run b L ! k))"
proof -
  let ?A = "pre b L @ take k (run b L)"
  have k: "run b L ! k = (b, snd (run b L ! k))"
    using run_fst [OF nth_mem [OF assms]] by (cases "run b L ! k") simp
  have L: "L = ?A @ (b, snd (run b L ! k)) # drop (Suc k) (run b L) @ post b L"
    using split_run [of L b] id_take_nth_drop [OF assms] k by (metis append.assoc append_Cons)
  have "lay_end 0 ?A = (if k = 0 then lay_end 0 (pre b L) else run_start b L + k)"
  proof -
    have "\<forall>x \<in> set (take k (run b L)). fst x = b" by (meson in_set_takeD run_fst)
    from lay_end_run [OF this, of "lay_end 0 (pre b L)"] show ?thesis
      using assms by (auto simp: run_start_def)
  qed
  then have slot: "max (lay_end 0 ?A) b = run_start b L + k" by (auto simp: run_start_def)
  have prev: "last_quot None ?A = Some b \<longleftrightarrow> 0 < k"
  proof (cases "k = 0")
    case True
    then show ?thesis
      using pre_fst [of "last (pre b L)" b L] by (auto simp: last_quot_def)
  next
    case False
    then have "take k (run b L) \<noteq> []" using assms by auto
    then have "last (take k (run b L)) \<in> set (run b L)" by (meson in_set_takeD last_in_set)
    then show ?thesis
      using False \<open>take k (run b L) \<noteq> []\<close> run_fst by (simp add: last_quot_def)
  qed
  show ?thesis
    using map_of_lay_at [of 0 None ?A b "snd (run b L ! k)" "drop (Suc k) (run b L) @ post b L"]
    unfolding L [symmetric] slot prev .
qed

lemma lay_after_run:
  assumes "fp_sorted L" "run b L \<noteq> []" "map_of (lay 0 None L) (run_start b L + length (run b L)) = Some (con, shi, rm)"
  shows "\<not> con"
proof -
  let ?A = "pre b L @ run b L" and ?s = "run_start b L + length (run b L)"
  have ends: "lay_end 0 ?A = ?s"
    using assms(2) lay_end_run [of "run b L" b] run_fst [of _ b L] by (simp add: run_start_def)
  have prev: "last_quot None ?A = Some b"
    using assms(2) run_fst [OF last_in_set [OF assms(2)]] by (simp add: last_quot_def)
  have "map_of (lay 0 None (?A @ post b L)) ?s = Some (con, shi, rm)"
    using assms(3) by (simp flip: split_run)
  then have "map_of (lay ?s (Some b) (post b L)) ?s = Some (con, shi, rm)"
    unfolding map_of_lay_append ends prev by simp
  then obtain A' fq B where B: "post b L = A' @ (fq, rm) # B" "?s = max (lay_end ?s A') fq" "con = (last_quot (Some b) A' = Some fq)"
    by (rule lay_elem)
  have "A' = []"
  proof (rule ccontr)
    assume "A' \<noteq> []"
    then obtain x A'' where "A' = x # A''" by (cases A') auto
    then show False using B(2) lay_end_ge [of "max ?s (fst x) + 1" A''] by (cases x) auto
  qed
  moreover have "b < fq" using post_fst [OF assms(1), of "(fq, rm)" b] B(1) by simp
  ultimately show ?thesis using B(3) by (simp add: last_quot_def)
qed

lemma run_nonempty: "fp_sorted L \<Longrightarrow> (b, rm) \<in> set L \<Longrightarrow> run b L \<noteq> []"
  using split_run [of L b] pre_fst [of "(b, rm)" b L] post_fst [of L "(b, rm)" b]
  by (metis Un_iff append_Nil fst_conv less_irrefl set_append)

lemma run_slots_bound:
  assumes "layout q r qf c Q L"
  shows "run_start b L + length (run b L) \<le> 2 ^ q \<or> run b L = []"
proof (cases "run b L = []")
  case False
  have "lay_end 0 (pre b L @ run b L) = run_start b L + length (run b L)"
    using False lay_end_run [of "run b L" b] run_fst [of _ b L] by (simp add: run_start_def)
  moreover have "lay_end 0 L = lay_end (lay_end 0 (pre b L @ run b L)) (post b L)"
    by (subst split_run [of L b]) simp
  ultimately show ?thesis
    using lay_end_ge [of "lay_end 0 (pre b L @ run b L)" "post b L"] assms by (simp add: layout_def)
qed simp

lemma not_continuation_after:
  assumes lay: "layout q r qf c Q L" and b: "run b L \<noteq> []"
  shows "\<not> is_continuation (get_elem qf (idx q c (run_start b L + length (run b L))))"
proof (cases "run_start b L + length (run b L) = 2 ^ q")
  case True
  then show ?thesis
    using layout_elem [OF lay, of 0] lay_first [of L] by (auto simp: idx_wrap)
next
  case False
  then show ?thesis
    using run_slots_bound [OF lay, of b] b layout_elem [OF lay, of "run_start b L + length (run b L)"]
      lay_after_run [OF _ b] lay by (auto simp: layout_def)
qed

lemma next_run:
  assumes lay: "layout q r qf c Q L" and b: "run b L \<noteq> []"
  shows "next_where qf is_continuation (idx q c (run_start b L)) = Some (idx q c (run_start b L + length (run b L)))"
proof (rule next_where_steps [OF layout_shape [OF lay]])
  let ?s = "run_start b L" and ?n = "length (run b L)"
  have bound: "?s + ?n \<le> 2 ^ q" using run_slots_bound [OF lay, of b] b by simp
  show "0 < ?n" using b by simp
  show "\<forall>j. 0 < j \<and> j < ?n \<longrightarrow> is_continuation (get_elem qf (idx q c (?s + j)))"
    using bound by (simp add: layout_elem [OF lay] lay_run_slot)
  show "\<not> is_continuation (get_elem qf (idx q c (?s + ?n)))"
    by (rule not_continuation_after [OF lay b])
qed

lemma pre_next:
  assumes "fp_sorted L" "b < b'" "\<forall>x \<in> set L. b < fst x \<longrightarrow> b' \<le> fst x"
  shows "pre b' L = pre b L @ run b L"
proof -
  have "takeWhile (\<lambda>x. fst x < b') (post b L) = []"
  proof (cases "post b L")
    case (Cons y ys)
    then have "y \<in> set L" "b < fst y"
      using arg_cong [OF split_run [of L b], of set] post_fst [OF assms(1), of y b] by auto
    then show ?thesis using Cons assms(3) by auto
  qed simp
  moreover have "\<forall>x \<in> set (pre b L @ run b L). fst x < b'"
    using less_trans [OF pre_fst [of _ b L] assms(2)] run_fst [of _ b L] assms(2) by auto
  ultimately have "takeWhile (\<lambda>x. fst x < b') ((pre b L @ run b L) @ post b L) = pre b L @ run b L"
    by (subst takeWhile_append2) auto
  then show ?thesis unfolding pre_def [of b'] by (simp flip: split_run)
qed

lemma run_start_next:
  assumes "fp_sorted L" "b < b'" "\<forall>x \<in> set L. b < fst x \<longrightarrow> b' \<le> fst x" "run b L \<noteq> []"
    and "map_of (lay 0 None L) b' = Some (con, True, rm)"
  shows "run_start b' L = run_start b L + length (run b L)"
proof -
  have "lay_end 0 (pre b' L) = run_start b L + length (run b L)"
    using pre_next [OF assms(1-3)] assms(4) lay_end_run [of "run b L" b] run_fst [of _ b L] by (simp add: run_start_def)
  then show ?thesis
    using shifted_run_start [OF assms(1,5)] by (simp add: run_start_def)
qed

lemma find_run_layout:
  assumes lay: "layout q r qf c Q L" and fq: "fq < 2 ^ q" "fq \<in> Q" "Q \<subseteq> insert fq (fst ` set L)"
    and shifted: "\<forall>p. b < p \<and> p \<le> fq \<longrightarrow> (\<exists>con rm. map_of (lay 0 None L) p = Some (con, True, rm))"
    and b: "b \<le> fq" "b = fq \<or> run b L \<noteq> []"
  shows "find_run qf (idx q c fq) (idx q c b) (idx q c (run_start b L)) = Some (idx q c (run_start fq L))"
  using shifted b
proof (induction "fq - b" arbitrary: b rule: less_induct)
  case less
  have shape: "qf_shape q r qf" and sorted: "fp_sorted L" and Q: "fst ` set L \<subseteq> Q"
    using lay by (auto simp: layout_def)
  show ?case
  proof (cases "b = fq")
    case True
    then show ?thesis by (subst find_run.simps) simp
  next
    case False
    then have b: "b < fq" "run b L \<noteq> []" using less.prems by auto
    define b' where "b' = (LEAST x. x \<in> Q \<and> b < x)"
    have b': "b' \<in> Q" "b < b'" "b' \<le> fq"
      using LeastI [of "\<lambda>x. x \<in> Q \<and> b < x" fq] Least_le [of "\<lambda>x. x \<in> Q \<and> b < x" fq] b fq(2)
      by (auto simp: b'_def)
    have least: "b' \<le> x" if "x \<in> Q" "b < x" for x
      using Least_le [of "\<lambda>x. x \<in> Q \<and> b < x" x] that by (simp add: b'_def)
    have occ: "next_where qf (\<lambda>e. \<not> is_occupied e) (idx q c b) = Some (idx q c (b + (b' - b)))"
    proof (rule next_where_steps [OF shape])
      show "\<forall>j. 0 < j \<and> j < b' - b \<longrightarrow> \<not> is_occupied (get_elem qf (idx q c (b + j)))"
      proof (intro allI impI)
        fix j assume j: "0 < j \<and> j < b' - b"
        then have "b + j \<notin> Q" "b + j < 2 ^ q" using least [of "b + j"] b' fq(1) by auto
        then show "\<not> is_occupied (get_elem qf (idx q c (b + j)))"
          by (simp add: layout_elem [OF lay])
      qed
    qed (use b' fq(1) in \<open>simp_all add: layout_elem [OF lay]\<close>)
    obtain con rm where "map_of (lay 0 None L) b' = Some (con, True, rm)"
      using less.prems(1) b' by blast
    then have start: "run_start b' L = run_start b L + length (run b L)"
      using run_start_next [OF sorted b'(2) _ b(2)] least Q by blast
    have "b' = fq \<or> run b' L \<noteq> []"
      using b'(1) fq(3) run_nonempty [OF sorted, of b'] by auto
    then have "find_run qf (idx q c fq) (idx q c b') (idx q c (run_start b' L)) = Some (idx q c (run_start fq L))"
      using less.hyps [of b'] less.prems(1) b' b by auto
    moreover have "idx q c b \<noteq> idx q c fq" "b + (b' - b) = b'"
      using b b' fq(1) idx_inject [OF shape, of b fq c] by auto
    ultimately show ?thesis
      using occ next_run [OF lay b(2)] by (subst find_run.simps) (simp add: start)
  qed
qed

lemma last_failing:
  fixes P :: "nat \<Rightarrow> bool"
  assumes "\<not> P 0"
  obtains b where "b \<le> n" "\<not> P b" "\<forall>p. b < p \<and> p \<le> n \<longrightarrow> P p"
proof -
  have "\<exists>b \<le> n. \<not> P b \<and> (\<forall>p. b < p \<and> p \<le> n \<longrightarrow> P p)"
  proof (induction n)
    case 0
    then show ?case using assms by auto
  next
    case (Suc n)
    show ?case
    proof (cases "P (Suc n)")
      case True
      obtain b where "b \<le> n" "\<not> P b" "\<forall>p. b < p \<and> p \<le> n \<longrightarrow> P p" using Suc by blast
      then show ?thesis using True by (intro exI [of _ b]) (auto simp: le_Suc_eq)
    next
      case False
      then show ?thesis by (intro exI [of _ "Suc n"]) auto
    qed
  qed
  then show ?thesis using that by blast
qed

lemma find_run_index_layout:
  assumes lay: "layout q r qf c Q L" and fq: "fq < 2 ^ q" "fq \<in> Q" "Q \<subseteq> insert fq (fst ` set L)"
    and used: "map_of (lay 0 None L) fq \<noteq> None"
  shows "find_run_index qf (idx q c fq) = Some (idx q c (run_start fq L))"
proof -
  have shape: "qf_shape q r qf" and sorted: "fp_sorted L" using lay by (auto simp: layout_def)
  let ?sh = "\<lambda>p. \<exists>con rm. map_of (lay 0 None L) p = Some (con, True, rm)"
  have "\<not> ?sh 0" using lay_first [of L] by auto
  then obtain b where b: "b \<le> fq" "\<not> ?sh b" "\<forall>p. b < p \<and> p \<le> fq \<longrightarrow> ?sh p"
    by (rule last_failing [of ?sh])
  have "map_of (lay 0 None L) b \<noteq> None"
  proof (cases "b = fq")
    case False
    then have "?sh (Suc b)" using b by simp
    then show ?thesis using shifted_used_before(2) [of L "Suc b"] by auto
  qed (use used in simp)
  then obtain con rm where at: "map_of (lay 0 None L) b = Some (con, False, rm)"
    using b(2) by auto
  have start: "run_start b L = b" by (rule unshifted_run_start(2) [OF sorted at])
  have "run b L \<noteq> []"
    using lay_elem [OF at] run_nonempty [OF sorted, of b rm] by (metis in_set_conv_decomp)
  then have run: "find_run qf (idx q c fq) (idx q c b) (idx q c b) = Some (idx q c (run_start fq L))"
    using find_run_layout [OF lay fq b(3,1)] start by simp
  have down: "(decr qf ^^ j) (idx q c fq) = idx q c (fq - j)" if "j \<le> fq" for j
    using that by (induction j) (simp_all add: idx_decr [OF shape])
  have "while_option (\<lambda>b. is_shifted (get_elem qf b)) (decr qf) (idx q c fq) = Some ((decr qf ^^ (fq - b)) (idx q c fq))"
  proof (rule while_option_steps)
    show "\<forall>j < fq - b. is_shifted (get_elem qf ((decr qf ^^ j) (idx q c fq)))"
      using b fq(1) down by (simp add: layout_elem [OF lay])
    show "\<not> is_shifted (get_elem qf ((decr qf ^^ (fq - b)) (idx q c fq)))"
      using b fq(1) down [of "fq - b"] by (simp add: layout_elem [OF lay])
  qed
  then show ?thesis
    using run b(1) down [of "fq - b"] by (simp add: find_run_index_def)
qed

section \<open>Scanning a run\<close>

definition run_pos :: "nat \<Rightarrow> u64 \<Rightarrow> (nat \<times> u64) list \<Rightarrow> nat" where
  "run_pos b fr L = length (takeWhile (\<lambda>x. snd x < fr) (run b L))"

lemma run_pos_eq:
  assumes "i \<le> length (run b L)" "\<forall>j < i. snd (run b L ! j) < fr" "i < length (run b L) \<Longrightarrow> \<not> snd (run b L ! i) < fr"
  shows "run_pos b fr L = i"
proof -
  have "takeWhile (\<lambda>x. snd x < fr) (run b L) = take i (run b L)"
    using assms by (intro takeWhile_eq_take_P_nth) auto
  then show ?thesis using assms(1) by (simp add: run_pos_def)
qed

lemma remainder_slot:
  assumes lay: "layout q r qf c Q L" and k: "k < length (run b L)"
  shows "get_remainder (get_elem qf (idx q c (run_start b L + k))) = snd (run b L ! k)"
proof -
  have "run b L ! k \<in> set L" using nth_mem [OF k] arg_cong [OF split_run [of L b], of set] by auto
  then have mask: "snd (run b L ! k) AND mask r = snd (run b L ! k)" and r: "r \<le> 55"
    using lay by (auto simp: layout_def qf_shape_def)
  have "run_start b L + k < 2 ^ q" using run_slots_bound [OF lay, of b] k by auto
  then show ?thesis
    using lay_run_slot [OF k] remainder_small(1) [OF r mask] by (simp add: layout_elem [OF lay] slot_elt_def)
qed

lemma scan_run_layout:
  assumes lay: "layout q r qf c Q L"
  shows "i < length (run b L) \<Longrightarrow> \<forall>j < i. snd (run b L ! j) < fr \<Longrightarrow>
    scan_run qf fr (idx q c (run_start b L + i)) =
      Some (run_pos b fr L < length (run b L) \<and> snd (run b L ! run_pos b fr L) = fr, idx q c (run_start b L + run_pos b fr L))"
proof (induction "length (run b L) - i" arbitrary: i rule: less_induct)
  case less
  let ?s = "run_start b L" and ?R = "run b L"
  note shape = layout_shape [OF lay]
  have rem: "get_remainder (get_elem qf (idx q c (?s + i))) = snd (?R ! i)"
    by (rule remainder_slot [OF lay less.prems(1)])
  have incr: "incr qf (idx q c (?s + i)) = idx q c (?s + Suc i)" by (simp add: idx_incr [OF shape])
  show ?case
  proof (cases "snd (?R ! i) < fr")
    case False
    then have "run_pos b fr L = i" using less.prems by (intro run_pos_eq) auto
    then show ?thesis
      using False less.prems(1) rem by (subst scan_run.simps) (auto simp: Let_def)
  next
    case True
    then have upto: "\<forall>j < Suc i. snd (?R ! j) < fr" using less.prems(2) by (auto simp: less_Suc_eq)
    have bound: "?s + length ?R \<le> 2 ^ q" using run_slots_bound [OF lay, of b] less.prems(1) by auto
    show ?thesis
    proof (cases "Suc i < length ?R")
      case more: True
      then have "is_continuation (get_elem qf (idx q c (?s + Suc i)))"
        using bound lay_run_slot [OF more] by (simp add: layout_elem [OF lay])
      then show ?thesis
        using True rem incr less.hyps [of "Suc i"] more upto by (subst scan_run.simps) (auto simp: Let_def)
    next
      case False
      then have last: "Suc i = length ?R" using less.prems(1) by simp
      have "run_pos b fr L = Suc i" using upto last by (intro run_pos_eq) auto
      moreover have "\<not> is_continuation (get_elem qf (idx q c (?s + Suc i)))"
        using not_continuation_after [OF lay, of b] last by (cases "?R = []") auto
      ultimately show ?thesis
        using True rem incr last by (subst scan_run.simps) (auto simp: Let_def)
    qed
  qed
qed

section \<open>Lookup\<close>

text \<open>
  \<open>qf_inv q r qf c L\<close>: the table is that of the list \<open>L\<close>, seen from the cut \<open>c\<close>. The fingerprints
  a filter holds, with absolute quotients, are \<open>fingerprints q c L\<close>.
\<close>

definition qf_inv :: "nat \<Rightarrow> nat \<Rightarrow> qf \<Rightarrow> nat \<Rightarrow> (nat \<times> u64) list \<Rightarrow> bool" where
  "qf_inv q r qf c L \<longleftrightarrow> c < 2 ^ q \<and> layout q r qf c (fst ` set L) L \<and> unat (qf_entries qf) = length L"

definition fingerprints :: "nat \<Rightarrow> nat \<Rightarrow> (nat \<times> u64) list \<Rightarrow> (u64 \<times> u64) set" where
  "fingerprints q c L = (\<lambda>(a, b). (idx q c a, b)) ` set L"

definition qf_rep :: "nat \<Rightarrow> nat \<Rightarrow> qf \<Rightarrow> (u64 \<times> u64) set \<Rightarrow> bool" where
  "qf_rep q r qf S \<longleftrightarrow> (\<exists>c L. qf_inv q r qf c L \<and> S = fingerprints q c L)"

definition fingerprint :: "qf \<Rightarrow> u64 \<Rightarrow> u64 \<times> u64" where
  "fingerprint qf hash = (hash_to_quotient qf hash, hash_to_remainder qf hash)"

lemma index_from_cut:
  assumes "c < 2 ^ q" "i < 2 ^ q"
  obtains p where "p < 2 ^ q" "(of_nat i :: u64) = idx q c p"
proof -
  have "(c + (i + 2 ^ q - c) mod 2 ^ q) mod 2 ^ q = i"
    using assms by (simp add: mod_add_right_eq)
  then show ?thesis using that [of "(i + 2 ^ q - c) mod 2 ^ q"] by (simp add: idx_def)
qed

lemma quotient_from_cut:
  assumes "qf_shape q r qf" "c < 2 ^ q"
  obtains p where "p < 2 ^ q" "hash_to_quotient qf hash = idx q c p"
  using index_from_cut [OF assms(2) hash_parts(3) [OF assms(1), of hash]] hash_parts(2) [OF assms(1), of hash] by metis

lemma fingerprints_iff:
  assumes "layout q r qf c Q L" "p < 2 ^ q"
  shows "(idx q c p, fr) \<in> fingerprints q c L \<longleftrightarrow> (p, fr) \<in> set L"
proof -
  have "\<forall>x \<in> set L. fst x < 2 ^ q" using assms(1) by (auto simp: layout_def)
  then show ?thesis
    using idx_inject [OF layout_shape [OF assms(1)], of _ p c] assms(2) by (force simp: fingerprints_def)
qed

lemma run_member:
  assumes "fp_sorted L"
  shows "(b, fr) \<in> set L \<longleftrightarrow> run_pos b fr L < length (run b L) \<and> snd (run b L ! run_pos b fr L) = fr"
proof -
  let ?R = "run b L" and ?k = "run_pos b fr L"
  have R: "(b, fr) \<in> set L \<longleftrightarrow> (b, fr) \<in> set ?R"
    using arg_cong [OF split_run [of L b], of set] pre_fst [of "(b, fr)" b L] post_fst [OF assms, of "(b, fr)" b] by auto
  have sorted: "fp_sorted ?R"
    using assms split_run [of L b] by (metis fp_sorted_append)
  show ?thesis
  proof
    assume "(b, fr) \<in> set L"
    then obtain i where i: "i < length ?R" "?R ! i = (b, fr)" using R by (auto simp: in_set_conv_nth)
    have "snd (?R ! j) < fr" if "j < i" for j
    proof -
      have "fp_less (?R ! j) (?R ! i)" using sorted i(1) that by (simp add: fp_sorted_def sorted_wrt_nth_less)
      then show ?thesis using run_fst [OF nth_mem, of j b L] i that by (auto simp: fp_less_def)
    qed
    then have "?k = i" using i by (intro run_pos_eq) auto
    then show "?k < length ?R \<and> snd (?R ! ?k) = fr" using i by simp
  next
    assume "?k < length ?R \<and> snd (?R ! ?k) = fr"
    then have "?R ! ?k = (b, fr)" "?k < length ?R" using run_fst [OF nth_mem, of ?k b L] by (auto simp: prod_eq_iff)
    then show "(b, fr) \<in> set L" using R nth_mem by fastforce
  qed
qed

lemma qf_may_contain_rep:
  assumes "qf_rep q r qf S"
  shows "qf_may_contain qf hash = Some (fingerprint qf hash \<in> S)"
proof -
  obtain c L where inv: "qf_inv q r qf c L" and S: "S = fingerprints q c L" using assms by (auto simp: qf_rep_def)
  let ?Q = "fst ` set L"
  have lay: "layout q r qf c ?Q L" and c: "c < 2 ^ q" using inv by (auto simp: qf_inv_def)
  have sorted: "fp_sorted L" using lay by (simp add: layout_def)
  obtain p where p: "p < 2 ^ q" "hash_to_quotient qf hash = idx q c p"
    using quotient_from_cut [OF layout_shape [OF lay] c] .
  let ?fr = "hash_to_remainder qf hash"
  have mem: "fingerprint qf hash \<in> S \<longleftrightarrow> (p, ?fr) \<in> set L"
    using fingerprints_iff [OF lay p(1)] p(2) by (simp add: fingerprint_def S)
  show ?thesis
  proof (cases "p \<in> ?Q")
    case False
    then have "(p, ?fr) \<notin> set L" by force
    then show ?thesis
      using False mem p layout_elem [OF lay p(1)] by (simp add: qf_may_contain_def Let_def)
  next
    case True
    then obtain b where "(p, b) \<in> set L" by auto
    then have used: "map_of (lay 0 None L) p \<noteq> None" and run: "run p L \<noteq> []"
      using quotient_used [OF _ sorted] run_nonempty [OF sorted] by auto
    have find: "find_run_index qf (idx q c p) = Some (idx q c (run_start p L))"
      by (rule find_run_index_layout [OF lay p(1) True _ used]) auto
    have "scan_run qf ?fr (idx q c (run_start p L))
        = Some ((p, ?fr) \<in> set L, idx q c (run_start p L + run_pos p ?fr L))"
      using scan_run_layout [OF lay, of 0 p ?fr] run run_member [OF sorted, of p ?fr] by simp
    then show ?thesis
      using True mem p layout_elem [OF lay p(1)] find by (simp add: qf_may_contain_def Let_def)
  qed
qed

section \<open>Insertion\<close>

text \<open>
  What \<^verbatim>\<open>insert_into\<close> does to a table: the elements from slot \<open>s\<close> to the first free slot \<open>e\<close> move up
  by one and become shifted, while the marks of the slots stay.
\<close>

definition insert_map :: "slot_map \<Rightarrow> nat \<Rightarrow> nat \<Rightarrow> bool \<times> bool \<times> u64 \<Rightarrow> slot_map" where
  "insert_map M s e x p =
     (if p = s then Some x
      else if s < p \<and> p \<le> e then map_option (\<lambda>(con, _, rm). (con, True, rm)) (M (p - 1)) else M p)"

lemma insert_map_last: "insert_map M s s x = M(s \<mapsto> x)"
  by (auto simp: insert_map_def fun_eq_iff)

lemma insert_map_step:
  assumes "s < e" "M s = Some (con, shi, rm)"
  shows "insert_map (M(s \<mapsto> x)) (Suc s) e (con, True, rm) = insert_map M s e x"
proof
  fix p
  show "insert_map (M(s \<mapsto> x)) (Suc s) e (con, True, rm) p = insert_map M s e x p"
    using assms by (cases "p = Suc s"; cases "p = s") (auto simp: insert_map_def)
qed

lemma insert_into_tab:
  assumes shape: "qf_shape q r qf" and tab: "tab_is q qf c Q M" and mask: "masked r M"
    and s: "s \<le> e" "e < 2 ^ q" and free: "M e = None" "e \<notin> Q" and rm: "rm AND mask r = rm"
    and used: "\<forall>j. s \<le> j \<and> j < e \<longrightarrow> (\<exists>con shi rm. M j = Some (con, shi, rm) \<and> (con \<or> shi \<or> j \<in> Q))"
  shows "\<exists>qf'. insert_into qf (idx q c s) (mk_elt False con shi rm) = Some qf'
    \<and> tab_is q qf' c Q (insert_map M s e (con, shi, rm)) \<and> qf_shape q r qf' \<and> qf_entries qf' = qf_entries qf"
  using assms
proof (induction "e - s" arbitrary: s qf M con shi rm rule: less_induct)
  case less
  note shape = less.prems(1) and tab = less.prems(2) and rm = less.prems(8)
  have s_less: "s < 2 ^ q" using less.prems(4,5) by simp
  have entries: "qf_entries (set_elem qf i v) = qf_entries qf" for i v by (simp add: set_elem_def Let_def)
  show ?case
  proof (cases "s = e")
    case True
    then have "tab_is q (set_elem qf (idx q c s) (mk_elt False con shi rm)) c Q (M(s \<mapsto> (con, shi, rm)))"
      using set_elem_tab [OF shape tab s_less rm, of False con shi] less.prems(7) by simp
    moreover have "is_empty_element (get_elem qf (idx q c s))"
      using True less.prems(6,7) get_elem_tab [OF tab s_less] by simp
    ultimately show ?thesis
      using True shape entries by (subst insert_into.simps) (simp add: insert_map_last)
  next
    case False
    then have less_e: "s < e" using less.prems(4) by simp
    then obtain con0 shi0 rm0 where M: "M s = Some (con0, shi0, rm0)" "con0 \<or> shi0 \<or> s \<in> Q"
      using less.prems(9) by blast
    let ?qf = "set_elem qf (idx q c s) (mk_elt (s \<in> Q) con shi rm)" and ?M = "M(s \<mapsto> (con, shi, rm))"
    have elem: "get_elem qf (idx q c s) = mk_elt (s \<in> Q) con0 shi0 rm0"
      using get_elem_tab [OF tab s_less] M(1) by (simp add: slot_elt_def)
    have tab': "tab_is q ?qf c Q ?M"
      using set_elem_tab [OF shape tab s_less rm, of "s \<in> Q" con shi] by (auto simp: insert_absorb split: if_splits)
    have rm0: "rm0 AND mask r = rm0" using less.prems(3) M(1) by (auto simp: masked_def)
    have mask': "masked r ?M" using less.prems(3) rm by (auto simp: masked_def)
    have "\<exists>qf'. insert_into ?qf (idx q c (Suc s)) (mk_elt False con0 True rm0) = Some qf'
        \<and> tab_is q qf' c Q (insert_map ?M (Suc s) e (con0, True, rm0)) \<and> qf_shape q r qf' \<and> qf_entries qf' = qf_entries ?qf"
      using less.prems(5,6,7,9) less_e shape by (intro less.hyps [OF _ _ tab' mask' _ _ _ _ rm0]) auto
    moreover have "insert_into qf (idx q c s) (mk_elt False con shi rm)
        = insert_into ?qf (idx q c (Suc s)) (mk_elt False con0 True rm0)"
      using M(2) elem by (subst insert_into.simps) (auto simp: Let_def idx_incr [OF shape])
    ultimately show ?thesis
      using insert_map_step [of s e M con0 shi0 rm0 "(con, shi, rm)"] less_e M(1) entries by simp
  qed
qed

lemma lay_shift:
  "\<exists>e. s \<le> e \<and> map_of (lay s prev B) e = None \<and> (\<forall>j. s \<le> j \<and> j < e \<longrightarrow> map_of (lay s prev B) j \<noteq> None)
     \<and> (\<forall>p. map_of (lay (Suc s) prev B) p =
          (if p \<le> s then None
           else if p \<le> e then map_option (\<lambda>(con, _, rm). (con, True, rm)) (map_of (lay s prev B) (p - 1))
           else map_of (lay s prev B) p))"
proof (induction B arbitrary: s prev)
  case (Cons x B)
  obtain a b where x: "x = (a, b)" by (cases x)
  show ?case
  proof (cases "a \<le> s")
    case False
    then have "lay (Suc s) prev (x # B) = lay s prev (x # B)" by (simp add: x max_def)
    moreover have "map_of (lay s prev (x # B)) p = None" if "p \<le> s" for p
      using that False lay_slots [of p "Suc a" "Some a" B] by (auto simp: x max_def map_of_eq_None_iff)
    ultimately show ?thesis by (intro exI [of _ s]) auto
  next
    case True
    obtain e where e: "Suc s \<le> e" "map_of (lay (Suc s) (Some a) B) e = None"
        "\<forall>j. Suc s \<le> j \<and> j < e \<longrightarrow> map_of (lay (Suc s) (Some a) B) j \<noteq> None"
        "\<forall>p. map_of (lay (Suc (Suc s)) (Some a) B) p =
          (if p \<le> Suc s then None
           else if p \<le> e then map_option (\<lambda>(con, _, rm). (con, True, rm)) (map_of (lay (Suc s) (Some a) B) (p - 1))
           else map_of (lay (Suc s) (Some a) B) p)"
      using Cons.IH [of "Suc s" "Some a"] by blast
    have old: "map_of (lay s prev (x # B)) = (map_of (lay (Suc s) (Some a) B))(s \<mapsto> (prev = Some a, s \<noteq> a, b))"
      using True by (simp add: x max_def)
    have new: "map_of (lay (Suc s) prev (x # B)) = (map_of (lay (Suc (Suc s)) (Some a) B))(Suc s \<mapsto> (prev = Some a, True, b))"
      using True by (simp add: x max_def)
    show ?thesis
    proof (intro exI [of _ e] conjI allI impI)
      show "map_of (lay s prev (x # B)) j \<noteq> None" if "s \<le> j \<and> j < e" for j
        using that e(3) by (cases "j = s") (auto simp: old)
      show "map_of (lay (Suc s) prev (x # B)) p =
          (if p \<le> s then None
           else if p \<le> e then map_option (\<lambda>(con, _, rm). (con, True, rm)) (map_of (lay s prev (x # B)) (p - 1))
           else map_of (lay s prev (x # B)) p)" for p
        using e(1,4) by (cases "p = Suc s") (auto simp: old new)
    qed (use e(1,2) in \<open>auto simp: old\<close>)
  qed
qed auto

text \<open>The table into which \<^verbatim>\<open>insert_into\<close> puts the new element: \<open>A\<close> before it, \<open>B\<close> from its slot on.\<close>

definition split_map :: "(nat \<times> u64) list \<Rightarrow> nat \<Rightarrow> (nat \<times> u64) list \<Rightarrow> slot_map" where
  "split_map A p B j =
     (if j < lay_end 0 A then map_of (lay 0 None A) j else map_of (lay (max (lay_end 0 A) p) (Some p) B) j)"

lemma insert_layout:
  assumes "s = max (lay_end 0 A) p"
  obtains e where "s \<le> e" "split_map A p B e = None" "\<forall>j. s \<le> j \<and> j < e \<longrightarrow> split_map A p B j \<noteq> None"
    "map_of (lay 0 None (A @ (p, fr) # B)) = insert_map (split_map A p B) s e (last_quot None A = Some p, s \<noteq> p, fr)"
proof -
  obtain e where e: "s \<le> e" "map_of (lay s (Some p) B) e = None" "\<forall>j. s \<le> j \<and> j < e \<longrightarrow> map_of (lay s (Some p) B) j \<noteq> None"
     "\<And>j. map_of (lay (Suc s) (Some p) B) j =
          (if j \<le> s then None
           else if j \<le> e then map_option (\<lambda>(con, _, rm). (con, True, rm)) (map_of (lay s (Some p) B) (j - 1))
           else map_of (lay s (Some p) B) j)"
    using lay_shift [of s "Some p" B] by blast
  have s: "lay_end 0 A \<le> s" using assms by simp
  have low: "map_of (lay s (Some p) B) j = None" if "j < s" for j
    using that lay_slots [of j s "Some p" B] by (auto simp: map_of_eq_None_iff)
  have "map_of (lay 0 None (A @ (p, fr) # B)) j
      = insert_map (split_map A p B) s e (last_quot None A = Some p, s \<noteq> p, fr) j" for j
    using e(1,4) s low
    by (cases "j = s"; cases "j < s") (auto simp: insert_map_def split_map_def map_of_lay_append assms [symmetric])
  moreover have "split_map A p B e = None" "\<forall>j. s \<le> j \<and> j < e \<longrightarrow> split_map A p B j \<noteq> None"
    using e(1,2,3) s by (auto simp: split_map_def assms [symmetric])
  ultimately show ?thesis using that e(1) by blast
qed

lemma split_map_elem:
  assumes "split_map A p B j = Some (con, shi, rm)"
  shows "(con \<or> shi \<or> j \<in> fst ` set (A @ B)) \<and> rm \<in> snd ` set (A @ B)"
proof (cases "j < lay_end 0 A")
  case True
  then have "map_of (lay 0 None A) j = Some (con, shi, rm)" using assms by (simp add: split_map_def)
  then show ?thesis by (rule lay_elem) force
next
  case False
  then have "map_of (lay (max (lay_end 0 A) p) (Some p) B) j = Some (con, shi, rm)" using assms by (simp add: split_map_def)
  then show ?thesis by (rule lay_elem) force
qed

lemma insert_into_split:
  assumes shape: "qf_shape q r qf" and tab: "tab_is q qf c Q (split_map A p B)" and s: "s = max (lay_end 0 A) p" "s < 2 ^ q"
    and last: "split_map A p B (2 ^ q - 1) = None" and Q: "fst ` set (A @ B) \<subseteq> Q" "\<forall>j. split_map A p B j = None \<longrightarrow> j \<notin> Q"
    and mask: "\<forall>x \<in> set (A @ B). snd x AND mask r = snd x" and fr: "fr AND mask r = fr"
  shows "\<exists>qf'. insert_into qf (idx q c s) (mk_elt False (last_quot None A = Some p) (s \<noteq> p) fr) = Some qf'
    \<and> tab_is q qf' c Q (map_of (lay 0 None (A @ (p, fr) # B))) \<and> qf_shape q r qf' \<and> qf_entries qf' = qf_entries qf"
proof -
  obtain e where e: "s \<le> e" "split_map A p B e = None" "\<forall>j. s \<le> j \<and> j < e \<longrightarrow> split_map A p B j \<noteq> None"
    "map_of (lay 0 None (A @ (p, fr) # B)) = insert_map (split_map A p B) s e (last_quot None A = Some p, s \<noteq> p, fr)"
    by (rule insert_layout [OF s(1)])
  have "e < 2 ^ q"
  proof (rule ccontr)
    assume "\<not> e < 2 ^ q"
    moreover have "s \<le> 2 ^ q - 1" "(2 :: nat) ^ q - 1 < 2 ^ q" using s(2) by linarith+
    ultimately have "s \<le> 2 ^ q - 1 \<and> 2 ^ q - 1 < e" by linarith
    then show False using e(3) last by blast
  qed
  moreover have "masked r (split_map A p B)"
    unfolding masked_def using split_map_elem mask by fastforce
  moreover have "\<forall>j. s \<le> j \<and> j < e \<longrightarrow> (\<exists>con shi rm. split_map A p B j = Some (con, shi, rm) \<and> (con \<or> shi \<or> j \<in> Q))"
    using e(3) split_map_elem Q(1) by fast
  moreover have "e \<notin> Q" using e(2) Q(2) by blast
  ultimately show ?thesis
    unfolding e(4) using insert_into_tab [OF shape tab _ e(1) _ e(2) _ fr] by simp
qed

text \<open>A list starts at the canonical slot of its first element, whatever precedes.\<close>

lemma lay_from:
  assumes "B \<noteq> [] \<Longrightarrow> n \<le> fst (hd B) \<and> m \<le> fst (hd B) \<and> (prev = Some (fst (hd B)) \<longleftrightarrow> prev' = Some (fst (hd B)))"
  shows "lay n prev B = lay m prev' B"
proof (cases B)
  case (Cons x xs)
  then show ?thesis using assms by (cases x) (simp add: max_absorb2)
qed simp

lemma lay_end_from: "B \<noteq> [] \<Longrightarrow> n \<le> fst (hd B) \<Longrightarrow> m \<le> fst (hd B) \<Longrightarrow> lay_end n B = lay_end m B"
  by (cases B) (auto simp: max_absorb2)

lemma lay_prev:
  assumes "B \<noteq> [] \<Longrightarrow> (prev = Some (fst (hd B)) \<longleftrightarrow> prev' = Some (fst (hd B)))"
  shows "lay n prev B = lay n prev' B"
proof (cases B)
  case (Cons x xs)
  then show ?thesis using assms by (cases x) simp
qed simp

text \<open>
  The list after an insertion. \<open>k\<close> is the number of elements of the run that stay in front of the
  new one.
\<close>

definition before_pos :: "nat \<Rightarrow> u64 \<Rightarrow> (nat \<times> u64) list \<Rightarrow> (nat \<times> u64) list" where
  "before_pos p fr L = pre p L @ take (run_pos p fr L) (run p L)"

definition after_pos :: "nat \<Rightarrow> u64 \<Rightarrow> (nat \<times> u64) list \<Rightarrow> (nat \<times> u64) list" where
  "after_pos p fr L = drop (run_pos p fr L) (run p L) @ post p L"

lemma split_pos: "L = before_pos p fr L @ after_pos p fr L"
  using split_run [of L p] append_take_drop_id [of "run_pos p fr L" "run p L"]
  unfolding before_pos_def after_pos_def by (metis append.assoc)

lemma fp_sorted_run: "fp_sorted L \<Longrightarrow> fp_sorted (run p L)"
  using split_run [of L p] by (metis fp_sorted_append)

lemma after_pos_less:
  assumes "fp_sorted L" "(p, fr) \<notin> set L" "x \<in> set (after_pos p fr L)"
  shows "fp_less (p, fr) x"
proof (cases "x \<in> set (post p L)")
  case True
  then show ?thesis using post_fst [OF assms(1)] by (auto simp: fp_less_def)
next
  case False
  let ?R = "run p L" and ?k = "run_pos p fr L"
  obtain j where "j < length (drop ?k ?R)" "x = drop ?k ?R ! j"
    using False assms(3) in_set_conv_nth [of x "drop ?k ?R"] by (auto simp: after_pos_def)
  then obtain i where i: "?k \<le> i" "i < length ?R" "x = ?R ! i"
    by (intro that [of "?k + j"]) auto
  have "\<not> snd (?R ! ?k) < fr"
    using i nth_length_takeWhile [of "\<lambda>x. snd x < fr" ?R] by (simp add: run_pos_def)
  moreover have "snd (?R ! ?k) \<le> snd (?R ! i)"
  proof (cases "?k = i")
    case False
    then have "fp_less (?R ! ?k) (?R ! i)"
      using i fp_sorted_run [OF assms(1), of p] by (simp add: fp_sorted_def sorted_wrt_nth_less)
    then show ?thesis
      using run_fst [OF nth_mem [of ?k ?R]] run_fst [OF nth_mem [OF i(2)]] i by (auto simp: fp_less_def)
  qed simp
  moreover have "fst x = p" "x \<in> set L"
    using i run_fst [OF nth_mem [OF i(2)]] nth_mem [OF i(2)] arg_cong [OF split_run [of L p], of set] by auto
  moreover from this have "snd x \<noteq> fr" using assms(2) by (metis prod.collapse)
  ultimately show ?thesis using i(3) by (auto simp: fp_less_def)
qed

lemma fp_sorted_insert:
  assumes "fp_sorted L" "(p, fr) \<notin> set L"
  shows "fp_sorted (before_pos p fr L @ (p, fr) # after_pos p fr L)"
proof -
  let ?A = "before_pos p fr L" and ?B = "after_pos p fr L"
  have AB: "fp_sorted ?A" "fp_sorted ?B" "\<forall>a \<in> set ?A. \<forall>b \<in> set ?B. fp_less a b"
    using assms(1) split_pos [of L p fr] by (metis fp_sorted_append)+
  have "fp_less a (p, fr)" if "a \<in> set ?A" for a
  proof (cases "a \<in> set (pre p L)")
    case True
    then show ?thesis using pre_fst by (auto simp: fp_less_def)
  next
    case False
    then have "a \<in> set (takeWhile (\<lambda>x. snd x < fr) (run p L))"
      using that by (simp add: before_pos_def run_pos_def takeWhile_eq_take [symmetric])
    then show ?thesis using set_takeWhileD [of a "\<lambda>x. snd x < fr" "run p L"] run_fst [of a p L] by (simp add: fp_less_def)
  qed
  then show ?thesis
    using AB after_pos_less [OF assms] by (auto simp: fp_sorted_append fp_sorted_Cons)
qed

lemma insert_slot: "max (lay_end 0 (before_pos p fr L)) p = run_start p L + run_pos p fr L"
proof -
  let ?k = "run_pos p fr L" and ?R = "run p L"
  have k: "?k \<le> length ?R" by (simp add: run_pos_def length_takeWhile_le)
  have "\<forall>x \<in> set (take ?k ?R). fst x = p" by (meson in_set_takeD run_fst)
  then have "lay_end 0 (before_pos p fr L) = (if take ?k ?R = [] then lay_end 0 (pre p L) else run_start p L + ?k)"
    using lay_end_run [of "take ?k ?R" p "lay_end 0 (pre p L)"] k by (simp add: before_pos_def run_start_def)
  moreover have "take ?k ?R = [] \<longleftrightarrow> ?k = 0" using k by (cases ?R) auto
  ultimately show ?thesis by (auto simp: run_start_def)
qed

lemma lay_max:
  assumes "\<forall>x \<in> set B. p < fst x" "B \<noteq> [] \<Longrightarrow> prev \<noteq> Some (fst (hd B))"
  shows "lay (max n p) (Some p) B = lay n prev B"
proof (cases B)
  case (Cons x xs)
  then have "max (max n p) (fst x) = max n (fst x)" using assms(1) by auto
  then show ?thesis using Cons assms by (cases x) auto
qed simp

lemma last_quot_pre: "last_quot None (pre p L) = Some b \<Longrightarrow> b < p"
  using pre_fst [of "last (pre p L)" p L] by (auto simp: last_quot_def split: if_splits)

lemma run_pos_le: "run_pos p fr L \<le> length (run p L)"
  by (simp add: run_pos_def length_takeWhile_le)

lemma split_map_no_run:
  assumes "fp_sorted L" "run p L = []"
  shows "split_map (before_pos p fr L) p (after_pos p fr L) = map_of (lay 0 None L)"
proof
  fix j
  have AB: "before_pos p fr L = pre p L" "after_pos p fr L = post p L"
    using assms(2) by (simp_all add: before_pos_def after_pos_def)
  have L: "L = pre p L @ post p L" using split_run [of L p] assms(2) by simp
  have "post p L \<noteq> [] \<Longrightarrow> last_quot None (pre p L) \<noteq> Some (fst (hd (post p L)))"
    using post_fst [OF assms(1), of "hd (post p L)" p] last_quot_pre [of p L "fst (hd (post p L))"] by auto
  then have "lay (max (lay_end 0 (pre p L)) p) (Some p) (post p L) = lay (lay_end 0 (pre p L)) (last_quot None (pre p L)) (post p L)"
    using post_fst [OF assms(1)] by (intro lay_max) auto
  then show "split_map (before_pos p fr L) p (after_pos p fr L) j = map_of (lay 0 None L) j"
    using map_of_lay_append [of 0 None "pre p L" "post p L" j] unfolding L [symmetric] by (simp add: split_map_def AB)
qed

lemma split_map_inside:
  assumes "0 < run_pos p fr L"
  shows "split_map (before_pos p fr L) p (after_pos p fr L) = map_of (lay 0 None L)"
    "last_quot None (before_pos p fr L) = Some p"
proof -
  let ?T = "take (run_pos p fr L) (run p L)"
  have T: "?T \<noteq> []" using assms run_pos_le [of p fr L] by (cases "run p L") auto
  then show prev: "last_quot None (before_pos p fr L) = Some p"
    using run_fst [OF in_set_takeD [OF last_in_set [OF T]]] by (simp add: last_quot_def before_pos_def)
  have "\<forall>x \<in> set ?T. fst x = p" by (meson in_set_takeD run_fst)
  then have "lay_end 0 (before_pos p fr L) = max (lay_end 0 (before_pos p fr L)) p"
    using lay_end_run [of ?T p "lay_end 0 (pre p L)"] T by (simp add: before_pos_def)
  then show "split_map (before_pos p fr L) p (after_pos p fr L) = map_of (lay 0 None L)"
    using map_of_lay_append [of 0 None "before_pos p fr L" "after_pos p fr L"]
    unfolding split_pos [symmetric] prev by (simp add: split_map_def fun_eq_iff)
qed

lemma split_map_start:
  assumes "run_pos p fr L = 0" "run p L \<noteq> []"
  shows "split_map (before_pos p fr L) p (after_pos p fr L)
      = (map_of (lay 0 None L))(run_start p L \<mapsto> (True, run_start p L \<noteq> p, snd (run p L ! 0)))"
    "last_quot None (before_pos p fr L) \<noteq> Some p"
proof -
  obtain b R where run: "run p L = (p, b) # R" using assms(2) run_fst [of "hd (run p L)" p L] by (cases "run p L") auto
  have AB: "before_pos p fr L = pre p L" "after_pos p fr L = (p, b) # R @ post p L"
    using assms run by (simp_all add: before_pos_def after_pos_def)
  show prev: "last_quot None (before_pos p fr L) \<noteq> Some p" using last_quot_pre [of p L p] AB by auto
  have s: "max (lay_end 0 (pre p L)) p = run_start p L" by (simp add: run_start_def)
  have L: "L = pre p L @ (p, b) # R @ post p L" using split_run [of L p] run by simp
  show "split_map (before_pos p fr L) p (after_pos p fr L)
      = (map_of (lay 0 None L))(run_start p L \<mapsto> (True, run_start p L \<noteq> p, snd (run p L ! 0)))"
  proof
    fix j
    show "split_map (before_pos p fr L) p (after_pos p fr L) j
      = ((map_of (lay 0 None L))(run_start p L \<mapsto> (True, run_start p L \<noteq> p, snd (run p L ! 0)))) j"
      using map_of_lay_append [of 0 None "pre p L" "(p, b) # R @ post p L" j] prev
      unfolding L [symmetric] by (auto simp: split_map_def AB s run) (auto simp: run_start_def)
  qed
qed

lemma lay_end_Suc: "lay_end (Suc n) B \<le> Suc (lay_end n B)"
proof (induction n B rule: lay_end.induct)
  case (2 n fq fr L)
  have "lay_end (Suc n) ((fq, fr) # L) \<le> lay_end (Suc (max n fq + 1)) L"
    by (auto intro: lay_end_mono)
  then show ?case using 2 by simp
qed simp

lemma lay_end_insert:
  assumes "\<forall>x \<in> set B. p \<le> fst x"
  shows "lay_end 0 (A @ (p, fr) # B) \<le> max (Suc p) (Suc (lay_end 0 (A @ B)))"
proof (cases B)
  case (Cons x B')
  let ?m = "max (lay_end 0 A) (fst x)"
  have "lay_end 0 (A @ (p, fr) # B) = lay_end (Suc (max (Suc (max (lay_end 0 A) p)) (fst x))) B'"
    using Cons by (cases x) simp
  also have "\<dots> \<le> lay_end (Suc (?m + 1)) B'"
    using assms Cons by (intro lay_end_mono) auto
  also have "\<dots> \<le> Suc (lay_end (?m + 1) B')" by (rule lay_end_Suc)
  also have "lay_end (?m + 1) B' = lay_end 0 (A @ B)" using Cons by (cases x) simp
  finally show ?thesis by simp
qed simp

lemma layout_insert:
  assumes lay: "layout q r qf c Q L" and free: "lay_end 0 L < 2 ^ q" and new: "(p, fr) \<notin> set L" "p < 2 ^ q" "fr AND mask r = fr"
    and shape: "qf_shape q r qf'"
    and tab: "tab_is q qf' c (insert p (fst ` set L)) (map_of (lay 0 None (before_pos p fr L @ (p, fr) # after_pos p fr L)))"
  defines "L' \<equiv> before_pos p fr L @ (p, fr) # after_pos p fr L"
  shows "layout q r qf' c (fst ` set L') L'" "set L' = insert (p, fr) (set L)" "length L' = Suc (length L)"
proof -
  have sorted: "fp_sorted L" using lay by (simp add: layout_def)
  have split: "L = before_pos p fr L @ after_pos p fr L" by (rule split_pos)
  have parts: "set (before_pos p fr L) \<union> set (after_pos p fr L) = set L"
      "length (before_pos p fr L) + length (after_pos p fr L) = length L"
    using arg_cong [OF split, of set] arg_cong [OF split, of length] by simp_all
  show L': "set L' = insert (p, fr) (set L)" "length L' = Suc (length L)"
    using parts by (auto simp: L'_def)
  have "\<forall>x \<in> set (after_pos p fr L). p \<le> fst x"
    using after_pos_less [OF sorted new(1)] fp_less_fst by fastforce
  from lay_end_insert [OF this, of "before_pos p fr L" fr] have "lay_end 0 L' \<le> 2 ^ q"
    using free new(2) unfolding L'_def split [symmetric] by simp
  then show "layout q r qf' c (fst ` set L') L'"
    using lay new shape tab fp_sorted_insert [OF sorted new(1)] L'
    unfolding layout_def by (simp add: L'_def)
qed

lemma used_iff_quotient:
  assumes "layout q r qf c Q L" "map_of (lay 0 None L) j = None"
  shows "j \<notin> fst ` set L"
  using assms quotient_used [of j _ L] by (auto simp: layout_def)

lemma last_slot_free: "lay_end 0 L < 2 ^ q \<Longrightarrow> map_of (lay 0 None L) (2 ^ q - 1) = None"
  using lay_slots [of "2 ^ q - 1" 0 None L] by (fastforce simp: map_of_eq_None_iff)

lemma insert_used_slot:
  assumes lay: "layout q r qf c (fst ` set L) L" and free: "lay_end 0 L < 2 ^ q"
    and new: "(p, fr) \<notin> set L" "p < 2 ^ q" "fr AND mask r = fr" and used: "map_of (lay 0 None L) p \<noteq> None"
    and shape: "qf_shape q r qf1"
    and tab: "tab_is q qf1 c (insert p (fst ` set L)) (split_map (before_pos p fr L) p (after_pos p fr L))"
    and dom: "\<And>j. split_map (before_pos p fr L) p (after_pos p fr L) j = None \<Longrightarrow> map_of (lay 0 None L) j = None"
      "split_map (before_pos p fr L) p (after_pos p fr L) (2 ^ q - 1) = None"
  defines "L' \<equiv> before_pos p fr L @ (p, fr) # after_pos p fr L" and "s \<equiv> run_start p L + run_pos p fr L"
  shows "\<exists>qf'. insert_into qf1 (idx q c s) (mk_elt False (last_quot None (before_pos p fr L) = Some p) (s \<noteq> p) fr) = Some qf'
    \<and> layout q r qf' c (fst ` set L') L' \<and> qf_entries qf' = qf_entries qf1"
proof -
  let ?A = "before_pos p fr L" and ?B = "after_pos p fr L"
  have split: "L = ?A @ ?B" by (rule split_pos)
  have s: "s = max (lay_end 0 ?A) p" by (simp add: s_def insert_slot)
  have "lay_end 0 ?A \<le> lay_end 0 L" using lay_end_ge [of "lay_end 0 ?A" ?B] arg_cong [OF split, of "lay_end 0"] by simp
  then have s_less: "s < 2 ^ q" using free new(2) s by simp
  have unused: "j \<notin> insert p (fst ` set L)" if "split_map ?A p ?B j = None" for j
    using used_iff_quotient [OF lay dom(1) [OF that]] dom(1) [OF that] used by auto
  have set: "set (?A @ ?B) = set L" using split by simp
  have parts: "fst ` set (?A @ ?B) \<subseteq> insert p (fst ` set L)" "\<forall>x \<in> set (?A @ ?B). snd x AND mask r = snd x"
      "\<forall>j. split_map ?A p ?B j = None \<longrightarrow> j \<notin> insert p (fst ` set L)"
    unfolding set using lay unused by (auto simp: layout_def)
  obtain qf' where qf': "insert_into qf1 (idx q c s) (mk_elt False (last_quot None ?A = Some p) (s \<noteq> p) fr) = Some qf'"
      "tab_is q qf' c (insert p (fst ` set L)) (map_of (lay 0 None (?A @ (p, fr) # ?B)))" "qf_shape q r qf'"
      "qf_entries qf' = qf_entries qf1"
    using insert_into_split [OF shape tab s s_less dom(2) parts(1,3,2) new(3)] by blast
  then show ?thesis
    using layout_insert(1) [OF lay free new qf'(3,2)] unfolding L'_def by blast
qed

lemma insert_free_slot:
  assumes lay: "layout q r qf c (fst ` set L) L" and free: "lay_end 0 L < 2 ^ q"
    and new: "(p, fr) \<notin> set L" "p < 2 ^ q" "fr AND mask r = fr" and unused: "map_of (lay 0 None L) p = None"
  defines "L' \<equiv> before_pos p fr L @ (p, fr) # after_pos p fr L"
  shows "layout q r (set_elem qf (idx q c p) (mk_elt True False False fr)) c (fst ` set L') L'"
proof -
  let ?A = "before_pos p fr L" and ?B = "after_pos p fr L"
  have sorted: "fp_sorted L" and shape: "qf_shape q r qf" and tab: "tab_is q qf c (fst ` set L) (map_of (lay 0 None L))"
    using lay by (auto simp: layout_def)
  have run: "run p L = []"
    using used_iff_quotient [OF lay unused] run_fst [of _ p L] arg_cong [OF split_run [of L p], of set]
    by (cases "run p L") force+
  note same = split_map_no_run [OF sorted run, of fr]
  have A: "?A = pre p L" using run by (simp add: before_pos_def)
  have s: "p = max (lay_end 0 ?A) p" using unused_run_start [OF unused] by (simp add: A)
  obtain e where e: "p \<le> e" "\<forall>j. p \<le> j \<and> j < e \<longrightarrow> split_map ?A p ?B j \<noteq> None"
      "map_of (lay 0 None (?A @ (p, fr) # ?B)) = insert_map (split_map ?A p ?B) p e (last_quot None ?A = Some p, p \<noteq> p, fr)"
    by (rule insert_layout [OF s])
  have "e = p" using e(1,2) unused by (metis le_neq_implies_less le_refl same)
  moreover have "last_quot None ?A \<noteq> Some p" using last_quot_pre [of p L p] by (auto simp: A)
  ultimately have "map_of (lay 0 None (?A @ (p, fr) # ?B)) = (map_of (lay 0 None L))(p \<mapsto> (False, False, fr))"
    by (simp add: e(3) insert_map_last same)
  then have "tab_is q (set_elem qf (idx q c p) (mk_elt True False False fr)) c (insert p (fst ` set L))
      (map_of (lay 0 None (?A @ (p, fr) # ?B)))"
    using set_elem_tab [OF shape tab new(2,3), of True False False] by simp
  then show ?thesis
    using layout_insert(1) [OF lay free new] shape unfolding L'_def by simp
qed

lemma used_not_empty:
  assumes "layout q r qf c (fst ` set L) L" "p < 2 ^ q"
  shows "is_empty_element (get_elem qf (idx q c p)) \<longleftrightarrow> map_of (lay 0 None L) p = None"
proof (cases "map_of (lay 0 None L) p")
  case None
  then show ?thesis using used_iff_quotient [OF assms(1) None] by (simp add: layout_elem [OF assms])
next
  case (Some x)
  obtain con shi rm where x: "x = (con, shi, rm)" by (cases x)
  obtain A fq B where "L = A @ (fq, rm) # B" "shi = (p \<noteq> fq)" using lay_elem [OF Some [unfolded x]] by metis
  then have "shi \<or> p \<in> fst ` set L" by force
  then show ?thesis using Some x by (auto simp: layout_elem [OF assms])
qed

text \<open>The element put in, once the run has been found: with the remainder not yet there.\<close>

lemma insert_new_run:
  assumes lay: "layout q r qf c (fst ` set L) L" and free: "lay_end 0 L < 2 ^ q"
    and new: "p \<notin> fst ` set L" "p < 2 ^ q" "fr AND mask r = fr" and used: "map_of (lay 0 None L) p \<noteq> None"
  defines "qf0 \<equiv> set_elem qf (idx q c p) (set_occupied (get_elem qf (idx q c p)))"
    and "L' \<equiv> before_pos p fr L @ (p, fr) # after_pos p fr L"
  shows "find_run_index qf0 (idx q c p) = Some (idx q c (run_start p L))" "run_start p L < 2 ^ q"
    "\<exists>qf'. insert_into qf0 (idx q c (run_start p L)) (mk_elt False False (run_start p L \<noteq> p) fr) = Some qf'
       \<and> layout q r qf' c (fst ` set L') L' \<and> qf_entries qf' = qf_entries qf"
proof -
  have sorted: "fp_sorted L" and shape: "qf_shape q r qf" and tab: "tab_is q qf c (fst ` set L) (map_of (lay 0 None L))"
    using lay by (auto simp: layout_def)
  obtain con shi rm where M: "map_of (lay 0 None L) p = Some (con, shi, rm)" using used by auto
  have "rm AND mask r = rm" using lay_elem [OF M] lay by (fastforce simp: layout_def)
  then have tab0: "tab_is q qf0 c (insert p (fst ` set L)) (map_of (lay 0 None L))"
    using set_elem_tab [OF shape tab new(2), of rm True con shi] M new(1) layout_elem [OF lay new(2)]
    by (simp add: qf0_def slot_elt_def fun_upd_idem)
  then have lay0: "layout q r qf0 c (insert p (fst ` set L)) L"
    using lay by (auto simp: layout_def qf0_def)
  show "find_run_index qf0 (idx q c p) = Some (idx q c (run_start p L))"
    using find_run_index_layout [OF lay0 new(2) _ _ used] by simp
  have run: "run p L = []"
    using new(1) run_fst [of _ p L] arg_cong [OF split_run [of L p], of set] by (cases "run p L") force+
  then have pos: "run_pos p fr L = 0" by (simp add: run_pos_def)
  note same = split_map_no_run [OF sorted run, of fr]
  have A: "before_pos p fr L = pre p L" using run by (simp add: before_pos_def)
  have prev: "last_quot None (before_pos p fr L) \<noteq> Some p" using last_quot_pre [of p L p] by (auto simp: A)
  show "run_start p L < 2 ^ q"
    using lay_end_ge [of "lay_end 0 (pre p L)" "post p L"] arg_cong [OF split_run [of L p], of "lay_end 0"] run free new(2)
    by (simp add: run_start_def)
  have "(p, fr) \<notin> set L" using new(1) by force
  from insert_used_slot [OF lay free this new(2,3) used, of qf0, unfolded same, OF _ tab0] shape prev pos last_slot_free [OF free]
  show "\<exists>qf'. insert_into qf0 (idx q c (run_start p L)) (mk_elt False False (run_start p L \<noteq> p) fr) = Some qf'
       \<and> layout q r qf' c (fst ` set L') L' \<and> qf_entries qf' = qf_entries qf"
    by (simp add: qf0_def L'_def)
qed

lemma insert_old_run:
  assumes lay: "layout q r qf c (fst ` set L) L" and free: "lay_end 0 L < 2 ^ q"
    and new: "p \<in> fst ` set L" "(p, fr) \<notin> set L" "fr AND mask r = fr"
  defines "s \<equiv> run_start p L + run_pos p fr L"
    and "qf1 \<equiv> if run_pos p fr L = 0
           then set_elem qf (idx q c (run_start p L)) (set_continuation (get_elem qf (idx q c (run_start p L)))) else qf"
    and "L' \<equiv> before_pos p fr L @ (p, fr) # after_pos p fr L"
  shows "s < 2 ^ q"
    "\<exists>qf'. insert_into qf1 (idx q c s) (mk_elt False (run_pos p fr L \<noteq> 0) (s \<noteq> p) fr) = Some qf'
       \<and> layout q r qf' c (fst ` set L') L' \<and> qf_entries qf' = qf_entries qf"
proof -
  have sorted: "fp_sorted L" and shape: "qf_shape q r qf" and tab: "tab_is q qf c (fst ` set L) (map_of (lay 0 None L))"
    using lay by (auto simp: layout_def)
  obtain b where b: "(p, b) \<in> set L" using new(1) by auto
  have p: "p < 2 ^ q" using lay b by (auto simp: layout_def)
  have run: "run p L \<noteq> []" and used: "map_of (lay 0 None L) p \<noteq> None"
    using run_nonempty [OF sorted b] quotient_used [OF b sorted] .
  have "lay_end 0 (pre p L @ run p L) = run_start p L + length (run p L)"
    using run lay_end_run [of "run p L" p] run_fst [of _ p L] by (simp add: run_start_def)
  then have ends: "run_start p L + length (run p L) < 2 ^ q"
    using lay_end_ge [of "lay_end 0 (pre p L @ run p L)" "post p L"] arg_cong [OF split_run [of L p], of "lay_end 0"] free
    by simp
  then show s: "s < 2 ^ q" using run_pos_le [of p fr L] by (simp add: s_def)
  let ?S = "split_map (before_pos p fr L) p (after_pos p fr L)" and ?start = "run_start p L"
  have prev: "last_quot None (before_pos p fr L) = Some p \<longleftrightarrow> run_pos p fr L \<noteq> 0"
    using split_map_inside(2) [of p fr L] split_map_start(2) [OF _ run, of fr] by auto
  have tab1: "tab_is q qf1 c (insert p (fst ` set L)) ?S" and dom: "?S j = None \<longleftrightarrow> map_of (lay 0 None L) j = None" for j
  proof -
    have slot: "map_of (lay 0 None L) ?start = Some (False, ?start \<noteq> p, snd (run p L ! 0))"
      using lay_run_slot [of 0 p L] run by simp
    have start: "?start < 2 ^ q" using ends by simp
    have "run p L ! 0 \<in> set L" using run arg_cong [OF split_run [of L p], of set] by auto
    then have "snd (run p L ! 0) AND mask r = snd (run p L ! 0)" using lay by (auto simp: layout_def)
    note set = set_elem_tab [OF shape tab start this, of "?start \<in> fst ` set L" True "?start \<noteq> p"]
    have "tab_is q qf1 c (fst ` set L) ?S"
    proof (cases "run_pos p fr L = 0")
      case True
      have "set_continuation (get_elem qf (idx q c ?start)) = mk_elt (?start \<in> fst ` set L) True (?start \<noteq> p) (snd (run p L ! 0))"
        using slot layout_elem [OF lay start] by (simp add: slot_elt_def)
      then show ?thesis
        using True set split_map_start(1) [OF True run] by (auto simp: qf1_def insert_absorb split: if_splits)
    next
      case False
      then show ?thesis using tab split_map_inside(1) [of p fr L] by (simp add: qf1_def)
    qed
    then show "tab_is q qf1 c (insert p (fst ` set L)) ?S" using new(1) by (simp add: insert_absorb)
    show "?S j = None \<longleftrightarrow> map_of (lay 0 None L) j = None"
      using split_map_inside(1) [of p fr L] split_map_start(1) [OF _ run, of fr] slot
      by (cases "run_pos p fr L = 0") auto
  qed
  have entries: "qf_entries qf1 = qf_entries qf" by (simp add: qf1_def set_elem_def Let_def)
  have "?S (2 ^ q - 1) = None" using dom last_slot_free [OF free] by blast
  from insert_used_slot [OF lay free new(2) p new(3) used _ tab1 _ this] shape dom
  show "\<exists>qf'. insert_into qf1 (idx q c s) (mk_elt False (run_pos p fr L \<noteq> 0) (s \<noteq> p) fr) = Some qf'
       \<and> layout q r qf' c (fst ` set L') L' \<and> qf_entries qf' = qf_entries qf"
    unfolding prev entries L'_def s_def by (simp add: qf1_def)
qed

lemma shape_same_fingerprint: "qf_shape q r qf \<Longrightarrow> qf_shape q r qf' \<Longrightarrow> fingerprint qf' hash = fingerprint qf hash"
  by (simp add: fingerprint_def hash_to_quotient_def hash_to_remainder_def qf_shape_def)

lemma qf_inv_more:
  assumes lay: "layout q r qf' c (fst ` set L') L'" and c: "c < 2 ^ q" and n: "length L' = Suc n" "n < 2 ^ q"
    and entries: "unat (qf_entries qf') = n"
  shows "qf_inv q r (qf'\<lparr>qf_entries := qf_entries qf' + 1\<rparr>) c L'"
proof -
  have "(2 :: nat) ^ q \<le> 2 ^ 31"
    by (rule power_increasing) (use layout_shape [OF lay] in \<open>simp_all add: qf_shape_def\<close>)
  then have "unat (qf_entries qf') + unat (1 :: u32) < 2 ^ 32" using n(2) entries by simp
  then have "unat (qf_entries qf' + 1) = Suc n" using iffD1 [OF unat_add_lem, of "qf_entries qf'" 1] entries by simp
  moreover have "layout q r (qf'\<lparr>qf_entries := qf_entries qf' + 1\<rparr>) c (fst ` set L') L'"
    using lay by (simp add: layout_def tab_is_def)
  ultimately show ?thesis using c n(1) by (simp add: qf_inv_def)
qed

lemma qf_insert_free:
  assumes inv: "qf_inv q r qf c L" and free: "lay_end 0 L < 2 ^ q" and room: "length L < 2 ^ q"
  shows "\<exists>qf' L'. qf_insert qf hash = Some (True, qf') \<and> qf_inv q r qf' c L'
    \<and> fingerprints q c L' = insert (fingerprint qf hash) (fingerprints q c L)"
proof -
  have lay: "layout q r qf c (fst ` set L) L" and c: "c < 2 ^ q" and n: "unat (qf_entries qf) = length L"
    using inv by (auto simp: qf_inv_def)
  note shape = layout_shape [OF lay]
  have sorted: "fp_sorted L" using lay by (simp add: layout_def)
  obtain p where p: "p < 2 ^ q" "hash_to_quotient qf hash = idx q c p"
    using quotient_from_cut [OF shape c] .
  define fr where "fr = hash_to_remainder qf hash"
  have mask: "fr AND mask r = fr" using hash_parts(1) [OF shape] by (simp add: fr_def)
  have "r \<le> 55" using shape by (simp add: qf_shape_def)
  from remainder_small(3) [OF this mask] have entry: "push_bit 3 fr AND - 8 = mk_elt False False False fr" by simp
  have "\<not> qf_max_size qf \<le> ucast (qf_entries qf)"
  proof -
    have "unat (2 ^ q :: u64) = 2 ^ q" using shape by (intro unat_exp_u64) (simp add: qf_shape_def)
    moreover have "unat (ucast (qf_entries qf) :: u64) = length L"
      using n unsigned_less [where 'a = nat, of "qf_entries qf"] by (simp add: unsigned_ucast_eq take_bit_nat_eq_self)
    ultimately show ?thesis using room shape by (simp add: word_le_nat_alt qf_shape_def)
  qed
  note [simp] = this
  let ?L' = "before_pos p fr L @ (p, fr) # after_pos p fr L"
  have fp: "fingerprint qf hash = (idx q c p, fr)" by (simp add: fingerprint_def p(2) fr_def)
  have fps: "fingerprints q c L' = insert (fingerprint qf hash) (fingerprints q c L)" if "set L' = insert (p, fr) (set L)" for L'
    using that by (simp add: fingerprints_def fp)
  have grow: "\<exists>qf' L'. qf_insert qf hash = Some (True, qf') \<and> qf_inv q r qf' c L'
      \<and> fingerprints q c L' = insert (fingerprint qf hash) (fingerprints q c L)"
    if "qf_insert qf hash = Some (True, qf'\<lparr>qf_entries := qf_entries qf' + 1\<rparr>)" "layout q r qf' c (fst ` set ?L') ?L'"
      "qf_entries qf' = qf_entries qf" for qf'
  proof -
    have L': "set ?L' = insert (p, fr) (set L)" "length ?L' = Suc (length L)"
      using arg_cong [OF split_pos [of L p fr], of set] arg_cong [OF split_pos [of L p fr], of length] by auto
    show ?thesis
      using qf_inv_more [OF that(2) c L'(2) room] that(1,3) n fps [OF L'(1)] by auto
  qed
  show ?thesis
  proof (cases "map_of (lay 0 None L) p = None")
    case True
    then have "(p, fr) \<notin> set L" using used_iff_quotient [OF lay True] by force
    note lay' = insert_free_slot [OF lay free this p(1) mask True]
    have "is_empty_element (get_elem qf (idx q c p))" using used_not_empty [OF lay p(1)] True by simp
    then have "qf_insert qf hash = Some (True, (set_elem qf (idx q c p) (mk_elt True False False fr))\<lparr>qf_entries :=
        qf_entries (set_elem qf (idx q c p) (mk_elt True False False fr)) + 1\<rparr>)"
      by (simp add: qf_insert_def p(2) entry Let_def flip: fr_def)
    then show ?thesis using lay' by (rule grow) simp
  next
    case used: False
    then have ne: "\<not> is_empty_element (get_elem qf (idx q c p))" using used_not_empty [OF lay p(1)] by simp
    show ?thesis
    proof (cases "p \<in> fst ` set L")
      case False
      note new = insert_new_run [OF lay free False p(1) mask used]
      have occ: "\<not> is_occupied (get_elem qf (idx q c p))" using False layout_elem [OF lay p(1)] by simp
      obtain qf' where qf': "insert_into (set_elem qf (idx q c p) (set_occupied (get_elem qf (idx q c p)))) (idx q c (run_start p L))
            (mk_elt False False (run_start p L \<noteq> p) fr) = Some qf'"
          "layout q r qf' c (fst ` set ?L') ?L'" "qf_entries qf' = qf_entries qf"
        using new(3) by blast
      have "idx q c (run_start p L) = idx q c p \<longleftrightarrow> run_start p L = p" by (rule idx_inject [OF shape new(2) p(1)])
      then have "qf_insert qf hash = Some (True, qf'\<lparr>qf_entries := qf_entries qf' + 1\<rparr>)"
        using ne occ new(1) qf'(1) by (cases "run_start p L = p") (simp_all add: qf_insert_def p(2) entry Let_def flip: fr_def)
      then show ?thesis using qf'(2,3) by (rule grow)
    next
      case True
      then obtain b where "(p, b) \<in> set L" by auto
      then have run: "run p L \<noteq> []" using run_nonempty [OF sorted] by blast
      have occ: "is_occupied (get_elem qf (idx q c p))" using True layout_elem [OF lay p(1)] by simp
      have find: "find_run_index qf (idx q c p) = Some (idx q c (run_start p L))"
        using find_run_index_layout [OF lay p(1) True _ used] by auto
      define s where "s = run_start p L + run_pos p fr L"
      have scan: "scan_run qf fr (idx q c (run_start p L)) = Some ((p, fr) \<in> set L, idx q c s)"
        using scan_run_layout [OF lay, of 0 p fr] run run_member [OF sorted, of p fr] by (simp add: s_def)
      show ?thesis
      proof (cases "(p, fr) \<in> set L")
        case dup: True
        then have "qf_insert qf hash = Some (True, qf)"
          using ne occ find scan by (simp add: qf_insert_def p(2) entry Let_def flip: fr_def)
        moreover have "set L = insert (p, fr) (set L)" using dup by auto
        ultimately show ?thesis using inv fps by blast
      next
        case new: False
        note old = insert_old_run [OF lay free True new mask, folded s_def]
        obtain qf' where qf': "insert_into (if run_pos p fr L = 0
              then set_elem qf (idx q c (run_start p L)) (set_continuation (get_elem qf (idx q c (run_start p L)))) else qf)
              (idx q c s) (mk_elt False (run_pos p fr L \<noteq> 0) (s \<noteq> p) fr) = Some qf'"
            "layout q r qf' c (fst ` set ?L') ?L'" "qf_entries qf' = qf_entries qf"
          using old(2) by blast
        have start: "run_start p L < 2 ^ q" using old(1) by (simp add: s_def)
        have "idx q c s = idx q c p \<longleftrightarrow> s = p" "idx q c s = idx q c (run_start p L) \<longleftrightarrow> run_pos p fr L = 0"
          using idx_inject [OF shape old(1) p(1), of c] idx_inject [OF shape old(1) start, of c] by (simp_all add: s_def)
        then have "qf_insert qf hash = Some (True, qf'\<lparr>qf_entries := qf_entries qf' + 1\<rparr>)"
          using ne occ find scan new qf'(1)
          by (cases "s = p"; cases "run_pos p fr L = 0") (simp_all add: qf_insert_def p(2) entry Let_def flip: fr_def)
        then show ?thesis using qf'(2,3) by (rule grow)
      qed
    qed
  qed
qed

section \<open>Moving the cut\<close>

definition move_fp :: "nat \<Rightarrow> nat \<times> u64 \<Rightarrow> nat \<times> u64" where
  "move_fp k x = (fst x + k, snd x)"

lemma lay_move: "lay (n + k) (map_option (\<lambda>a. a + k) prev) (map (move_fp k) L) = map (\<lambda>(p, x). (p + k, x)) (lay n prev L)"
proof (induction n prev L rule: lay.induct)
  case (2 n prev fq fr L)
  have "max (n + k) (fq + k) = max n fq + k" by simp
  moreover have "map_option (\<lambda>a. a + k) prev = Some (fq + k) \<longleftrightarrow> prev = Some fq" by (cases prev) auto
  ultimately show ?case using 2 by (simp add: move_fp_def)
qed simp

lemma lay_end_move: "lay_end (n + k) (map (move_fp k) L) = lay_end n L + k"
proof (induction n L rule: lay_end.induct)
  case (2 n fq fr L)
  have "max (n + k) (fq + k) = max n fq + k" by simp
  then show ?case using 2 by (simp add: move_fp_def)
qed simp

lemma map_of_move: "map_of (map (\<lambda>(p, x). (p + k, x)) xs) (j + k) = map_of xs (j :: nat)"
  by (induction xs) auto

lemma quotient_less_end: "x \<in> set L \<Longrightarrow> fst x < lay_end n L"
proof (induction n L rule: lay_end.induct)
  case (2 n fq fr L)
  then show ?case using lay_end_ge [of "max n fq + 1" L] by (cases "x = (fq, fr)") auto
qed simp

lemma fp_less_move: "fp_less (move_fp k x) (move_fp k y) = fp_less x y"
  by (simp add: fp_less_def move_fp_def)

lemma fp_sorted_move: "fp_sorted (map (move_fp k) L) = fp_sorted L"
  by (simp add: fp_sorted_def sorted_wrt_map fp_less_move)

text \<open>The two halves of the table around a free slot \<open>p\<close>: \<open>A\<close> before it, \<open>B\<close>, counted from the slot after it, behind it.\<close>

lemma split_at_free:
  assumes lay: "layout q r qf c (fst ` set L) L" and unused: "map_of (lay 0 None L) p = None"
  obtains A B where "L = A @ map (move_fp (Suc p)) B" "\<forall>x \<in> set A. fst x < p" "lay_end 0 A \<le> p"
    "\<And>j. map_of (lay 0 None L) j = (if j \<le> p then map_of (lay 0 None A) j else map_of (lay 0 None B) (j - Suc p))"
    "B \<noteq> [] \<Longrightarrow> lay_end 0 L = lay_end 0 B + Suc p"
proof -
  have sorted: "fp_sorted L" using lay by (simp add: layout_def)
  have run: "run p L = []"
    using used_iff_quotient [OF lay unused] run_fst [of _ p L] arg_cong [OF split_run [of L p], of set]
    by (cases "run p L") force+
  define A B where "A = pre p L" and "B = map (\<lambda>x. (fst x - Suc p, snd x)) (post p L)"
  have "move_fp (Suc p) (fst x - Suc p, snd x) = x" if "x \<in> set (post p L)" for x
    using post_fst [OF sorted that] by (simp add: move_fp_def)
  then have "map (move_fp (Suc p)) B = post p L" by (simp add: B_def comp_def map_idI)
  then have L: "L = A @ map (move_fp (Suc p)) B" using split_run [of L p] run by (simp add: A_def)
  have ends: "lay_end 0 A \<le> p" using unused_run_start [OF unused] by (simp add: A_def)
  have hd: "Suc p \<le> fst (hd (map (move_fp (Suc p)) B))" if "B \<noteq> []"
    using that by (cases B) (auto simp: move_fp_def)
  have lay_B: "lay (lay_end 0 A) (last_quot None A) (map (move_fp (Suc p)) B) = map (\<lambda>(j, x). (j + Suc p, x)) (lay 0 None B)"
  proof -
    have "lay (lay_end 0 A) (last_quot None A) (map (move_fp (Suc p)) B) = lay (Suc p) None (map (move_fp (Suc p)) B)"
      using hd ends last_quot_pre [of p L] by (intro lay_from) (force simp: A_def)
    then show ?thesis using lay_move [of 0 "Suc p" None B] by simp
  qed
  have "map_of (lay 0 None L) j = (if j \<le> p then map_of (lay 0 None A) j else map_of (lay 0 None B) (j - Suc p))" for j
  proof -
    have low: "map_of (map (\<lambda>(j, x). (j + Suc p, x)) (lay 0 None B)) j = None" if "j \<le> p" for j
      using that by (auto simp: map_of_eq_None_iff)
    have "map_of (lay 0 None A) j = None" if "lay_end 0 A \<le> j" for j
      using that lay_slots [of j 0 None A] by (auto simp: map_of_eq_None_iff)
    moreover have "map_of (map (\<lambda>(j, x). (j + Suc p, x)) (lay 0 None B)) j = map_of (lay 0 None B) (j - Suc p)" if "p < j"
      using map_of_move [of "Suc p" "lay 0 None B" "j - Suc p"] that by simp
    ultimately show ?thesis
      using map_of_lay_append [of 0 None A "map (move_fp (Suc p)) B" j] low [of j] ends
      unfolding L [symmetric] lay_B by auto
  qed
  moreover have "lay_end 0 L = lay_end 0 B + Suc p" if "B \<noteq> []"
  proof -
    have "lay_end 0 L = lay_end (lay_end 0 A) (map (move_fp (Suc p)) B)" by (subst L) simp
    also have "\<dots> = lay_end (0 + Suc p) (map (move_fp (Suc p)) B)"
      using hd [OF that] that ends by (intro lay_end_from) auto
    finally show ?thesis by (simp only: lay_end_move)
  qed
  ultimately show ?thesis using that [OF L _ ends] pre_fst [of _ p L] by (auto simp: A_def)
qed

lemma move_cut:
  assumes lay: "layout q r qf c (fst ` set L) L" and L: "L = A @ map (move_fp (Suc p)) B" and p: "p < 2 ^ q"
    and A: "\<forall>x \<in> set A. fst x < p" "lay_end 0 A \<le> p"
    and M: "\<And>j. map_of (lay 0 None L) j = (if j \<le> p then map_of (lay 0 None A) j else map_of (lay 0 None B) (j - Suc p))"
    and B: "lay_end 0 B + Suc p \<le> 2 ^ q"
  defines "L' \<equiv> B @ map (move_fp (2 ^ q - Suc p)) A"
  shows "layout q r qf ((c + Suc p) mod 2 ^ q) (fst ` set L') L'" "lay_end 0 L' < 2 ^ q"
proof -
  define m where "m = 2 ^ q - Suc p"
  have m: "m + Suc p = 2 ^ q" using p by (simp add: m_def)
  then have Bm: "lay_end 0 B \<le> m" using B by linarith
  have B_less: "fst x < m" if "x \<in> set B" for x using quotient_less_end [OF that, of 0] Bm by simp
  have hd: "m \<le> fst (hd (map (move_fp m) A))" if "A \<noteq> []" using that by (cases A) (auto simp: move_fp_def)
  have lay_A: "lay (lay_end 0 B) (last_quot None B) (map (move_fp m) A) = map (\<lambda>(j, x). (j + m, x)) (lay 0 None A)"
  proof -
    have "last_quot None B \<noteq> Some (fst (hd (map (move_fp m) A)))" if "A \<noteq> []"
      using hd [OF that] B_less [of "last B"] by (auto simp: last_quot_def)
    then have "lay (lay_end 0 B) (last_quot None B) (map (move_fp m) A) = lay (0 + m) None (map (move_fp m) A)"
      using hd Bm by (intro lay_from) auto
    then show ?thesis using lay_move [of 0 m None A] by simp
  qed
  show ends: "lay_end 0 L' < 2 ^ q"
  proof (cases "A = []")
    case False
    then have "lay_end 0 L' = lay_end (0 + m) (map (move_fp m) A)"
      using hd Bm unfolding L'_def m_def [symmetric] by (simp, intro lay_end_from) auto
    then show ?thesis using A(2) m by (simp only: lay_end_move)
  qed (use Bm m in \<open>simp add: L'_def\<close>)
  have M': "map_of (lay 0 None L') j = (if j < m then map_of (lay 0 None B) j else map_of (lay 0 None A) (j - m))" for j
  proof -
    have "map_of (map (\<lambda>(j, x). (j + m, x)) (lay 0 None A)) j = (if j < m then None else map_of (lay 0 None A) (j - m))"
      using map_of_move [of m "lay 0 None A" "j - m"] by (auto simp: map_of_eq_None_iff)
    moreover have "map_of (lay 0 None B) j = None" if "lay_end 0 B \<le> j"
      using that lay_slots [of j 0 None B] by (auto simp: map_of_eq_None_iff)
    ultimately show ?thesis
      using map_of_lay_append [of 0 None B "map (move_fp m) A" j] Bm
      unfolding lay_A L'_def m_def [symmetric] by auto
  qed
  have occ: "j \<in> fst ` set L' \<longleftrightarrow> (if j < m then j + Suc p \<in> fst ` set L else j - m \<in> fst ` set L)" if "j < 2 ^ q" for j
  proof -
    have "fst ` set L' = fst ` set B \<union> (\<lambda>x. fst x + m) ` set A" "fst ` set L = fst ` set A \<union> (\<lambda>x. fst x + Suc p) ` set B"
      unfolding L'_def m_def [symmetric] by (simp_all add: L image_Un image_image move_fp_def)
    then have L': "j \<in> fst ` set L' \<longleftrightarrow> (\<exists>x \<in> set B. fst x = j) \<or> (\<exists>x \<in> set A. fst x + m = j)"
      and at: "i \<in> fst ` set L \<longleftrightarrow> (\<exists>x \<in> set A. fst x = i) \<or> (\<exists>x \<in> set B. fst x + Suc p = i)" for i
      by (simp_all only: Un_iff image_iff eq_commute)
    show ?thesis
    proof (cases "j < m")
      case True
      have "\<not> (\<exists>x \<in> set A. fst x + m = j)" "\<not> (\<exists>x \<in> set A. fst x = j + Suc p)" using True A(1) by auto
      then show ?thesis using True unfolding L' at by auto
    next
      case False
      have "\<not> (\<exists>x \<in> set B. fst x = j)" "\<not> (\<exists>x \<in> set B. fst x + Suc p = j - m)"
        using False B_less that m by auto
      moreover have "(\<exists>x \<in> set A. fst x + m = j) \<longleftrightarrow> (\<exists>x \<in> set A. fst x = j - m)"
        using False by (intro bex_cong) auto
      ultimately show ?thesis using False unfolding L' at by simp
    qed
  qed
  have parts: "fp_sorted A" "fp_sorted B"
    using lay fp_sorted_move [of "Suc p" B] by (simp_all add: layout_def L fp_sorted_append)
  have "fp_less x y" if "x \<in> set B" "y \<in> set (map (move_fp m) A)" for x y
    using B_less [OF that(1)] that(2) by (auto simp: fp_less_def move_fp_def)
  then have sorted: "fp_sorted L'"
    using parts fp_sorted_move [of m A] unfolding L'_def m_def [symmetric] fp_sorted_append by blast
  have bounds: "\<forall>x \<in> set L'. fst x < 2 ^ q \<and> snd x AND mask r = snd x"
  proof
    fix x assume x: "x \<in> set L'"
    then consider "x \<in> set B" | y where "y \<in> set A" "x = move_fp m y" unfolding L'_def m_def [symmetric] by auto
    then show "fst x < 2 ^ q \<and> snd x AND mask r = snd x"
    proof cases
      case 1
      then have "move_fp (Suc p) x \<in> set L" by (simp add: L)
      then show ?thesis using lay B_less [OF 1] m by (auto simp: layout_def move_fp_def)
    next
      case 2
      then have "y \<in> set L" "fst y < p" using A(1) by (auto simp: L)
      then show ?thesis using lay m 2(2) by (auto simp: layout_def move_fp_def)
    qed
  qed
  have "get_elem qf (idx q ((c + Suc p) mod 2 ^ q) j) = slot_elt (fst ` set L') (map_of (lay 0 None L')) j" if j: "j < 2 ^ q" for j
  proof (cases "j < m")
    case True
    then have "j + Suc p < 2 ^ q" using m by linarith
    moreover have "idx q ((c + Suc p) mod 2 ^ q) j = idx q c (j + Suc p)"
      unfolding idx_def mod_add_left_eq by (simp only: ac_simps)
    ultimately show ?thesis
      using True layout_elem [OF lay, of "j + Suc p"] occ [OF j] M' [of j] M [of "j + Suc p"]
        slot_elt_cong [of "map_of (lay 0 None L')" j "map_of (lay 0 None L)" "j + Suc p"] by simp
  next
    case False
    have "c + Suc p + j = c + (j - m) + 2 ^ q" using False m by simp
    then have "idx q ((c + Suc p) mod 2 ^ q) j = idx q c (j - m)"
      unfolding idx_def mod_add_left_eq by (simp only: mod_add_self2)
    moreover have "j - m \<le> p" "j - m < 2 ^ q" using j m by simp_all
    ultimately show ?thesis
      using False layout_elem [OF lay, of "j - m"] occ [OF j] M' [of j] M [of "j - m"]
        slot_elt_cong [of "map_of (lay 0 None L')" j "map_of (lay 0 None L)" "j - m"] by simp
  qed
  then show "layout q r qf ((c + Suc p) mod 2 ^ q) (fst ` set L') L'"
    using lay ends sorted bounds by (simp add: layout_def tab_is_def)
qed

lemma fingerprints_move:
  assumes "p < 2 ^ q"
  shows "fingerprints q ((c + Suc p) mod 2 ^ q) (B @ map (move_fp (2 ^ q - Suc p)) A)
    = fingerprints q c (A @ map (move_fp (Suc p)) B)"
proof -
  have "idx q ((c + Suc p) mod 2 ^ q) a = idx q c (a + Suc p)" for a
    unfolding idx_def mod_add_left_eq by (simp only: ac_simps)
  moreover have "idx q ((c + Suc p) mod 2 ^ q) (a + (2 ^ q - Suc p)) = idx q c a" for a
  proof -
    have "c + Suc p + (a + (2 ^ q - Suc p)) = c + a + 2 ^ q" using assms by simp
    then show ?thesis unfolding idx_def mod_add_left_eq by (simp only: mod_add_self2)
  qed
  ultimately show ?thesis
    by (auto simp: fingerprints_def image_Un image_image move_fp_def case_prod_beta Un_commute)
qed

lemma free_slot_exists:
  assumes "length L < 2 ^ q" "lay_end 0 L \<le> 2 ^ q"
  obtains p where "p < 2 ^ q" "map_of (lay 0 None L) p = None"
proof -
  have "card (fst ` set (lay 0 None L)) \<le> length L"
    using card_image_le [of "set (lay 0 None L)" fst] card_length [of "lay 0 None L"] by simp
  then have "\<not> {..<2 ^ q} \<subseteq> fst ` set (lay 0 None L)"
    using assms(1) card_mono [of "fst ` set (lay 0 None L)" "{..<2 ^ q}"] by auto
  then show ?thesis using that by (auto simp: map_of_eq_None_iff)
qed

lemma recut:
  assumes inv: "qf_inv q r qf c L" and room: "length L < 2 ^ q"
  obtains c' L' where "qf_inv q r qf c' L'" "lay_end 0 L' < 2 ^ q" "length L' = length L" "fingerprints q c' L' = fingerprints q c L"
proof -
  have lay: "layout q r qf c (fst ` set L) L" using inv by (simp add: qf_inv_def)
  obtain p where p: "p < 2 ^ q" "map_of (lay 0 None L) p = None"
    using free_slot_exists [OF room] lay by (auto simp: layout_def)
  show ?thesis
  proof (rule split_at_free [OF lay p(2)])
    fix A B
    assume split: "L = A @ map (move_fp (Suc p)) B" "\<forall>x \<in> set A. fst x < p" "lay_end 0 A \<le> p"
      "\<And>j. map_of (lay 0 None L) j = (if j \<le> p then map_of (lay 0 None A) j else map_of (lay 0 None B) (j - Suc p))"
      "B \<noteq> [] \<Longrightarrow> lay_end 0 L = lay_end 0 B + Suc p"
    have "lay_end 0 B + Suc p \<le> 2 ^ q"
      using split(5) lay p(1) by (cases "B = []") (auto simp: layout_def)
    note cut = move_cut [OF lay split(1) p(1) split(2-4) this]
    have "length (B @ map (move_fp (2 ^ q - Suc p)) A) = length L" by (simp add: split(1))
    then show ?thesis
      using cut inv fingerprints_move [OF p(1), of c B A] split(1)
      by (intro that [of "(c + Suc p) mod 2 ^ q" "B @ map (move_fp (2 ^ q - Suc p)) A"]) (simp_all add: qf_inv_def)
  qed
qed

section \<open>The filter as a set of fingerprints\<close>

lemma card_fingerprints:
  assumes "qf_inv q r qf c L"
  shows "card (fingerprints q c L) = length L"
proof -
  have lay: "layout q r qf c (fst ` set L) L" using assms by (simp add: qf_inv_def)
  have sorted: "sorted_wrt fp_less L" using lay by (simp add: layout_def fp_sorted_def)
  have "distinct L" unfolding distinct_conv_nth
  proof (intro allI impI)
    fix i j assume ij: "i < length L" "j < length L" "i \<noteq> j"
    then have "fp_less (L ! i) (L ! j) \<or> fp_less (L ! j) (L ! i)"
      using sorted_wrt_nth_less [OF sorted, of i j] sorted_wrt_nth_less [OF sorted, of j i]
      by (cases i j rule: linorder_cases) simp_all
    then show "L ! i \<noteq> L ! j" by (auto simp: fp_less_def)
  qed
  moreover have "inj_on (\<lambda>(a, b). (idx q c a, b)) (set L)"
  proof (rule inj_onI)
    fix x y assume "x \<in> set L" "y \<in> set L" "(\<lambda>(a, b). (idx q c a, b)) x = (\<lambda>(a, b). (idx q c a, b)) y"
    moreover from this have "fst x < 2 ^ q" "fst y < 2 ^ q" using lay by (simp_all add: layout_def)
    ultimately show "x = y"
      using idx_inject [OF layout_shape [OF lay], of "fst x" "fst y" c] by (simp add: case_prod_beta prod_eq_iff)
  qed
  ultimately show ?thesis by (simp add: fingerprints_def card_image distinct_card)
qed

lemma qf_insert_rep:
  assumes rep: "qf_rep q r qf S" and room: "card S < 2 ^ q"
  shows "\<exists>qf'. qf_insert qf hash = Some (True, qf') \<and> qf_rep q r qf' (insert (fingerprint qf hash) S)"
proof -
  obtain c L where inv: "qf_inv q r qf c L" and S: "S = fingerprints q c L" using rep by (auto simp: qf_rep_def)
  have "length L < 2 ^ q" using room card_fingerprints [OF inv] by (simp add: S)
  then obtain c' L' where cut: "qf_inv q r qf c' L'" "lay_end 0 L' < 2 ^ q" "length L' = length L" "fingerprints q c' L' = S"
    using recut [OF inv] S by metis
  then show ?thesis
    using qf_insert_free [OF cut(1,2), of hash] \<open>length L < 2 ^ q\<close> unfolding qf_rep_def by metis
qed

lemma qf_insert_full:
  assumes rep: "qf_rep q r qf S" and full: "card S = 2 ^ q"
  shows "qf_insert qf hash = Some (False, qf)"
proof -
  obtain c L where inv: "qf_inv q r qf c L" and S: "S = fingerprints q c L" using rep by (auto simp: qf_rep_def)
  then have n: "unat (qf_entries qf) = 2 ^ q" and shape: "qf_shape q r qf"
    using full card_fingerprints [OF inv] by (auto simp: qf_inv_def layout_def)
  have "unat (2 ^ q :: u64) = 2 ^ q" using shape by (intro unat_exp_u64) (simp add: qf_shape_def)
  moreover have "unat (ucast (qf_entries qf) :: u64) = 2 ^ q"
    using n shape by (simp add: unsigned_ucast_eq take_bit_nat_eq_self qf_shape_def)
  ultimately show ?thesis using shape by (simp add: qf_insert_def word_le_nat_alt qf_shape_def)
qed

lemma qf_rep_shape: "qf_rep q r qf S \<Longrightarrow> qf_shape q r qf"
  by (auto simp: qf_rep_def qf_inv_def layout_def)

lemma qf_rep_card: "qf_rep q r qf S \<Longrightarrow> finite S \<and> card S \<le> 2 ^ q"
proof -
  assume "qf_rep q r qf S"
  then obtain c L where inv: "qf_inv q r qf c L" and S: "S = fingerprints q c L" by (auto simp: qf_rep_def)
  have "length L \<le> card {..<lay_end 0 L}"
  proof -
    have "length L = card (fst ` set (lay 0 None L))"
      using distinct_card [OF lay_distinct [of 0 None L]] by simp
    also have "\<dots> \<le> card {..<lay_end 0 L}" using lay_slots [of _ 0 None L] by (intro card_mono) auto
    finally show ?thesis .
  qed
  moreover have "lay_end 0 L \<le> 2 ^ q" using inv by (auto simp: qf_inv_def layout_def)
  ultimately show ?thesis using card_fingerprints [OF inv] by (simp add: S fingerprints_def)
qed

section \<open>Making a filter\<close>

lemma unat_qf_table_size:
  assumes "q < 32" "q + r \<le> 56"
  shows "unat (qf_table_size q r) = (if 2 ^ q * (r + 3) mod 8 = 0 then 2 ^ q * (r + 3) div 8 else 2 ^ q * (r + 3) div 8 + 1)"
    "2 ^ q * (r + 3) < (2 :: nat) ^ 40"
proof -
  define B where "B = 2 ^ q * (r + 3)"
  have q: "(2 :: nat) ^ q \<le> 2 ^ 31" by (rule power_increasing) (use assms in simp_all)
  then have "2 ^ q * (r + 3) \<le> 2 ^ 31 * 64" using assms by (intro mult_le_mono) simp_all
  then show small: "2 ^ q * (r + 3) < (2 :: nat) ^ 40" by simp
  have exp: "unat (push_bit q (1 :: u64)) = 2 ^ q"
    using assms unat_exp_u64 [of q] by (simp add: push_bit_eq_mult)
  have "unat (of_nat (r + 3) :: u64) = r + 3"
    using assms by (simp add: unsigned_of_nat take_bit_nat_eq_self del: of_nat_add)
  then have bits: "unat (push_bit q (1 :: u64) * of_nat (r + 3)) = B"
    using exp small iffD1 [OF unat_mult_lem, of "push_bit q (1 :: u64)" "of_nat (r + 3)"] by (simp add: B_def)
  define w where "w = push_bit q (1 :: u64) * of_nat (r + 3)"
  have w: "unat w = B" using bits by (simp add: w_def)
  have "unat (w div 8) = B div 8" "unat (w mod 8) = B mod 8" by (simp_all add: unat_div unat_mod w)
  moreover from this have "unat (w div 8 + 1) = B div 8 + 1"
    using small iffD1 [OF unat_add_lem, of "w div 8" 1] by (simp add: B_def [symmetric])
  moreover have "w mod 8 = 0 \<longleftrightarrow> unat (w mod 8) = 0" by (simp add: unat_eq_zero)
  ultimately show "unat (qf_table_size q r) = (if 2 ^ q * (r + 3) mod 8 = 0 then 2 ^ q * (r + 3) div 8 else 2 ^ q * (r + 3) div 8 + 1)"
    unfolding qf_table_size_def Let_def w_def [symmetric] B_def [symmetric] by simp
qed

lemma table_size_bound:
  assumes "0 < q" "q < 32" "0 < r" "q + r \<le> 56"
  shows "(r + 3) * 2 ^ q \<le> 8 * unat (ceil_page_align (qf_table_size q r))"
    "unat (ceil_page_align (qf_table_size q r)) mod 4096 = 0"
    "unat (ceil_page_align (qf_table_size q r)) \<le> (r + 3) * 2 ^ q div 8 + 4096"
proof -
  define n B where "n = unat (qf_table_size q r)" and "B = 2 ^ q * (r + 3)"
  have "n = (if B mod 8 = 0 then B div 8 else B div 8 + 1)" and small: "B < 2 ^ 40"
    using unat_qf_table_size [OF assms(2,4)] by (simp_all only: n_def B_def)
  then have n: "B \<le> 8 * n" "n \<le> B div 8 + 1" "n < 2 ^ 40" by (auto split: if_splits)
  have align: "unat (ceil_page_align (qf_table_size q r)) = (n + 4096 - 1) div 4096 * 4096"
    using unat_round_up [of "of_nat PAGE_SIZE_IN_BYTES" 12 "qf_table_size q r"] n(3)
    by (simp add: ceil_page_align_def PAGE_SIZE_IN_BYTES_def n_def)
  moreover have "n \<le> (n + 4096 - 1) div 4096 * 4096" by (rule div_times_ge) simp
  moreover have "(n + 4096 - 1) div 4096 * 4096 \<le> n + 4096 - 1" by simp
  ultimately have "B \<le> 8 * unat (ceil_page_align (qf_table_size q r))"
      "unat (ceil_page_align (qf_table_size q r)) \<le> B div 8 + 4096"
    using n(1,2) by linarith+
  then show "(r + 3) * 2 ^ q \<le> 8 * unat (ceil_page_align (qf_table_size q r))"
      "unat (ceil_page_align (qf_table_size q r)) \<le> (r + 3) * 2 ^ q div 8 + 4096"
    by (simp_all add: B_def mult.commute)
  show "unat (ceil_page_align (qf_table_size q r)) mod 4096 = 0" by (simp add: align)
qed

end
