(* ===== verification/Quotient_Set.thy ===== *)
theory Quotient_Set
  imports Quotient_Layout
begin

text \<open>
  What the quotient filter promises to its users. A filter made with \<open>q\<close> quotient and \<open>r\<close>
  remainder bits is the empty set; as long as fewer than \<open>2 ^ q\<close> fingerprints are stored an
  insertion succeeds; a lookup answers exactly whether a hash with the same lowest \<open>q + r\<close> bits
  was inserted. In particular the filter has no false negatives, and its loops always end.
\<close>

locale filter_contract =
  fixes ins :: "'h \<Rightarrow> 'f \<Rightarrow> bool \<times> 'f"
    and has :: "'f \<Rightarrow> 'h \<Rightarrow> bool"
    and fits :: "'f \<Rightarrow> nat \<Rightarrow> bool"
    and same :: "'h \<Rightarrow> 'h \<Rightarrow> bool"
  assumes ins_succeeds: "fits f (Suc n) \<Longrightarrow> fst (ins h f)"
    and ins_fits: "fits f (Suc n) \<Longrightarrow> fits (snd (ins h f)) n"
    and has_ins: "fits f (Suc n) \<Longrightarrow> has (snd (ins h f)) h' \<longleftrightarrow> same h h' \<or> has f h'"
begin

lemma fits_fold: "fits f (length hs + n) \<Longrightarrow> fits (fold (\<lambda>h f. snd (ins h f)) hs f) n"
  by (induction hs arbitrary: f) (auto simp: ins_fits)

lemma has_fold:
  "fits f (length hs + n) \<Longrightarrow> has (fold (\<lambda>h f. snd (ins h f)) hs f) h' \<longleftrightarrow> has f h' \<or> (\<exists>h \<in> set hs. same h h')"
  by (induction hs arbitrary: f) (auto simp: ins_fits has_ins)

end

section \<open>Fingerprints and hash bits\<close>

lemma fingerprint_eq:
  assumes "qf_shape q r qf"
  shows "fingerprint qf h = fingerprint qf h' \<longleftrightarrow> take_bit (q + r) h = take_bit (q + r) h'"
proof
  assume "fingerprint qf h = fingerprint qf h'"
  then have "take_bit q (drop_bit r h) = take_bit q (drop_bit r h')" "take_bit r h = take_bit r h'"
    using assms by (simp_all add: fingerprint_def hash_to_quotient_def hash_to_remainder_def qf_shape_def
      take_bit_eq_mask)
  moreover have "take_bit (q + r) x = take_bit r x OR push_bit r (take_bit q (drop_bit r x))" for x :: u64
    by (rule bit_eqI) (auto simp: bit_simps)
  ultimately show "take_bit (q + r) h = take_bit (q + r) h'" by simp
next
  assume same: "take_bit (q + r) h = take_bit (q + r) h'"
  have "take_bit q (drop_bit r h) = take_bit q (drop_bit r h')"
    using arg_cong [OF same, of "drop_bit r"] by (simp add: drop_bit_take_bit)
  moreover have "take_bit r h = take_bit r h'" using arg_cong [OF same, of "take_bit r"] by simp
  ultimately show "fingerprint qf h = fingerprint qf h'"
    using assms by (simp add: fingerprint_def hash_to_quotient_def hash_to_remainder_def qf_shape_def
      take_bit_eq_mask)
qed

lemma fingerprint_shape:
  assumes "qf_shape q r qf" "qf_shape q r qf'"
  shows "fingerprint qf h = fingerprint qf' h"
  using assms by (simp add: fingerprint_def hash_to_quotient_def hash_to_remainder_def qf_shape_def)

section \<open>A new filter\<close>

lemma qf_init_shape:
  assumes "0 < q" "q < 32" "0 < r" "q + r \<le> 56" "qf_init q r = Some qf"
  shows "qf_shape q r qf"
proof -
  have small: "unat (of_nat n :: byte) = n" if "n < 256" for n
    using that by (simp add: unsigned_of_nat take_bit_nat_eq_self)
  have bits: "unat (of_nat q :: byte) = q" "unat (of_nat r :: byte) = r" "unat (of_nat r + 3 :: byte) = r + 3"
    using assms(1-4) small [of q] small [of r] small [of "r + 3"] by (simp_all add: add.commute)
  have "(r + 3) * 2 ^ q \<le> 64 * (unat (ceil_page_align (qf_table_size q r)) div 8)"
  proof -
    define n where "n = unat (ceil_page_align (qf_table_size q r))"
    have "(8 :: nat) dvd 4096" by simp
    then have "8 dvd n" using table_size_bound(2) [OF assms(1-4)] dvd_trans by (metis n_def mod_0_imp_dvd)
    then have "64 * (n div 8) = 8 * n" by auto
    then show ?thesis using table_size_bound(1) [OF assms(1-4)] by (simp add: n_def)
  qed
  then show ?thesis
    using assms bits by (auto simp: qf_init_def Let_def qf_shape_def LOW_MASK_mask push_bit_eq_mult split: if_splits)
qed

lemma qf_init_rep:
  assumes "0 < q" "q < 32" "0 < r" "q + r \<le> 56" "qf_init q r = Some qf"
  shows "qf_rep q r qf {}"
proof -
  note shape = qf_init_shape [OF assms]
  have table: "qf_table qf = replicate (length (qf_table qf)) 0" and entries: "qf_entries qf = 0"
    using assms(5) by (auto simp: qf_init_def Let_def split: if_splits)
  have zero: "get_elem qf (of_nat i) = 0" if "i < 2 ^ q" for i
  proof (rule bit_eqI)
    fix k
    have "\<not> tbit (qf_table qf) ((r + 3) * i + k)" if "k < r + 3"
    proof -
      have "(r + 3) * i + k < 64 * length (qf_table qf)"
        using elem_bound [OF shape \<open>i < 2 ^ q\<close> that] by simp
      then have "((r + 3) * i + k) div 64 < length (qf_table qf)" by linarith
      then show ?thesis unfolding tbit_def by (subst table) simp
    qed
    then show "bit (get_elem qf (of_nat i)) k = bit (0 :: u64) k"
      using bit_get_elem [OF shape that] by auto
  qed
  have "get_elem qf (idx q 0 p) = slot_elt {} (map_of (lay 0 None [])) p" if "p < 2 ^ q" for p
    using zero [of p] that by (simp add: idx_def slot_elt_def mk_elt_def)
  then have "qf_inv q r qf 0 []"
    using shape entries by (simp add: qf_inv_def layout_def tab_is_def fp_sorted_def)
  then show ?thesis by (auto simp: qf_rep_def fingerprints_def)
qed

section \<open>The contract\<close>

lemma qf_rep_same:
  assumes "qf_rep q r qf S" "qf_rep q r qf' (insert (fingerprint qf h) S)"
  shows "quotient_filter_may_contain qf' h' \<longleftrightarrow> take_bit (q + r) h = take_bit (q + r) h' \<or> quotient_filter_may_contain qf h'"
  using qf_may_contain_rep [OF assms(1), of h'] qf_may_contain_rep [OF assms(2), of h']
    fingerprint_shape [OF qf_rep_shape [OF assms(1)] qf_rep_shape [OF assms(2)], of h']
    fingerprint_eq [OF qf_rep_shape [OF assms(1)], of h h']
  by (auto simp: quotient_filter_may_contain_def)

interpretation qfs: filter_contract quotient_filter_insert quotient_filter_may_contain
    "\<lambda>f n. \<exists>S. qf_rep q r f S \<and> card S + n \<le> 2 ^ q" "\<lambda>h h'. take_bit (q + r) h = take_bit (q + r) h'" for q r
proof unfold_locales
  fix f n h h'
  assume "\<exists>S. qf_rep q r f S \<and> card S + Suc n \<le> 2 ^ q"
  then obtain S where S: "qf_rep q r f S" "card S + Suc n \<le> 2 ^ q" by blast
  then obtain f' where f': "qf_insert f h = Some (True, f')" "qf_rep q r f' (insert (fingerprint f h) S)"
    using qf_insert_rep [OF S(1), of h] by auto
  then have ins: "quotient_filter_insert h f = (True, f')" by (simp add: quotient_filter_insert_def)
  show "fst (quotient_filter_insert h f)" by (simp add: ins)
  have "card (insert (fingerprint f h) S) + n \<le> 2 ^ q"
    using S(2) card_insert_le_m1 [of "Suc (card S)" S "fingerprint f h"] by simp
  then show "\<exists>S. qf_rep q r (snd (quotient_filter_insert h f)) S \<and> card S + n \<le> 2 ^ q"
    using f'(2) ins by auto
  show "quotient_filter_may_contain (snd (quotient_filter_insert h f)) h'
      \<longleftrightarrow> take_bit (q + r) h = take_bit (q + r) h' \<or> quotient_filter_may_contain f h'"
    using qf_rep_same [OF S(1) f'(2)] by (simp add: ins)
qed

lemma quotient_filter_make_rep:
  assumes "0 < q" "q < 32" "0 < r" "q + r \<le> 56"
  obtains qf where "quotient_filter_make q r = Inr qf" "qf_rep q r qf {}"
proof -
  obtain qf where qf: "qf_init q r = Some qf" using assms by (auto simp: qf_init_def Let_def)
  with qf_init_rep [OF assms qf] show ?thesis using that by (simp add: quotient_filter_make_def)
qed

text \<open>
  C11: A quotient filter made with \<open>q\<close> quotient bits and \<open>r\<close> remainder bits into which at most \<open>2 ^ q\<close>
  hashes are inserted answers a lookup with yes exactly when a hash with the same lowest \<open>q + r\<close>
  bits was inserted: there is no false negative, and the false positives are the collisions of
  those bits.
\<close>

theorem quotient_filter_membership:
  assumes "0 < q" "q < 32" "0 < r" "q + r \<le> 56" "length hs \<le> 2 ^ q"
  shows "\<exists>qf. quotient_filter_make q r = Inr qf
    \<and> (\<forall>h. quotient_filter_may_contain (fold (\<lambda>h f. snd (quotient_filter_insert h f)) hs qf) h
          \<longleftrightarrow> (\<exists>h' \<in> set hs. take_bit (q + r) h' = take_bit (q + r) h))"
proof -
  obtain qf where qf: "quotient_filter_make q r = Inr qf" "qf_rep q r qf {}"
    using quotient_filter_make_rep [OF assms(1-4)] .
  have "\<not> quotient_filter_may_contain qf h" for h
    using qf_may_contain_rep [OF qf(2)] by (simp add: quotient_filter_may_contain_def)
  moreover have "\<exists>S. qf_rep q r qf S \<and> card S + (length hs + 0) \<le> 2 ^ q" using qf(2) assms(5) by force
  ultimately show ?thesis using qf(1) qfs.has_fold [of q r qf hs 0] by simp
qed

theorem quotient_filter_membership_witness:
  "\<exists>qf. quotient_filter_make 4 10 = Inr qf
    \<and> (let f = fold (\<lambda>h f. snd (quotient_filter_insert h f)) [0x1234, 0xFFFFFFFF, 0x1235] qf
       in quotient_filter_may_contain f 0x1234 \<and> quotient_filter_may_contain f 0x5234
          \<and> \<not> quotient_filter_may_contain f 0x1236)"
  using quotient_filter_membership [of 4 10 "[0x1234, 0xFFFFFFFF, 0x1235]"]
  by (auto simp: Let_def)

lemma qf_rep_insert_any:
  assumes "qf_rep q r qf S"
  shows "\<exists>b qf' S'. qf_insert qf hash = Some (b, qf') \<and> qf_rep q r qf' S'"
proof (cases "card S < 2 ^ q")
  case True
  then show ?thesis using qf_insert_rep [OF assms] by blast
next
  case False
  then have "card S = 2 ^ q" using qf_rep_card [OF assms] by simp
  then show ?thesis using qf_insert_full [OF assms] assms by blast
qed

lemma qf_rep_fold:
  "qf_rep q r qf S \<Longrightarrow> \<exists>S'. qf_rep q r (fold (\<lambda>h f. snd (quotient_filter_insert h f)) hs qf) S'"
proof (induction hs arbitrary: qf S)
  case (Cons h hs)
  obtain b qf' S' where "qf_insert qf h = Some (b, qf')" "qf_rep q r qf' S'" using qf_rep_insert_any [OF Cons.prems] by blast
  then show ?case using Cons.IH by (simp add: quotient_filter_insert_def)
qed auto

text \<open>
  C37: The loops of the quotient filter end. Whatever hashes were inserted into a new filter, even
  more than it has slots, an insertion and a lookup of any hash return.
\<close>

theorem quotient_filter_returns:
  assumes "0 < q" "q < 32" "0 < r" "q + r \<le> 56" "quotient_filter_make q r = Inr qf"
    and "f = fold (\<lambda>h f. snd (quotient_filter_insert h f)) hs qf"
  shows "(\<exists>b f'. qf_insert f h = Some (b, f')) \<and> (\<exists>b. qf_may_contain f h = Some b)"
proof -
  have "qf_rep q r qf {}" using quotient_filter_make_rep [OF assms(1-4)] assms(5) by auto
  then obtain S where "qf_rep q r f S" using qf_rep_fold assms(6) by blast
  then show ?thesis using qf_rep_insert_any qf_may_contain_rep by blast
qed

theorem quotient_filter_returns_witness:
  "\<exists>qf. quotient_filter_make 1 1 = Inr qf
    \<and> (let f = fold (\<lambda>h f. snd (quotient_filter_insert h f)) [0, 1, 2, 3] qf
       in \<exists>b f'. qf_insert f 1 = Some (b, f'))"
proof -
  obtain qf where "quotient_filter_make 1 1 = Inr qf" by (auto simp: quotient_filter_make_def qf_init_def Let_def)
  then show ?thesis using quotient_filter_returns [of 1 1 qf _ "[0, 1, 2, 3]" 1] by (simp add: Let_def)
qed

section \<open>The table keeps its size\<close>

definition same_dims :: "qf \<Rightarrow> qf \<Rightarrow> bool" where
  "same_dims qf qf' \<longleftrightarrow> length (qf_table qf') = length (qf_table qf) \<and> qf_qbits qf' = qf_qbits qf \<and> qf_rbits qf' = qf_rbits qf"

lemma same_dims_set_elem: "same_dims qf (set_elem qf i e)"
  by (simp add: same_dims_def set_elem_def Let_def)

lemma same_dims_trans: "same_dims a b \<Longrightarrow> same_dims b c \<Longrightarrow> same_dims a c"
  by (simp add: same_dims_def)

lemma same_dims_entries [simp]: "same_dims a (b\<lparr>qf_entries := n\<rparr>) \<longleftrightarrow> same_dims a b"
  by (simp add: same_dims_def)

lemma same_dims_refl [simp]: "same_dims a a"
  by (simp add: same_dims_def)

lemma same_dims_insert_into:
  assumes "insert_into qf s cur = Some qf'"
  shows "same_dims qf qf'"
proof (rule insert_into.raw_induct [where P = "\<lambda>qf s cur qf'. same_dims qf qf'", OF _ assms])
  fix f qf s cur qf'
  assume IH: "\<And>qf s cur qf'. f qf s cur = Some qf' \<Longrightarrow> same_dims qf qf'"
    and body: "(let prev = get_elem qf s
      in if is_empty_element prev then Some (set_elem qf s cur)
         else (let prev = set_shifted prev
            in if is_occupied prev then f (set_elem qf s (set_occupied cur)) (incr qf s) (clr_occupied prev)
               else f (set_elem qf s cur) (incr qf s) prev)) = Some qf'"
  show "same_dims qf qf'"
    using body same_dims_set_elem same_dims_trans [OF same_dims_set_elem IH]
    by (auto simp: Let_def split: if_splits)
qed

lemma same_dims_insert: "qf_insert qf h = Some (b, qf') \<Longrightarrow> same_dims qf qf'"
  unfolding qf_insert_def Let_def
  by (auto simp: same_dims_set_elem split: if_splits bind_splits prod.splits
      dest!: same_dims_insert_into intro: same_dims_trans [OF same_dims_set_elem])

lemma same_dims_filter_insert: "same_dims qf (snd (quotient_filter_insert h qf))"
  using same_dims_insert by (auto simp: quotient_filter_insert_def split: option.splits)

lemma same_dims_fold: "same_dims qf (fold (\<lambda>h f. snd (quotient_filter_insert h f)) hs qf)"
  by (induction hs arbitrary: qf) (auto intro: same_dims_trans [OF same_dims_filter_insert])

lemma qf_stored_dims: "qf_stored qf \<Longrightarrow> same_dims qf qf' \<Longrightarrow> qf_stored qf'"
  by (simp add: qf_stored_def same_dims_def qf_allocated_size_def)

lemma qf_init_stored:
  assumes "0 < q" "q < 32" "0 < r" "q + r \<le> 56" "qf_init q r = Some qf"
  shows "qf_stored qf"
proof -
  note shape = qf_init_shape [OF assms]
  define n where "n = unat (ceil_page_align (qf_table_size q r))"
  have "(8 :: nat) dvd 4096" by simp
  then have "8 dvd n" using table_size_bound(2) [OF assms(1-4)] dvd_trans by (metis n_def mod_0_imp_dvd)
  moreover have "length (qf_table qf) = n div 8"
    using assms(5) by (auto simp: qf_init_def Let_def n_def split: if_splits)
  ultimately show ?thesis
    using shape by (simp add: qf_stored_def qf_allocated_size_def qf_shape_def n_def)
qed

end
