(* ===== verification/Index_Ops.thy ===== *)
theory Index_Ops
  imports Sst Skiplist Write_Buffer Quotient_Set
begin

text \<open>
  Writing SST files, \<^verbatim>\<open>src/db/index_ops.h\<close> and \<^verbatim>\<open>src/db/index_ops.cc\<close>: the size of the filter, the
  pages of pairs, the index of last keys, the filter, the footer, and the flush of a memtable into
  one file per partition. Bytes the program writes without having set them (padding inside a
  structure, the tail of a page, the pointer in the filter's header) come from the parameter \<open>env\<close>.
\<close>

section \<open>Footers\<close>

record sst_footer_builder =
  fb_upper_bound :: "u64 option"
  fb_indexed_kv :: "u64 option"
  fb_meta_index_entries :: "u64 option"
  fb_index_offset :: "u64 option"
  fb_meta_index_offset :: "u64 option"
  fb_qf_offset :: "u64 option"
  fb_qf_size :: "u64 option"
  fb_footer_offset :: "u64 option"
  fb_epoch :: "u64 option"
  fb_max_seq_nr :: "u64 option"

definition empty_footer_builder :: sst_footer_builder where
  "empty_footer_builder =
     \<lparr>fb_upper_bound = None, fb_indexed_kv = None, fb_meta_index_entries = None, fb_index_offset = None,
      fb_meta_index_offset = None, fb_qf_offset = None, fb_qf_size = None, fb_footer_offset = None,
      fb_epoch = None, fb_max_seq_nr = None\<rparr>"

definition value_or :: "'a option \<Rightarrow> 'a \<Rightarrow> 'a" where
  "value_or x d = (case x of None \<Rightarrow> d | Some a \<Rightarrow> a)"

definition build_footer :: "sst_footer_builder \<Rightarrow> sst_footer expected" where
  "build_footer fb =
     (if fb_upper_bound fb = None then Inl (generic_error ''Footer upper_bound not set'')
      else if fb_indexed_kv fb = None then Inl (generic_error ''Footer indexed_keys not set'')
      else if fb_meta_index_entries fb = None then Inl (generic_error ''Footer meta_index_entries not set'')
      else if fb_index_offset fb = None then Inl (generic_error ''Footer index_offset not set'')
      else if fb_meta_index_offset fb = None then Inl (generic_error ''Footer meta_index_offset not set'')
      else if fb_footer_offset fb = None then Inl (generic_error ''Footer footer_offset not set'')
      else if fb_epoch fb = None then Inl (generic_error ''Footer epoch not set'')
      else if fb_max_seq_nr fb = None then Inl (generic_error ''Footer max_seq_nr not set'')
      else Inr (empty_sst_footer\<lparr>f_version := CURRENT_FOOTER_VERSION, f_upper_bound := the (fb_upper_bound fb),
        f_indexed_keys := the (fb_indexed_kv fb), f_meta_index_entries := the (fb_meta_index_entries fb),
        f_index_offset := the (fb_index_offset fb), f_meta_index_offset := the (fb_meta_index_offset fb),
        f_qf_offset := value_or (fb_qf_offset fb) 0, f_qf_size := value_or (fb_qf_size fb) 0,
        f_footer_offset := the (fb_footer_offset fb), f_epoch := the (fb_epoch fb),
        f_max_seq_nr := the (fb_max_seq_nr fb)\<rparr>))"

section \<open>The size of the filter\<close>

definition QF_BITS_PER_KEY :: nat where
  "QF_BITS_PER_KEY = 10"

definition qf_slots :: "u64 \<Rightarrow> u64" where
  "qf_slots num_keys = (num_keys * 4 + 2) div 3"

text \<open>The loop that looks for the number of quotient bits; \<open>None\<close> would be a loop that does not end.\<close>

definition qf_quotient_bits :: "u64 \<Rightarrow> nat option" where
  "qf_quotient_bits slots =
     map_option snd (while_option (\<lambda>(s, q). s < slots) (\<lambda>(s, q). (push_bit 1 s, q + 1)) (1 :: u64, 0))"

definition make_qf_for_key_count :: "u64 \<Rightarrow> qf expected option" where
  "make_qf_for_key_count num_keys =
     map_option (\<lambda>q. quotient_filter_make q QF_BITS_PER_KEY) (qf_quotient_bits (qf_slots num_keys))"

text \<open>
  The exception is an error here. In the code it leaves the task that writes the table before the
  latch of the flush is counted down. It is raised for no keys at all and for more than \<open>2 ^ 54\<close> slots.
\<close>

definition create_qf_for_key_count :: "u64 \<Rightarrow> qf expected" where
  "create_qf_for_key_count num_keys =
     (case make_qf_for_key_count num_keys of
        None \<Rightarrow> Inl (generic_error ''out of fuel'')
      | Some (Inl e) \<Rightarrow> Inl (generic_error (''Failed to create quotient filter: '' @ error_msg e))
      | Some (Inr q) \<Rightarrow> Inr q)"

section \<open>Sizes\<close>

record sst_sizes =
  sz_index :: nat
  sz_meta_index :: nat
  sz_qf :: nat
  sz_footer :: nat

definition total_size :: "sst_sizes \<Rightarrow> nat" where
  "total_size s = sz_index s + sz_meta_index s + sz_qf s + sz_footer s"

definition sizeof_key_t :: nat where
  "sizeof_key_t = 32"

definition sizeof_qf :: nat where
  "sizeof_qf = 48"

definition page_align :: "nat \<Rightarrow> nat" where
  "page_align n = unat (ceil_page_align (of_nat n))"

text \<open>
  The estimate only sets the size that is reserved for the file. It is computed without a bound and
  cut to 64 bits where it is used. A range has at least one entry and a key has at least one byte, so
  the average is not 0, by which the code would divide.
\<close>

definition estimate_sst_size :: "nat \<Rightarrow> nat \<Rightarrow> qf option \<Rightarrow> sst_sizes" where
  "estimate_sst_size entry_count average_key_value_length qf =
     (let key_values_per_page_estimate = hedge_ceil PAGE_SIZE_IN_BYTES average_key_value_length;
          estimated_pages = hedge_ceil entry_count key_values_per_page_estimate
      in \<lparr>sz_index = estimated_pages * PAGE_SIZE_IN_BYTES,
          sz_meta_index = unat (round_up (of_nat (estimated_pages * sizeof_key_t)) (of_nat PAGE_SIZE_IN_BYTES)),
          sz_qf = (case qf of None \<Rightarrow> 0
                   | Some q \<Rightarrow> page_align sizeof_qf + page_align (length (data_as_byte_span q))),
          sz_footer = PAGE_SIZE_IN_BYTES\<rparr>)"

section \<open>The parts behind the pages\<close>

record write_env =
  env_junk :: "nat \<Rightarrow> byte"
  env_ptr :: u64

definition junk :: "write_env \<Rightarrow> nat \<Rightarrow> bytes" where
  "junk env n = map (env_junk env) [0..<n]"

definition zero_padded :: "nat \<Rightarrow> bytes \<Rightarrow> bytes" where
  "zero_padded n bs = bs @ replicate (n - length bs) 0"

definition write_qf_async :: "io_ops \<Rightarrow> write_env \<Rightarrow> nat \<Rightarrow> qf \<Rightarrow> nat \<Rightarrow> fs_state \<Rightarrow> (nat \<times> fs_state) expected" where
  "write_qf_async io env fd qf off st =
     bind_expected
       (checked_write io ''Failed to write QF header: '' fd
         (zero_padded PAGE_SIZE_IN_BYTES (header_as_byte_span (env_junk env 0) (env_ptr env) qf)) off st)
       (\<lambda>(written, st).
          let data_span = data_as_byte_span qf; data_size = page_align (length data_span)
          in bind_expected
               (checked_write io ''Failed to write QF data: '' fd (zero_padded data_size data_span) (off + written) st)
               (\<lambda>(n, st). Inr (written + n, st)))"

definition footer_page :: "write_env \<Rightarrow> sst_footer \<Rightarrow> bytes" where
  "footer_page env f = sst_footer_image (junk env 7) f @ junk env (PAGE_SIZE_IN_BYTES - sizeof_sst_footer)"

definition meta_pages :: "write_env \<Rightarrow> bytes \<Rightarrow> bytes" where
  "meta_pages env encoded = encoded @ junk env (page_align (length encoded) - length encoded)"

definition write_filter ::
    "io_ops \<Rightarrow> write_env \<Rightarrow> nat \<Rightarrow> qf option \<Rightarrow> sst_footer_builder \<Rightarrow> nat \<Rightarrow> fs_state
      \<Rightarrow> (sst_footer_builder \<times> nat \<times> fs_state) expected" where
  "write_filter io env fd qf fb bytes_written st =
     (case qf of
        None \<Rightarrow> Inr (fb, bytes_written, st)
      | Some q \<Rightarrow>
          bind_expected (write_qf_async io env fd q bytes_written st)
            (\<lambda>(n, st). Inr (fb\<lparr>fb_qf_offset := Some (of_nat bytes_written), fb_qf_size := Some (of_nat n)\<rparr>,
                        bytes_written + n, st)))"

text \<open>The two writers of SST files differ in the texts of their errors.\<close>

record tail_messages =
  tm_meta :: string
  tm_footer :: string
  tm_truncate :: string
  tm_sync :: string

definition EXPORT_MESSAGES :: tail_messages where
  "EXPORT_MESSAGES =
     \<lparr>tm_meta = ''Failed to write meta-index: '', tm_footer = ''Failed to write footer: '',
      tm_truncate = ''Failed to truncate file: '', tm_sync = ''Failed to fdatasync file: ''\<rparr>"

definition sync_file :: "tail_messages \<Rightarrow> io_ops \<Rightarrow> bool \<Rightarrow> nat \<Rightarrow> fs_state \<Rightarrow> fs_state expected" where
  "sync_file tm io fdatasync_output fd st =
     (if fdatasync_output
      then
        (case io_fdatasync io fd st of
           (res, st) \<Rightarrow>
             (if res < 0 then Inl (generic_error (tm_sync tm @ io_strerror io (- res))) else Inr st))
      else Inr st)"

definition write_footer ::
    "tail_messages \<Rightarrow> io_ops \<Rightarrow> write_env \<Rightarrow> bool \<Rightarrow> nat \<Rightarrow> sst_footer_builder \<Rightarrow> nat \<Rightarrow> fs_state \<Rightarrow> (sst_footer \<times> fs_state) expected" where
  "write_footer tm io env fdatasync_output fd fb bytes_written st =
     (case build_footer (fb\<lparr>fb_footer_offset := Some (of_nat bytes_written)\<rparr>) of
        Inl e \<Rightarrow> Inl (generic_error (''Failed to build footer: '' @ error_msg e))
      | Inr ft \<Rightarrow>
          bind_expected (checked_write io (tm_footer tm) fd (footer_page env ft) bytes_written st)
            (\<lambda>(n, st).
               case io_ftruncate io fd (bytes_written + n) st of
                 (res, st) \<Rightarrow>
                   (if res < 0 then Inl (generic_error (tm_truncate tm @ io_strerror io (- res)))
                    else bind_expected (sync_file tm io fdatasync_output fd st) (\<lambda>st. Inr (ft, st)))))"

text \<open>
  What both writers of SST files do once the pages are written: the index of last keys, the filter,
  the footer, then cut the file to its size and synchronise it.
\<close>

definition write_sst_tail ::
    "tail_messages \<Rightarrow> io_ops \<Rightarrow> write_env \<Rightarrow> bool \<Rightarrow> nat \<Rightarrow> meta_state \<Rightarrow> qf option \<Rightarrow> sst_footer_builder \<Rightarrow> nat \<Rightarrow> fs_state
      \<Rightarrow> (sst_footer \<times> fs_state) expected" where
  "write_sst_tail tm io env fdatasync_output fd m qf fb bytes_written st =
     bind_expected (checked_write io (tm_meta tm) fd (meta_pages env (snd m)) bytes_written st)
       (\<lambda>(n, st).
          bind_expected
            (write_filter io env fd qf
              (fb\<lparr>fb_meta_index_offset := Some (of_nat bytes_written),
                  fb_meta_index_entries := Some (of_nat (length (fst m)))\<rparr>)
              (bytes_written + n) st)
            (\<lambda>(fb, bytes_written, st). write_footer tm io env fdatasync_output fd fb bytes_written st))"

section \<open>Writing the entries of a memtable\<close>

definition QF_SEED :: u64 where
  "QF_SEED = 0xDEADBEEF"

definition qf_add :: "hash64 \<Rightarrow> bytes \<Rightarrow> qf option \<Rightarrow> qf option" where
  "qf_add xxh key qf = map_option (\<lambda>q. snd (quotient_filter_insert (xxh key QF_SEED) q)) qf"

definition MiB :: nat where
  "MiB = 1024 * 1024"

definition WRITE_BUF_SIZE :: nat where
  "WRITE_BUF_SIZE = 2 * MiB"

text \<open>The first parts of the state are the key last written and the highest number.\<close>

fun write_entries ::
    "hash64 \<Rightarrow> io_ops \<Rightarrow> nat \<Rightarrow> memtable_entry list \<Rightarrow> bytes option \<times> u64 \<times> qf option \<times> index_writer
      \<Rightarrow> (u64 \<times> qf option \<times> index_writer) expected" where
  "write_entries xxh io fd [] (prev_key, max_seq_nr, qf, s) = Inr (max_seq_nr, qf, s)"
| "write_entries xxh io fd (e # es) (prev_key, max_seq_nr, qf, s) =
     (if prev_key = Some (mt_key e) then write_entries xxh io fd es (prev_key, max_seq_nr, qf, s)
      else
        bind_expected
          (iw_put xxh io ''Failed to write index data: '' ''Could not write item after flush'' fd (mt_key e, mt_value e) s)
          (\<lambda>s. write_entries xxh io fd es (Some (mt_key e), max max_seq_nr (mt_seq e), qf_add xxh (mt_key e) qf, s)))"

definition write_index ::
    "hash64 \<Rightarrow> io_ops \<Rightarrow> nat \<Rightarrow> memtable_entry list \<Rightarrow> qf option \<Rightarrow> fs_state
      \<Rightarrow> (u64 \<times> qf option \<times> index_writer) expected" where
  "write_index xxh io fd entries qf st =
     bind_expected
       (write_entries xxh io fd entries
         (None, 0, qf, \<lparr>iw_buffer = make_merge_write_buffer WRITE_BUF_SIZE, iw_meta = ([], []),
                        iw_bytes_written = 0, iw_fs = st\<rparr>))
       (\<lambda>(max_seq_nr, qf, s).
          bind_expected (iw_finish xxh io ''Failed to write index data: '' fd s) (\<lambda>s. Inr (max_seq_nr, qf, s)))"

definition export_as_sst ::
    "hash64 \<Rightarrow> io_ops \<Rightarrow> write_env \<Rightarrow> path \<Rightarrow> memtable_entry list \<Rightarrow> nat \<Rightarrow> nat \<Rightarrow> u64 \<Rightarrow> u64 \<Rightarrow> bool \<Rightarrow> bool \<Rightarrow> fs_state
      \<Rightarrow> (sst \<times> fs_state) expected" where
  "export_as_sst xxh io env path entries entry_count average_key_value_length upper_bnd epoch use_odirect
       fdatasync_output st =
     bind_expected (create_qf_for_key_count (of_nat entry_count))
       (\<lambda>qf.
          let sizes = estimate_sst_size entry_count average_key_value_length (Some qf)
          in case from_path_async io path read_write_new use_odirect (Some (of_nat (total_size sizes))) st of
               (Inl e, _) \<Rightarrow> Inl (generic_error (''Failed to create sorted index file: '' @ error_msg e))
             | (Inr f, st) \<Rightarrow>
                 bind_expected (write_index xxh io (file_fd f) entries (Some qf) st)
                   (\<lambda>(max_seq_nr, qf, s).
                      bind_expected
                        (write_sst_tail EXPORT_MESSAGES io env fdatasync_output (file_fd f) (iw_meta s) qf
                          (empty_footer_builder\<lparr>fb_indexed_kv := Some (of_nat (wb_indexed_kvs (iw_buffer s))),
                             fb_upper_bound := Some upper_bnd, fb_index_offset := Some 0, fb_epoch := Some epoch,
                             fb_max_seq_nr := Some max_seq_nr\<rparr>)
                          (iw_bytes_written s) (iw_fs s))
                        (\<lambda>(ft, st). Inr (make_sst (file_fd f) (fst (iw_meta s)) ft None qf, st))))"

section \<open>The filter has room for the keys\<close>

lemma unat_slots: "n < 2 ^ 61 \<Longrightarrow> unat (qf_slots (of_nat n)) = (4 * n + 2) div 3"
proof -
  assume n: "n < 2 ^ 61"
  have "(of_nat n * 4 + 2 :: u64) = of_nat (4 * n + 2)" by (simp add: mult.commute)
  moreover have "unat (of_nat (4 * n + 2) :: u64) = 4 * n + 2"
    using n by (simp only: unsigned_of_nat) (simp add: take_bit_nat_eq_self)
  ultimately have "unat (of_nat n * 4 + 2 :: u64) = 4 * n + 2" by (simp only:)
  then show ?thesis by (simp add: qf_slots_def unat_div)
qed

lemma qf_slots_bound: "unat (qf_slots n) \<le> 2 ^ 63"
proof -
  have "unat (n * 4 + 2) < 2 ^ 64" using unsigned_less [of "n * 4 + 2", where ?'a = nat] by simp
  then show ?thesis by (simp add: qf_slots_def unat_div)
qed

lemma qf_quotient_bits_some:
  assumes "unat slots \<le> 2 ^ 63"
  obtains q where "qf_quotient_bits slots = Some q" "unat slots \<le> 2 ^ q" "q = 0 \<or> 2 ^ (q - 1) < unat slots" "q \<le> 63"
proof -
  let ?b = "\<lambda>(s :: u64, q :: nat). s < slots" and ?c = "\<lambda>(s :: u64, q :: nat). (push_bit 1 s, q + 1)"
  let ?P = "\<lambda>(s :: u64, q :: nat). q \<le> 63 \<and> s = 2 ^ q \<and> (q = 0 \<or> 2 ^ (q - 1) < unat slots)"
  have step: "?P (?c x) \<and> snd x < 63" if "?P x \<and> ?b x" for x
  proof -
    obtain s q where x: "x = (s, q)" by (cases x)
    have q: "q \<le> 63" "s = 2 ^ q" and less: "2 ^ q < unat slots"
      using that by (auto simp: x word_less_nat_alt unat_exp_u64)
    then have "(2 :: nat) ^ q < 2 ^ 63" using assms by linarith
    then have "q < 63" by (rule power_less_imp_less_exp [rotated]) simp
    then show ?thesis using q less by (simp add: x push_bit_eq_mult)
  qed
  have "\<exists>t. while_option ?b ?c (1, 0) = Some t"
  proof (rule wf_rel_while_option_Some [where P = ?P and R = "measure (\<lambda>x. 64 - snd x)"])
    show "(?c x, x) \<in> measure (\<lambda>x. 64 - snd x)" if "?P x \<and> ?b x" for x
      using step [OF that] by (auto simp: case_prod_beta)
    show "?P (?c x)" if "?P x \<and> ?b x" for x using step [OF that] by (rule conjunct1)
  qed simp_all
  then obtain s q where t: "while_option ?b ?c (1, 0) = Some (s, q)" by auto
  have "?P (s, q)" by (rule while_option_rule [OF _ t, where P = ?P]) (rule conjunct1 [OF step], simp_all)
  moreover have "\<not> ?b (s, q)" by (rule while_option_stop [OF t])
  ultimately have "unat slots \<le> 2 ^ q" "q = 0 \<or> 2 ^ (q - 1) < unat slots" "q \<le> 63"
    by (auto simp: word_less_nat_alt unat_exp_u64)
  moreover have "qf_quotient_bits slots = Some q" unfolding qf_quotient_bits_def t by simp
  ultimately show ?thesis using that by blast
qed

lemma qf_for_keys:
  assumes "0 < n" "n \<le> 2 ^ 29"
  obtains q where "make_qf_for_key_count (of_nat n) = Some (quotient_filter_make q QF_BITS_PER_KEY)"
    "n < 2 ^ q" "3 * 2 ^ q < 8 * n + 8" "0 < q" "q \<le> 30"
proof -
  have slots: "unat (qf_slots (of_nat n)) = (4 * n + 2) div 3" using assms(2) by (intro unat_slots) simp
  obtain q where q: "qf_quotient_bits (qf_slots (of_nat n)) = Some q" "(4 * n + 2) div 3 \<le> 2 ^ q"
      "q = 0 \<or> 2 ^ (q - 1) < (4 * n + 2) div 3"
    using qf_quotient_bits_some [OF qf_slots_bound, of "of_nat n"] slots by metis
  have bound: "n < (4 * n + 2) div 3" "3 * ((4 * n + 2) div 3) \<le> 4 * n + 2" using assms(1) by auto
  have "0 < q" using q(2) bound(1) assms(1) by (cases q) auto
  then have "(2 :: nat) ^ q = 2 * 2 ^ (q - 1)" and less: "2 ^ (q - 1) < (4 * n + 2) div 3"
    using q(3) by (cases q, simp_all)
  then have "3 * 2 ^ q < 8 * n + 8" using bound(2) by linarith
  moreover have "2 ^ (q - 1) < (2 :: nat) ^ 30" using less bound(2) assms(2) by simp
  then have "q - 1 < 30" by (rule power_less_imp_less_exp [rotated]) simp
  ultimately show ?thesis
    using that q(1,2) bound(1) \<open>0 < q\<close> by (simp add: make_qf_for_key_count_def)
qed

text \<open>
  C38: Choosing the size of the filter. The loop ends for every number of keys; from one key up to
  2^29, it gives a filter that can be made and has more slots than there are keys, but
  less than three times as many, up to rounding.
\<close>

theorem filter_sizing:
  "(\<exists>r. make_qf_for_key_count num_keys = Some r)
    \<and> (0 < n \<and> n \<le> 2 ^ 29 \<longrightarrow> (\<exists>q qf. make_qf_for_key_count (of_nat n) = Some (Inr qf)
          \<and> unat (qf_max_size qf) = 2 ^ q \<and> n < 2 ^ q \<and> 3 * 2 ^ q < 8 * n + 8))"
proof (intro conjI impI)
  obtain q where "qf_quotient_bits (qf_slots num_keys) = Some q" using qf_quotient_bits_some [OF qf_slots_bound] .
  then show "\<exists>r. make_qf_for_key_count num_keys = Some r" by (simp add: make_qf_for_key_count_def)
next
  assume "0 < n \<and> n \<le> 2 ^ 29"
  then obtain q where q: "make_qf_for_key_count (of_nat n) = Some (quotient_filter_make q QF_BITS_PER_KEY)"
      "n < 2 ^ q" "3 * 2 ^ q < 8 * n + 8" "0 < q" "q \<le> 30"
    using qf_for_keys by metis
  have "0 < q" "q < 32" "0 < QF_BITS_PER_KEY" "q + QF_BITS_PER_KEY \<le> 56" using q(4,5) by (simp_all add: QF_BITS_PER_KEY_def)
  then obtain qf where qf: "quotient_filter_make q QF_BITS_PER_KEY = Inr qf" "qf_rep q QF_BITS_PER_KEY qf {}"
    using quotient_filter_make_rep by metis
  have "unat (qf_max_size qf) = 2 ^ q"
    using qf_rep_shape [OF qf(2)] q(5) by (simp add: qf_shape_def unat_exp_u64)
  then show "\<exists>q qf. make_qf_for_key_count (of_nat n) = Some (Inr qf)
      \<and> unat (qf_max_size qf) = 2 ^ q \<and> n < 2 ^ q \<and> 3 * 2 ^ q < 8 * n + 8"
    using q qf(1) by auto
qed

theorem filter_sizing_witness:
  "(\<exists>r. make_qf_for_key_count (- 1) = Some r)
    \<and> (\<exists>q qf. make_qf_for_key_count 1000 = Some (Inr qf) \<and> unat (qf_max_size qf) = 2 ^ q \<and> 1000 < (2 :: nat) ^ q)"
  using filter_sizing [of "- 1" 1000] by auto

section \<open>Writing at the end\<close>

text \<open>The file \<open>i\<close> begins with the bytes \<open>img\<close> and nothing else has changed since \<open>st0\<close>.\<close>

definition wrote :: "fs_state \<Rightarrow> nat \<Rightarrow> bytes \<Rightarrow> fs_state \<Rightarrow> bool" where
  "wrote st0 i img st \<longleftrightarrow> (\<exists>content. st = set_data i content st0 \<and> take (length img) content = img)"

lemma checked_write_end:
  assumes io: "kernel_ok io" and fd: "map_of (fs_fds st0) fd = Some i" and st: "wrote st0 i img st"
    and small: "length data \<le> MAX_RW_COUNT"
  obtains st' where "checked_write io msg fd data (length img) st = Inr (length data, st')" "wrote st0 i (img @ data) st'"
  | e where "checked_write io msg fd data (length img) st = Inl e" "\<not> io_succeeds io"
proof -
  obtain content where c: "st = set_data i content st0" "take (length img) content = img"
    using st by (auto simp: wrote_def)
  have len: "length img \<le> length content" using c(2) by (metis length_take min.cobounded1)
  have fd': "map_of (fs_fds st) fd = Some i" using fd c by simp
  obtain r st' where wr: "io_write io fd data (length img) st = (r, st')" by fastforce
  show ?thesis
  proof (cases "r < 0")
    case True
    have "\<not> io_succeeds io" using True wr fd' unfolding io_succeeds_def by (metis fst_conv not_le)
    then show ?thesis using True wr that(2) by (simp add: checked_write_def)
  next
    case False
    then have r: "r = int (length data)" "st' = set_data i (pwrite content (length img) data) st0"
      using kernel_okD(3) [OF io fd' small wr] c(1) by (auto simp: whole_write_result_def set_data_def)
    have "wrote st0 i (img @ data) st'"
      using r(2) pwrite_within(1) [OF len, of data] c(2) by (auto simp: wrote_def)
    then show ?thesis using that(1) r(1) wr by (simp add: checked_write_def)
  qed
qed

definition qf_pages :: "write_env \<Rightarrow> qf \<Rightarrow> bytes" where
  "qf_pages env q =
     zero_padded PAGE_SIZE_IN_BYTES (header_as_byte_span (env_junk env 0) (env_ptr env) q)
       @ zero_padded (page_align (length (data_as_byte_span q))) (data_as_byte_span q)"

lemma length_header: "length (header_as_byte_span pad ptr q) = 48"
  by (simp add: header_as_byte_span_def)

lemma page_align_bounds:
  assumes "n < 2 ^ 62"
  shows "n \<le> page_align n" "page_align n < n + PAGE_SIZE_IN_BYTES" "PAGE_SIZE_IN_BYTES dvd page_align n"
proof -
  have "unat (of_nat n :: u64) = n" using assms by (simp add: unsigned_of_nat take_bit_nat_eq_self)
  then have align: "page_align n = (n + 4096 - 1) div 4096 * 4096"
    using unat_round_up [of "of_nat PAGE_SIZE_IN_BYTES" 12 "of_nat n"] assms
    by (simp add: page_align_def ceil_page_align_def PAGE_SIZE_IN_BYTES_def)
  show "PAGE_SIZE_IN_BYTES dvd page_align n" by (simp add: align PAGE_SIZE_IN_BYTES_def)
  show "n \<le> page_align n" unfolding align by (rule div_times_ge) simp
  show "page_align n < n + PAGE_SIZE_IN_BYTES" by (simp add: align PAGE_SIZE_IN_BYTES_def)
qed

lemma write_qf_async_end:
  assumes io: "kernel_ok io" and fd: "map_of (fs_fds st0) fd = Some i" and st: "wrote st0 i img st"
    and small: "length (data_as_byte_span q) + PAGE_SIZE_IN_BYTES \<le> MAX_RW_COUNT"
  obtains st' where "write_qf_async io env fd q (length img) st = Inr (length (qf_pages env q), st')"
      "wrote st0 i (img @ qf_pages env q) st'"
  | e where "write_qf_async io env fd q (length img) st = Inl e" "\<not> io_succeeds io"
proof -
  let ?h = "zero_padded PAGE_SIZE_IN_BYTES (header_as_byte_span (env_junk env 0) (env_ptr env) q)"
  let ?d = "zero_padded (page_align (length (data_as_byte_span q))) (data_as_byte_span q)"
  have "length ?h \<le> MAX_RW_COUNT"
    by (simp add: zero_padded_def length_header MAX_RW_COUNT_def PAGE_SIZE_IN_BYTES_def)
  moreover have "length ?d \<le> MAX_RW_COUNT"
    using page_align_bounds [of "length (data_as_byte_span q)"] small
    by (simp add: zero_padded_def MAX_RW_COUNT_def)
  ultimately show ?thesis
  proof (cases rule: checked_write_end [OF io fd st, of ?h "''Failed to write QF header: ''", case_names small written failed])
    case (written st1)
    note first = this
    from \<open>length ?d \<le> MAX_RW_COUNT\<close> show ?thesis
    proof (cases rule: checked_write_end [OF io fd written(2), of ?d "''Failed to write QF data: ''", case_names small written failed])
      case (written st2)
      then show ?thesis using first that(1) by (simp add: write_qf_async_def qf_pages_def Let_def)
    next
      case (failed e)
      then show ?thesis using first that(2) by (simp add: write_qf_async_def Let_def)
    qed
  next
    case (failed e)
    then show ?thesis using that(2) by (simp add: write_qf_async_def)
  qed
qed

definition meta_builder :: "sst_footer_builder \<Rightarrow> meta_state \<Rightarrow> nat \<Rightarrow> sst_footer_builder" where
  "meta_builder fb m off =
     fb\<lparr>fb_meta_index_offset := Some (of_nat off), fb_meta_index_entries := Some (of_nat (length (fst m)))\<rparr>"

definition filter_builder :: "sst_footer_builder \<Rightarrow> write_env \<Rightarrow> qf option \<Rightarrow> nat \<Rightarrow> sst_footer_builder" where
  "filter_builder fb env qf off =
     (case qf of None \<Rightarrow> fb
      | Some q \<Rightarrow> fb\<lparr>fb_qf_offset := Some (of_nat off), fb_qf_size := Some (of_nat (length (qf_pages env q)))\<rparr>)"

definition filter_pages :: "write_env \<Rightarrow> qf option \<Rightarrow> bytes" where
  "filter_pages env qf = (case qf of None \<Rightarrow> [] | Some q \<Rightarrow> qf_pages env q)"

definition builder_complete :: "sst_footer_builder \<Rightarrow> bool" where
  "builder_complete fb \<longleftrightarrow> fb_upper_bound fb \<noteq> None \<and> fb_indexed_kv fb \<noteq> None \<and> fb_index_offset fb \<noteq> None
     \<and> fb_epoch fb \<noteq> None \<and> fb_max_seq_nr fb \<noteq> None \<and> fb_meta_index_entries fb \<noteq> None \<and> fb_meta_index_offset fb \<noteq> None"

lemma length_footer_page:
  assumes "build_footer fb = Inr f"
  shows "f_header f = FOOTER_MAGIC @ replicate 4 0" "length (footer_page env f) = PAGE_SIZE_IN_BYTES"
proof -
  show header: "f_header f = FOOTER_MAGIC @ replicate 4 0"
    using assms by (auto simp: build_footer_def empty_sst_footer_def split: if_splits)
  then show "length (footer_page env f) = PAGE_SIZE_IN_BYTES"
    by (simp add: footer_page_def sst_footer_image_def footer_words_def junk_def sizeof_sst_footer_def
        PAGE_SIZE_IN_BYTES_def FOOTER_MAGIC_def)
qed

lemma truncate_end:
  assumes io: "kernel_ok io" and fd: "map_of (fs_fds st0) fd = Some i" and st: "wrote st0 i img st"
    and trunc: "io_ftruncate io fd (length img) st = (r, st')"
  shows "r < 0 \<and> \<not> io_succeeds io \<or> r = 0 \<and> st' = set_data i img st0"
proof -
  obtain content where c: "st = set_data i content st0" "take (length img) content = img"
    using st by (auto simp: wrote_def)
  have len: "length img \<le> length content" using c(2) by (metis length_take min.cobounded1)
  have fd': "map_of (fs_fds st) fd = Some i" using fd c by simp
  from kernel_okD(4) [OF io fd' trunc] have "r = 0 \<and> st' = set_data i img st0 \<or> r < 0"
    using c len by (auto simp: resize_result_def set_length_def set_data_def)
  moreover have "\<not> io_succeeds io" if "r < 0" using that trunc fd' unfolding io_succeeds_def by (metis fst_conv not_le)
  ultimately show ?thesis by blast
qed

lemma sync_file_cases:
  assumes "kernel_ok io"
  shows "sync_file tm io sync fd st = Inr st \<or> (\<exists>e. sync_file tm io sync fd st = Inl e) \<and> \<not> io_succeeds io"
proof -
  obtain r st' where sync: "io_fdatasync io fd st = (r, st')" by fastforce
  then have "st' = st" using kernel_okD(6) [OF assms, of fd st] by simp
  moreover have "\<not> io_succeeds io" if "r < 0" using that sync unfolding io_succeeds_def by (metis fst_conv not_le)
  ultimately show ?thesis using sync by (auto simp: sync_file_def)
qed

lemma write_footer_end:
  assumes io: "kernel_ok io" and fd: "map_of (fs_fds st0) fd = Some i" and st: "wrote st0 i img st"
    and fb: "builder_complete fb"
  obtains f where "build_footer (fb\<lparr>fb_footer_offset := Some (of_nat (length img))\<rparr>) = Inr f"
      "write_footer tm io env sync fd fb (length img) st = Inr (f, set_data i (img @ footer_page env f) st0)"
  | e where "write_footer tm io env sync fd fb (length img) st = Inl e" "\<not> io_succeeds io"
proof -
  obtain f where f: "build_footer (fb\<lparr>fb_footer_offset := Some (of_nat (length img))\<rparr>) = Inr f"
    using fb by (auto simp: build_footer_def builder_complete_def)
  note page = length_footer_page(2) [OF f, of env]
  have "length (footer_page env f) \<le> MAX_RW_COUNT" by (simp add: page MAX_RW_COUNT_def PAGE_SIZE_IN_BYTES_def)
  then show ?thesis
  proof (cases rule: checked_write_end [OF io fd st, of "footer_page env f" "tm_footer tm", case_names small written failed])
    case (failed e)
    then show ?thesis using f that(2) by (simp add: write_footer_def)
  next
    case (written st1)
    obtain r st2 where trunc: "io_ftruncate io fd (length (img @ footer_page env f)) st1 = (r, st2)" by fastforce
    show ?thesis
    proof (cases "r < 0")
      case True
      then show ?thesis
        using truncate_end [OF io fd written(2) trunc] f written(1) trunc that(2) by (simp add: write_footer_def)
    next
      case False
      then have st2: "st2 = set_data i (img @ footer_page env f) st0"
        using truncate_end [OF io fd written(2) trunc] by auto
      show ?thesis
        using sync_file_cases [OF io, of tm sync fd st2] False f written(1) trunc that st2 by (auto simp: write_footer_def)
    qed
  qed
qed

lemma write_filter_end:
  assumes io: "kernel_ok io" and fd: "map_of (fs_fds st0) fd = Some i" and st: "wrote st0 i img st"
    and qf: "\<forall>q. qf = Some q \<longrightarrow> length (data_as_byte_span q) + PAGE_SIZE_IN_BYTES \<le> MAX_RW_COUNT"
  obtains st' where "wrote st0 i (img @ filter_pages env qf) st'"
      "write_filter io env fd qf fb (length img) st
        = Inr (filter_builder fb env qf (length img), length (img @ filter_pages env qf), st')"
  | e where "write_filter io env fd qf fb (length img) st = Inl e" "\<not> io_succeeds io"
proof (cases qf)
  case None
  then show ?thesis using that(1) st by (simp add: write_filter_def filter_pages_def filter_builder_def)
next
  case (Some q)
  show ?thesis
  proof (cases rule: write_qf_async_end [OF io fd st qf [rule_format, OF Some], of env, case_names written failed])
    case (written st')
    then show ?thesis using that(1) Some by (simp add: write_filter_def filter_pages_def filter_builder_def)
  next
    case (failed e)
    then show ?thesis using that(2) Some by (simp add: write_filter_def)
  qed
qed

definition tail_builder :: "sst_footer_builder \<Rightarrow> meta_state \<Rightarrow> write_env \<Rightarrow> qf option \<Rightarrow> nat \<Rightarrow> sst_footer_builder" where
  "tail_builder fb m env qf off =
     (let meta_end = off + length (meta_pages env (snd m))
      in (filter_builder (meta_builder fb m off) env qf meta_end)
           \<lparr>fb_footer_offset := Some (of_nat (meta_end + length (filter_pages env qf)))\<rparr>)"

definition sst_tail :: "write_env \<Rightarrow> meta_state \<Rightarrow> qf option \<Rightarrow> sst_footer \<Rightarrow> bytes" where
  "sst_tail env m qf f = meta_pages env (snd m) @ filter_pages env qf @ footer_page env f"

lemma write_sst_tail_written:
  assumes io: "kernel_ok io" and fd: "map_of (fs_fds st0) fd = Some i" and st: "wrote st0 i img st"
    and fb: "builder_complete (meta_builder fb m (length img))"
    and meta: "length (snd m) + PAGE_SIZE_IN_BYTES \<le> MAX_RW_COUNT"
    and qf: "\<forall>q. qf = Some q \<longrightarrow> length (data_as_byte_span q) + PAGE_SIZE_IN_BYTES \<le> MAX_RW_COUNT"
  obtains f where "build_footer (tail_builder fb m env qf (length img)) = Inr f"
      "write_sst_tail tm io env sync fd m qf fb (length img) st = Inr (f, set_data i (img @ sst_tail env m qf f) st0)"
  | e where "write_sst_tail tm io env sync fd m qf fb (length img) st = Inl e" "\<not> io_succeeds io"
proof -
  let ?m = "meta_pages env (snd m)"
  have "length ?m \<le> MAX_RW_COUNT"
    using page_align_bounds [of "length (snd m)"] meta
    by (simp add: meta_pages_def junk_def MAX_RW_COUNT_def)
  then show ?thesis
  proof (cases rule: checked_write_end [OF io fd st, of ?m "tm_meta tm", case_names small written failed])
    case (failed e)
    then show ?thesis using that(2) by (simp add: write_sst_tail_def)
  next
    case (written st1)
    note w1 = this
    show ?thesis
    proof (cases rule: write_filter_end [where qf = qf, OF io fd w1(2) qf, where env = env and fb = "meta_builder fb m (length img)", case_names ok failed])
      case (failed e)
      then show ?thesis using that(2) w1 by (simp add: write_sst_tail_def meta_builder_def)
    next
      case (ok st2)
      note w2 = this
      have complete: "builder_complete (filter_builder (meta_builder fb m (length img)) env qf (length (img @ ?m)))"
        using fb by (cases qf) (simp_all add: builder_complete_def filter_builder_def)
      show ?thesis
      proof (cases rule: write_footer_end [OF io fd w2(1) complete, where env = env and sync = sync and tm = tm, case_names ok failed])
        case (failed e)
        then show ?thesis using that(2) w1 w2 by (simp add: write_sst_tail_def meta_builder_def)
      next
        case (ok f)
        then show ?thesis
          using that(1) w1 w2
          by (simp add: write_sst_tail_def meta_builder_def tail_builder_def Let_def sst_tail_def add.assoc)
      qed
    qed
  qed
qed

section \<open>The entries of a memtable\<close>

text \<open>The first entry of each run of equal keys, which is the newest one in a sorted memtable.\<close>

function key_heads :: "memtable_entry list \<Rightarrow> memtable_entry list" where
  "key_heads [] = []"
| "key_heads (e # es) = e # key_heads (dropWhile (\<lambda>x. mt_key x = mt_key e) es)"
  by pat_completeness auto
termination
  by (relation "measure length") (auto simp: length_dropWhile_le le_imp_less_Suc)

lemma key_runs_heads: "key_runs es = map (\<lambda>e. (mt_key e, mt_value e)) (key_heads es)"
  by (induction es rule: key_heads.induct) simp_all

lemma key_heads_subset: "set (key_heads es) \<subseteq> set es"
  by (induction es rule: key_heads.induct) (auto dest: set_dropWhileD)

lemma length_key_heads: "length (key_heads es) \<le> length es"
proof (induction es rule: key_heads.induct)
  case (2 e es)
  then show ?case using length_dropWhile_le [of "\<lambda>x. mt_key x = mt_key e" es] by simp
qed simp

definition unwritten :: "bytes option \<Rightarrow> memtable_entry list \<Rightarrow> memtable_entry list" where
  "unwritten prev es = key_heads (dropWhile (\<lambda>e. prev = Some (mt_key e)) es)"

lemma write_entries_rep:
  assumes io: "kernel_ok io" and small: "PAGE_SIZE_IN_BYTES * n \<le> MAX_RW_COUNT"
  shows "iw_rep xxh n fd i st0 s pairs \<Longrightarrow> \<forall>e \<in> set es. page_fits (mt_key e, mt_value e) \<Longrightarrow>
    (\<exists>s'. write_entries xxh io fd es (prev, mx, qf, s)
        = Inr (fold (\<lambda>e m. max m (mt_seq e)) (unwritten prev es) mx, fold (\<lambda>e. qf_add xxh (mt_key e)) (unwritten prev es) qf, s')
      \<and> iw_rep xxh n fd i st0 s' (pairs @ map (\<lambda>e. (mt_key e, mt_value e)) (unwritten prev es)))
    \<or> (\<exists>e. write_entries xxh io fd es (prev, mx, qf, s) = Inl e) \<and> \<not> io_succeeds io"
proof (induction es arbitrary: s pairs prev mx qf)
  case Nil
  then show ?case by (auto simp: unwritten_def)
next
  case (Cons e es)
  have fits: "page_fits (mt_key e, mt_value e)" "\<forall>e \<in> set es. page_fits (mt_key e, mt_value e)"
    using Cons.prems(2) by auto
  show ?case
  proof (cases "prev = Some (mt_key e)")
    case True
    then have "unwritten prev (e # es) = unwritten prev es" by (simp add: unwritten_def)
    then show ?thesis using True Cons.IH [OF Cons.prems(1) fits(2), of prev mx qf] by simp
  next
    case False
    have heads: "unwritten prev (e # es) = e # unwritten (Some (mt_key e)) es"
      using False by (simp add: unwritten_def eq_commute [of "mt_key e"])
    show ?thesis
    proof (cases rule: iw_put_rep [OF io Cons.prems(1) small fits(1),
          where ?m1.0 = "''Failed to write index data: ''" and ?m2.0 = "''Could not write item after flush''", case_names written failed])
      case (written s1)
      then show ?thesis
        using False Cons.IH [OF written(2) fits(2), of "Some (mt_key e)" "max mx (mt_seq e)" "qf_add xxh (mt_key e) qf"]
        by (simp add: heads)
    next
      case (failed err)
      then show ?thesis using False by simp
    qed
  qed
qed

lemma WRITE_BUF_SIZE_pages: "WRITE_BUF_SIZE = PAGE_SIZE_IN_BYTES * 512" "PAGE_SIZE_IN_BYTES * 512 \<le> MAX_RW_COUNT"
  by (simp_all add: WRITE_BUF_SIZE_def MiB_def PAGE_SIZE_IN_BYTES_def MAX_RW_COUNT_def)

lemma iw_rep_new:
  assumes "0 < n" "map_of (fs_fds st) fd = Some i"
  shows "iw_rep xxh n fd i st \<lparr>iw_buffer = make_merge_write_buffer (PAGE_SIZE_IN_BYTES * n), iw_meta = ([], []),
      iw_bytes_written = 0, iw_fs = st\<rparr> []"
proof -
  let ?s = "\<lparr>iw_buffer = make_merge_write_buffer (PAGE_SIZE_IN_BYTES * n), iw_meta = ([], []),
      iw_bytes_written = 0, iw_fs = st\<rparr>"
  have "writer_inv xxh n (make_block_buffer_writer 0 (PAGE_SIZE_IN_BYTES * n)) (replicate (PAGE_SIZE_IN_BYTES * n) 0) [] []"
    using writer_inv_new [of n 0 "replicate (PAGE_SIZE_IN_BYTES * n) 0" xxh] assms(1) by simp
  moreover have "\<exists>content. st = set_data i content st" by (rule exI [of _ "fs_data st i"]) (simp add: set_data_def)
  ultimately have "iw_inv xxh n fd i st ?s [] [] []"
    using assms(2) by (auto simp: iw_inv_def iw_file_def iw_buffered_def make_merge_write_buffer_def meta_image_def
        make_block_buffer_writer_def)
  then show ?thesis unfolding iw_rep_def by (intro exI [of _ "[]"]) simp
qed

lemma write_index_written:
  assumes io: "kernel_ok io" and fd: "map_of (fs_fds st) fd = Some i"
    and fits: "\<forall>e \<in> set es. page_fits (mt_key e, mt_value e)"
  obtains s kvss where "write_index xxh io fd es qf st
        = Inr (fold (\<lambda>e m. max m (mt_seq e)) (key_heads es) 0, fold (\<lambda>e. qf_add xxh (mt_key e)) (key_heads es) qf, s)"
      "iw_file xxh fd i st s kvss" "concat kvss = key_runs es"
      "iw_meta s = (map (last_key_of []) kvss, meta_image (map (last_key_of []) kvss))"
      "wb_indexed_kvs (iw_buffer s) = length (key_runs es)"
  | e where "write_index xxh io fd es qf st = Inl e" "\<not> io_succeeds io"
proof -
  let ?s0 = "\<lparr>iw_buffer = make_merge_write_buffer WRITE_BUF_SIZE, iw_meta = ([], []), iw_bytes_written = 0, iw_fs = st\<rparr>"
  have rep: "iw_rep xxh 512 fd i st ?s0 []"
    using iw_rep_new [of 512 st fd i xxh] fd by (simp add: WRITE_BUF_SIZE_pages)
  have heads: "unwritten None es = key_heads es" by (simp add: unwritten_def)
  from write_entries_rep [OF io WRITE_BUF_SIZE_pages(2) rep fits, of None 0 qf]
  show ?thesis
  proof (elim disjE exE conjE)
    fix e assume "write_entries xxh io fd es (None, 0, qf, ?s0) = Inl e" "\<not> io_succeeds io"
    then show ?thesis using that(2) by (simp add: write_index_def)
  next
    fix s' assume s': "write_entries xxh io fd es (None, 0, qf, ?s0)
        = Inr (fold (\<lambda>e m. max m (mt_seq e)) (unwritten None es) 0, fold (\<lambda>e. qf_add xxh (mt_key e)) (unwritten None es) qf, s')"
      and "iw_rep xxh 512 fd i st s' ([] @ map (\<lambda>e. (mt_key e, mt_value e)) (unwritten None es))"
    then have rep': "iw_rep xxh 512 fd i st s' (key_runs es)" by (simp add: heads key_runs_heads)
    show ?thesis
    proof (cases rule: iw_finish_rep [OF io rep' WRITE_BUF_SIZE_pages(2), of "''Failed to write index data: ''", case_names ok failed])
      case (ok s kvss)
      then show ?thesis using that(1) s' by (simp add: write_index_def heads)
    next
      case (failed e)
      then show ?thesis using that(2) s' by (simp add: write_index_def)
    qed
  qed
qed

end
