(* ===== verification/Sst_Written.thy ===== *)
theory Sst_Written
  imports Index_Ops
begin

text \<open>
  What the writers of SST files promise. The file that is written holds the pages of pairs, the
  index of their last keys, the filter and the footer, so that the object returned by the writer
  answers lookups from it, and loading the file gives this object again.
\<close>

section \<open>Reading the footer back\<close>

lemma le_word_nth:
  assumes "i < length ws"
  shows "le_word (read_at (concat (map (le_image 8) ws)) (8 * i) 8) = (ws ! i :: u64)"
  using assms
proof (induction ws arbitrary: i)
  case (Cons w ws)
  then show ?case by (cases i) (simp_all add: read_at_def le_simps)
qed simp

lemma sst_footer_of_image_image:
  assumes "length (f_header f) = 16" "length padding = 7"
  shows "sst_footer_of_image (sst_footer_image padding f) = f"
proof -
  define p where "p = f_header f @ [f_version f] @ padding"
  have "sst_footer_image padding f = p @ concat (map (le_image 8) (footer_words f))" and p: "length p = 24"
    using assms by (simp_all add: sst_footer_image_def p_def)
  then have "read_at (sst_footer_image padding f) (24 + k) 8 = read_at (concat (map (le_image 8) (footer_words f))) k 8" for k
    by (simp add: read_at_def)
  then have words: "le_word (read_at (sst_footer_image padding f) (24 + 8 * i) 8) = footer_words f ! i" if "i < 10" for i
    using that le_word_nth [of i "footer_words f"] by (simp add: footer_words_def)
  have "read_at (sst_footer_image padding f) 0 16 = f_header f" "sst_footer_image padding f ! 16 = f_version f"
    using assms by (simp_all add: sst_footer_image_def read_at_def nth_append)
  then show ?thesis
    using words [of 0] words [of 1] words [of 2] words [of 3] words [of 4] words [of 5] words [of 6] words [of 7]
      words [of 8] words [of 9]
    by (simp add: sst_footer_of_image_def footer_words_def)
qed

lemma pread_part:
  assumes "content = a @ b @ c" "length content < 2 ^ 64"
  shows "pread content (of_nat (length b)) (of_nat (length a)) = b"
  using assms by (simp add: pread_def unsigned_of_nat take_bit_nat_eq_self read_at_def)

lemma footer_page_size: "round_up (of_nat sizeof_sst_footer) (of_nat PAGE_SIZE_IN_BYTES) = of_nat PAGE_SIZE_IN_BYTES"
  by (simp add: round_up_def sizeof_sst_footer_def PAGE_SIZE_IN_BYTES_def)

lemma load_footer_written:
  assumes f: "build_footer fb = Inr f" and size: "length (img @ footer_page env f) < 2 ^ 64"
  shows "load_footer (img @ footer_page env f) = Inr f"
proof -
  note page = length_footer_page [OF f]
  have "(of_nat (length (img @ footer_page env f)) :: u64) - of_nat PAGE_SIZE_IN_BYTES = of_nat (length img)"
    by (simp add: page)
  moreover have "pread (img @ footer_page env f) (of_nat PAGE_SIZE_IN_BYTES) (of_nat (length img)) = footer_page env f"
    using pread_part [of "img @ footer_page env f" img "footer_page env f" "[]"] size page(2) by simp
  moreover have "take sizeof_sst_footer (footer_page env f) = sst_footer_image (junk env 7) f"
    by (simp add: footer_page_def sst_footer_image_def page(1) footer_words_def sizeof_sst_footer_def junk_def FOOTER_MAGIC_def)
  moreover have "sst_footer_of_image (sst_footer_image (junk env 7) f) = f"
    by (rule sst_footer_of_image_image) (simp_all add: page(1) FOOTER_MAGIC_def junk_def)
  moreover have "unat (of_nat PAGE_SIZE_IN_BYTES :: u64) = PAGE_SIZE_IN_BYTES" by (simp add: PAGE_SIZE_IN_BYTES_def)
  moreover have "take 12 (f_header f) = FOOTER_MAGIC" by (simp add: page(1) FOOTER_MAGIC_def)
  ultimately show ?thesis
    unfolding load_footer_def Let_def footer_page_size by (simp add: page(2))
qed

section \<open>Reading the index back\<close>

lemma read_meta_keys_image:
  assumes "\<forall>k \<in> set ks. key_ok k"
  shows "read_meta_keys (length ks) (meta_image ks @ rest) = Inr ks"
  using assms
proof (induction ks)
  case (Cons k ks)
  have "1 \<le> length k" "length k \<le> 256"
    using Cons.prems by (auto simp: key_ok_def MIN_KEY_LEN_def MAX_KEY_LEN_def)
  then have "read_key_unsafe (key_image k @ meta_image ks @ rest) = Inr k"
    using read_key_unsafe_written [of k "meta_image ks @ rest"] by (simp add: key_image_def)
  moreover have "drop (serialized_key_total_length k) (key_image k @ meta_image ks @ rest) = meta_image ks @ rest"
    by (simp add: serialized_key_total_length_def key_len_bytes_def key_image_def)
  ultimately show ?case using Cons by (simp add: meta_image_def)
qed (simp add: meta_image_def)

lemma unat_of_nat_small: "n < 2 ^ 64 \<Longrightarrow> unat (of_nat n :: u64) = n"
  by (simp add: unsigned_of_nat take_bit_nat_eq_self)

lemma load_meta_index_written:
  assumes content: "content = pages @ meta_pages env (meta_image ks) @ rest" and size: "length content < 2 ^ 64"
    and keys: "\<forall>k \<in> set ks. key_ok k"
    and f: "f_meta_index_offset f = of_nat (length pages)" "f_meta_index_entries f = of_nat (length ks)"
      "(if f_qf_size f > 0 then f_qf_offset f else f_footer_offset f) = of_nat (length pages + length (meta_pages env (meta_image ks)))"
  shows "load_meta_index content f = Inr ks"
proof -
  let ?m = "meta_pages env (meta_image ks)"
  have entries: "length ks \<le> length ?m"
  proof -
    have "length ks \<le> length (meta_image ks)" by (induction ks) (simp_all add: meta_image_def key_image_def)
    then show ?thesis by (simp add: meta_pages_def)
  qed
  have small: "length ?m < 2 ^ 64" "length ks < 2 ^ 64" using size entries by (simp_all add: content)
  have msize: "(if f_qf_size f > 0 then f_qf_offset f else f_footer_offset f) - f_meta_index_offset f = of_nat (length ?m)"
    unfolding f by simp
  have n: "unat (f_meta_index_entries f) = length ks" "unat (of_nat (length ?m) :: u64) = length ?m"
    using small by (simp_all only: f unat_of_nat_small)
  show ?thesis
  proof (cases "length ?m = 0")
    case True
    then have "ks = []" using entries by simp
    then show ?thesis
      using True msize n by (simp add: load_meta_index_def)
  next
    case False
    then have "(0 :: u64) < of_nat (length ?m)" using n(2) by (simp add: word_less_nat_alt)
    moreover have "pread content (of_nat (length ?m)) (of_nat (length pages)) = ?m"
      by (rule pread_part [OF content size])
    moreover have "read_meta_keys (length ks) ?m = Inr ks"
      using read_meta_keys_image [OF keys] by (simp add: meta_pages_def)
    ultimately show ?thesis
      unfolding load_meta_index_def Let_def msize unfolding n f(1) by simp
  qed
qed

section \<open>Reading the filter back\<close>

lemma page_align_aligned:
  assumes "PAGE_SIZE_IN_BYTES dvd n" "n < 2 ^ 62"
  shows "page_align n = n"
proof -
  obtain a b where ab: "page_align n = PAGE_SIZE_IN_BYTES * a" "n = PAGE_SIZE_IN_BYTES * b"
    using page_align_bounds(3) [OF assms(2)] assms(1) by (auto simp: dvd_def)
  then show ?thesis using page_align_bounds(1,2) [OF assms(2)] by (simp add: PAGE_SIZE_IN_BYTES_def)
qed

text \<open>Filters as the writers store them: the table fills whole pages.\<close>

definition qf_paged :: "qf \<Rightarrow> bool" where
  "qf_paged q \<longleftrightarrow> qf_stored q \<and> PAGE_SIZE_IN_BYTES dvd unat (qf_allocated_size q) \<and> unat (qf_allocated_size q) < 2 ^ 62"

lemma filter_data:
  assumes "qf_paged q"
  shows "length (data_as_byte_span q) = unat (qf_allocated_size q)"
    "page_align (length (data_as_byte_span q)) = length (data_as_byte_span q)"
    "length (qf_pages env q) = PAGE_SIZE_IN_BYTES + length (data_as_byte_span q)"
proof -
  show len: "length (data_as_byte_span q) = unat (qf_allocated_size q)"
    using assms by (simp add: qf_paged_def data_as_byte_span_def qf_stored_def length_images)
  show align: "page_align (length (data_as_byte_span q)) = length (data_as_byte_span q)"
    using assms by (intro page_align_aligned) (simp_all add: qf_paged_def len)
  show "length (qf_pages env q) = PAGE_SIZE_IN_BYTES + length (data_as_byte_span q)"
    unfolding qf_pages_def zero_padded_def align by (simp add: length_header PAGE_SIZE_IN_BYTES_def)
qed

lemma load_qf_written:
  assumes content: "content = front @ qf_pages env q @ rest" and size: "length content < 2 ^ 64" and q: "qf_paged q"
    and f: "f_qf_offset f = of_nat (length front)" "f_qf_size f = of_nat (length (qf_pages env q))"
  shows "load_qf content f = Inr (Some q)"
proof -
  let ?h = "zero_padded PAGE_SIZE_IN_BYTES (header_as_byte_span (env_junk env 0) (env_ptr env) q)"
  let ?d = "data_as_byte_span q"
  note d = filter_data [OF q]
  have pages: "qf_pages env q = ?h @ ?d" unfolding qf_pages_def d(2) by (simp add: zero_padded_def)
  have h: "length ?h = PAGE_SIZE_IN_BYTES" by (simp add: zero_padded_def length_header PAGE_SIZE_IN_BYTES_def)
  have small: "length ?d < 2 ^ 64" "length (qf_pages env q) < 2 ^ 64" "length front + PAGE_SIZE_IN_BYTES < 2 ^ 64"
    using size h by (simp_all add: content pages)
  have alloc: "(of_nat (length ?d) :: u64) = qf_allocated_size q" by (simp add: d)
  have dsize: "f_qf_size f - of_nat PAGE_SIZE_IN_BYTES = qf_allocated_size q"
    unfolding f(2) d(3) by (simp add: alloc)
  have align: "ceil_page_align (qf_allocated_size q) = qf_allocated_size q"
    unfolding word_unat_eq_iff using d(2) unfolding page_align_def d(1) by simp
  have "unat (f_qf_size f) = length (qf_pages env q)" using small(2) by (simp only: f(2) unat_of_nat_small)
  then have pos: "f_qf_size f > 0" using h by (simp add: word_less_nat_alt pages PAGE_SIZE_IN_BYTES_def)
  have header: "pread content (of_nat PAGE_SIZE_IN_BYTES) (f_qf_offset f) = ?h"
    using pread_part [of content front ?h "?d @ rest"] size h by (simp add: content pages f(1))
  have data: "pread content (qf_allocated_size q) (f_qf_offset f + of_nat PAGE_SIZE_IN_BYTES) = ?d"
    using pread_part [of content "front @ ?h" ?d rest] size h by (simp add: content pages f(1) alloc)
  have "quotient_filter_load ?h (?d @ []) (qf_allocated_size q) = Inr q"
    unfolding zero_padded_def using q by (intro quotient_filter_load_stored) (simp add: qf_paged_def)
  then show ?thesis
    unfolding load_qf_def Let_def dsize align using pos header data h d(1) by simp
qed

section \<open>Loading the whole file\<close>

lemma sst_load_written:
  assumes f: "build_footer (tail_builder fb (ks, meta_image ks) env (Some q) (length pages)) = Inr f"
    and size: "length (pages @ sst_tail env (ks, meta_image ks) (Some q) f) < 2 ^ 64"
    and keys: "\<forall>k \<in> set ks. key_ok k" and q: "qf_paged q"
  shows "sst_load h (pages @ sst_tail env (ks, meta_image ks) (Some q) f) = Inr (make_sst h ks f (super_index_of ks) (Some q))"
proof -
  let ?m = "meta_pages env (meta_image ks)" and ?q = "qf_pages env q" and ?f = "footer_page env f"
  let ?content = "pages @ sst_tail env (ks, meta_image ks) (Some q) f"
  have content: "?content = (pages @ ?m @ ?q) @ ?f" "?content = pages @ ?m @ ?q @ ?f" "?content = (pages @ ?m) @ ?q @ ?f"
    by (simp_all add: sst_tail_def filter_pages_def)
  have fields: "f_meta_index_offset f = of_nat (length pages)" "f_meta_index_entries f = of_nat (length ks)"
      "f_qf_offset f = of_nat (length (pages @ ?m))" "f_qf_size f = of_nat (length ?q)"
    using f by (auto simp: build_footer_def tail_builder_def filter_builder_def meta_builder_def Let_def value_or_def
        split: if_splits)
  have "length ?q < 2 ^ 64" using size content(2) by simp
  then have "unat (f_qf_size f) = length ?q" by (simp only: fields(4) unat_of_nat_small)
  then have "f_qf_size f > 0" using filter_data(3) [OF q, of env] by (simp add: word_less_nat_alt PAGE_SIZE_IN_BYTES_def)
  then have end_offset: "(if f_qf_size f > 0 then f_qf_offset f else f_footer_offset f) = of_nat (length pages + length ?m)"
    by (simp add: fields)
  have "load_footer ?content = Inr f"
    using load_footer_written [OF f, of "pages @ ?m @ ?q" env] size content(1) by simp
  moreover have "load_meta_index ?content f = Inr ks"
    by (rule load_meta_index_written [OF content(2) size keys fields(1,2) end_offset])
  moreover have "load_qf ?content f = Inr (Some q)"
    by (rule load_qf_written [OF content(3) size q fields(3,4)])
  ultimately show ?thesis by (simp add: sst_load_def)
qed

section \<open>The filter of an exported file\<close>

lemma fold_qf_add:
  "fold (\<lambda>e. qf_add xxh (mt_key e)) es (Some q)
    = Some (fold (\<lambda>h f. snd (quotient_filter_insert h f)) (map (\<lambda>e. xxh (mt_key e) QF_SEED) es) q)"
  by (induction es arbitrary: q) (simp_all add: qf_add_def)

text \<open>A filter for \<open>n\<close> keys takes \<open>n\<close> hashes, and then fits into a single write.\<close>

lemma filter_for_keys:
  assumes "0 < n" "n \<le> 2 ^ 29"
  obtains q0 where "make_qf_for_key_count (of_nat n) = Some (Inr q0)"
    "\<And>hs. length hs \<le> n \<Longrightarrow>
       (let q = fold (\<lambda>h f. snd (quotient_filter_insert h f)) hs q0
        in qf_paged q \<and> length (data_as_byte_span q) + PAGE_SIZE_IN_BYTES \<le> MAX_RW_COUNT
          \<and> (\<forall>h \<in> set hs. quotient_filter_may_contain q h))"
proof -
  obtain k where k: "make_qf_for_key_count (of_nat n) = Some (quotient_filter_make k QF_BITS_PER_KEY)"
      "n < 2 ^ k" "0 < k" "k \<le> 30"
    using qf_for_keys [OF assms] .
  have bits: "0 < k" "k < 32" "0 < QF_BITS_PER_KEY" "k + QF_BITS_PER_KEY \<le> 56"
    using k(3,4) by (simp_all add: QF_BITS_PER_KEY_def)
  obtain q0 where init: "qf_init k QF_BITS_PER_KEY = Some q0" using bits by (auto simp: qf_init_def Let_def)
  note rep = qf_init_rep [OF bits init]
  have dims: "unat (qf_qbits q0) = k" "unat (qf_rbits q0) = QF_BITS_PER_KEY"
    using qf_rep_shape [OF rep] by (simp_all add: qf_shape_def)
  show ?thesis
  proof (rule that)
    show "make_qf_for_key_count (of_nat n) = Some (Inr q0)" using k(1) init by (simp add: quotient_filter_make_def)
    fix hs :: "u64 list" assume hs: "length hs \<le> n"
    define q where "q = fold (\<lambda>h f. snd (quotient_filter_insert h f)) hs q0"
    have same: "same_dims q0 q" unfolding q_def by (rule same_dims_fold)
    have alloc: "qf_allocated_size q = ceil_page_align (qf_table_size k QF_BITS_PER_KEY)"
      using same dims by (simp add: same_dims_def qf_allocated_size_def)
    have "(2 :: nat) ^ k \<le> 2 ^ 30" using k(4) by (intro power_increasing) simp_all
    then have bound: "unat (qf_allocated_size q) \<le> 13 * 2 ^ 30 div 8 + 4096"
      using table_size_bound(3) [OF bits] by (simp add: alloc QF_BITS_PER_KEY_def)
    have paged: "qf_paged q"
      using qf_stored_dims [OF qf_init_stored [OF bits init] same] table_size_bound(2) [OF bits] bound
      by (simp add: qf_paged_def alloc PAGE_SIZE_IN_BYTES_def mod_0_imp_dvd)
    moreover have "length (data_as_byte_span q) + PAGE_SIZE_IN_BYTES \<le> MAX_RW_COUNT"
      using bound by (simp add: filter_data(1) [OF paged] MAX_RW_COUNT_def PAGE_SIZE_IN_BYTES_def)
    moreover have "\<exists>S. qf_rep k QF_BITS_PER_KEY q0 S \<and> card S + (length hs + 0) \<le> 2 ^ k"
      using rep hs k(2) by (intro exI [of _ "{}"]) simp
    then have "\<forall>h \<in> set hs. quotient_filter_may_contain q h"
      unfolding q_def using qfs.has_fold [of k QF_BITS_PER_KEY q0 hs 0] by blast
    ultimately show "let q = fold (\<lambda>h f. snd (quotient_filter_insert h f)) hs q0
        in qf_paged q \<and> length (data_as_byte_span q) + PAGE_SIZE_IN_BYTES \<le> MAX_RW_COUNT
          \<and> (\<forall>h \<in> set hs. quotient_filter_may_contain q h)"
      by (simp add: q_def Let_def)
  qed
qed

section \<open>Sizes\<close>

lemma length_concat_ge: "[] \<notin> set xss \<Longrightarrow> length xss \<le> length (concat xss)"
proof (induction xss)
  case (Cons xs xss)
  then show ?case by (cases xs) auto
qed simp

lemma length_meta_image: "\<forall>k \<in> set ks. key_ok k \<Longrightarrow> length (meta_image ks) \<le> 257 * length ks"
  by (induction ks) (auto simp: meta_image_def key_image_def key_ok_def MAX_KEY_LEN_def)

lemma last_keys_ok:
  assumes "pages_hold xxh mem base kvss" "[] \<notin> set kvss"
  shows "\<forall>k \<in> set (map (last_key_of []) kvss). key_ok k" "map (last_key_of []) kvss = map (\<lambda>kvs. fst (last kvs)) kvss"
  using assms by (induction kvss arbitrary: base) (auto simp: last_key_of_def)

section \<open>Exporting a memtable\<close>

text \<open>What the entries of a memtable must satisfy to be written: each fits into a page, and its value is one that was stored.\<close>

definition exportable :: "memtable_entry list \<Rightarrow> bool" where
  "exportable es \<longleftrightarrow> skip_sorted es \<and> length es \<le> 2 ^ 22
     \<and> (\<forall>e \<in> set es. page_fits (mt_key e, mt_value e) \<and> (\<exists>v. value_from_span (mt_value e) = Inr v))"

text \<open>
  A table holds a list of pairs: its pages hold them, and its filter lets every key of them pass.
  Only the contents of its own file matter.
\<close>

definition table_holds :: "hash64 \<Rightarrow> (nat \<Rightarrow> bytes) \<Rightarrow> sst \<Rightarrow> (bytes \<times> bytes) list \<Rightarrow> bool" where
  "table_holds xxh files s kvs \<longleftrightarrow>
     (\<exists>kvss. sst_rep xxh files s kvss \<and> concat kvss = kvs
        \<and> f_meta_index_offset (footer s) = of_nat (PAGE_SIZE_IN_BYTES * length kvss))
     \<and> f_indexed_keys (footer s) = of_nat (length kvs) \<and> (\<forall>kv \<in> set kvs. page_fits kv)
     \<and> (\<forall>k \<in> fst ` set kvs. probe_filter (xxh k QF_SEED) s)"

lemma table_holds_lookup:
  assumes "table_holds xxh files s kvs" "reads_files rd files"
  shows "lookup_async xxh rd k s =
      (case map_of kvs k of None \<Rightarrow> Inl (Error [] KEY_NOT_FOUND) | Some v \<Rightarrow> value_from_span v)"
    "map_of kvs k \<noteq> None \<Longrightarrow> probe_filter (xxh k QF_SEED) s"
  using assms sst_lookup_rep [OF _ assms(2)] by (auto simp: table_holds_def map_of_eq_None_iff)

lemma table_holds_cong:
  "table_holds xxh files s kvs \<Longrightarrow> files' (sst_file s) = files (sst_file s) \<Longrightarrow> table_holds xxh files' s kvs"
  by (auto simp: table_holds_def sst_rep_def)

text \<open>A written file: it is new, its table holds the pairs, and loading it gives the table back.\<close>

definition wrote_table ::
    "hash64 \<Rightarrow> path \<Rightarrow> fs_state \<Rightarrow> (bytes \<times> bytes) list \<Rightarrow> sst \<Rightarrow> fs_state \<Rightarrow> bool" where
  "wrote_table xxh path st kvs s st' \<longleftrightarrow>
     adds_file path (sst_file s) st st' \<and> table_holds xxh (fd_data st') s kvs
     \<and> sst_load (sst_file s) (fd_data st' (sst_file s)) = Inr (s\<lparr>super_index := super_index_of (meta_index s)\<rparr>)"

definition exported ::
    "hash64 \<Rightarrow> path \<Rightarrow> fs_state \<Rightarrow> memtable_entry list \<Rightarrow> sst \<Rightarrow> fs_state \<Rightarrow> bool" where
  "exported xxh path st es s st' \<longleftrightarrow> wrote_table xxh path st (key_runs es) s st'
     \<and> sst_max_seq_nr s = fold (\<lambda>e m. max m (mt_seq e)) (key_heads es) 0"

lemma sst_tail_loadable:
  assumes io: "kernel_ok io" and kvs: "sorted_wrt (<) (map fst kvs)" "values_parse kvs" "length kvs \<le> 2 ^ 22" and fd: "map_of (fs_fds st1) fd = Some i"
    and s: "iw_file xxh fd i st1 s kvss" "concat kvss = kvs"
      "iw_meta s = (map (last_key_of []) kvss, meta_image (map (last_key_of []) kvss))"
    and q: "qf_paged q" "length (data_as_byte_span q) + PAGE_SIZE_IN_BYTES \<le> MAX_RW_COUNT"
    and fb: "builder_complete (meta_builder fb (iw_meta s) (iw_bytes_written s))" "fb_index_offset fb = Some 0"
  obtains f content where
      "write_sst_tail tm io env sync fd (iw_meta s) (Some q) fb (iw_bytes_written s) (iw_fs s) = Inr (f, set_data i content st1)"
      "build_footer (tail_builder fb (iw_meta s) env (Some q) (iw_bytes_written s)) = Inr f"
      "sst_holds xxh content kvss" "length content < 2 ^ 64" "f_index_offset f = 0" "f_meta_index_offset f = of_nat (PAGE_SIZE_IN_BYTES * length kvss)"
      "\<And>h. sst_load h content = Inr (make_sst h (fst (iw_meta s)) f (super_index_of (fst (iw_meta s))) (Some q))"
  | e where "write_sst_tail tm io env sync fd (iw_meta s) (Some q) fb (iw_bytes_written s) (iw_fs s) = Inl e" "\<not> io_succeeds io"
proof -
  let ?ks = "map (last_key_of []) kvss" and ?c0 = "fs_data (iw_fs s) i" and ?n = "iw_bytes_written s"
  have held: "pages_hold xxh ?c0 0 kvss" "[] \<notin> set kvss" "?n \<le> length ?c0" "?n = PAGE_SIZE_IN_BYTES * length kvss"
    using s(1) by (simp_all add: iw_file_def)
  define img where "img = take ?n ?c0"
  have img: "length img = ?n" using held(3) by (simp add: img_def)
  have st: "wrote st1 i img (iw_fs s)" using s(1) by (auto simp: iw_file_def wrote_def img_def)
  note keys = last_keys_ok [OF held(1,2)]
  have pages: "length kvss \<le> 2 ^ 22"
    using length_concat_ge [OF held(2)] s(2) kvs(3) by simp
  have "length (meta_image ?ks) \<le> 257 * length ?ks" by (rule length_meta_image [OF keys(1)])
  then have meta: "length (snd (iw_meta s)) + PAGE_SIZE_IN_BYTES \<le> MAX_RW_COUNT"
    using pages by (simp add: s(3) MAX_RW_COUNT_def PAGE_SIZE_IN_BYTES_def)
  have qf: "\<forall>q'. Some q = Some q' \<longrightarrow> length (data_as_byte_span q') + PAGE_SIZE_IN_BYTES \<le> MAX_RW_COUNT" using q(2) by simp
  show ?thesis
  proof (cases rule: write_sst_tail_written [OF io fd st fb(1) [folded img] meta qf, where env = env and sync = sync and tm = tm, case_names ok failed])
    case (failed e)
    then show ?thesis using that(2) by (simp add: img)
  next
    case (ok f)
    let ?content = "img @ sst_tail env (iw_meta s) (Some q) f"
    have "length (meta_pages env (meta_image ?ks)) \<le> MAX_RW_COUNT"
      using page_align_bounds(1,2) [of "length (meta_image ?ks)"] meta
      by (simp add: meta_pages_def junk_def s(3) MAX_RW_COUNT_def)
    then have size: "length ?content < 2 ^ 64"
      using pages q(2) filter_data(3) [OF q(1), of env] length_footer_page(2) [OF ok(1), of env]
      by (simp add: sst_tail_def filter_pages_def s(3) img held(4) MAX_RW_COUNT_def PAGE_SIZE_IN_BYTES_def)
    have "take ?n ?content = take ?n ?c0" using img by (simp add: img_def)
    then have "pages_hold xxh ?content 0 kvss" using held by (intro pages_hold_prefix [OF held(1)]) simp_all
    then have holds: "sst_holds xxh ?content kvss"
      using held img kvs by (simp add: sst_holds_def s(2))
    have load: "sst_load h ?content = Inr (make_sst h ?ks f (super_index_of ?ks) (Some q))" for h
      using sst_load_written [OF ok(1) [unfolded s(3)]] size keys(1) q(1) by (simp add: s(3))
    have "f_index_offset f = 0" "f_meta_index_offset f = of_nat (PAGE_SIZE_IN_BYTES * length kvss)"
      using ok(1) fb(2) held(4) img by (auto simp: build_footer_def tail_builder_def filter_builder_def meta_builder_def Let_def split: if_splits)
    then show ?thesis
      using that(1) [OF _ _ holds size] ok load by (simp add: s(3) img)
  qed
qed

lemma from_path_async_new_succeeds:
  assumes io: "kernel_ok io" and absent: "map_of (fs_dir st) path = None"
    and res: "from_path_async io path read_write_new d (Some n) st = (Inl e, st')"
  shows "\<not> io_succeeds io"
proof
  assume good: "io_succeeds io"
  obtain fd st1 where opened: "io_open io path (open_flags read_write_new d) st = (fd, st1)" by fastforce
  then have fd: "0 \<le> fd"
    using good mode_flags_bits(1) [of read_write_new d] unfolding io_succeeds_def by (metis fst_conv insertCI)
  have guard: "open_guard path read_write_new (map_of (fs_dir st) path \<noteq> None) = ok" using absent by (simp add: open_guard_def)
  obtain i where i: "st1 = set_data i [] (st\<lparr>fs_dir := (path, i) # fs_dir st, fs_fds := (nat fd, i) # fs_fds st\<rparr>)"
    using open_keeps_files [OF kernel_ok_laws [OF io] _ _ _ opened fd] absent by auto
  obtain c st2 where alloc: "io_fallocate io (nat fd) n st1 = (c, st2)" by fastforce
  have "map_of (fs_fds st1) (nat fd) = Some i" by (simp add: i)
  then have "0 \<le> c" using good alloc unfolding io_succeeds_def by (metis fst_conv)
  then show False
    using res opened fd guard absent alloc kernel_okD(1) [OF io]
    by (simp add: from_path_async_def expect_size_def wrap_fd_def stat_of_def stat_size_def Let_def)
qed

definition writable_pairs :: "(bytes \<times> bytes) list \<Rightarrow> bool" where
  "writable_pairs kvs \<longleftrightarrow> sorted_wrt (<) (map fst kvs) \<and> values_parse kvs \<and> length kvs \<le> 2 ^ 22 \<and> (\<forall>kv \<in> set kvs. page_fits kv)"

lemma exportable_runs:
  assumes "exportable es"
  shows "sorted_wrt (<) (map fst (key_runs es))" "values_parse (key_runs es)" "writable_pairs (key_runs es)"
proof -
  show *: "sorted_wrt (<) (map fst (key_runs es))" "values_parse (key_runs es)"
    using assms key_runs_sorted [OF skip_sorted_keys] key_heads_subset [of es]
    by (auto simp: exportable_def values_parse_def key_runs_heads)
  show "writable_pairs (key_runs es)"
    using * assms key_heads_subset [of es] length_key_runs [of es]
    by (auto simp: writable_pairs_def exportable_def key_runs_heads)
qed

lemma table_written:
  assumes io: "kernel_ok io" and kvs: "writable_pairs kvs"
    and i: "fresh_inode i st" "fd \<notin> fst ` set (fs_fds st)" "map_of (fs_dir st) path = None"
    and st1: "st1 = set_data i c (st\<lparr>fs_dir := (path, i) # fs_dir st, fs_fds := (fd, i) # fs_fds st, fs_ids := n\<rparr>)"
    and s: "iw_file xxh fd i st1 s kvss" "concat kvss = kvs"
      "iw_meta s = (map (last_key_of []) kvss, meta_image (map (last_key_of []) kvss))"
    and q: "qf_paged q" "length (data_as_byte_span q) + PAGE_SIZE_IN_BYTES \<le> MAX_RW_COUNT"
      "\<forall>k \<in> fst ` set kvs. quotient_filter_may_contain q (xxh k QF_SEED)"
    and fb: "builder_complete (meta_builder fb (iw_meta s) (iw_bytes_written s))" "fb_index_offset fb = Some 0"
      "fb_indexed_kv fb = Some (of_nat (length kvs))"
    and si: "si = None \<or> si = super_index_of (fst (iw_meta s))"
  obtains ft st' where
      "write_sst_tail tm io env sync fd (iw_meta s) (Some q) fb (iw_bytes_written s) (iw_fs s) = Inr (ft, st')"
      "build_footer (tail_builder fb (iw_meta s) env (Some q) (iw_bytes_written s)) = Inr ft"
      "wrote_table xxh path st kvs (make_sst fd (fst (iw_meta s)) ft si (Some q)) st'"
  | e where "write_sst_tail tm io env sync fd (iw_meta s) (Some q) fb (iw_bytes_written s) (iw_fs s) = Inl e" "\<not> io_succeeds io"
proof -
  have kvs': "sorted_wrt (<) (map fst kvs)" "values_parse kvs" "length kvs \<le> 2 ^ 22" "\<forall>kv \<in> set kvs. page_fits kv"
    using kvs by (simp_all add: writable_pairs_def)
  have fd: "map_of (fs_fds st1) fd = Some i" by (simp add: st1)
  show ?thesis
  proof (cases rule: sst_tail_loadable [OF io kvs'(1-3) fd s q(1,2) fb(1,2), where env = env and sync = sync and tm = tm, case_names ok failed])
    case (failed e)
    then show ?thesis by (rule that(2))
  next
    case (ok ft content)
    let ?s = "make_sst fd (fst (iw_meta s)) ft si (Some q)" and ?st = "set_data i content st1"
    have data: "fd_data ?st fd = content" by (simp add: fd_data_def st1)
    have "pages_hold xxh content 0 kvss" "[] \<notin> set kvss" using ok(3) by (simp_all add: sst_holds_def)
    then have rep: "sst_rep xxh (fd_data ?st) ?s kvss"
      using ok(3-5) data last_keys_ok(2) [of xxh content 0 kvss] si
      by (auto simp: sst_rep_def make_sst_def super_ok_def s(3) super_index_of_def)
    have "f_indexed_keys ft = of_nat (length kvs)"
      using ok(2) fb(3) by (auto simp: build_footer_def tail_builder_def filter_builder_def meta_builder_def Let_def split: if_splits)
    then have "table_holds xxh (fd_data ?st) ?s kvs"
      using rep ok(6) kvs'(4) s(2) q(3) by (auto simp: table_holds_def make_sst_def probe_filter_def)
    moreover have "?st = set_data i content (st\<lparr>fs_dir := (path, i) # fs_dir st, fs_fds := (fd, i) # fs_fds st, fs_ids := n\<rparr>)"
      by (simp add: st1 set_data_def)
    then have "adds_file path fd st ?st" using i by (auto simp: adds_file_def)
    moreover have "sst_load fd content = Inr (?s\<lparr>super_index := super_index_of (meta_index ?s)\<rparr>)"
      using ok(7) by (simp add: make_sst_def)
    ultimately have "wrote_table xxh path st kvs ?s ?st" using data by (simp add: wrote_table_def make_sst_def)
    then show ?thesis by (rule that(1) [OF ok(1,2)])
  qed
qed

lemma export_as_sst_exported:
  assumes io: "kernel_ok io" and absent: "map_of (fs_dir st) path = None" and es: "exportable es" "es \<noteq> []"
  shows "(\<exists>s st'. export_as_sst xxh io env path es (length es) avg ub ep od sync st = Inr (s, st')
      \<and> exported xxh path st es s st' \<and> sst_upper_bound s = ub \<and> sst_epoch s = ep
      \<and> sst_size s = of_nat (length (key_runs es)))
    \<or> (\<exists>e. export_as_sst xxh io env path es (length es) avg ub ep od sync st = Inl e) \<and> \<not> io_succeeds io"
    (is "?done \<or> ?failed")
proof -
  let ?hs = "map (\<lambda>e. xxh (mt_key e) QF_SEED) (key_heads es)"
  have len: "0 < length es" "length es \<le> 2 ^ 29" using es by (auto simp: exportable_def)
  obtain q0 where q0: "make_qf_for_key_count (of_nat (length es)) = Some (Inr q0)"
    and fits: "\<And>hs. length hs \<le> length es \<Longrightarrow> (let q = fold (\<lambda>h f. snd (quotient_filter_insert h f)) hs q0
        in qf_paged q \<and> length (data_as_byte_span q) + PAGE_SIZE_IN_BYTES \<le> MAX_RW_COUNT
          \<and> (\<forall>h \<in> set hs. quotient_filter_may_contain q h))"
    using filter_for_keys [OF len] by metis
  define q where "q = fold (\<lambda>h f. snd (quotient_filter_insert h f)) ?hs q0"
  have q: "qf_paged q" "length (data_as_byte_span q) + PAGE_SIZE_IN_BYTES \<le> MAX_RW_COUNT"
      "\<forall>h \<in> set ?hs. quotient_filter_may_contain q h"
    using fits [of ?hs] length_key_heads [of es] by (simp_all add: q_def Let_def)
  let ?n = "of_nat (total_size (estimate_sst_size (length es) avg (Some q0))) :: u64"
  obtain r st1 where opened: "from_path_async io path read_write_new od (Some ?n) st = (r, st1)" by fastforce
  note defs = export_as_sst_def create_qf_for_key_count_def q0 opened Let_def
  show ?thesis
  proof (cases r)
    case (Inl e)
    have "\<not> io_succeeds io" by (rule from_path_async_new_succeeds [OF io absent opened [unfolded Inl]])
    then show ?thesis using Inl by (simp add: defs)
  next
    case (Inr f)
    obtain i where i: "fresh_inode i st" "file_fd f \<notin> fst ` set (fs_fds st)" and st1: "st1 = set_data i (replicate (unat ?n) 0)
        (st\<lparr>fs_dir := (path, i) # fs_dir st, fs_fds := (file_fd f, i) # fs_fds st, fs_ids := fs_ids st + 1\<rparr>)"
      using from_path_async_new [OF io opened [unfolded Inr]] by blast
    have fd: "map_of (fs_fds st1) (file_fd f) = Some i" by (simp add: st1)
    have pf: "\<forall>e \<in> set es. page_fits (mt_key e, mt_value e)" using es(1) by (simp add: exportable_def)
    show ?thesis
    proof (cases rule: write_index_written [OF io fd pf, of xxh "Some q0", case_names ok failed])
      case (failed e)
      then show ?thesis using Inr by (simp add: defs)
    next
      case (ok s kvss)
      note idx = this
      let ?fb = "empty_footer_builder\<lparr>fb_indexed_kv := Some (of_nat (wb_indexed_kvs (iw_buffer s))),
         fb_upper_bound := Some ub, fb_index_offset := Some 0, fb_epoch := Some ep,
         fb_max_seq_nr := Some (fold (\<lambda>e m. max m (mt_seq e)) (key_heads es) 0)\<rparr>"
      have fb: "builder_complete (meta_builder ?fb (iw_meta s) (iw_bytes_written s))" "fb_index_offset ?fb = Some 0"
          "fb_indexed_kv ?fb = Some (of_nat (length (key_runs es)))"
        by (simp_all add: builder_complete_def meta_builder_def idx(5))
      have qf: "fold (\<lambda>e. qf_add xxh (mt_key e)) (key_heads es) (Some q0) = Some q" by (simp add: fold_qf_add q_def)
      have probes: "\<forall>k \<in> fst ` set (key_runs es). quotient_filter_may_contain q (xxh k QF_SEED)"
        using q(3) by (simp add: key_runs_heads image_image)
      show ?thesis
      proof (cases rule: table_written [OF io exportable_runs(3) [OF es(1)] i absent st1 idx(2-4) q(1,2) probes fb,
            where si = None and tm = EXPORT_MESSAGES and env = env and sync = sync, simplified, case_names ok failed])
        case (failed e)
        then show ?thesis using Inr idx(1) by (simp add: defs qf)
      next
        case (ok ft st')
        let ?s = "make_sst (file_fd f) (fst (iw_meta s)) ft None (Some q)"
        have "export_as_sst xxh io env path es (length es) avg ub ep od sync st = Inr (?s, st')"
          using Inr idx(1) ok(1) by (simp add: defs qf)
        moreover have "sst_max_seq_nr ?s = fold (\<lambda>e m. max m (mt_seq e)) (key_heads es) 0" "sst_upper_bound ?s = ub"
            "sst_epoch ?s = ep" "sst_size ?s = of_nat (length (key_runs es))"
          using ok(2) idx(5) by (auto simp: sst_max_seq_nr_def sst_upper_bound_def sst_epoch_def sst_size_def make_sst_def
              build_footer_def tail_builder_def filter_builder_def meta_builder_def Let_def split: if_splits)
        ultimately show ?thesis using ok(3) unfolding exported_def by blast
      qed
    qed
  qed
qed

text \<open>
  C5: Lookups in an exported file. When a memtable has been written to an SST file, a lookup of any
  key in that file, by reads that return what the file holds, gives exactly what a lookup in the
  memtable gave: the newest value of the key, or \<open>KEY_NOT_FOUND\<close>. A key of the memtable always
  passes the filter of the file.
\<close>

theorem export_lookup:
  assumes "kernel_ok io" "map_of (fs_dir st) path = None" "exportable es" "es \<noteq> []"
    and export: "export_as_sst xxh io env path es (length es) avg ub ep od sync st = Inr (s, st')"
    and "reads_files rd (fd_data st')"
  shows "lookup_async xxh rd key s =
      (case wrapper_get key es of None \<Rightarrow> Inl (Error [] KEY_NOT_FOUND) | Some v \<Rightarrow> value_from_span v)
    \<and> (wrapper_get key es \<noteq> None \<longrightarrow> probe_filter (xxh key QF_SEED) s)"
proof -
  have "table_holds xxh (fd_data st') s (key_runs es)"
    using export_as_sst_exported [OF assms(1-4), of xxh env avg ub ep od sync] export by (auto simp: exported_def wrote_table_def)
  note table = table_holds_lookup [OF this assms(6), of key]
  have "wrapper_get key es = map_option mt_value (find (\<lambda>e. mt_key e = key) es)"
    using assms(3) by (intro wrapper_get_find skip_sorted_keys) (simp add: exportable_def)
  then have "map_of (key_runs es) key = wrapper_get key es" by (simp add: map_of_key_runs)
  with table show ?thesis by simp
qed

definition sample_entry :: memtable_entry where
  "sample_entry = \<lparr>mt_key = [1, 2], mt_seq = 5, mt_value = stored_value (In_Place [7])\<rparr>"

definition sample_env :: write_env where
  "sample_env = \<lparr>env_junk = \<lambda>_. 0, env_ptr = 0\<rparr>"

lemma exportable_sample: "exportable [sample_entry]"
  by (simp add: exportable_def skip_sorted_def sample_entry_def page_fits_def key_ok_def MIN_KEY_LEN_def MAX_KEY_LEN_def
      block_space_def entry_image_def restart_image_def value_image_def unsafe_varint.simps PAGE_SIZE_IN_BYTES_def)

lemma sample_export:
  obtains s st' where "export_as_sst sample_xxh sample_io sample_env ''p'' [sample_entry] 1 10 7 3 False True empty_fs = Inr (s, st')"
    "exported sample_xxh ''p'' empty_fs [sample_entry] s st'"
  using export_as_sst_exported [OF kernel_ok_sample_io, of empty_fs "''p''" "[sample_entry]" sample_xxh sample_env 10 7 3 False True]
    exportable_sample io_succeeds_sample_io by (auto simp: empty_fs_def)

theorem export_lookup_witness:
  "\<exists>s st'. export_as_sst sample_xxh sample_io sample_env ''p'' [sample_entry] 1 10 7 3 False True empty_fs = Inr (s, st')
    \<and> lookup_async sample_xxh (\<lambda>f len off. Inr (read_at (fd_data st' f) off len)) [1, 2] s = Inr (In_Place [7])
    \<and> lookup_async sample_xxh (\<lambda>f len off. Inr (read_at (fd_data st' f) off len)) [1, 3] s = Inl (Error [] KEY_NOT_FOUND)"
proof -
  obtain s st' where export: "export_as_sst sample_xxh sample_io sample_env ''p'' [sample_entry] 1 10 7 3 False True empty_fs = Inr (s, st')"
    by (rule sample_export)
  have "reads_files (\<lambda>f len off. Inr (read_at (fd_data st' f) off len)) (fd_data st')" by (simp add: reads_files_def)
  note lookup = export_lookup [OF kernel_ok_sample_io _ exportable_sample _ _ this, of empty_fs "''p''" sample_xxh sample_env 10 7 3 False True s]
  have "wrapper_get [1, 2] [sample_entry] = Some (stored_value (In_Place [7]))" "wrapper_get [1, 3] [sample_entry] = None"
    by (simp_all add: wrapper_get_def probe_def sample_entry_def memtable_less_def)
  with lookup [of "[1, 2]"] lookup [of "[1, 3]"] export show ?thesis by (simp add: empty_fs_def)
qed

text \<open>
  C6: An exported file can be loaded: reading footer, meta index and filter back from the bytes that
  were written gives the footer, the meta index and the filter of the object the export returned.
  The two objects differ in the index above the meta index, which only loading builds for large
  files. The size that each of them stores for its file is not part of the model: the exported one
  keeps the estimate it was created with, the loaded one has the length of the file.
\<close>

theorem export_load_round_trip:
  assumes "kernel_ok io" "map_of (fs_dir st) path = None" "exportable es" "es \<noteq> []"
    and "export_as_sst xxh io env path es (length es) avg ub ep od sync st = Inr (s, st')"
  shows "sst_load (sst_file s) (fd_data st' (sst_file s)) = Inr (s\<lparr>super_index := super_index_of (meta_index s)\<rparr>)"
  using export_as_sst_exported [OF assms(1-4), of xxh env avg ub ep od sync] assms(5) by (auto simp: exported_def wrote_table_def)

theorem export_load_round_trip_witness:
  "\<exists>s st'. export_as_sst sample_xxh sample_io sample_env ''p'' [sample_entry] 1 10 7 3 False True empty_fs = Inr (s, st')
    \<and> sst_load (sst_file s) (fd_data st' (sst_file s)) = Inr (s\<lparr>super_index := super_index_of (meta_index s)\<rparr>)"
proof -
  obtain s st' where "export_as_sst sample_xxh sample_io sample_env ''p'' [sample_entry] 1 10 7 3 False True empty_fs = Inr (s, st')"
    by (rule sample_export)
  then show ?thesis
    using export_load_round_trip [OF kernel_ok_sample_io _ exportable_sample, of empty_fs "''p''" sample_xxh sample_env 10 7 3 False True s st']
    by (simp add: empty_fs_def)
qed

text \<open>
  C36: Unless a call into the kernel fails, the export of a memtable whose entries fit into pages
  succeeds, and it leaves every existing file as it was. The footer has the numbers it is given, the
  count of distinct keys and the highest sequence number.
\<close>

theorem export_succeeds:
  assumes "kernel_ok io" "io_succeeds io" "map_of (fs_dir st) path = None" "exportable es" "es \<noteq> []"
  shows "\<exists>s st'. export_as_sst xxh io env path es (length es) avg ub ep od sync st = Inr (s, st') \<and> keeps_files st st'
    \<and> sst_upper_bound s = ub \<and> sst_epoch s = ep \<and> sst_size s = of_nat (length (key_runs es))
    \<and> sst_max_seq_nr s = fold (\<lambda>e m. max m (mt_seq e)) (key_heads es) 0"
  using export_as_sst_exported [OF assms(1,3-5), of xxh env avg ub ep od sync] assms(2) by (auto simp: exported_def wrote_table_def intro: adds_file_keeps_files)

theorem export_succeeds_witness:
  "\<exists>s st'. export_as_sst sample_xxh sample_io sample_env ''p'' [sample_entry] 1 10 7 3 False True empty_fs = Inr (s, st')
    \<and> sst_upper_bound s = 7 \<and> sst_epoch s = 3 \<and> sst_max_seq_nr s = 5"
  using export_succeeds [OF kernel_ok_sample_io io_succeeds_sample_io _ exportable_sample, of empty_fs "''p''" sample_xxh sample_env 10 7 3 False True]
  by (auto simp: empty_fs_def sample_entry_def)

end
