(* ===== verification/Flush.thy ===== *)
theory Flush
  imports Sst_Written
begin

text \<open>
  Flushing a memtable, \<^verbatim>\<open>index_ops::flush_memtable\<close> of \<^verbatim>\<open>src/db/index_ops.cc\<close>: the entries are cut
  into one range per partition, each range is written to an SST file of its own by a task on the
  flush executor, and the caller waits on a latch. The order in which the executor completes the
  tasks is the parameter \<open>order\<close>, a rearrangement of the ranges. A caller that would wait for ever
  is the value \<^const>\<open>None\<close>. After a failed task the vectors the other tasks fill are dropped with
  the error, so the model stops there; the latch is counted down by every task in any case.
\<close>

section \<open>Ranges of partitions\<close>

record partition_range =
  partition_id :: nat
  range_entries :: "memtable_entry list"
  range_count :: nat
  sum_key_value_lengths :: nat

abbreviation entry_partition :: "nat \<Rightarrow> memtable_entry \<Rightarrow> nat" where
  "entry_partition P e \<equiv> find_partition_prefix_for_key (mt_key e) P"

definition kv_length :: "memtable_entry \<Rightarrow> nat" where
  "kv_length e = length (mt_key e) + length (mt_value e)"

text \<open>The body of the generator: the range that is open, and what is still to be read.\<close>

fun ranges_from :: "nat \<Rightarrow> partition_range \<Rightarrow> memtable_entry list \<Rightarrow> partition_range list" where
  "ranges_from P r [] = [r]"
| "ranges_from P r (e # es) =
     (let part_id = entry_partition P e
      in if part_id \<noteq> partition_id r
         then r # ranges_from P \<lparr>partition_id = part_id, range_entries = [e], range_count = 1,
                    sum_key_value_lengths = kv_length e\<rparr> es
         else ranges_from P (r\<lparr>range_entries := range_entries r @ [e], range_count := range_count r + 1,
                    sum_key_value_lengths := sum_key_value_lengths r + kv_length e\<rparr>) es)"

definition partition_ranges :: "nat \<Rightarrow> memtable_entry list \<Rightarrow> partition_range list" where
  "partition_ranges num_partition_exponent es =
     (case es of
        [] \<Rightarrow> []
      | e # _ \<Rightarrow>
          (let P = partition_size_of num_partition_exponent
           in ranges_from P \<lparr>partition_id = entry_partition P e, range_entries = [], range_count = 0,
                sum_key_value_lengths = 0\<rparr> es))"

section \<open>Paths\<close>

definition path_join :: "path \<Rightarrow> path \<Rightarrow> path" where
  "path_join p q =
     (if q \<noteq> [] \<and> hd q = CHR ''/'' then q
      else if p = [] \<or> last p = CHR ''/'' then p @ q
      else p @ ''/'' @ q)"

fun decimal :: "nat \<Rightarrow> string" where
  "decimal n = (if n < 10 then [hex_digit n] else decimal (n div 10) @ [hex_digit (n mod 10)])"

declare decimal.simps [simp del]

text \<open>\<^verbatim>\<open>std::format(".{:06}", n)\<close>\<close>

definition iteration_extension :: "nat \<Rightarrow> string" where
  "iteration_extension n = CHR ''.'' # replicate (6 - length (decimal n)) CHR ''0'' @ decimal n"

definition sst_path :: "path \<Rightarrow> nat \<Rightarrow> nat \<Rightarrow> path" where
  "sst_path base_path part_id iteration =
     (let (dir_prefix, file_prefix) = format_prefix (of_nat part_id)
      in path_join (path_join base_path dir_prefix) (with_extension file_prefix (iteration_extension iteration)))"

section \<open>The flush\<close>

definition flush_partition_task ::
    "hash64 \<Rightarrow> io_ops \<Rightarrow> write_env \<Rightarrow> path \<Rightarrow> nat \<Rightarrow> bool \<Rightarrow> bool \<Rightarrow> partition_range
      \<Rightarrow> sst list \<times> fs_state \<Rightarrow> (sst list \<times> fs_state) expected" where
  "flush_partition_task xxh io env base_path flush_iteration use_odirect fdatasync_output r s =
     (case s of (results, st) \<Rightarrow>
        bind_expected
          (export_as_sst xxh io env (sst_path base_path (partition_id r) flush_iteration) (range_entries r) (range_count r)
             (hedge_ceil (sum_key_value_lengths r) (range_count r)) (of_nat (partition_id r)) (of_nat flush_iteration)
             use_odirect fdatasync_output st)
          (\<lambda>(t, st). Inr (results @ [t], st)))"

text \<open>The latch is counted down by each task and once for each missing partition.\<close>

definition latch_after :: "nat \<Rightarrow> nat \<Rightarrow> int" where
  "latch_after max_partitions ranges =
     int max_partitions - int ranges - int (length [ranges..<max_partitions])"

definition flush_memtable ::
    "hash64 \<Rightarrow> io_ops \<Rightarrow> write_env \<Rightarrow> (partition_range list \<Rightarrow> partition_range list) \<Rightarrow> path \<Rightarrow> memtable_entry list
      \<Rightarrow> nat \<Rightarrow> nat \<Rightarrow> bool \<Rightarrow> bool \<Rightarrow> fs_state \<Rightarrow> (sst list \<times> fs_state) expected option" where
  "flush_memtable xxh io env order base_path es num_partition_exponent flush_iteration use_odirect fdatasync_ssts st =
     (if num_partition_exponent > 16
      then Some (Inl (generic_error ''Number of partitions exponent must be less than or equal to 16''))
      else
        (let ranges = partition_ranges num_partition_exponent es
         in if latch_after (2 ^ num_partition_exponent) (length ranges) \<noteq> 0 then None
            else Some
              (case fold_expected (flush_partition_task xxh io env base_path flush_iteration use_odirect fdatasync_ssts)
                      (order ranges) ([], st) of
                 Inl e \<Rightarrow> Inl (generic_error (''Parallel flush failed: '' @ error_msg e))
               | Inr r \<Rightarrow> Inr r)))"

section \<open>The ranges are the partitions\<close>

definition range_ok :: "nat \<Rightarrow> partition_range \<Rightarrow> bool" where
  "range_ok P r \<longleftrightarrow> (\<forall>e \<in> set (range_entries r). entry_partition P e = partition_id r)
     \<and> range_count r = length (range_entries r) \<and> sum_key_value_lengths r = sum_list (map kv_length (range_entries r))"

lemma ranges_from_spec:
  assumes "range_ok P r" "sorted (partition_id r # map (entry_partition P) es)"
    and "range_entries r \<noteq> [] \<or> (\<exists>e es'. es = e # es' \<and> entry_partition P e = partition_id r)"
  shows "concat (map range_entries (ranges_from P r es)) = range_entries r @ es
    \<and> (\<forall>r' \<in> set (ranges_from P r es). range_ok P r' \<and> range_entries r' \<noteq> [] \<and> partition_id r \<le> partition_id r')
    \<and> sorted_wrt (<) (map partition_id (ranges_from P r es))"
  using assms
proof (induction es arbitrary: r)
  case (Cons e es)
  show ?case
  proof (cases "entry_partition P e = partition_id r")
    case True
    let ?r = "r\<lparr>range_entries := range_entries r @ [e], range_count := range_count r + 1,
                    sum_key_value_lengths := sum_key_value_lengths r + kv_length e\<rparr>"
    have "range_ok P ?r" "sorted (partition_id ?r # map (entry_partition P) es)"
      using Cons.prems(1,2) True by (auto simp: range_ok_def)
    from Cons.IH [OF this] show ?thesis using True by (simp add: Let_def)
  next
    case False
    let ?r = "\<lparr>partition_id = entry_partition P e, range_entries = [e], range_count = 1, sum_key_value_lengths = kv_length e\<rparr>"
    have r: "range_entries r \<noteq> []" using Cons.prems(3) False by auto
    have less: "partition_id r < entry_partition P e" using Cons.prems(2) False by auto
    have "range_ok P ?r" "sorted (partition_id ?r # map (entry_partition P) es)"
      using Cons.prems(2) by (auto simp: range_ok_def)
    from Cons.IH [OF this] show ?thesis using False Cons.prems(1) less r by (auto simp: Let_def)
  qed
qed simp

definition long_keys :: "memtable_entry list \<Rightarrow> bool" where
  "long_keys es \<longleftrightarrow> (\<forall>e \<in> set es. 2 \<le> length (mt_key e))"

lemma partition_ranges_spec:
  assumes "skip_sorted es" "long_keys es"
  shows "concat (map range_entries (partition_ranges n es)) = es"
    "\<forall>r \<in> set (partition_ranges n es). range_ok (partition_size_of n) r \<and> range_entries r \<noteq> []"
    "sorted_wrt (<) (map partition_id (partition_ranges n es))"
proof -
  let ?P = "partition_size_of n"
  have "concat (map range_entries (partition_ranges n es)) = es
    \<and> (\<forall>r \<in> set (partition_ranges n es). range_ok ?P r \<and> range_entries r \<noteq> [])
    \<and> sorted_wrt (<) (map partition_id (partition_ranges n es))"
  proof (cases es)
    case (Cons e es')
    have "sorted_wrt (\<lambda>a b. mt_key a \<le> mt_key b) es" using skip_sorted_keys [OF assms(1)] by (simp add: sorted_wrt_map)
    then have "sorted_wrt (\<lambda>a b. entry_partition ?P a \<le> entry_partition ?P b) es"
      by (rule sorted_wrt_mono_rel [rotated])
        (use assms(2) in \<open>simp add: long_keys_def partition_key_mono\<close>)
    then have sorted: "sorted (map (entry_partition ?P) es)" by (simp add: sorted_wrt_map)
    let ?r = "\<lparr>partition_id = entry_partition ?P e, range_entries = [], range_count = 0, sum_key_value_lengths = 0\<rparr>"
    have "range_ok ?P ?r" "sorted (partition_id ?r # map (entry_partition ?P) es)"
      using sorted by (auto simp: range_ok_def Cons)
    from ranges_from_spec [OF this] show ?thesis by (simp add: Cons partition_ranges_def Let_def)
  qed (simp add: partition_ranges_def)
  then show "concat (map range_entries (partition_ranges n es)) = es"
    "\<forall>r \<in> set (partition_ranges n es). range_ok ?P r \<and> range_entries r \<noteq> []"
    "sorted_wrt (<) (map partition_id (partition_ranges n es))" by blast+
qed

lemma range_id_entry:
  assumes "skip_sorted es" "long_keys es" "r \<in> set (partition_ranges n es)"
  obtains e where "e \<in> set es" "partition_id r = entry_partition (partition_size_of n) e"
proof -
  obtain e where e: "e \<in> set (range_entries r)" "partition_id r = entry_partition (partition_size_of n) e"
    using partition_ranges_spec(2) [OF assms(1,2), of n] assms(3) unfolding range_ok_def
    by (metis list.set_intros(1) neq_Nil_conv)
  have "e \<in> set (concat (map range_entries (partition_ranges n es)))" using e(1) assms(3) by auto
  then show ?thesis using that e(2) partition_ranges_spec(1) [OF assms(1,2)] by simp
qed

text \<open>There are never more ranges than the latch allows for.\<close>

lemma length_partition_ranges:
  assumes "n \<le> 16" "skip_sorted es" "long_keys es"
  shows "length (partition_ranges n es) \<le> 2 ^ n"
proof -
  let ?P = "partition_size_of n" and ?ids = "map partition_id (partition_ranges n es)"
  have P: "?P * 2 ^ n = 2 ^ 16" using assms(1) by (simp add: partition_size_of_eq power_add [symmetric])
  have id: "?P dvd Suc i" "i < 2 ^ 16" if "i \<in> set ?ids" for i
    using that range_id_entry [OF assms(2,3)] partition_dvd [OF assms(1)] partition_below [OF assms(1)] by auto metis+
  have "inj_on (\<lambda>i. Suc i div ?P) (set ?ids)"
  proof (rule inj_onI)
    fix i j assume "i \<in> set ?ids" "j \<in> set ?ids" "Suc i div ?P = Suc j div ?P"
    then have "Suc i = Suc j" using id(1) by (metis dvd_div_mult_self)
    then show "i = j" by simp
  qed
  moreover have "(\<lambda>i. Suc i div ?P) ` set ?ids \<subseteq> {1..2 ^ n}"
  proof (rule image_subsetI)
    fix i assume i: "i \<in> set ?ids"
    then obtain q where q: "Suc i = ?P * q" using id(1) by (meson dvdE)
    then have "?P * q \<le> ?P * 2 ^ n" using id(2) [OF i] P by simp
    moreover have pos: "0 < ?P" using assms(1) by simp
    ultimately have "q \<le> 2 ^ n" by simp
    moreover have "0 < q" using q by (cases q) auto
    ultimately show "Suc i div ?P \<in> {1..2 ^ n}" using q pos by simp
  qed
  ultimately have "card (set ?ids) \<le> card {1..(2::nat) ^ n}" by (intro card_inj_on_le) auto
  moreover have "distinct ?ids"
    using partition_ranges_spec(3) [OF assms(2,3)] strict_sorted_iff by blast
  then have "card (set ?ids) = length (partition_ranges n es)" using distinct_card by fastforce
  ultimately show ?thesis by simp
qed

lemma latch_reaches_zero: "m \<le> k \<Longrightarrow> latch_after k m = 0"
  by (simp add: latch_after_def)

lemma hex_digit_no_slash: "d < 16 \<Longrightarrow> hex_digit d \<noteq> CHR ''/''"
  using nth_mem [of d "''0123456789abcdef''"] by (auto simp: hex_digit_def)

lemma hex2_chars: "\<exists>a b. hex2 x = [a, b] \<and> a \<noteq> CHR ''/'' \<and> b \<noteq> CHR ''/''"
proof -
  have "unat x < 256" using unsigned_less [where 'a = nat, of x] by simp
  then show ?thesis by (auto simp: hex2_def hex_digit_no_slash)
qed

lemma sst_path_inj:
  assumes "sst_path base p n = sst_path base q n" "p < 2 ^ 16" "q < 2 ^ 16"
  shows "p = q"
proof -
  define B where "B = (if base = [] \<or> last base = CHR ''/'' then base else base @ ''/'')"
  have "sst_path base p n = B @ fst (format_prefix (of_nat p)) @ ''/'' @ snd (format_prefix (of_nat p)) @ iteration_extension n" for p
  proof -
    let ?x = "le_image 2 (of_nat p :: u16) ! 1" and ?y = "le_image 2 (of_nat p :: u16) ! 0"
    obtain a b where x: "hex2 ?x = [a, b]" "a \<noteq> CHR ''/''" "b \<noteq> CHR ''/''" using hex2_chars by blast
    then show ?thesis by (simp add: sst_path_def format_prefix_def path_join_def with_extension_def Let_def B_def)
  qed
  moreover have "length (fst (format_prefix (of_nat p))) = length (fst (format_prefix (of_nat q)))"
    "length (snd (format_prefix (of_nat p))) = length (snd (format_prefix (of_nat q)))"
    by (simp_all add: format_prefix_def Let_def hex2_def)
  ultimately have "snd (format_prefix (of_nat p)) = snd (format_prefix (of_nat q))" using assms(1) by simp
  then have "(of_nat p :: u16) = of_nat q" by (rule format_prefix_inj)
  then show ?thesis
    using assms(2,3) by (simp add: word_unat_eq_iff unsigned_of_nat take_bit_nat_eq_self)
qed

section \<open>What a flush writes\<close>

definition flushed_range ::
    "hash64 \<Rightarrow> nat \<Rightarrow> fs_state \<Rightarrow> sst \<Rightarrow> partition_range \<Rightarrow> bool" where
  "flushed_range xxh iteration st t r \<longleftrightarrow>
     table_holds xxh (fd_data st) t (key_runs (range_entries r)) \<and> sst_file t \<in> fst ` set (fs_fds st)
     \<and> sst_upper_bound t = of_nat (partition_id r) \<and> sst_epoch t = of_nat iteration
     \<and> sst_max_seq_nr t = fold (\<lambda>e m. max m (mt_seq e)) (key_heads (range_entries r)) 0"

lemma flushed_range_extends:
  "flushed_range xxh n st t r \<Longrightarrow> extends_fs st st' \<Longrightarrow> flushed_range xxh n st' t r"
  unfolding flushed_range_def extends_fs_def using table_holds_cong by blast

definition range_writable :: "path \<Rightarrow> nat \<Rightarrow> fs_state \<Rightarrow> partition_range \<Rightarrow> bool" where
  "range_writable base n st r \<longleftrightarrow> exportable (range_entries r) \<and> range_entries r \<noteq> []
     \<and> range_count r = length (range_entries r) \<and> partition_id r < 2 ^ 16
     \<and> map_of (fs_dir st) (sst_path base (partition_id r) n) = None"

lemma flush_partition_task_written:
  assumes "kernel_ok io" "range_writable base n st r"
  shows "(\<exists>t st'. flush_partition_task xxh io env base n od sync r (ts, st) = Inr (ts @ [t], st')
      \<and> flushed_range xxh n st' t r \<and> adds_file (sst_path base (partition_id r) n) (sst_file t) st st')
    \<or> (\<exists>e. flush_partition_task xxh io env base n od sync r (ts, st) = Inl e) \<and> \<not> io_succeeds io"
proof -
  have w: "exportable (range_entries r)" "range_entries r \<noteq> []" "range_count r = length (range_entries r)"
      "map_of (fs_dir st) (sst_path base (partition_id r) n) = None"
    using assms(2) by (simp_all add: range_writable_def)
  have fds: "sst_file t \<in> fst ` set (fs_fds st')" if "adds_file p (sst_file t) st st'" for t :: sst and p st'
    using adds_file_names(2) [OF that] by simp
  show ?thesis
    using export_as_sst_exported [OF assms(1) w(4,1,2), of xxh env
        "hedge_ceil (sum_key_value_lengths r) (length (range_entries r))" "of_nat (partition_id r)" "of_nat n" od sync]
    by (auto simp: flush_partition_task_def w(3) flushed_range_def exported_def wrote_table_def fds)
qed

lemma range_writable_after:
  assumes "adds_file (sst_path base (partition_id r) n) h st st'" "range_writable base n st r'" "partition_id r < 2 ^ 16"
    "partition_id r' \<noteq> partition_id r"
  shows "range_writable base n st' r'"
  using assms sst_path_inj [of base "partition_id r'" n "partition_id r"]
  by (auto simp: range_writable_def adds_file_names(1) [OF assms(1)])

lemma flush_tasks_written:
  assumes io: "kernel_ok io"
  shows "\<forall>r \<in> set rs. range_writable base n st r \<Longrightarrow> distinct (map partition_id rs) \<Longrightarrow>
    (\<exists>ts' st'. fold_expected (flush_partition_task xxh io env base n od sync) rs (ts, st) = Inr (ts @ ts', st')
      \<and> list_all2 (flushed_range xxh n st') ts' rs \<and> extends_fs st st')
    \<or> (\<exists>e. fold_expected (flush_partition_task xxh io env base n od sync) rs (ts, st) = Inl e) \<and> \<not> io_succeeds io"
proof (induction rs arbitrary: ts st)
  case (Cons r rs)
  have r: "range_writable base n st r" using Cons.prems(1) by simp
  from flush_partition_task_written [OF io r, of xxh env od sync ts] show ?case
  proof (elim disjE exE conjE)
    fix t st1
    assume t: "flush_partition_task xxh io env base n od sync r (ts, st) = Inr (ts @ [t], st1)"
      "flushed_range xxh n st1 t r" "adds_file (sst_path base (partition_id r) n) (sst_file t) st st1"
    have "partition_id r < 2 ^ 16" using r by (simp add: range_writable_def)
    moreover have "partition_id r' \<noteq> partition_id r" if "r' \<in> set rs" for r'
      using Cons.prems(2) imageI [OF that, of partition_id] by auto
    ultimately have "\<forall>r' \<in> set rs. range_writable base n st1 r'"
      using Cons.prems(1) range_writable_after [OF t(3)] by simp
    then consider ts' st' where
        "fold_expected (flush_partition_task xxh io env base n od sync) rs (ts @ [t], st1) = Inr ((ts @ [t]) @ ts', st')"
        "list_all2 (flushed_range xxh n st') ts' rs" "extends_fs st1 st'"
      | e where "fold_expected (flush_partition_task xxh io env base n od sync) rs (ts @ [t], st1) = Inl e" "\<not> io_succeeds io"
      using Cons.IH [of st1 "ts @ [t]"] Cons.prems(2) by auto
    then show ?thesis
    proof cases
      case (1 ts' st')
      then have "list_all2 (flushed_range xxh n st') (t # ts') (r # rs)" "extends_fs st st'"
        using t flushed_range_extends extends_fs_trans [OF adds_file_extends [OF t(3)]] by auto
      then show ?thesis using t(1) 1(1) by (intro disjI1 exI [of _ "t # ts'"] exI [of _ st']) simp
    qed (use t(1) in auto)
  qed auto
qed simp

lemma find_in_ranges:
  assumes "\<forall>r \<in> set rs. range_ok P r" "distinct (map partition_id rs)"
  shows "r \<in> set rs \<Longrightarrow> partition_id r = find_partition_prefix_for_key key P \<Longrightarrow>
      find (\<lambda>e. mt_key e = key) (concat (map range_entries rs)) = find (\<lambda>e. mt_key e = key) (range_entries r)"
    "\<forall>r \<in> set rs. partition_id r \<noteq> find_partition_prefix_for_key key P \<Longrightarrow>
      find (\<lambda>e. mt_key e = key) (concat (map range_entries rs)) = None"
proof -
  have other: "find (\<lambda>e. mt_key e = key) (concat (map range_entries rs)) = None"
    if "\<forall>r \<in> set rs. range_ok P r" "\<forall>r \<in> set rs. partition_id r \<noteq> find_partition_prefix_for_key key P" for rs
    using that by (fastforce simp: find_None_iff range_ok_def)
  then show "\<forall>r \<in> set rs. partition_id r \<noteq> find_partition_prefix_for_key key P \<Longrightarrow>
      find (\<lambda>e. mt_key e = key) (concat (map range_entries rs)) = None" using assms(1) by blast
  assume r: "r \<in> set rs" "partition_id r = find_partition_prefix_for_key key P"
  then obtain xs ys where rs: "rs = xs @ r # ys" by (meson split_list)
  have "partition_id r \<notin> partition_id ` set (xs @ ys)" using assms(2) by (auto simp: rs image_Un)
  then have "\<forall>r' \<in> set (xs @ ys). partition_id r' \<noteq> find_partition_prefix_for_key key P"
    unfolding r(2) by (metis imageI)
  then have "find (\<lambda>e. mt_key e = key) (concat (map range_entries xs)) = None"
      "find (\<lambda>e. mt_key e = key) (concat (map range_entries ys)) = None"
    using other [of xs] other [of ys] assms(1) by (simp_all add: rs)
  then show "find (\<lambda>e. mt_key e = key) (concat (map range_entries rs)) = find (\<lambda>e. mt_key e = key) (range_entries r)"
    by (simp add: rs find_append split: option.split)
qed

lemma partition_range_writable:
  assumes "n \<le> 16" "exportable es" "long_keys es" "\<forall>p < 2 ^ 16. map_of (fs_dir st) (sst_path base p it) = None"
    and r: "r \<in> set (partition_ranges n es)"
  shows "range_writable base it st r"
proof -
  have sorted: "skip_sorted es" using assms(2) by (simp add: exportable_def)
  note spec = partition_ranges_spec [OF sorted assms(3), of n]
  obtain e where "partition_id r = entry_partition (partition_size_of n) e"
    using range_id_entry [OF sorted assms(3) r] by blast
  then have id: "partition_id r < 2 ^ 16" using partition_below [OF assms(1)] by simp
  obtain xs ys where "partition_ranges n es = xs @ r # ys" using split_list [OF r] by blast
  then have es: "es = concat (map range_entries xs) @ range_entries r @ concat (map range_entries ys)"
    using spec(1) by simp
  have "skip_sorted (range_entries r)" using sorted unfolding skip_sorted_def by (subst (asm) es) (simp add: sorted_wrt_append)
  moreover have "set (range_entries r) \<subseteq> set es" "length (range_entries r) \<le> length es"
    by (subst es, force)+
  ultimately have "exportable (range_entries r)" using assms(2) by (auto simp: exportable_def)
  then show ?thesis using spec(2) r id assms(4) by (simp add: range_writable_def range_ok_def)
qed

lemma flush_memtable_written:
  assumes "kernel_ok io" "n \<le> 16" "exportable es" "long_keys es"
    "\<forall>p < 2 ^ 16. map_of (fs_dir st) (sst_path base p it) = None" "\<forall>rs. mset (order rs) = mset rs"
  shows "(\<exists>ts st'. flush_memtable xxh io env order base es n it od sync st = Some (Inr (ts, st'))
      \<and> list_all2 (flushed_range xxh it st') ts (order (partition_ranges n es)) \<and> extends_fs st st')
    \<or> (\<exists>e. flush_memtable xxh io env order base es n it od sync st = Some (Inl e)) \<and> \<not> io_succeeds io"
proof -
  let ?rs = "partition_ranges n es"
  have sorted: "skip_sorted es" using assms(3) by (simp add: exportable_def)
  have latch: "latch_after (2 ^ n) (length ?rs) = 0"
    by (rule latch_reaches_zero) (rule length_partition_ranges [OF assms(2) sorted assms(4)])
  have perm: "mset (order ?rs) = mset ?rs" using assms(6) by blast
  have "\<forall>r \<in> set (order ?rs). range_writable base it st r"
    using partition_range_writable [OF assms(2-5)] mset_eq_setD [OF perm] by simp
  moreover have "distinct (map partition_id ?rs)"
    using partition_ranges_spec(3) [OF sorted assms(4)] strict_sorted_iff by blast
  then have "distinct (map partition_id (order ?rs))"
    using perm by (metis mset_map mset_eq_imp_distinct_iff)
  ultimately show ?thesis
    using flush_tasks_written [OF assms(1), of "order ?rs" base it st xxh env od sync "[]"] assms(2) latch
    by (auto simp: flush_memtable_def Let_def)
qed

text \<open>
  C7: A flushed memtable can be read from its files. After a flush, whatever the order in which the
  tasks of the executor complete, there is at most one table per partition; a lookup of a key in the
  table of its partition gives exactly what the memtable gave, a tombstone included; and where the
  partition has no table the memtable had no entry for the key.
\<close>

theorem flush_lookup:
  assumes "kernel_ok io" "n \<le> 16" "exportable es" "long_keys es"
    "\<forall>p < 2 ^ 16. map_of (fs_dir st) (sst_path base p it) = None" "\<forall>rs. mset (order rs) = mset rs"
    and flush: "flush_memtable xxh io env order base es n it od sync st = Some (Inr (ts, st'))"
    and rd: "reads_files rd (fd_data st')"
  shows "distinct (map sst_upper_bound ts)
    \<and> (\<forall>t \<in> set ts. sst_upper_bound t = of_nat (find_partition_prefix_for_key key (partition_size_of n)) \<longrightarrow>
         lookup_async xxh rd key t =
           (case wrapper_get key es of None \<Rightarrow> Inl (Error [] KEY_NOT_FOUND) | Some v \<Rightarrow> value_from_span v)
         \<and> (wrapper_get key es \<noteq> None \<longrightarrow> probe_filter (xxh key QF_SEED) t))
    \<and> ((\<forall>t \<in> set ts. sst_upper_bound t \<noteq> of_nat (find_partition_prefix_for_key key (partition_size_of n)))
         \<longrightarrow> wrapper_get key es = None)"
proof -
  let ?rs = "partition_ranges n es" and ?P = "partition_size_of n"
  let ?id = "find_partition_prefix_for_key key ?P"
  have sorted: "skip_sorted es" using assms(3) by (simp add: exportable_def)
  note spec = partition_ranges_spec [OF sorted assms(4), of n]
  have ts: "list_all2 (flushed_range xxh it st') ts (order ?rs)"
    using flush_memtable_written [OF assms(1-6), of xxh env od sync] flush by auto
  have perm: "mset (order ?rs) = mset ?rs" using assms(6) by blast
  have dist: "distinct (map partition_id ?rs)" using spec(3) strict_sorted_iff by blast
  have small: "partition_id r < 2 ^ 16" if "r \<in> set ?rs" for r
    using partition_range_writable [OF assms(2-5) that] by (simp add: range_writable_def)
  have inj: "(of_nat i :: u64) = of_nat j \<longleftrightarrow> i = j" if "i < 2 ^ 16" "j < 2 ^ 16" for i j
    using that by (simp add: word_unat_eq_iff unsigned_of_nat take_bit_nat_eq_self)
  have id: "?id < 2 ^ 16" by (rule partition_below [OF assms(2)])
  have ids: "map sst_upper_bound ts = map (\<lambda>r. of_nat (partition_id r)) (order ?rs)"
    using ts by (induction rule: list_all2_induct) (simp_all add: flushed_range_def)
  have ranges: "\<forall>r \<in> set ?rs. range_ok ?P r" using spec(2) by blast
  have get: "wrapper_get key es = map_option mt_value (find (\<lambda>e. mt_key e = key) (concat (map range_entries ?rs)))"
    unfolding spec(1) by (rule wrapper_get_find [OF skip_sorted_keys [OF sorted]])
  have "distinct (map partition_id (order ?rs))" using perm dist by (metis mset_map mset_eq_imp_distinct_iff)
  then have "distinct (map (of_nat :: nat \<Rightarrow> u64) (map partition_id (order ?rs)))"
    unfolding distinct_map [of of_nat] using inj small mset_eq_setD [OF perm] by (auto simp: inj_on_def)
  then have "distinct (map sst_upper_bound ts)" by (simp add: ids comp_def)
  moreover have "lookup_async xxh rd key t =
           (case wrapper_get key es of None \<Rightarrow> Inl (Error [] KEY_NOT_FOUND) | Some v \<Rightarrow> value_from_span v)
         \<and> (wrapper_get key es \<noteq> None \<longrightarrow> probe_filter (xxh key QF_SEED) t)"
    if t: "t \<in> set ts" "sst_upper_bound t = of_nat ?id" for t
  proof -
    obtain r where "r \<in> set (order ?rs)" and flushed: "flushed_range xxh it st' t r"
      using ts t(1) unfolding list_all2_conv_all_nth by (metis in_set_conv_nth)
    then have r: "r \<in> set ?rs" "flushed_range xxh it st' t r" using mset_eq_setD [OF perm] by simp_all
    then have "partition_id r = ?id" using t(2) inj [OF small [OF r(1)] id] by (simp add: flushed_range_def)
    note found = find_in_ranges(1) [OF ranges dist r(1) this]
    have "table_holds xxh (fd_data st') t (key_runs (range_entries r))" using r(2) by (simp add: flushed_range_def)
    from table_holds_lookup [OF this rd, of key] show ?thesis by (simp add: get found map_of_key_runs)
  qed
  moreover have "wrapper_get key es = None" if "\<forall>t \<in> set ts. sst_upper_bound t \<noteq> of_nat ?id"
  proof -
    have "of_nat ?id \<notin> set (map sst_upper_bound ts)" using that by auto
    then have "\<forall>r \<in> set ?rs. partition_id r \<noteq> ?id" unfolding ids set_map mset_eq_setD [OF perm] by (metis imageI)
    then show ?thesis using find_in_ranges(2) [OF ranges dist] by (simp add: get)
  qed
  ultimately show ?thesis by blast
qed

lemma long_keys_sample: "long_keys [sample_entry]"
  by (simp add: long_keys_def sample_entry_def)

lemma sample_ranges:
  "partition_ranges 4 [sample_entry] = [\<lparr>partition_id = 4095, range_entries = [sample_entry], range_count = 1,
     sum_key_value_lengths = kv_length sample_entry\<rparr>]"
  by (simp add: partition_ranges_def sample_entry_def find_partition_prefix_for_key_def unat_extract_prefix partition_size_of_def)

lemma sample_flush:
  obtains t st' where "flush_memtable sample_xxh sample_io sample_env rev ''db'' [sample_entry] 4 3 False True empty_fs = Some (Inr ([t], st'))"
    "sst_upper_bound t = 4095" "sst_epoch t = 3"
proof -
  obtain ts st' where *: "flush_memtable sample_xxh sample_io sample_env rev ''db'' [sample_entry] 4 3 False True empty_fs = Some (Inr (ts, st'))"
      "list_all2 (flushed_range sample_xxh 3 st') ts (rev (partition_ranges 4 [sample_entry]))"
    using flush_memtable_written [OF kernel_ok_sample_io _ exportable_sample, of 4 empty_fs "''db''" 3 rev sample_xxh sample_env False True]
      io_succeeds_sample_io long_keys_sample by (auto simp: empty_fs_def)
  then obtain t where "ts = [t]" "flushed_range sample_xxh 3 st' t (hd (partition_ranges 4 [sample_entry]))"
    by (auto simp: sample_ranges list_all2_Cons2)
  then show ?thesis using that [of t st'] * by (simp add: sample_ranges flushed_range_def)
qed

theorem flush_lookup_witness:
  "\<exists>t st'. flush_memtable sample_xxh sample_io sample_env rev ''db'' [sample_entry] 4 3 False True empty_fs = Some (Inr ([t], st'))
    \<and> lookup_async sample_xxh (\<lambda>f len off. Inr (read_at (fd_data st' f) off len)) [1, 2] t = Inr (In_Place [7])"
proof -
  obtain t st' where t: "flush_memtable sample_xxh sample_io sample_env rev ''db'' [sample_entry] 4 3 False True empty_fs = Some (Inr ([t], st'))"
      "sst_upper_bound t = 4095" by (rule sample_flush)
  have "reads_files (\<lambda>f len off. Inr (read_at (fd_data st' f) off len)) (fd_data st')" by (simp add: reads_files_def)
  moreover have "wrapper_get [1, 2] [sample_entry] = Some (stored_value (In_Place [7]))"
    by (simp add: wrapper_get_def probe_def sample_entry_def memtable_less_def)
  moreover have "find_partition_prefix_for_key [1, 2] (partition_size_of 4) = 4095"
    by (simp add: find_partition_prefix_for_key_def unat_extract_prefix partition_size_of_def)
  ultimately show ?thesis
    using flush_lookup [OF kernel_ok_sample_io _ exportable_sample _ _ _ t(1), of "\<lambda>f len off. Inr (read_at (fd_data st' f) off len)" "[1, 2]"] t long_keys_sample
    by (simp add: empty_fs_def)
qed

text \<open>
  C35: A flush returns. The latch it waits on is counted down exactly as often as it was set up for,
  since the entries never span more ranges than there are partitions; so the wait ends, and unless a
  call into the kernel fails the flush succeeds with one table per range. An exponent above 16 is
  rejected before anything is written.
\<close>

theorem flush_returns:
  assumes "kernel_ok io" "exportable es" "long_keys es"
    "\<forall>p < 2 ^ 16. map_of (fs_dir st) (sst_path base p it) = None" "\<forall>rs. mset (order rs) = mset rs"
  shows "flush_memtable xxh io env order base es n it od sync st \<noteq> None
    \<and> (n \<le> 16 \<and> io_succeeds io \<longrightarrow> (\<exists>ts st'. flush_memtable xxh io env order base es n it od sync st = Some (Inr (ts, st'))
         \<and> length ts = length (partition_ranges n es) \<and> length ts \<le> 2 ^ n \<and> keeps_files st st'))
    \<and> (16 < n \<longrightarrow> flush_memtable xxh io env order base es n it od sync st
         = Some (Inl (generic_error ''Number of partitions exponent must be less than or equal to 16'')))"
proof (cases "n \<le> 16")
  case True
  have "length (partition_ranges n es) \<le> 2 ^ n"
    using length_partition_ranges [OF True _ assms(3)] assms(2) by (simp add: exportable_def)
  moreover have "length (order (partition_ranges n es)) = length (partition_ranges n es)"
    using assms(5) mset_eq_length by blast
  ultimately show ?thesis
    using flush_memtable_written [OF assms(1) True assms(2-5), of xxh env od sync] True
    by (auto simp: extends_fs_def dest: list_all2_lengthD)
qed (simp add: flush_memtable_def)

theorem flush_returns_witness:
  "\<exists>ts st'. flush_memtable sample_xxh sample_io sample_env rev ''db'' [sample_entry] 4 3 False True empty_fs = Some (Inr (ts, st'))
    \<and> length ts = 1"
  using flush_returns [OF kernel_ok_sample_io exportable_sample, of empty_fs "''db''" 3 rev sample_xxh sample_env 4 False True]
    io_succeeds_sample_io long_keys_sample by (auto simp: empty_fs_def sample_ranges)

end
