(* ===== verification/Merge_Output.thy ===== *)
theory Merge_Output
  imports Flush
begin

text \<open>
  The whole of \<^verbatim>\<open>index_ops::k_way_merge_async2\<close>, \<^verbatim>\<open>src/db/merge/merge.cc\<close>: the merge engine over the
  streams of the input tables, with the writer of pages, the filter and the tail of an SST file as
  its client. Sizes and access modes of the inputs, which their file objects record, are the
  parameter \<open>fi\<close>. The inputs are not empty: the code takes the first of them unasked.
\<close>

record merge_config =
  cfg_read_ahead_size :: nat
  cfg_new_index_id :: nat
  cfg_base_path :: path
  cfg_discard_deleted_keys :: bool
  cfg_create_new_with_odirect :: bool
  cfg_fdatasync_output :: bool

record file_info =
  fi_size :: "nat \<Rightarrow> u64"
  fi_direct :: "nat \<Rightarrow> bool"

definition MERGE_MESSAGES :: tail_messages where
  "MERGE_MESSAGES =
     \<lparr>tm_meta = ''Failed to write meta index to file: '', tm_footer = ''Failed to write footer to file: '',
      tm_truncate = ''Failed to truncate merged file to final size: '', tm_sync = ''Failed to fdatasync merged file: ''\<rparr>"

section \<open>The operations\<close>

definition merge_read_ahead :: "nat \<Rightarrow> nat \<Rightarrow> nat" where
  "merge_read_ahead read_ahead_size n =
     (let r = read_ahead_size div n
      in if \<not> is_page_aligned (of_nat r) then unat (ceil_page_align (of_nat r)) else r)"

text \<open>\<^verbatim>\<open>std::ranges::max_element\<close>: the first element that no later one exceeds.\<close>

fun max_element :: "('a \<Rightarrow> 'a \<Rightarrow> bool) \<Rightarrow> 'a \<Rightarrow> 'a list \<Rightarrow> 'a" where
  "max_element lt m [] = m"
| "max_element lt m (x # xs) = max_element lt (if lt m x then x else m) xs"

definition merged_epoch :: "sst list \<Rightarrow> u64" where
  "merged_epoch tables =
     sst_epoch (max_element (\<lambda>lhs rhs. sst_epoch lhs > sst_epoch rhs) (hd tables) (tl tables))"

definition merged_footer :: "sst list \<Rightarrow> sst_footer_builder" where
  "merged_footer tables =
     empty_footer_builder\<lparr>fb_epoch := Some (merged_epoch tables),
       fb_upper_bound := Some (f_upper_bound (footer (hd tables))), fb_index_offset := Some 0,
       fb_max_seq_nr := Some (fold (\<lambda>t acc. max acc (sst_max_seq_nr t)) tables 0)\<rparr>"

definition table_stream :: "file_info \<Rightarrow> nat \<Rightarrow> sst \<Rightarrow> sst_stream" where
  "table_stream fi read_ahead t =
     make_sst_stream
       (make_file_reader2 (sst_file t) (fi_direct fi (sst_file t)) (unat (f_index_offset (footer t)))
         (unat (f_meta_index_offset (footer t))) read_ahead)
       (sst_epoch t)"

text \<open>What is done with an entry that is kept: into the filter, then into the pages.\<close>

definition emit_merged ::
    "hash64 \<Rightarrow> io_ops \<Rightarrow> nat \<Rightarrow> merge_entry \<Rightarrow> qf option \<times> index_writer \<Rightarrow> (qf option \<times> index_writer) expected" where
  "emit_merged xxh io fd e out =
     (case out of (qf, s) \<Rightarrow>
        (let qf = qf_add xxh (me_key e) qf
         in bind_expected
              (iw_put xxh io ''Failed to write merged keys to file: ''
                (''Could not flush item of size: k['' @ decimal (length (me_key e)) @ '']v[0]'')
                fd (me_key e, me_value e) s)
              (\<lambda>s. Inr (qf, s))))"

definition merge_filter :: "sst list \<Rightarrow> qf option" where
  "merge_filter tables =
     (case make_qf_for_key_count (fold (\<lambda>t acc. acc + f_indexed_keys (footer t)) tables 0) of
        Some (Inr q) \<Rightarrow> Some q
      | _ \<Rightarrow> None)"

text \<open>Everything after the output file is open.\<close>

definition merge_into ::
    "nat \<Rightarrow> hash64 \<Rightarrow> io_ops \<Rightarrow> read_fn \<Rightarrow> write_env \<Rightarrow> file_info \<Rightarrow> merge_config \<Rightarrow> sst list \<Rightarrow> nat \<Rightarrow> fs_state
      \<Rightarrow> (sst \<times> fs_state) expected" where
  "merge_into fuel xxh io rd env fi cfg tables fd st =
     (let ra = merge_read_ahead (cfg_read_ahead_size cfg) (length tables)
      in bind_expected
           (k_way_merge fuel heap_pop (sst_stream_ops xxh rd) ra (cfg_discard_deleted_keys cfg) (emit_merged xxh io fd)
             (map (table_stream fi ra) tables)
             (merge_filter tables, \<lparr>iw_buffer = make_merge_write_buffer (ra * 2), iw_meta = ([], []),
                iw_bytes_written = 0, iw_fs = st\<rparr>))
           (\<lambda>(_, _, qf, s).
              bind_expected (iw_finish xxh io ''Failed to write merged keys to file: '' fd s)
                (\<lambda>s. bind_expected
                   (write_sst_tail MERGE_MESSAGES io env (cfg_fdatasync_output cfg) fd (iw_meta s) qf
                     ((merged_footer tables)\<lparr>fb_indexed_kv := Some (of_nat (wb_indexed_kvs (iw_buffer s)))\<rparr>)
                     (iw_bytes_written s) (iw_fs s))
                   (\<lambda>(ft, st). Inr (make_sst fd (fst (iw_meta s)) ft (super_index_of (fst (iw_meta s))) qf, st)))))"

definition k_way_merge_async2 ::
    "nat \<Rightarrow> hash64 \<Rightarrow> io_ops \<Rightarrow> read_fn \<Rightarrow> write_env \<Rightarrow> file_info \<Rightarrow> merge_config \<Rightarrow> sst list \<Rightarrow> fs_state
      \<Rightarrow> (sst \<times> fs_state) expected" where
  "k_way_merge_async2 fuel xxh io rd env fi cfg tables st =
     (let prefix_0 = sst_upper_bound (hd tables)
      in if \<not> list_all (\<lambda>t. sst_upper_bound t = prefix_0) tables
         then Inl (generic_error ''All indices must have the same partition prefix for merging'')
         else
           (let new_path = sst_path (cfg_base_path cfg) (unat prefix_0) (cfg_new_index_id cfg);
                estimated_size = fold (\<lambda>t acc. acc + fi_size fi (sst_file t)) tables 0
            in case from_path_async io new_path read_write_new (cfg_create_new_with_odirect cfg) (Some estimated_size) st of
                 (Inl e, _) \<Rightarrow> Inl (generic_error (''Failed to create file descriptor for merged index at '' @ new_path
                                  @ '': '' @ error_msg e))
               | (Inr f, st) \<Rightarrow> merge_into fuel xxh io rd env fi cfg tables (file_fd f) st))"

section \<open>The least epoch\<close>

lemma max_element_epoch:
  "sst_epoch (max_element (\<lambda>lhs rhs. sst_epoch lhs > sst_epoch rhs) m ts) = fold min (map sst_epoch ts) (sst_epoch m)"
  by (induction ts arbitrary: m) (auto simp: min_def not_less)

lemma merged_epoch_Min: "tables \<noteq> [] \<Longrightarrow> merged_epoch tables = Min (sst_epoch ` set tables)"
  using Min.set_eq_fold [of "sst_epoch (hd tables)" "map sst_epoch (tl tables)"]
  by (cases tables) (simp_all add: merged_epoch_def max_element_epoch)

section \<open>The pairs of a merge\<close>

text \<open>What the merge emits for the contents of the tables, oldest first, as pairs.\<close>

definition merged_pairs :: "bool \<Rightarrow> (bytes \<times> bytes) list list \<Rightarrow> u64 list \<Rightarrow> (bytes \<times> bytes) list" where
  "merged_pairs discard kvsl es =
     map (\<lambda>e. (me_key e, me_value e))
       (filter (\<lambda>e. \<not> (discard \<and> is_tombstone e)) (newest (merge_order (stream_entries kvsl es))))"

definition dead_value :: "bytes \<Rightarrow> bool" where
  "dead_value v \<longleftrightarrow> (case v of [] \<Rightarrow> False | b # _ \<Rightarrow> b = value_type_byte TOMBSTONE)"

lemma is_tombstone_dead: "is_tombstone e = dead_value (me_value e)"
  by (simp add: is_tombstone_def dead_value_def)

lemma newest_spec:
  assumes "distinct es" "\<forall>kvs \<in> set kvsl. sorted_wrt (<) (map fst kvs)"
  shows "sorted_wrt (<) (map me_key (newest (merge_order (stream_entries kvsl es))))"
    "set (newest (merge_order (stream_entries kvsl es))) = {e. is_newest (set (stream_entries kvsl es)) e}"
proof -
  let ?E = "stream_entries kvsl es"
  note order = merge_order_sorted [OF stream_entries_distinct [OF assms]]
  have set: "set (merge_order ?E) = set ?E" using mset_eq_setD [OF order(2)] .
  have "sorted_wrt (<) (map me_key (newest (merge_order ?E))) \<and> set (newest (merge_order ?E)) = {e. is_newest (set ?E) e}"
  proof (cases "merge_order ?E")
    case Nil
    then show ?thesis using set by (auto simp: is_newest_def)
  next
    case (Cons x xs)
    then show ?thesis using runs_spec [of x xs] order(1) by (simp flip: set)
  qed
  then show "sorted_wrt (<) (map me_key (newest (merge_order ?E)))" "set (newest (merge_order ?E)) = {e. is_newest (set ?E) e}"
    by blast+
qed

lemma newest_exists:
  assumes "finite A" "\<exists>y \<in> A. me_key y = k"
  obtains y where "is_newest A y" "me_key y = k"
proof -
  let ?S = "{y \<in> A. me_key y = k}"
  have fin: "finite (me_epoch ` ?S)" using assms(1) by simp
  then have "Max (me_epoch ` ?S) \<in> me_epoch ` ?S" using assms(2) by (intro Max_in) auto
  then obtain y where y: "y \<in> ?S" "me_epoch y = Max (me_epoch ` ?S)" by force
  have "me_epoch z \<le> me_epoch y" if "z \<in> ?S" for z unfolding y(2) using fin that by (intro Max_ge) auto
  then have "is_newest A y" using y(1) by (simp add: is_newest_def)
  then show ?thesis using y(1) that by simp
qed

lemma map_of_newest:
  assumes "length kvsl = length es" "sorted_wrt (<) es" "\<forall>kvs \<in> set kvsl. distinct (map fst kvs)"
  shows "map_of (concat (rev kvsl)) k = Some v \<longleftrightarrow>
    (\<exists>x. is_newest (set (stream_entries kvsl es)) x \<and> me_key x = k \<and> me_value x = v)"
  using assms
proof (induction kvsl es arbitrary: v rule: list_induct2)
  case (Cons kvs kvsl e es)
  let ?A = "set (stream_entries kvsl es)"
  have IH: "map_of (concat (rev kvsl)) k = Some w \<longleftrightarrow> (\<exists>x. is_newest ?A x \<and> me_key x = k \<and> me_value x = w)" for w
    using Cons by simp
  have older: "e < me_epoch x" if "x \<in> ?A" for x
    using stream_entries_epochs [OF that] Cons.prems(1) by auto
  have new: "is_newest (entry_of e ` set kvs \<union> ?A) x \<longleftrightarrow>
      is_newest ?A x \<or> x \<in> entry_of e ` set kvs \<and> (\<forall>y \<in> ?A. me_key y \<noteq> me_key x)" for x
  proof -
    have "\<forall>y \<in> ?A. e \<le> me_epoch y \<and> \<not> me_epoch y \<le> e" using older by force
    then show ?thesis unfolding is_newest_def by auto
  qed
  have split: "map_of (concat (rev (kvs # kvsl))) k = Some v \<longleftrightarrow>
      map_of (concat (rev kvsl)) k = Some v \<or> map_of (concat (rev kvsl)) k = None \<and> map_of kvs k = Some v"
    by (simp add: map_add_Some_iff)
  have set: "set (stream_entries (kvs # kvsl) (e # es)) = entry_of e ` set kvs \<union> ?A" by simp
  show ?case
  proof (cases "\<exists>y \<in> ?A. me_key y = k")
    case True
    obtain y where "is_newest ?A y" "me_key y = k" using newest_exists [OF finite_set True] .
    then have "map_of (concat (rev kvsl)) k = Some (me_value y)" using IH by blast
    moreover have "is_newest (entry_of e ` set kvs \<union> ?A) x \<and> me_key x = k \<longleftrightarrow> is_newest ?A x \<and> me_key x = k" for x
      using new [of x] True by blast
    ultimately show ?thesis unfolding split set using IH [of v] by auto
  next
    case False
    have "map_of (concat (rev kvsl)) k \<noteq> Some w" for w
      unfolding IH using False by (auto simp: is_newest_def)
    then have none: "map_of (concat (rev kvsl)) k = None" by (cases "map_of (concat (rev kvsl)) k") blast+
    have "is_newest (entry_of e ` set kvs \<union> ?A) x \<and> me_key x = k \<and> me_value x = v \<longleftrightarrow>
        x \<in> entry_of e ` set kvs \<and> me_key x = k \<and> me_value x = v" for x
      using new [of x] False by (auto simp: is_newest_def)
    then have "(\<exists>x. is_newest (entry_of e ` set kvs \<union> ?A) x \<and> me_key x = k \<and> me_value x = v) \<longleftrightarrow> (k, v) \<in> set kvs"
      by force
    then show ?thesis unfolding split set using none Cons.prems(2) by simp
  qed
qed (auto simp: is_newest_def)

lemma merged_pairs_lookup:
  assumes "length kvsl = length es" "sorted_wrt (<) es" "\<forall>kvs \<in> set kvsl. sorted_wrt (<) (map fst kvs)"
  shows "map_of (merged_pairs discard kvsl es) k =
    (case map_of (concat (rev kvsl)) k of None \<Rightarrow> None | Some v \<Rightarrow> if discard \<and> dead_value v then None else Some v)"
proof -
  let ?M = "newest (merge_order (stream_entries kvsl es))" and ?A = "set (stream_entries kvsl es)"
  have es: "distinct es" using assms(2) strict_sorted_iff by blast
  note M = newest_spec [OF es assms(3)]
  have "distinct (map me_key ?M)" using M(1) strict_sorted_iff by blast
  then have "distinct (map fst (merged_pairs discard kvsl es))" by (simp add: merged_pairs_def comp_def distinct_map_filter)
  note mem = map_of_eq_Some_iff [OF this, of k]
  have set: "set (merged_pairs discard kvsl es)
      = (\<lambda>e. (me_key e, me_value e)) ` {e. is_newest ?A e \<and> \<not> (discard \<and> dead_value (me_value e))}"
    unfolding merged_pairs_def set_map set_filter M(2) is_tombstone_dead by simp
  have out: "map_of (merged_pairs discard kvsl es) k = Some v \<longleftrightarrow>
      (\<exists>x. is_newest ?A x \<and> me_key x = k \<and> me_value x = v) \<and> \<not> (discard \<and> dead_value v)" for v
    unfolding mem set image_iff prod.inject by auto
  have "\<forall>kvs \<in> set kvsl. distinct (map fst kvs)" using assms(3) strict_sorted_iff by blast
  from map_of_newest [OF assms(1,2) this]
  have out': "map_of (merged_pairs discard kvsl es) k = Some v \<longleftrightarrow>
      map_of (concat (rev kvsl)) k = Some v \<and> \<not> (discard \<and> dead_value v)" for v
    unfolding out by simp
  show ?thesis
  proof (cases "map_of (concat (rev kvsl)) k")
    case None
    then have "map_of (merged_pairs discard kvsl es) k = None" using out' by (metis option.distinct(1) option.exhaust)
    then show ?thesis using None by simp
  next
    case (Some v)
    show ?thesis
    proof (cases "discard \<and> dead_value v")
      case True
      then have "map_of (merged_pairs discard kvsl es) k = None" using out' Some by (metis option.exhaust)
      then show ?thesis using Some True by simp
    qed (use out' [of v] Some in auto)
  qed
qed

lemma stream_entries_pairs: "x \<in> set (stream_entries kvsl es) \<Longrightarrow> (me_key x, me_value x) \<in> set (concat kvsl)"
  by (induction kvsl es rule: stream_entries.induct) auto

lemma length_newest: "length (newest (merge_order (stream_entries kvsl es))) \<le> length (stream_entries kvsl es)"
proof -
  have "length (newest xs) \<le> length xs" for xs
  proof (cases xs)
    case (Cons x xs')
    then show ?thesis using length_runs [of x xs'] by simp
  qed simp
  from this [of "merge_order (stream_entries kvsl es)"] show ?thesis by (simp add: merge_order_def)
qed

lemma length_stream_entries: "length kvsl = length es \<Longrightarrow> length (stream_entries kvsl es) = length (concat kvsl)"
  by (induction kvsl es rule: list_induct2) simp_all

lemma merged_pairs_writable:
  assumes "length kvsl = length es" "distinct es" "\<forall>kvs \<in> set kvsl. sorted_wrt (<) (map fst kvs)" "\<forall>kvs \<in> set kvsl. values_parse kvs"
    "\<forall>kv \<in> set (concat kvsl). page_fits kv" "length (concat kvsl) \<le> 2 ^ 22"
  shows "writable_pairs (merged_pairs discard kvsl es)"
proof -
  let ?M = "newest (merge_order (stream_entries kvsl es))"
  note M = newest_spec [OF assms(2,3)]
  have sub: "set (merged_pairs discard kvsl es) \<subseteq> set (concat kvsl)"
    using stream_entries_pairs unfolding merged_pairs_def set_map set_filter M(2) is_newest_def by blast
  have "sorted_wrt (<) (map me_key (filter P ?M))" for P
    using M(1) by (simp add: sorted_wrt_map sorted_wrt_filter)
  then have "sorted_wrt (<) (map fst (merged_pairs discard kvsl es))" by (simp add: merged_pairs_def comp_def)
  moreover have "length (merged_pairs discard kvsl es) \<le> length ?M" by (simp add: merged_pairs_def)
  then have "length (merged_pairs discard kvsl es) \<le> 2 ^ 22"
    using length_newest [of kvsl es] length_stream_entries [OF assms(1)] assms(6) by linarith
  moreover have "values_parse (concat kvsl)" using assms(4) by (auto simp: values_parse_def)
  then have "values_parse (merged_pairs discard kvsl es)" "\<forall>kv \<in> set (merged_pairs discard kvsl es). page_fits kv"
    using sub assms(5) unfolding values_parse_def by blast+
  ultimately show ?thesis by (simp add: writable_pairs_def)
qed

section \<open>The parts of the merge\<close>

lemma emit_all_rep:
  assumes io: "kernel_ok io" and small: "PAGE_SIZE_IN_BYTES * n \<le> MAX_RW_COUNT"
  shows "iw_rep xxh n fd i st0 s pairs \<Longrightarrow> \<forall>e \<in> set es. page_fits (me_key e, me_value e) \<Longrightarrow>
    (\<exists>s'. fold_expected (emit_merged xxh io fd) es (qf, s) = Inr (fold (\<lambda>e. qf_add xxh (me_key e)) es qf, s')
      \<and> iw_rep xxh n fd i st0 s' (pairs @ map (\<lambda>e. (me_key e, me_value e)) es))
    \<or> (\<exists>e. fold_expected (emit_merged xxh io fd) es (qf, s) = Inl e) \<and> \<not> io_succeeds io"
proof (induction es arbitrary: s pairs qf)
  case (Cons e es)
  have fits: "page_fits (me_key e, me_value e)" "\<forall>e \<in> set es. page_fits (me_key e, me_value e)"
    using Cons.prems(2) by auto
  show ?case
  proof (cases rule: iw_put_rep [OF io Cons.prems(1) small fits(1), where ?m1.0 = "''Failed to write merged keys to file: ''"
        and ?m2.0 = "''Could not flush item of size: k['' @ decimal (length (me_key e)) @ '']v[0]''", case_names written failed])
    case (written s1)
    then show ?thesis
      using Cons.IH [OF written(2) fits(2), of "qf_add xxh (me_key e) qf"] by (simp add: emit_merged_def)
  next
    case (failed err)
    then show ?thesis by (simp add: emit_merged_def)
  qed
qed auto

lemma merge_read_ahead_pages:
  assumes "0 < n" "n \<le> ra" "ra \<le> 2 ^ 29"
  obtains p where "merge_read_ahead ra n = PAGE_SIZE_IN_BYTES * p" "0 < p" "PAGE_SIZE_IN_BYTES * (p * 2) \<le> MAX_RW_COUNT"
proof -
  let ?r = "ra div n"
  have r: "0 < ?r" "?r \<le> 2 ^ 29" using assms by (auto simp: div_greater_zero_iff intro: le_trans [OF div_le_dividend])
  then have small: "?r + PAGE_SIZE_IN_BYTES \<le> 2 ^ 64" by (simp add: PAGE_SIZE_IN_BYTES_def)
  have eq: "fr_read_ahead (make_file_reader2 f d a b ?r) = merge_read_ahead ra n" for f d a b
    by (simp add: make_file_reader2_def merge_read_ahead_def Let_def)
  then obtain p where p: "merge_read_ahead ra n = PAGE_SIZE_IN_BYTES * p" "0 < p"
    using read_ahead_pages [OF r(1) small] by metis
  have "unat (of_nat ?r :: u64) = ?r" using r(2) by (intro unat_of_nat_small) simp
  then have "unat (ceil_page_align (of_nat ?r)) = (?r + 4096 - 1) div 4096 * 4096"
    using unat_round_up [of "of_nat PAGE_SIZE_IN_BYTES" 12 "of_nat ?r"] small by (simp add: ceil_page_align_def PAGE_SIZE_IN_BYTES_def)
  then have "merge_read_ahead ra n \<le> ?r + 4096 - 1"
    by (simp add: merge_read_ahead_def Let_def)
  then have "PAGE_SIZE_IN_BYTES * (p * 2) \<le> MAX_RW_COUNT" using p(1) r(2) by (simp add: PAGE_SIZE_IN_BYTES_def MAX_RW_COUNT_def)
  with p that show ?thesis by blast
qed

lemma table_stream_rep:
  assumes "reads_files rd files" "table_holds xxh files t kvs" "ra = PAGE_SIZE_IN_BYTES * p" "0 < p"
  shows "sst_stream_rep xxh rd files (table_stream fi ra t) kvs"
proof -
  obtain kvss where kvss: "sst_rep xxh files t kvss" "concat kvss = kvs"
      "f_meta_index_offset (footer t) = of_nat (PAGE_SIZE_IN_BYTES * length kvss)"
    using assms(2) by (auto simp: table_holds_def)
  have holds: "sst_holds xxh (files (sst_file t)) kvss" "length (files (sst_file t)) < 2 ^ 64" "f_index_offset (footer t) = 0"
    using kvss(1) by (simp_all add: sst_rep_def)
  then have "PAGE_SIZE_IN_BYTES * length kvss < 2 ^ 64" by (simp add: sst_holds_def)
  then have meta: "unat (f_meta_index_offset (footer t)) = PAGE_SIZE_IN_BYTES * length kvss"
    unfolding kvss(3) by (rule unat_of_nat_small)
  let ?s = "table_stream fi ra t"
  have "buffers_rep xxh (ss_block_reader ?s) (ss_buffers ?s) []"
    by (simp add: buffers_rep_def table_stream_def make_sst_stream_def make_block_buffer_reader_def default_block_decoder_def)
  moreover have "unread xxh files (ss_reader ?s) kvss"
    using holds meta assms(3,4) is_page_aligned_pages [of p]
    by (simp add: unread_def table_stream_def make_sst_stream_def sst_holds_def make_file_reader2_def Let_def) blast
  ultimately show ?thesis
    using sst_stream_repI [OF assms(1), of xxh ?s "[]" kvss] kvss(2) by simp
qed

lemma fold_qf_add_merged:
  "fold (\<lambda>e. qf_add xxh (me_key e)) es (Some q)
    = Some (fold (\<lambda>h f. snd (quotient_filter_insert h f)) (map (\<lambda>e. xxh (me_key e) QF_SEED) es) q)"
  by (induction es arbitrary: q) (simp_all add: qf_add_def)

lemma indexed_keys_sum:
  "list_all2 (table_holds xxh files) tables kvsl \<Longrightarrow>
    fold (\<lambda>t acc. acc + f_indexed_keys (footer t)) tables acc = acc + of_nat (length (concat kvsl))"
  by (induction arbitrary: acc rule: list_all2_induct) (simp_all add: table_holds_def)

lemma table_holds_pairs:
  assumes "table_holds xxh files t kvs"
  shows "sorted_wrt (<) (map fst kvs)" "values_parse kvs" "\<forall>kv \<in> set kvs. page_fits kv"
  using assms by (auto simp: table_holds_def sst_rep_def sst_holds_def)

lemma tables_pairs:
  "list_all2 (table_holds xxh files) tables kvsl \<Longrightarrow>
    \<forall>kvs \<in> set kvsl. sorted_wrt (<) (map fst kvs) \<and> values_parse kvs \<and> (\<forall>kv \<in> set kvs. page_fits kv)"
  by (induction rule: list_all2_induct) (use table_holds_pairs in auto)

definition mergeable :: "hash64 \<Rightarrow> fs_state \<Rightarrow> sst list \<Rightarrow> (bytes \<times> bytes) list list \<Rightarrow> bool" where
  "mergeable xxh st tables kvsl \<longleftrightarrow>
     list_all2 (table_holds xxh (fd_data st)) tables kvsl \<and> distinct (map sst_epoch tables)
     \<and> concat kvsl \<noteq> [] \<and> length (concat kvsl) \<le> 2 ^ 22
     \<and> (\<forall>t \<in> set tables. sst_upper_bound t = sst_upper_bound (hd tables))"

definition merge_config_ok :: "merge_config \<Rightarrow> sst list \<Rightarrow> bool" where
  "merge_config_ok cfg tables \<longleftrightarrow> length tables \<le> cfg_read_ahead_size cfg \<and> cfg_read_ahead_size cfg \<le> 2 ^ 29"

definition merge_path :: "merge_config \<Rightarrow> sst list \<Rightarrow> path" where
  "merge_path cfg tables = sst_path (cfg_base_path cfg) (unat (sst_upper_bound (hd tables))) (cfg_new_index_id cfg)"

text \<open>The result of the engine, before the writer is looked at.\<close>

lemma merge_engine_run:
  assumes rd: "reads_files rd (fd_data st)" and t: "mergeable xxh st tables kvsl"
    and fuel: "length (concat kvsl) \<le> fuel" and ra: "ra = PAGE_SIZE_IN_BYTES * p" "0 < p"
  shows "\<exists>d n. k_way_merge fuel heap_pop (sst_stream_ops xxh rd) ra discard emit (map (table_stream fi ra) tables) out
    = (case fold_expected emit (filter (\<lambda>e. \<not> (discard \<and> is_tombstone e))
               (newest (merge_order (stream_entries kvsl (map sst_epoch tables))))) out of
         Inl e \<Rightarrow> Inl e | Inr out' \<Rightarrow> Inr (d, n, out'))"
proof -
  let ?es = "map sst_epoch tables" and ?srcs = "map (table_stream fi ra) tables"
  have t: "list_all2 (table_holds xxh (fd_data st)) tables kvsl" "distinct ?es" "concat kvsl \<noteq> []"
    using t by (simp_all add: mergeable_def)
  have reps: "list_all2 (sst_stream_rep xxh rd (fd_data st)) ?srcs kvsl"
    using t(1) table_stream_rep [OF rd _ ra] by (simp add: list_all2_map1 list_all2_mono)
  have es: "?es = map (so_epoch (sst_stream_ops xxh rd)) ?srcs"
    by (simp add: sst_stream_ops_def table_stream_def make_sst_stream_def)
  note tables_pairs [OF t(1)]
  then have sorted: "\<forall>r \<in> set kvsl. sorted_wrt (<) (map fst r)" and parse: "\<forall>r \<in> set kvsl. values_parse r" by blast+
  have len: "length kvsl = length ?es" using list_all2_lengthD [OF t(1)] by simp
  have fuel': "length (stream_entries kvsl ?es) \<le> fuel" using fuel by (simp add: length_stream_entries [OF len])
  have pos: "0 < ra" using ra by (simp add: PAGE_SIZE_IN_BYTES_def)
  have "length (merge_order (stream_entries kvsl ?es)) = length (concat kvsl)"
    by (simp add: merge_order_def length_stream_entries [OF len])
  then have "merge_order (stream_entries kvsl ?es) \<noteq> []" using t(3) by auto
  then have "newest (merge_order (stream_entries kvsl ?es)) \<noteq> []"
    by (cases "merge_order (stream_entries kvsl ?es)") simp_all
  then show ?thesis
    using ss.k_way_merge_ok [OF reps es t(2) sorted parse fuel' pos, where discard = discard and emit = emit and out = out]
    by auto
qed

lemma merge_filter_fits:
  assumes "mergeable xxh st tables kvsl"
  obtains q0 where "merge_filter tables = Some q0"
    "\<And>hs. length hs \<le> length (concat kvsl) \<Longrightarrow> (let q = fold (\<lambda>h f. snd (quotient_filter_insert h f)) hs q0
        in qf_paged q \<and> length (data_as_byte_span q) + PAGE_SIZE_IN_BYTES \<le> MAX_RW_COUNT
          \<and> (\<forall>h \<in> set hs. quotient_filter_may_contain q h))"
proof -
  have all: "list_all2 (table_holds xxh (fd_data st)) tables kvsl" "concat kvsl \<noteq> []" "length (concat kvsl) \<le> 2 ^ 22"
    using assms by (simp_all add: mergeable_def)
  have "0 < length (concat kvsl)" using all(2) by (simp only: length_greater_0_conv not_False_eq_True)
  moreover have "length (concat kvsl) \<le> 2 ^ 29" by (rule le_trans [OF all(3)]) simp
  ultimately obtain q0 where "make_qf_for_key_count (of_nat (length (concat kvsl))) = Some (Inr q0)"
    and fits: "\<And>hs. length hs \<le> length (concat kvsl) \<Longrightarrow> (let q = fold (\<lambda>h f. snd (quotient_filter_insert h f)) hs q0
        in qf_paged q \<and> length (data_as_byte_span q) + PAGE_SIZE_IN_BYTES \<le> MAX_RW_COUNT
          \<and> (\<forall>h \<in> set hs. quotient_filter_may_contain q h))"
    using filter_for_keys by metis
  then have "merge_filter tables = Some q0" using indexed_keys_sum [OF all(1), of 0] by (simp add: merge_filter_def)
  then show ?thesis using fits by (rule that)
qed

lemma merge_into_written:
  assumes io: "kernel_ok io" and rd: "reads_files rd (fd_data st)" and t: "mergeable xxh st tables kvsl"
    and cfg: "merge_config_ok cfg tables" and fuel: "length (concat kvsl) \<le> fuel"
    and i: "fresh_inode i st" "fd \<notin> fst ` set (fs_fds st)" "map_of (fs_dir st) path = None"
    and st1: "st1 = set_data i c (st\<lparr>fs_dir := (path, i) # fs_dir st, fs_fds := (fd, i) # fs_fds st, fs_ids := n\<rparr>)"
  defines "out \<equiv> merged_pairs (cfg_discard_deleted_keys cfg) kvsl (map sst_epoch tables)"
  shows "(\<exists>t st'. merge_into fuel xxh io rd env fi cfg tables fd st1 = Inr (t, st') \<and> wrote_table xxh path st out t st'
      \<and> sst_upper_bound t = sst_upper_bound (hd tables) \<and> sst_epoch t = merged_epoch tables
      \<and> sst_max_seq_nr t = fold (\<lambda>t acc. max acc (sst_max_seq_nr t)) tables 0)
    \<or> (\<exists>e. merge_into fuel xxh io rd env fi cfg tables fd st1 = Inl e) \<and> \<not> io_succeeds io"
proof -
  let ?es = "map sst_epoch tables"
  define em where "em = filter (\<lambda>e. \<not> (cfg_discard_deleted_keys cfg \<and> is_tombstone e)) (newest (merge_order (stream_entries kvsl ?es)))"
  have all: "list_all2 (table_holds xxh (fd_data st)) tables kvsl" "distinct ?es" "concat kvsl \<noteq> []" "length (concat kvsl) \<le> 2 ^ 22"
    using t by (simp_all add: mergeable_def)
  have len: "length kvsl = length ?es" using list_all2_lengthD [OF all(1)] by simp
  note pairs = tables_pairs [OF all(1)]
  have out: "writable_pairs out"
    unfolding out_def by (rule merged_pairs_writable [OF len all(2)]) (use pairs all(4) in auto)
  have emitted: "map (\<lambda>e. (me_key e, me_value e)) em = out" by (simp add: out_def merged_pairs_def em_def)
  have "length em \<le> length (newest (merge_order (stream_entries kvsl ?es)))" by (simp add: em_def)
  then have few: "length em \<le> length (concat kvsl)"
    using length_newest [of kvsl ?es] length_stream_entries [OF len] by linarith
  obtain q0 where filter: "merge_filter tables = Some q0"
    and fits: "\<And>hs. length hs \<le> length (concat kvsl) \<Longrightarrow> (let q = fold (\<lambda>h f. snd (quotient_filter_insert h f)) hs q0
        in qf_paged q \<and> length (data_as_byte_span q) + PAGE_SIZE_IN_BYTES \<le> MAX_RW_COUNT
          \<and> (\<forall>h \<in> set hs. quotient_filter_may_contain q h))"
    using merge_filter_fits [OF t] by metis
  define q where "q = fold (\<lambda>h f. snd (quotient_filter_insert h f)) (map (\<lambda>e. xxh (me_key e) QF_SEED) em) q0"
  have q: "qf_paged q" "length (data_as_byte_span q) + PAGE_SIZE_IN_BYTES \<le> MAX_RW_COUNT"
      "\<forall>k \<in> fst ` set out. quotient_filter_may_contain q (xxh k QF_SEED)"
    using fits [of "map (\<lambda>e. xxh (me_key e) QF_SEED) em"] few
    by (simp_all add: q_def Let_def image_image flip: emitted)
  have "tables \<noteq> []" using all(3) list_all2_lengthD [OF all(1)] by auto
  then obtain p where p: "merge_read_ahead (cfg_read_ahead_size cfg) (length tables) = PAGE_SIZE_IN_BYTES * p" "0 < p"
      "PAGE_SIZE_IN_BYTES * (p * 2) \<le> MAX_RW_COUNT"
    using merge_read_ahead_pages [of "length tables" "cfg_read_ahead_size cfg"] cfg by (auto simp: merge_config_ok_def)
  let ?s0 = "\<lparr>iw_buffer = make_merge_write_buffer (PAGE_SIZE_IN_BYTES * (p * 2)), iw_meta = ([], []), iw_bytes_written = 0, iw_fs = st1\<rparr>"
  have fd: "map_of (fs_fds st1) fd = Some i" by (simp add: st1)
  have rep: "iw_rep xxh (p * 2) fd i st1 ?s0 []" using iw_rep_new [of "p * 2" st1 fd i xxh] fd p(2) by simp
  obtain d m where run: "k_way_merge fuel heap_pop (sst_stream_ops xxh rd) (PAGE_SIZE_IN_BYTES * p) (cfg_discard_deleted_keys cfg)
      (emit_merged xxh io fd) (map (table_stream fi (PAGE_SIZE_IN_BYTES * p)) tables) (Some q0, ?s0)
    = (case fold_expected (emit_merged xxh io fd) em (Some q0, ?s0) of Inl e \<Rightarrow> Inl e | Inr out' \<Rightarrow> Inr (d, m, out'))"
    using merge_engine_run [OF rd t fuel refl p(2), where discard = "cfg_discard_deleted_keys cfg" and emit = "emit_merged xxh io fd"
        and fi = fi and out = "(Some q0, ?s0)"] unfolding em_def [symmetric] by (elim exE) (rule that)
  note defs = merge_into_def Let_def p(1) filter mult.assoc run
  have pf: "\<forall>e \<in> set em. page_fits (me_key e, me_value e)"
    using out by (auto simp: writable_pairs_def simp flip: emitted)
  from emit_all_rep [OF io p(3) rep pf, of "Some q0"] show ?thesis
  proof (elim disjE exE conjE)
    fix e assume "fold_expected (emit_merged xxh io fd) em (Some q0, ?s0) = Inl e" "\<not> io_succeeds io"
    then show ?thesis by (simp add: defs)
  next
    fix s' assume emit: "fold_expected (emit_merged xxh io fd) em (Some q0, ?s0)
        = Inr (fold (\<lambda>e. qf_add xxh (me_key e)) em (Some q0), s')"
      and "iw_rep xxh (p * 2) fd i st1 s' ([] @ map (\<lambda>e. (me_key e, me_value e)) em)"
    then have rep': "iw_rep xxh (p * 2) fd i st1 s' out" by (simp add: emitted)
    have qf: "fold (\<lambda>e. qf_add xxh (me_key e)) em (Some q0) = Some q" by (simp add: fold_qf_add_merged q_def)
    show ?thesis
    proof (cases rule: iw_finish_rep [OF io rep' p(3), of "''Failed to write merged keys to file: ''", case_names ok failed])
      case (failed e)
      then show ?thesis using emit by (simp add: defs qf)
    next
      case (ok s kvss)
      note idx = this
      let ?fb = "(merged_footer tables)\<lparr>fb_indexed_kv := Some (of_nat (wb_indexed_kvs (iw_buffer s)))\<rparr>"
      have fb: "builder_complete (meta_builder ?fb (iw_meta s) (iw_bytes_written s))" "fb_index_offset ?fb = Some 0"
          "fb_indexed_kv ?fb = Some (of_nat (length out))"
        by (simp_all add: builder_complete_def meta_builder_def merged_footer_def idx(5))
      show ?thesis
      proof (cases rule: table_written [OF io out i st1 idx(2-4) q fb, where si = "super_index_of (fst (iw_meta s))"
            and tm = MERGE_MESSAGES and env = env and sync = "cfg_fdatasync_output cfg", simplified, case_names ok failed])
        case (failed e)
        then show ?thesis using emit idx(1) by (simp add: defs qf)
      next
        case (ok ft st')
        let ?t = "make_sst fd (fst (iw_meta s)) ft (super_index_of (fst (iw_meta s))) (Some q)"
        have "merge_into fuel xxh io rd env fi cfg tables fd st1 = Inr (?t, st')"
          using emit idx(1) ok(1) by (simp add: defs qf)
        moreover have "sst_upper_bound ?t = sst_upper_bound (hd tables)" "sst_epoch ?t = merged_epoch tables"
            "sst_max_seq_nr ?t = fold (\<lambda>t acc. max acc (sst_max_seq_nr t)) tables 0"
          using ok(2) by (auto simp: sst_max_seq_nr_def sst_upper_bound_def sst_epoch_def make_sst_def merged_footer_def
              build_footer_def tail_builder_def filter_builder_def meta_builder_def Let_def split: if_splits)
        ultimately show ?thesis using ok(3) by blast
      qed
    qed
  qed
qed

lemma k_way_merge_async2_written:
  assumes io: "kernel_ok io" and rd: "reads_files rd (fd_data st)" and t: "mergeable xxh st tables kvsl"
    and cfg: "merge_config_ok cfg tables" and fuel: "length (concat kvsl) \<le> fuel"
    and absent: "map_of (fs_dir st) (merge_path cfg tables) = None"
  defines "out \<equiv> merged_pairs (cfg_discard_deleted_keys cfg) kvsl (map sst_epoch tables)"
  shows "(\<exists>t st'. k_way_merge_async2 fuel xxh io rd env fi cfg tables st = Inr (t, st')
      \<and> wrote_table xxh (merge_path cfg tables) st out t st'
      \<and> sst_upper_bound t = sst_upper_bound (hd tables) \<and> sst_epoch t = merged_epoch tables
      \<and> sst_max_seq_nr t = fold (\<lambda>t acc. max acc (sst_max_seq_nr t)) tables 0)
    \<or> (\<exists>e. k_way_merge_async2 fuel xxh io rd env fi cfg tables st = Inl e) \<and> \<not> io_succeeds io"
proof -
  let ?n = "fold (\<lambda>t acc. acc + fi_size fi (sst_file t)) tables 0"
  have same: "list_all (\<lambda>t. sst_upper_bound t = sst_upper_bound (hd tables)) tables"
    using t by (simp add: mergeable_def list_all_iff)
  obtain r st1 where opened: "from_path_async io (merge_path cfg tables) read_write_new (cfg_create_new_with_odirect cfg) (Some ?n) st = (r, st1)"
    by fastforce
  note defs = k_way_merge_async2_def Let_def same opened [unfolded merge_path_def]
  show ?thesis
  proof (cases r)
    case (Inl e)
    have "\<not> io_succeeds io" by (rule from_path_async_new_succeeds [OF io absent opened [unfolded Inl]])
    then show ?thesis using Inl by (simp add: defs)
  next
    case (Inr f)
    obtain i where i: "fresh_inode i st" "file_fd f \<notin> fst ` set (fs_fds st)" and st1: "st1 = set_data i (replicate (unat ?n) 0)
        (st\<lparr>fs_dir := (merge_path cfg tables, i) # fs_dir st, fs_fds := (file_fd f, i) # fs_fds st, fs_ids := fs_ids st + 1\<rparr>)"
      using from_path_async_new [OF io opened [unfolded Inr]] by blast
    have "k_way_merge_async2 fuel xxh io rd env fi cfg tables st = merge_into fuel xxh io rd env fi cfg tables (file_fd f) st1"
      using Inr by (simp add: defs)
    then show ?thesis using merge_into_written [OF io rd t cfg fuel i absent st1, of env fi] by (simp only: out_def)
  qed
qed

text \<open>
  C2: The merge of SST files as a whole, from the footers of the inputs to the bytes of the output.
  For tables of one partition, the older ones first, a lookup in the output gives what the newest
  input that has the key gave; a tombstone is left out if deleted keys are discarded. The inputs and
  every other file are kept, the output can be loaded again, and it has the least epoch and the
  highest sequence number of the inputs.
\<close>

theorem merge_lookup:
  assumes "kernel_ok io" "reads_files rd (fd_data st)" "mergeable xxh st tables kvsl" "sorted_wrt (<) (map sst_epoch tables)"
    "merge_config_ok cfg tables" "length (concat kvsl) \<le> fuel" "map_of (fs_dir st) (merge_path cfg tables) = None"
    and res: "k_way_merge_async2 fuel xxh io rd env fi cfg tables st = Inr (t, st')" and rd': "reads_files rd' (fd_data st')"
  shows "lookup_async xxh rd' key t =
      (case map_of (concat (rev kvsl)) key of
         None \<Rightarrow> Inl (Error [] KEY_NOT_FOUND)
       | Some v \<Rightarrow> if cfg_discard_deleted_keys cfg \<and> dead_value v then Inl (Error [] KEY_NOT_FOUND) else value_from_span v)
    \<and> extends_fs st st'
    \<and> sst_load (sst_file t) (fd_data st' (sst_file t)) = Inr (t\<lparr>super_index := super_index_of (meta_index t)\<rparr>)
    \<and> sst_epoch t = Min (sst_epoch ` set tables)
    \<and> sst_max_seq_nr t = fold (\<lambda>t acc. max acc (sst_max_seq_nr t)) tables 0"
proof -
  let ?es = "map sst_epoch tables"
  have all: "list_all2 (table_holds xxh (fd_data st)) tables kvsl" "concat kvsl \<noteq> []"
    using assms(3) by (simp_all add: mergeable_def)
  have len: "length kvsl = length ?es" using list_all2_lengthD [OF all(1)] by simp
  have wrote: "wrote_table xxh (merge_path cfg tables) st (merged_pairs (cfg_discard_deleted_keys cfg) kvsl ?es) t st'"
      "sst_epoch t = merged_epoch tables" "sst_max_seq_nr t = fold (\<lambda>t acc. max acc (sst_max_seq_nr t)) tables 0"
    using k_way_merge_async2_written [OF assms(1-3,5-7), of env fi] res by auto
  have table: "table_holds xxh (fd_data st') t (merged_pairs (cfg_discard_deleted_keys cfg) kvsl ?es)"
    using wrote(1) by (simp add: wrote_table_def)
  have "\<forall>kvs \<in> set kvsl. sorted_wrt (<) (map fst kvs)" using tables_pairs [OF all(1)] by blast
  note get = merged_pairs_lookup [OF len assms(4) this, of "cfg_discard_deleted_keys cfg" key]
  have "tables \<noteq> []" using all(2) list_all2_lengthD [OF all(1)] by auto
  then have "sst_epoch t = Min (sst_epoch ` set tables)" by (simp add: wrote(2) merged_epoch_Min)
  then show ?thesis
    using table_holds_lookup(1) [OF table rd', of key] wrote(1,3) adds_file_extends [of "merge_path cfg tables" "sst_file t" st st']
    by (simp add: get wrote_table_def split: option.split)
qed

definition sample_cfg :: merge_config where
  "sample_cfg = \<lparr>cfg_read_ahead_size = 8192, cfg_new_index_id = 9, cfg_base_path = ''db'', cfg_discard_deleted_keys = False,
     cfg_create_new_with_odirect = False, cfg_fdatasync_output = True\<rparr>"

definition sample_newer :: memtable_entry where
  "sample_newer = \<lparr>mt_key = [1, 2], mt_seq = 6, mt_value = stored_value (In_Place [8])\<rparr>"

lemma exportable_newer: "exportable [sample_newer]"
  by (simp add: exportable_def skip_sorted_def sample_newer_def page_fits_def key_ok_def MIN_KEY_LEN_def MAX_KEY_LEN_def
      block_space_def entry_image_def restart_image_def value_image_def unsafe_varint.simps PAGE_SIZE_IN_BYTES_def)

lemma sample_tables:
  obtains t1 t2 st where "mergeable sample_xxh st [t1, t2] [key_runs [sample_entry], key_runs [sample_newer]]"
    "sst_epoch t1 = 3" "sst_epoch t2 = 4" "map_of (fs_dir st) (merge_path sample_cfg [t1, t2]) = None"
proof -
  obtain t1 st1 where t1: "exported sample_xxh ''p'' empty_fs [sample_entry] t1 st1" "sst_upper_bound t1 = 7" "sst_epoch t1 = 3"
    using export_as_sst_exported [OF kernel_ok_sample_io, of empty_fs "''p''" "[sample_entry]" sample_xxh sample_env 10 7 3 False True]
      exportable_sample io_succeeds_sample_io by (auto simp: empty_fs_def)
  have "map_of (fs_dir st1) ''q'' = None"
    using adds_file_names(1) [of "''p''" "sst_file t1" empty_fs st1] t1(1) by (simp add: exported_def wrote_table_def empty_fs_def)
  then obtain t2 st2 where t2: "exported sample_xxh ''q'' st1 [sample_newer] t2 st2" "sst_upper_bound t2 = 7" "sst_epoch t2 = 4"
    using export_as_sst_exported [OF kernel_ok_sample_io, of st1 "''q''" "[sample_newer]" sample_xxh sample_env 10 7 4 False True]
      exportable_newer io_succeeds_sample_io by auto
  have added: "adds_file ''p'' (sst_file t1) empty_fs st1" "adds_file ''q'' (sst_file t2) st1 st2"
    using t1(1) t2(1) by (simp_all add: exported_def wrote_table_def)
  have "sst_file t1 \<in> fst ` set (fs_fds st1)" using adds_file_names(2) [OF added(1)] by simp
  then have "table_holds sample_xxh (fd_data st2) t1 (key_runs [sample_entry])"
    using t1(1) adds_file_data [OF added(2)] table_holds_cong [of sample_xxh "fd_data st1" t1 _ "fd_data st2"]
    by (simp add: exported_def wrote_table_def)
  moreover have "table_holds sample_xxh (fd_data st2) t2 (key_runs [sample_newer])"
    using t2(1) by (simp add: exported_def wrote_table_def)
  ultimately have "mergeable sample_xxh st2 [t1, t2] [key_runs [sample_entry], key_runs [sample_newer]]"
    using t1(2,3) t2(2,3) by (simp add: mergeable_def)
  moreover have "map_of (fs_dir st2) (merge_path sample_cfg [t1, t2]) = None"
    unfolding adds_file_names(1) [OF added(2)] adds_file_names(1) [OF added(1)] merge_path_def sample_cfg_def sst_path_def
    by (auto simp: path_join_def empty_fs_def Let_def format_prefix_def hex2_def)
  ultimately show ?thesis using that t1(3) t2(3) by blast
qed

theorem merge_lookup_witness:
  "\<exists>t1 t2 st t st'. k_way_merge_async2 2 sample_xxh sample_io (\<lambda>f len off. Inr (read_at (fd_data st f) off len)) sample_env
        \<lparr>fi_size = \<lambda>_. 4096, fi_direct = \<lambda>_. False\<rparr> sample_cfg [t1, t2] st = Inr (t, st')
    \<and> sst_epoch t1 = 3 \<and> sst_epoch t2 = 4 \<and> sst_epoch t = 3
    \<and> lookup_async sample_xxh (\<lambda>f len off. Inr (read_at (fd_data st' f) off len)) [1, 2] t = Inr (In_Place [8])"
proof -
  let ?rd = "\<lambda>st f len off. Inr (read_at (fd_data st f) off len)" and ?fi = "\<lparr>fi_size = \<lambda>_. 4096, fi_direct = \<lambda>_. False\<rparr>"
  obtain t1 t2 st where t: "mergeable sample_xxh st [t1, t2] [key_runs [sample_entry], key_runs [sample_newer]]"
      "sst_epoch t1 = 3" "sst_epoch t2 = 4" "map_of (fs_dir st) (merge_path sample_cfg [t1, t2]) = None"
    by (rule sample_tables)
  have rd: "reads_files (?rd st) (fd_data st)" for st by (simp add: reads_files_def)
  have cfg: "merge_config_ok sample_cfg [t1, t2]" by (simp add: merge_config_ok_def sample_cfg_def)
  have fuel: "length (concat [key_runs [sample_entry], key_runs [sample_newer]]) \<le> 2" by simp
  obtain u st' where u: "k_way_merge_async2 2 sample_xxh sample_io (?rd st) sample_env ?fi sample_cfg [t1, t2] st = Inr (u, st')"
    using k_way_merge_async2_written [OF kernel_ok_sample_io rd t(1) cfg fuel t(4), of sample_env ?fi] io_succeeds_sample_io by auto
  have sorted: "sorted_wrt (<) (map sst_epoch [t1, t2])" by (simp add: t)
  show ?thesis
    using merge_lookup [OF kernel_ok_sample_io rd t(1) sorted cfg fuel t(4) u rd [of st'], of "[1, 2]"] u t(2,3)
    by (intro exI [of _ t1] exI [of _ t2] exI [of _ st] exI [of _ u] exI [of _ st'])
      (simp add: sample_newer_def sample_cfg_def)
qed

end
