(* ===== verification/Sst_Manager.thy ===== *)
theory Sst_Manager
  imports Merge_Output
begin

text \<open>
  The manager of the SST files, \<^verbatim>\<open>src/db/sst_manager.h\<close> and \<^verbatim>\<open>src/db/sst_manager.cc\<close>: per partition a
  tree of levels, the oldest table of a level first; new tables enter level 0, a compaction replaces
  tables of a level by one table at the back of the next. A table is shared between the levels and
  the tasks that compact it; it is identified by the handle of its file. The semaphores that order
  the commits of the tasks of one level are explicit, as are the tasks that have been posted and have
  not finished. A round of scheduling and a commit each are one step, as both run under the lock of
  the partition or on the one worker; the merge of a task is a step of its own.
\<close>

section \<open>State\<close>

record manager_config =
  cf_num_partition_exponent :: nat
  cf_max_num_levels :: nat
  cf_min_merge_width :: nat
  cf_max_merge_width :: nat
  cf_compaction_read_ahead_size_bytes :: nat
  cf_use_odirect_for_ssts :: bool
  cf_ssts_in_l0_block_write_threshold :: "nat option"
  cf_partitions_path :: path

record compaction_task =
  ct_can_write :: nat
  ct_next_can_write :: nat
  ct_level :: nat
  ct_inputs :: "sst list"
  ct_discard_deleted_keys :: bool
  ct_output :: "sst option"

record partition_state =
  ps_levels :: "sst list list"
  ps_permissions :: "nat list"
  ps_created :: "bool list"
  ps_levels_seq_num :: nat
  ps_semaphores :: "nat list"
  ps_tasks :: "compaction_task list"

record sst_manager =
  sm_cfg :: manager_config
  sm_flush_iteration :: nat
  sm_sorted_indices :: "(nat \<times> partition_state) list"
  sm_pending_for_backpressure :: int
  sm_total_pending :: int
  sm_compaction_backpressure :: bool
  sm_signals :: "bool list"

definition make_partition_state :: "nat \<Rightarrow> partition_state" where
  "make_partition_state max_num_levels =
     \<lparr>ps_levels = replicate max_num_levels [], ps_permissions = [0..<max_num_levels],
      ps_created = replicate max_num_levels False, ps_levels_seq_num = 0,
      ps_semaphores = replicate max_num_levels 1, ps_tasks = []\<rparr>"

definition partition_ids :: "nat \<Rightarrow> nat list" where
  "partition_ids num_partition_exponent =
     (let num_partitions = 2 ^ num_partition_exponent; partition_size = 2 ^ 16 div num_partitions
      in map (\<lambda>i. ((i + 1) * partition_size + 2 ^ 16 - 1) mod 2 ^ 16) [0..<num_partitions])"

definition make_sst_manager :: "manager_config \<Rightarrow> sst_manager" where
  "make_sst_manager cfg =
     \<lparr>sm_cfg = cfg, sm_flush_iteration = 0,
      sm_sorted_indices = map (\<lambda>pid. (pid, make_partition_state (cf_max_num_levels cfg)))
        (remdups (partition_ids (cf_num_partition_exponent cfg))),
      sm_pending_for_backpressure = 0, sm_total_pending = 0, sm_compaction_backpressure = False, sm_signals = []\<rparr>"

definition update_partition :: "nat \<Rightarrow> (partition_state \<Rightarrow> partition_state) \<Rightarrow> sst_manager \<Rightarrow> sst_manager" where
  "update_partition pid f m =
     m\<lparr>sm_sorted_indices := map (\<lambda>(i, ps). (i, if i = pid then f ps else ps)) (sm_sorted_indices m)\<rparr>"

section \<open>New tables\<close>

definition push_table :: "sst \<Rightarrow> partition_state \<Rightarrow> partition_state" where
  "push_table t ps =
     ps\<lparr>ps_levels := (ps_levels ps)[0 := ps_levels ps ! 0 @ [t]], ps_levels_seq_num := ps_levels_seq_num ps + 1\<rparr>"

text \<open>The result names the partitions whose manifest is to be written.\<close>

definition push_new_ssts_to_l0 :: "sst list \<Rightarrow> sst_manager \<Rightarrow> nat list \<times> sst_manager" where
  "push_new_ssts_to_l0 new_ssts m =
     (remdups (sort (map (\<lambda>t. unat (sst_upper_bound t) mod 2 ^ 16) new_ssts)),
      fold (\<lambda>t. update_partition (unat (sst_upper_bound t) mod 2 ^ 16) (push_table t)) new_ssts m)"

section \<open>Lookup\<close>

definition acquire_partition_snapshot :: "nat \<Rightarrow> sst_manager \<Rightarrow> sst list list expected" where
  "acquire_partition_snapshot pid m =
     (case map_of (sm_sorted_indices m) (pid mod 2 ^ 16) of
        None \<Rightarrow> Inl (Error ''Partition not found in sorted indices'' KEY_NOT_FOUND)
      | Some ps \<Rightarrow> Inr (ps_levels ps))"

fun level_lookup :: "hash64 \<Rightarrow> read_fn \<Rightarrow> (nat \<Rightarrow> path) \<Rightarrow> bytes \<Rightarrow> sst list \<Rightarrow> value_t option expected" where
  "level_lookup xxh rd path_of key [] = Inr None"
| "level_lookup xxh rd path_of key (t # ts) =
     (if \<not> probe_filter (xxh key QF_SEED) t then level_lookup xxh rd path_of key ts
      else case lookup_async xxh rd key t of
        Inr v \<Rightarrow> Inr (Some v)
      | Inl e \<Rightarrow>
          (if error_code e \<noteq> KEY_NOT_FOUND
           then Inl (generic_error (''An error occurred while reading index at path '' @ path_of (sst_file t) @ '': '' @ error_msg e))
           else level_lookup xxh rd path_of key ts))"

fun levels_lookup :: "hash64 \<Rightarrow> read_fn \<Rightarrow> (nat \<Rightarrow> path) \<Rightarrow> bytes \<Rightarrow> sst list list \<Rightarrow> value_t option expected" where
  "levels_lookup xxh rd path_of key [] = Inr None"
| "levels_lookup xxh rd path_of key (level # levels) =
     (case level_lookup xxh rd path_of key (rev level) of
        Inl e \<Rightarrow> Inl e
      | Inr (Some v) \<Rightarrow> Inr (Some v)
      | Inr None \<Rightarrow> levels_lookup xxh rd path_of key levels)"

definition manager_lookup :: "hash64 \<Rightarrow> read_fn \<Rightarrow> (nat \<Rightarrow> path) \<Rightarrow> bytes \<Rightarrow> nat \<Rightarrow> sst_manager \<Rightarrow> value_t expected" where
  "manager_lookup xxh rd path_of key pid m =
     (case acquire_partition_snapshot pid m of
        Inl e \<Rightarrow> Inl e
      | Inr levels \<Rightarrow>
          (case levels_lookup xxh rd path_of key levels of
             Inl e \<Rightarrow> Inl e
           | Inr None \<Rightarrow> Inl (Error ''Key not found'' KEY_NOT_FOUND)
           | Inr (Some v) \<Rightarrow> Inr v))"

section \<open>Choosing tables for a compaction\<close>

text \<open>
  A level with the marks that the choice has made so far, and positions in it: \<open>it\<close> is the iterator
  of the loop, the candidates and the buckets are lists of positions.
\<close>

function skip_non_pickable :: "sst list \<Rightarrow> nat \<Rightarrow> nat" where
  "skip_non_pickable level it =
     (if it < length level \<and> \<not> pickable_for_compaction (level ! it) then skip_non_pickable level (it + 1) else it)"
  by pat_completeness auto
termination
  by (relation "measure (\<lambda>(level, it). length level - it)") auto

declare skip_non_pickable.simps [simp del]

definition mark_in_compaction :: "nat list \<Rightarrow> sst list \<Rightarrow> sst list" where
  "mark_in_compaction candidates level =
     fold (\<lambda>c l. l[c := try_set_compaction_state IN_COMPACTION (l ! c)]) candidates level"

lemma length_mark [simp]: "length (mark_in_compaction cs level) = length level"
  unfolding mark_in_compaction_def by (induction cs arbitrary: level) simp_all

lemma skip_non_pickable_ge: "it \<le> skip_non_pickable level it"
proof (induction level it rule: skip_non_pickable.induct)
  case (1 level it)
  then show ?case using skip_non_pickable.simps [of level it] by (auto split: if_splits)
qed

definition emit_candidates :: "nat \<Rightarrow> nat list \<Rightarrow> sst list \<Rightarrow> nat list list \<Rightarrow> sst list \<times> nat list list" where
  "emit_candidates min_width candidates level out =
     (if length candidates \<ge> min_width then (mark_in_compaction candidates level, out @ [candidates]) else (level, out))"

lemma length_emit [simp]: "length (fst (emit_candidates mn cs level out)) = length level"
  by (simp add: emit_candidates_def)

function bucket_loop ::
    "nat \<Rightarrow> nat \<Rightarrow> sst list \<Rightarrow> nat \<Rightarrow> nat list \<Rightarrow> nat list list \<Rightarrow> sst list \<times> nat list list" where
  "bucket_loop min_width max_width level it candidates out =
     (if it \<ge> length level then (level, out)
      else
        (let taken = pickable_for_compaction (level ! it) \<and> length candidates < max_width;
             candidates = (if taken then candidates @ [it] else candidates)
         in if taken \<and> it + 1 \<noteq> length level then bucket_loop min_width max_width level (it + 1) candidates out
            else
              (let level' = fst (emit_candidates min_width candidates level out);
                   out' = snd (emit_candidates min_width candidates level out);
                   it' = skip_non_pickable level' it
               in if it' \<ge> length level' then (level', out')
                  else bucket_loop min_width max_width level' (it' + 1) [it'] out')))"
  by pat_completeness auto
termination
proof (relation "measure (\<lambda>(mn, mx, level, it, cs, out). length level - it)", goal_cases)
  case (3 mn mx level it cs out taken cs' level' out' it')
  moreover have "it \<le> it'" using 3 skip_non_pickable_ge by simp
  ultimately show ?case by simp
qed auto

declare bucket_loop.simps [simp del]

definition create_buckets_from_level :: "nat \<Rightarrow> nat \<Rightarrow> sst list \<Rightarrow> sst list \<times> nat list list" where
  "create_buckets_from_level min_width max_width level =
     (if length level < min_width then (level, [])
      else
        (let it = skip_non_pickable level 0
         in if it \<ge> length level then (level, []) else bucket_loop min_width max_width level (it + 1) [it] []))"

section \<open>Launching tasks\<close>

text \<open>
  One bucket of a level: a new semaphore without a permit becomes the permission of the level, and
  the task waits for the one it replaces. Deleted keys are discarded only by the first bucket of a
  round, into the lowest level, and only if nothing was ever written there.
\<close>

definition launch_bucket :: "nat \<Rightarrow> nat \<Rightarrow> bool \<Rightarrow> sst list \<Rightarrow> partition_state \<Rightarrow> partition_state" where
  "launch_bucket max_num_levels level first bucket ps =
     (let current_last_level = length (ps_levels ps);
          merge_to_bottommost_level = (level + 1 = current_last_level \<or> level + 1 = max_num_levels - 1);
          next_can_write = length (ps_semaphores ps);
          can_write = ps_permissions ps ! level;
          target_level = min (level + 1) (max_num_levels - 1);
          can_discard_keys = (first \<and> merge_to_bottommost_level
            \<and> (target_level = max_num_levels \<or> \<not> ps_created ps ! target_level))
      in ps\<lparr>ps_semaphores := ps_semaphores ps @ [0],
            ps_permissions := (ps_permissions ps)[level := next_can_write],
            ps_created := (ps_created ps)[target_level := True],
            ps_tasks := ps_tasks ps @
              [\<lparr>ct_can_write = can_write, ct_next_can_write = next_can_write, ct_level = level, ct_inputs = bucket,
                ct_discard_deleted_keys = can_discard_keys, ct_output = None\<rparr>]\<rparr>)"

definition launch_level :: "nat \<Rightarrow> nat \<times> sst list list \<Rightarrow> partition_state \<Rightarrow> partition_state" where
  "launch_level max_num_levels lb ps =
     (case lb of (level, buckets) \<Rightarrow>
        fold (\<lambda>(i, b). launch_bucket max_num_levels level (i = 0) b) (enumerate 0 buckets) ps)"

definition pick_ssts_into_buckets :: "nat \<Rightarrow> nat \<Rightarrow> sst list list \<Rightarrow> sst list list \<times> sst list list list" where
  "pick_ssts_into_buckets min_width max_width levels =
     (let picked = map (create_buckets_from_level min_width max_width) levels
      in (map fst picked, map (\<lambda>(level, bs). map (map ((!) level)) bs) picked))"

definition schedule_partition :: "nat \<Rightarrow> nat \<Rightarrow> nat \<Rightarrow> partition_state \<Rightarrow> partition_state" where
  "schedule_partition max_num_levels min_width max_width ps =
     (case pick_ssts_into_buckets min_width max_width (ps_levels ps) of
        (levels, buckets) \<Rightarrow>
          fold (launch_level max_num_levels) (enumerate 0 buckets) (ps\<lparr>ps_levels := levels\<rparr>))"

text \<open>Back-pressure on the writers: too many tables of level 0 wait for their compaction.\<close>

definition update_pending_compactions_counter :: "int \<Rightarrow> sst_manager \<Rightarrow> sst_manager" where
  "update_pending_compactions_counter delta m =
     (let threshold = (case cf_ssts_in_l0_block_write_threshold (sm_cfg m) of
            None \<Rightarrow> 2 ^ 63 - 1 | Some n \<Rightarrow> int n * 2 ^ cf_num_partition_exponent (sm_cfg m));
          pending = sm_pending_for_backpressure m + delta;
          applied = sm_compaction_backpressure m
      in m\<lparr>sm_pending_for_backpressure := pending,
           sm_compaction_backpressure :=
             (if \<not> applied \<and> pending > threshold then True
              else if applied \<and> pending < threshold then False else applied)\<rparr>)"

definition count_task :: "int \<Rightarrow> compaction_task \<Rightarrow> sst_manager \<Rightarrow> sst_manager" where
  "count_task sign ct m =
     (let n = sign * int (length (ct_inputs ct));
          m = (if ct_level ct = 0 then update_pending_compactions_counter n m else m)
      in m\<lparr>sm_total_pending := sm_total_pending m + n\<rparr>)"

definition schedule_one :: "nat \<Rightarrow> nat \<Rightarrow> nat \<Rightarrow> sst_manager \<Rightarrow> sst_manager" where
  "schedule_one min_width max_width pid m =
     (case map_of (sm_sorted_indices m) pid of
        None \<Rightarrow> m
      | Some ps \<Rightarrow>
          (let ps' = schedule_partition (cf_max_num_levels (sm_cfg m)) min_width max_width ps
           in fold (count_task 1) (drop (length (ps_tasks ps)) (ps_tasks ps')) (update_partition pid (\<lambda>_. ps') m)))"

text \<open>A round over all partitions, in the order the shuffle gives.\<close>

definition schedule_compaction_round :: "(nat list \<Rightarrow> nat list) \<Rightarrow> bool \<Rightarrow> sst_manager \<Rightarrow> sst_manager" where
  "schedule_compaction_round shuffle compact_all m =
     (let min_width = (if compact_all then 2 else cf_min_merge_width (sm_cfg m));
          max_width = (if compact_all then 2 ^ 64 - 1 else cf_max_merge_width (sm_cfg m))
      in fold (schedule_one min_width max_width) (shuffle (map fst (sm_sorted_indices m))) m)"

definition schedule_compaction :: "bool \<Rightarrow> sst_manager \<Rightarrow> sst_manager" where
  "schedule_compaction compact_all m = m\<lparr>sm_signals := sm_signals m @ [compact_all]\<rparr>"

text \<open>The worker takes one signal.\<close>

definition compaction_worker_step :: "(nat list \<Rightarrow> nat list) \<Rightarrow> sst_manager \<Rightarrow> sst_manager" where
  "compaction_worker_step shuffle m =
     (case sm_signals m of
        [] \<Rightarrow> m
      | compact_all # rest \<Rightarrow> schedule_compaction_round shuffle compact_all (m\<lparr>sm_signals := rest\<rparr>))"

section \<open>Running a task\<close>

definition task_merge_config :: "manager_config \<Rightarrow> nat \<Rightarrow> compaction_task \<Rightarrow> merge_config" where
  "task_merge_config cfg new_index_id ct =
     \<lparr>cfg_read_ahead_size = cf_compaction_read_ahead_size_bytes cfg, cfg_new_index_id = new_index_id,
      cfg_base_path = cf_partitions_path cfg, cfg_discard_deleted_keys = ct_discard_deleted_keys ct,
      cfg_create_new_with_odirect = cf_use_odirect_for_ssts cfg, cfg_fdatasync_output = True\<rparr>"

definition merge_task ::
    "nat \<Rightarrow> hash64 \<Rightarrow> io_ops \<Rightarrow> read_fn \<Rightarrow> write_env \<Rightarrow> file_info \<Rightarrow> manager_config \<Rightarrow> nat \<Rightarrow> compaction_task \<Rightarrow> fs_state
      \<Rightarrow> (sst \<times> fs_state) expected" where
  "merge_task fuel xxh io rd env fi cfg new_index_id ct st =
     k_way_merge_async2 fuel xxh io rd env fi (task_merge_config cfg new_index_id ct) (ct_inputs ct) st"

definition remove_nth :: "nat \<Rightarrow> 'a list \<Rightarrow> 'a list" where
  "remove_nth i xs = take i xs @ drop (Suc i) xs"

text \<open>The task has its output and holds a permit: the tree changes under the lock.\<close>

definition can_commit :: "nat \<Rightarrow> partition_state \<Rightarrow> bool" where
  "can_commit i ps \<longleftrightarrow> i < length (ps_tasks ps) \<and> ct_output (ps_tasks ps ! i) \<noteq> None
     \<and> 0 < ps_semaphores ps ! ct_can_write (ps_tasks ps ! i)"

definition commit_levels :: "nat \<Rightarrow> nat \<Rightarrow> sst list \<Rightarrow> sst \<Rightarrow> sst list list \<Rightarrow> sst list list" where
  "commit_levels max_num_levels level inputs output levels =
     (let input_file_ids = map sst_file inputs;
          levels = levels[level := filter (\<lambda>t. sst_file t \<notin> set input_file_ids) (levels ! level)];
          next_level_idx = min (level + 1) (max_num_levels - 1)
      in levels[next_level_idx := levels ! next_level_idx @ [output]])"

definition commit_task :: "nat \<Rightarrow> nat \<Rightarrow> partition_state \<Rightarrow> partition_state" where
  "commit_task max_num_levels i ps =
     (let ct = ps_tasks ps ! i; sems = ps_semaphores ps;
          sems = sems[ct_can_write ct := sems ! ct_can_write ct - 1]
      in ps\<lparr>ps_levels := commit_levels max_num_levels (ct_level ct) (ct_inputs ct) (the (ct_output ct)) (ps_levels ps),
           ps_levels_seq_num := ps_levels_seq_num ps + 1,
           ps_semaphores := sems[ct_next_can_write ct := sems ! ct_next_can_write ct + 1],
           ps_tasks := remove_nth i (ps_tasks ps)\<rparr>)"

text \<open>The merge failed: the inputs stay where they are, in the error state, and no permit is passed on.\<close>

definition fail_task :: "nat \<Rightarrow> partition_state \<Rightarrow> partition_state" where
  "fail_task i ps =
     (let failed = map sst_file (ct_inputs (ps_tasks ps ! i))
      in ps\<lparr>ps_levels := map (map (\<lambda>t. if sst_file t \<in> set failed then try_set_compaction_state COMPACTION_ERROR t else t))
              (ps_levels ps),
           ps_tasks := remove_nth i (ps_tasks ps)\<rparr>)"

definition set_output :: "nat \<Rightarrow> sst \<Rightarrow> partition_state \<Rightarrow> partition_state" where
  "set_output i t ps = ps\<lparr>ps_tasks := (ps_tasks ps)[i := (ps_tasks ps ! i)\<lparr>ct_output := Some t\<rparr>]\<rparr>"

text \<open>The end of a task at the manager: after a commit the worker is signalled; the counters go down in both cases.\<close>

definition complete_task :: "nat \<Rightarrow> nat \<Rightarrow> sst_manager \<Rightarrow> sst_manager" where
  "complete_task pid i m =
     (case map_of (sm_sorted_indices m) pid of
        None \<Rightarrow> m
      | Some ps \<Rightarrow>
          (if can_commit i ps
           then count_task (-1) (ps_tasks ps ! i)
                  (schedule_compaction False (update_partition pid (commit_task (cf_max_num_levels (sm_cfg m)) i) m))
           else m))"

definition abandon_task :: "nat \<Rightarrow> nat \<Rightarrow> sst_manager \<Rightarrow> sst_manager" where
  "abandon_task pid i m =
     (case map_of (sm_sorted_indices m) pid of
        None \<Rightarrow> m
      | Some ps \<Rightarrow> if i < length (ps_tasks ps) then count_task (-1) (ps_tasks ps ! i) (update_partition pid (fail_task i) m) else m)"

definition wait_for_compactions_done :: "sst_manager \<Rightarrow> bool" where
  "wait_for_compactions_done m \<longleftrightarrow> sm_total_pending m = 0"

section \<open>Observation\<close>

definition manager_max_seq_nr :: "sst_manager \<Rightarrow> u64" where
  "manager_max_seq_nr m =
     fold (\<lambda>(_, ps). fold (fold (\<lambda>t r. max r (sst_max_seq_nr t))) (ps_levels ps)) (sm_sorted_indices m) 0"

definition read_amplification_total :: "sst_manager \<Rightarrow> nat" where
  "read_amplification_total m = sum_list (map (\<lambda>(_, ps). length (ps_levels ps)) (sm_sorted_indices m))"

end
