(* ===== verification/Compaction.thy ===== *)
theory Compaction
  imports Sst_Manager
begin

text \<open>
  One partition under flushes and compactions. The operations of the manager on a partition are the
  steps of a relation: a flushed table arrives, a round of scheduling picks tables and posts tasks, a
  task merges its inputs into a new file, commits the result when it holds its permit, or fails. The
  abstract state is a map from keys to live values. The invariant ties the tree of tables, the tasks,
  the semaphores and the files to it, so that in every interleaving a lookup in the tree gives what
  the map holds.
\<close>

section \<open>Which tables are picked\<close>

text \<open>From position \<open>d\<close> on, and only there, the tables of a level are free to be picked.\<close>

definition free_from :: "nat \<Rightarrow> sst list \<Rightarrow> bool" where
  "free_from d level \<longleftrightarrow> d \<le> length level \<and> (\<forall>i < length level. pickable_for_compaction (level ! i) \<longleftrightarrow> d \<le> i)"

lemma skip_non_pickable_free:
  assumes "free_from d level" "it \<le> length level"
  shows "skip_non_pickable level it = max it d"
  using assms
proof (induction level it rule: skip_non_pickable.induct)
  case (1 level it)
  show ?case
  proof (cases "it < length level \<and> \<not> pickable_for_compaction (level ! it)")
    case True
    then have "it < d" using "1.prems" unfolding free_from_def by (metis not_le)
    then show ?thesis using 1 True skip_non_pickable.simps [of level it] by simp
  next
    case False
    then have "d \<le> it" using "1.prems" by (cases "it < length level") (auto simp: free_from_def)
    then show ?thesis using False skip_non_pickable.simps [of level it] by auto
  qed
qed

lemma mark_append: "mark_in_compaction (xs @ ys) level = mark_in_compaction ys (mark_in_compaction xs level)"
  by (simp add: mark_in_compaction_def)

lemma mark_Nil [simp]: "mark_in_compaction [] level = level"
  by (simp add: mark_in_compaction_def)

lemma not_pickable_marked: "\<not> pickable_for_compaction (try_set_compaction_state IN_COMPACTION t)"
  by (cases "compaction_state t")
    (simp_all add: try_set_compaction_state_def set_compaction_state_def pickable_for_compaction_def)

lemma nth_mark:
  assumes "distinct cs" "set cs \<subseteq> {..<length level}" "i < length level"
  shows "mark_in_compaction cs level ! i = (if i \<in> set cs then try_set_compaction_state IN_COMPACTION (level ! i) else level ! i)"
  using assms
proof (induction cs arbitrary: level)
  case (Cons c cs)
  have "mark_in_compaction (c # cs) level = mark_in_compaction cs (level[c := try_set_compaction_state IN_COMPACTION (level ! c)])"
    by (simp add: mark_in_compaction_def)
  then show ?case using Cons by (auto simp: nth_list_update)
qed simp

lemma free_from_mark:
  assumes "free_from d level" "d \<le> e" "e \<le> length level"
  shows "free_from e (mark_in_compaction [d..<e] level)"
proof -
  have "set [d..<e] \<subseteq> {..<length level}" using assms(3) by auto
  then show ?thesis
    using assms nth_mark [of "[d..<e]" level] not_pickable_marked by (auto simp: free_from_def)
qed

lemma bucket_loop_spec:
  assumes "d < it" "it \<le> length level" "free_from d level" "cands = [d..<it]" "it - d \<le> mx" "0 < mn" "mn \<le> mx"
  shows "\<exists>bs e. bucket_loop mn mx level it cands out = (mark_in_compaction [d..<e] level, out @ bs)
    \<and> concat bs = [d..<e] \<and> d \<le> e \<and> e \<le> length level \<and> [] \<notin> set bs"
  using assms
proof (induction mn mx level it cands out arbitrary: d rule: bucket_loop.induct)
  case (1 mn mx level it cands out)
  show ?case
  proof (cases "it < length level")
    case False
    then show ?thesis
      by (intro exI [of _ "[]"] exI [of _ d]) (use 1(3-) in \<open>simp add: bucket_loop.simps\<close>)
  next
    case True
    define taken where "taken = (pickable_for_compaction (level ! it) \<and> length cands < mx)"
    define cs where "cs = (if taken then cands @ [it] else cands)"
    define e where "e = (if taken then it + 1 else it)"
    have "pickable_for_compaction (level ! it)" using 1(3,5) True by (simp add: free_from_def)
    then have taken: "taken \<longleftrightarrow> it - d < mx" using 1(6) by (simp add: taken_def)
    have cs: "cs = [d..<e]" "d < e" "e \<le> length level" "e - d \<le> mx"
      using 1(3,6,7) taken True by (auto simp: cs_def e_def)
    show ?thesis
    proof (cases "taken \<and> it + 1 \<noteq> length level")
      case more: True
      have "bucket_loop mn mx level it cands out = bucket_loop mn mx level (it + 1) cs out"
        using True more unfolding taken_def cs_def by (subst bucket_loop.simps) (simp add: Let_def)
      moreover have "\<exists>bs e'. bucket_loop mn mx level (it + 1) cs out = (mark_in_compaction [d..<e'] level, out @ bs)
          \<and> concat bs = [d..<e'] \<and> d \<le> e' \<and> e' \<le> length level \<and> [] \<notin> set bs"
        using True more cs 1(3-) by (intro "1.IH"(1) [of taken cs]) (auto simp: taken_def cs_def e_def)
      ultimately show ?thesis by simp
    next
      case emit: False
      define level' where "level' = fst (emit_candidates mn cs level out)"
      define out' where "out' = snd (emit_candidates mn cs level out)"
      have len: "length level' = length level" by (simp add: level'_def)
      have run: "bucket_loop mn mx level it cands out = (if skip_non_pickable level' it \<ge> length level' then (level', out')
          else bucket_loop mn mx level' (skip_non_pickable level' it + 1) [skip_non_pickable level' it] out')"
        using True emit unfolding taken_def cs_def level'_def out'_def by (subst bucket_loop.simps) (auto simp: Let_def)
      show ?thesis
      proof (cases "mn \<le> e - d")
        case big: True
        then have lo: "level' = mark_in_compaction [d..<e] level" "out' = out @ [[d..<e]]"
          using cs(1,2) by (simp_all add: level'_def out'_def emit_candidates_def)
        have ne: "[] \<noteq> [d..<e]" using cs(2) by (simp add: upt_conv_Cons)
        have free: "free_from e level'" unfolding lo(1) using free_from_mark 1(5) cs(2,3) by simp
        have skip: "skip_non_pickable level' it = e"
          using skip_non_pickable_free [OF free, of it] True len by (auto simp: e_def max_def)
        show ?thesis
        proof (cases "e < length level")
          case False
          then show ?thesis
            using run skip len lo cs(2,3) ne by (intro exI [of _ "[[d..<e]]"] exI [of _ e]) simp
        next
          case more: True
          have "\<exists>bs e'. bucket_loop mn mx level' (e + 1) [e] out' = (mark_in_compaction [e..<e'] level', out' @ bs)
              \<and> concat bs = [e..<e'] \<and> e \<le> e' \<and> e' \<le> length level' \<and> [] \<notin> set bs"
            using True emit skip more len free 1(8,9)
            by (intro "1.IH"(2) [of taken cs level' out' e]) (auto simp: taken_def cs_def level'_def out'_def)
          then obtain bs e' where rest: "bucket_loop mn mx level' (e + 1) [e] out' = (mark_in_compaction [e..<e'] level', out' @ bs)"
              "concat bs = [e..<e']" "e \<le> e'" "e' \<le> length level'" "[] \<notin> set bs" by blast
          have split: "[d..<e'] = [d..<e] @ [e..<e']" using cs(2) rest(3) upt_add_eq_append [of d e "e' - e"] by simp
          show ?thesis
            using run skip more len rest lo cs(2) split ne
            by (intro exI [of _ "[d..<e] # bs"] exI [of _ e']) (simp add: mark_append)
        qed
      next
        case small: False
        then have lo: "level' = level" "out' = out" using cs(1) by (simp_all add: level'_def out'_def emit_candidates_def)
        have last: "taken" "it + 1 = length level" using small emit taken 1(9) cs(2) by (auto simp: e_def)
        have "skip_non_pickable level it = it"
          using skip_non_pickable_free [OF 1(5), of it] True 1(3) by (simp add: max_def)
        then show ?thesis
          using run lo last True
          by (intro exI [of _ "[]"] exI [of _ d]) (use 1(3,4) in \<open>simp add: bucket_loop.simps [of _ _ _ "Suc it"]\<close>)
      qed
    qed
  qed
qed

lemma create_buckets_spec:
  assumes "free_from d level" "0 < mn" "mn \<le> mx"
  shows "\<exists>bs e. create_buckets_from_level mn mx level = (mark_in_compaction [d..<e] level, bs)
    \<and> concat bs = [d..<e] \<and> d \<le> e \<and> e \<le> length level \<and> [] \<notin> set bs"
proof (cases "length level < mn \<or> length level \<le> d")
  case True
  have "skip_non_pickable level 0 = d" using skip_non_pickable_free [OF assms(1), of 0] by simp
  then have "create_buckets_from_level mn mx level = (level, [])" using True by (auto simp: create_buckets_from_level_def)
  then show ?thesis using assms(1) by (intro exI [of _ "[]"] exI [of _ d]) (simp add: free_from_def)
next
  case False
  have skip: "skip_non_pickable level 0 = d" using skip_non_pickable_free [OF assms(1), of 0] by simp
  then have "create_buckets_from_level mn mx level = bucket_loop mn mx level (d + 1) [d] []"
    using False by (simp add: create_buckets_from_level_def Let_def)
  then show ?thesis using bucket_loop_spec [of d "d + 1" level "[d]" mx mn "[]"] assms False by auto
qed

section \<open>Tables without their progress state\<close>

definition core :: "sst \<Rightarrow> sst" where
  "core t = t\<lparr>compaction_state := PICKABLE_FOR_COMPACTION\<rparr>"

lemma core_simps [simp]:
  "sst_file (core t) = sst_file t" "sst_epoch (core t) = sst_epoch t" "sst_upper_bound (core t) = sst_upper_bound t"
  "sst_max_seq_nr (core t) = sst_max_seq_nr t" "core (core t) = core t"
  by (simp_all add: core_def sst_epoch_def sst_upper_bound_def sst_max_seq_nr_def)

lemma table_holds_core [simp]: "table_holds xxh files (core t) kvs = table_holds xxh files t kvs"
  by (simp add: table_holds_def sst_rep_def core_def super_ok_def probe_filter_def)

lemma core_try_set [simp]: "core (try_set_compaction_state c t) = core t"
  by (simp add: core_def try_set_compaction_state_def set_compaction_state_def)

lemma core_mark: "map core (mark_in_compaction cs level) = map core level"
proof (induction cs arbitrary: level)
  case (Cons c cs)
  have "map core (level[c := try_set_compaction_state IN_COMPACTION (level ! c)]) = map core level"
    by (cases "c < length level") (simp_all add: map_update list_update_same_conv list_update_beyond)
  then show ?case using Cons.IH by (simp add: mark_in_compaction_def)
qed simp

section \<open>Lookup in the tree\<close>

lemma level_lookup_append:
  "level_lookup xxh rd path_of key (xs @ ys) =
    (case level_lookup xxh rd path_of key xs of
       Inl e \<Rightarrow> Inl e | Inr (Some v) \<Rightarrow> Inr (Some v) | Inr None \<Rightarrow> level_lookup xxh rd path_of key ys)"
  by (induction xs) (auto split: sum.split)

lemma levels_lookup_flat:
  "levels_lookup xxh rd path_of key levels = level_lookup xxh rd path_of key (concat (map rev levels))"
  by (induction levels) (auto simp: level_lookup_append split: sum.split option.split)

lemma level_lookup_holds:
  assumes "\<forall>t \<in> set ts. table_holds xxh files t (C (sst_file t))" "reads_files rd files"
  shows "\<exists>r. level_lookup xxh rd path_of key ts = Inr r
    \<and> (case map_of (concat (map (\<lambda>t. C (sst_file t)) ts)) key of
         None \<Rightarrow> r = None | Some v \<Rightarrow> \<exists>w. value_from_span v = Inr w \<and> r = Some w)"
  using assms(1)
proof (induction ts)
  case (Cons t ts)
  have t: "table_holds xxh files t (C (sst_file t))" using Cons.prems by simp
  note lookup = table_holds_lookup [OF t assms(2), of key]
  show ?case
  proof (cases "map_of (C (sst_file t)) key")
    case None
    then have "level_lookup xxh rd path_of key (t # ts) = level_lookup xxh rd path_of key ts" using lookup(1) by simp
    then show ?thesis using Cons None by (simp add: map_add_def)
  next
    case (Some v)
    then have "v \<in> snd ` set (C (sst_file t))" using map_of_SomeD by force
    then obtain w where "value_from_span v = Inr w" using table_holds_pairs(2) [OF t] by (auto simp: values_parse_def)
    then show ?thesis using lookup Some by (simp add: map_add_def)
  qed
qed simp

section \<open>The invariant\<close>

text \<open>
  The history of a level that has not been committed: the buckets that were launched, oldest first,
  each with a mark that says whether its task is still alive or has failed.
\<close>

type_synonym history = "(bool \<times> compaction_task) list"

definition strip :: "compaction_task \<Rightarrow> compaction_task" where
  "strip ct = ct\<lparr>ct_output := None\<rparr>"

lemma strip_simps [simp]:
  "ct_can_write (strip ct) = ct_can_write ct" "ct_next_can_write (strip ct) = ct_next_can_write ct"
  "ct_level (strip ct) = ct_level ct" "ct_inputs (strip ct) = ct_inputs ct"
  "ct_discard_deleted_keys (strip ct) = ct_discard_deleted_keys ct" "strip (ct\<lparr>ct_output := x\<rparr>) = strip ct"
  by (simp_all add: strip_def)

definition chain_sems :: "partition_state \<Rightarrow> nat \<Rightarrow> history \<Rightarrow> nat list" where
  "chain_sems ps l h = map (\<lambda>it. ct_can_write (snd it)) h @ [ps_permissions ps ! l]"

definition chain_ok :: "partition_state \<Rightarrow> nat \<Rightarrow> history \<Rightarrow> bool" where
  "chain_ok ps l h \<longleftrightarrow>
     map snd (filter fst h) = map strip (filter (\<lambda>ct. ct_level ct = l) (ps_tasks ps))
     \<and> (\<forall>it \<in> set h. ct_level (snd it) = l \<and> ct_inputs (snd it) \<noteq> [])
     \<and> map (\<lambda>it. ct_next_can_write (snd it)) h = tl (chain_sems ps l h)
     \<and> map ((!) (ps_semaphores ps)) (chain_sems ps l h) = 1 # replicate (length h) 0"

definition history_inputs :: "history \<Rightarrow> sst list" where
  "history_inputs h = concat (map (\<lambda>it. ct_inputs (snd it)) h)"

definition busy_ok :: "sst list \<Rightarrow> history \<Rightarrow> bool" where
  "busy_ok level h \<longleftrightarrow> free_from (length (history_inputs h)) level
     \<and> map core (take (length (history_inputs h)) level) = map core (history_inputs h)"

definition sems_ok :: "nat \<Rightarrow> partition_state \<Rightarrow> (nat \<Rightarrow> history) \<Rightarrow> bool" where
  "sems_ok L ps H \<longleftrightarrow>
     (\<forall>l < L. distinct (chain_sems ps l (H l)) \<and> set (chain_sems ps l (H l)) \<subseteq> {..<length (ps_semaphores ps)})
     \<and> (\<forall>l < L. \<forall>l' < L. l \<noteq> l' \<longrightarrow> set (chain_sems ps l (H l)) \<inter> set (chain_sems ps l' (H l')) = {})"

definition tasks_ok :: "nat \<Rightarrow> partition_state \<Rightarrow> bool" where
  "tasks_ok L ps \<longleftrightarrow> distinct (map ct_next_can_write (ps_tasks ps))
     \<and> (\<forall>ct \<in> set (ps_tasks ps). ct_level ct + 1 < L \<and> ct_next_can_write ct < length (ps_semaphores ps))"

definition created_ok :: "nat \<Rightarrow> partition_state \<Rightarrow> (nat \<Rightarrow> history) \<Rightarrow> bool" where
  "created_ok L ps H \<longleftrightarrow>
     (\<forall>l. l + 1 < L \<and> \<not> ps_created ps ! (l + 1) \<longrightarrow> ps_levels ps ! (l + 1) = [] \<and> H l = [])
     \<and> (\<forall>l < L. \<forall>j < length (H l). ct_discard_deleted_keys (snd (H l ! j)) \<longrightarrow>
          j = 0 \<and> l + 2 = L \<and> ps_levels ps ! (L - 1) = [])"

definition struct_inv :: "nat \<Rightarrow> partition_state \<Rightarrow> (nat \<Rightarrow> history) \<Rightarrow> bool" where
  "struct_inv L ps H \<longleftrightarrow> 2 \<le> L \<and> length (ps_levels ps) = L \<and> length (ps_permissions ps) = L \<and> length (ps_created ps) = L
     \<and> (\<forall>l < L. chain_ok ps l (H l)) \<and> H (L - 1) = []
     \<and> sems_ok L ps H \<and> tasks_ok L ps \<and> created_ok L ps H"

definition levels_busy :: "nat \<Rightarrow> partition_state \<Rightarrow> (nat \<Rightarrow> history) \<Rightarrow> bool" where
  "levels_busy L ps H \<longleftrightarrow> (\<forall>l < L. busy_ok (ps_levels ps ! l) (H l))"

text \<open>The tables of the tree, the oldest first.\<close>

definition old_to_new :: "partition_state \<Rightarrow> sst list" where
  "old_to_new ps = map core (concat (rev (ps_levels ps)))"

definition table_ok :: "hash64 \<Rightarrow> fs_state \<Rightarrow> u64 \<Rightarrow> (nat \<Rightarrow> (bytes \<times> bytes) list) \<Rightarrow> sst \<Rightarrow> bool" where
  "table_ok xxh st ub C t \<longleftrightarrow> table_holds xxh (fd_data st) t (C (sst_file t)) \<and> sst_file t \<in> fst ` set (fs_fds st)
     \<and> sst_upper_bound t = ub \<and> length (C (sst_file t)) < 2 ^ 64"

definition order_ok :: "hash64 \<Rightarrow> fs_state \<Rightarrow> u64 \<Rightarrow> (nat \<Rightarrow> (bytes \<times> bytes) list) \<Rightarrow> sst list \<Rightarrow> bool" where
  "order_ok xxh st ub C ts \<longleftrightarrow> (\<forall>t \<in> set ts. table_ok xxh st ub C t)
     \<and> sorted_wrt (<) (map sst_epoch ts) \<and> distinct (map sst_file ts)"

definition output_ok ::
    "hash64 \<Rightarrow> fs_state \<Rightarrow> u64 \<Rightarrow> (nat \<Rightarrow> (bytes \<times> bytes) list) \<Rightarrow> sst list \<Rightarrow> compaction_task \<Rightarrow> sst \<Rightarrow> bool" where
  "output_ok xxh st ub C ts ct t \<longleftrightarrow> table_ok xxh st ub C t \<and> pickable_for_compaction t
     \<and> sst_epoch t = Min (sst_epoch ` set (ct_inputs ct)) \<and> sst_file t \<notin> sst_file ` set ts
     \<and> C (sst_file t) = merged_pairs (ct_discard_deleted_keys ct) (map (\<lambda>t. C (sst_file t)) (ct_inputs ct))
          (map sst_epoch (ct_inputs ct))"

definition outputs_ok ::
    "hash64 \<Rightarrow> fs_state \<Rightarrow> u64 \<Rightarrow> (nat \<Rightarrow> (bytes \<times> bytes) list) \<Rightarrow> sst list \<Rightarrow> compaction_task list \<Rightarrow> bool" where
  "outputs_ok xxh st ub C ts cts \<longleftrightarrow>
     (\<forall>ct \<in> set cts. \<forall>t. ct_output ct = Some t \<longrightarrow> output_ok xxh st ub C ts ct t)
     \<and> (\<forall>ct \<in> set cts. \<forall>ct' \<in> set cts. \<forall>t t'. ct_output ct = Some t \<and> ct_output ct' = Some t' \<and> sst_file t = sst_file t'
          \<longrightarrow> ct_next_can_write ct = ct_next_can_write ct')"

definition live_value :: "bytes option \<Rightarrow> bytes option" where
  "live_value r = (case r of None \<Rightarrow> None | Some v \<Rightarrow> if dead_value v then None else Some v)"

definition tree_map :: "(nat \<Rightarrow> (bytes \<times> bytes) list) \<Rightarrow> sst list \<Rightarrow> bytes \<Rightarrow> bytes option" where
  "tree_map C ts k = map_of (concat (map (\<lambda>t. C (sst_file t)) (rev ts))) k"

definition lsm_inv :: "hash64 \<Rightarrow> nat \<Rightarrow> u64 \<Rightarrow> partition_state \<times> fs_state \<times> (bytes \<Rightarrow> bytes option) \<Rightarrow> bool" where
  "lsm_inv xxh L ub s \<longleftrightarrow> (case s of (ps, st, m) \<Rightarrow>
     \<exists>H C. struct_inv L ps H \<and> levels_busy L ps H \<and> order_ok xxh st ub C (old_to_new ps)
       \<and> outputs_ok xxh st ub C (old_to_new ps) (ps_tasks ps)
       \<and> m = (\<lambda>k. live_value (tree_map C (old_to_new ps) k)))"

lemma lsm_inv_lookup:
  assumes "lsm_inv xxh L ub (ps, st, m)" "reads_files rd (fd_data st)"
  shows "\<exists>r. levels_lookup xxh rd path_of key (ps_levels ps) = Inr r
    \<and> (case m key of None \<Rightarrow> r = None \<or> r = Some Tombstone | Some v \<Rightarrow> \<exists>w. value_from_span v = Inr w \<and> r = Some w)"
proof -
  obtain C where inv: "order_ok xxh st ub C (old_to_new ps)" "m = (\<lambda>k. live_value (tree_map C (old_to_new ps) k))"
    using assms(1) by (auto simp: lsm_inv_def)
  let ?ts = "concat (map rev (ps_levels ps))"
  have ts: "map core ?ts = rev (old_to_new ps)" by (simp add: old_to_new_def rev_map rev_concat)
  have "\<forall>t \<in> set ?ts. table_holds xxh (fd_data st) t (C (sst_file t))"
    using inv(1) by (auto simp: order_ok_def old_to_new_def table_ok_def)
  from level_lookup_holds [OF this assms(2), of path_of key]
  obtain r where r: "levels_lookup xxh rd path_of key (ps_levels ps) = Inr r"
      "case map_of (concat (map (\<lambda>t. C (sst_file t)) ?ts)) key of
         None \<Rightarrow> r = None | Some v \<Rightarrow> \<exists>w. value_from_span v = Inr w \<and> r = Some w"
    unfolding levels_lookup_flat by blast
  have "map (\<lambda>t. C (sst_file t)) ?ts = map (\<lambda>t. C (sst_file t)) (map core ?ts)" by simp
  then have map: "map_of (concat (map (\<lambda>t. C (sst_file t)) ?ts)) key = tree_map C (old_to_new ps) key"
    unfolding ts tree_map_def by simp
  have dead: "w = Tombstone" if "dead_value v" "value_from_span v = Inr w" for v w
    using that by (cases v) (auto simp: dead_value_def split: if_splits)
  show ?thesis
    using r dead unfolding map inv(2) live_value_def
    by (cases "tree_map C (old_to_new ps) key") auto
qed

section \<open>The steps\<close>

text \<open>Other activity on the files keeps the open files as they are; names may come and go.\<close>

definition keeps_open :: "fs_state \<Rightarrow> fs_state \<Rightarrow> bool" where
  "keeps_open st st' \<longleftrightarrow> (\<forall>h \<in> fst ` set (fs_fds st). h \<in> fst ` set (fs_fds st') \<and> fd_data st' h = fd_data st h)"

lemma extends_keeps_open: "extends_fs st st' \<Longrightarrow> keeps_open st st'"
  by (simp add: extends_fs_def keeps_open_def)

definition new_table :: "hash64 \<Rightarrow> u64 \<Rightarrow> fs_state \<Rightarrow> fs_state \<Rightarrow> sst \<Rightarrow> (bytes \<times> bytes) list \<Rightarrow> bool" where
  "new_table xxh ub st st' t kvs \<longleftrightarrow> table_holds xxh (fd_data st') t kvs \<and> sst_upper_bound t = ub
     \<and> sst_file t \<in> fst ` set (fs_fds st') \<and> sst_file t \<notin> fst ` set (fs_fds st) \<and> pickable_for_compaction t
     \<and> length kvs < 2 ^ 64"

text \<open>The number of pairs of some tables, by their footers.\<close>

definition tables_size :: "sst list \<Rightarrow> nat" where
  "tables_size ts = sum_list (map (\<lambda>t. unat (sst_size t)) ts)"

definition put_all :: "(bytes \<times> bytes) list \<Rightarrow> (bytes \<Rightarrow> bytes option) \<Rightarrow> bytes \<Rightarrow> bytes option" where
  "put_all kvs m k = (case map_of kvs k of None \<Rightarrow> m k | Some v \<Rightarrow> if dead_value v then None else Some v)"

text \<open>
  The steps of a partition. A table arrives with an epoch above those of the tables that are there,
  because the flushes of a memtable push their tables one after the other. A round of scheduling has
  the widths of the configuration. A merge that ends has the fuel for its pairs, and a read-ahead
  size of at least one byte per input and at most \<open>2 ^ 29\<close>.
\<close>

inductive lsm_step ::
    "hash64 \<Rightarrow> io_ops \<Rightarrow> nat \<Rightarrow> u64 \<Rightarrow> partition_state \<times> fs_state \<times> (bytes \<Rightarrow> bytes option)
      \<Rightarrow> partition_state \<times> fs_state \<times> (bytes \<Rightarrow> bytes option) \<Rightarrow> bool"
  for xxh io L ub where
  Other: "keeps_open st st' \<Longrightarrow> lsm_step xxh io L ub (ps, st, m) (ps, st', m)"
| Arrive: "keeps_open st st' \<Longrightarrow> new_table xxh ub st st' t kvs \<Longrightarrow>
    \<forall>s \<in> set (concat (ps_levels ps)). sst_epoch s < sst_epoch t \<Longrightarrow>
    lsm_step xxh io L ub (ps, st, m) (push_table t ps, st', put_all kvs m)"
| Schedule: "0 < mn \<Longrightarrow> mn \<le> mx \<Longrightarrow>
    lsm_step xxh io L ub (ps, st, m) (schedule_partition L mn mx ps, st, m)"
| Merge: "i < length (ps_tasks ps) \<Longrightarrow> ct = ps_tasks ps ! i \<Longrightarrow> ct_output ct = None \<Longrightarrow> reads_files rd (fd_data st) \<Longrightarrow>
    tables_size (ct_inputs ct) \<le> fuel \<Longrightarrow> merge_config_ok (task_merge_config cfg n ct) (ct_inputs ct) \<Longrightarrow>
    merge_task fuel xxh io rd env fi cfg n ct st = Inr (t, st') \<Longrightarrow>
    lsm_step xxh io L ub (ps, st, m) (set_output i t ps, st', m)"
| Commit: "can_commit i ps \<Longrightarrow> lsm_step xxh io L ub (ps, st, m) (commit_task L i ps, st, m)"
| Fail: "i < length (ps_tasks ps) \<Longrightarrow> ct_output (ps_tasks ps ! i) = None \<Longrightarrow>
    lsm_step xxh io L ub (ps, st, m) (fail_task i ps, st, m)"

definition lsm_init :: "nat \<Rightarrow> fs_state \<Rightarrow> partition_state \<times> fs_state \<times> (bytes \<Rightarrow> bytes option)" where
  "lsm_init L st = (make_partition_state L, st, \<lambda>_. None)"

text \<open>
  The limits within which the tree is shown to be right: no table of the lowest level is merged, and
  the inputs of a merge that ends have between 1 and \<open>2 ^ 22\<close> pairs, for which the filter is built.
  The code has neither limit.
\<close>

definition lsm_limits :: "nat \<Rightarrow> partition_state \<times> fs_state \<times> (bytes \<Rightarrow> bytes option) \<Rightarrow> bool" where
  "lsm_limits L s \<longleftrightarrow> (\<forall>ct \<in> set (ps_tasks (fst s)). ct_level ct + 1 < L
     \<and> (ct_output ct \<noteq> None \<longrightarrow> 0 < tables_size (ct_inputs ct) \<and> tables_size (ct_inputs ct) \<le> 2 ^ 22))"

definition lsm_reachable ::
    "hash64 \<Rightarrow> io_ops \<Rightarrow> nat \<Rightarrow> u64 \<Rightarrow> fs_state \<Rightarrow> partition_state \<times> fs_state \<times> (bytes \<Rightarrow> bytes option) \<Rightarrow> bool" where
  "lsm_reachable xxh io L ub st s \<longleftrightarrow> (\<lambda>s s'. lsm_step xxh io L ub s s' \<and> lsm_limits L s')\<^sup>*\<^sup>* (lsm_init L st) s"

section \<open>The steps keep the invariant\<close>

lemma lsm_inv_init: "2 \<le> L \<Longrightarrow> lsm_inv xxh L ub (lsm_init L st)"
proof -
  assume L: "2 \<le> L"
  let ?ps = "make_partition_state L" and ?H = "\<lambda>_. [] :: history"
  have struct: "struct_inv L ?ps ?H"
    using L by (simp add: struct_inv_def make_partition_state_def chain_ok_def chain_sems_def sems_ok_def tasks_ok_def created_ok_def)
  have "levels_busy L ?ps ?H"
    by (simp add: levels_busy_def busy_ok_def make_partition_state_def history_inputs_def free_from_def)
  moreover have "concat (rev (replicate L [])) = ([] :: sst list)" by (induction L) simp_all
  then have "old_to_new ?ps = []" by (simp add: old_to_new_def make_partition_state_def)
  ultimately show ?thesis
    using struct unfolding lsm_inv_def lsm_init_def
    by (auto simp: order_ok_def outputs_ok_def make_partition_state_def tree_map_def live_value_def
        intro!: exI [of _ ?H])
qed

lemma table_ok_keeps: "keeps_open st st' \<Longrightarrow> table_ok xxh st ub C t \<Longrightarrow> table_ok xxh st' ub C t"
  unfolding table_ok_def keeps_open_def using table_holds_cong by metis

lemma order_ok_keeps: "keeps_open st st' \<Longrightarrow> order_ok xxh st ub C ts \<Longrightarrow> order_ok xxh st' ub C ts"
  using table_ok_keeps by (auto simp: order_ok_def)

lemma outputs_ok_keeps: "keeps_open st st' \<Longrightarrow> outputs_ok xxh st ub C ts cts \<Longrightarrow> outputs_ok xxh st' ub C ts cts"
  using table_ok_keeps unfolding outputs_ok_def output_ok_def by blast

lemma inv_files: "keeps_open st st' \<Longrightarrow> lsm_inv xxh L ub (ps, st, m) \<Longrightarrow> lsm_inv xxh L ub (ps, st', m)"
  using order_ok_keeps outputs_ok_keeps unfolding lsm_inv_def prod.case by blast

lemma task_in_history:
  assumes "struct_inv L ps H" "ct \<in> set (ps_tasks ps)"
  shows "(True, strip ct) \<in> set (H (ct_level ct))" "ct_level ct + 1 < L"
proof -
  show "ct_level ct + 1 < L" using assms by (auto simp: struct_inv_def tasks_ok_def)
  then have "chain_ok ps (ct_level ct) (H (ct_level ct))" using assms(1) by (simp add: struct_inv_def)
  then have "strip ct \<in> set (map snd (filter fst (H (ct_level ct))))" using assms(2) by (simp add: chain_ok_def)
  then show "(True, strip ct) \<in> set (H (ct_level ct))" by auto
qed

lemma level_in_order: "l < length (ps_levels ps) \<Longrightarrow> t \<in> set (ps_levels ps ! l) \<Longrightarrow> core t \<in> set (old_to_new ps)"
  using nth_mem by (fastforce simp: old_to_new_def)

lemma history_in_tree:
  assumes "busy_ok level h" "it \<in> set h" "t \<in> set (ct_inputs (snd it))"
  shows "core t \<in> core ` set level"
proof -
  have "core t \<in> core ` set (history_inputs h)" using assms(2,3) by (auto simp: history_inputs_def)
  also have "\<dots> = core ` set (take (length (history_inputs h)) level)" using assms(1) by (metis busy_ok_def image_set)
  also have "\<dots> \<subseteq> core ` set level" using set_take_subset by fast
  finally show ?thesis .
qed

lemma task_inputs_in_order:
  assumes "struct_inv L ps H" "levels_busy L ps H" "ct \<in> set (ps_tasks ps)" "t \<in> set (ct_inputs ct)"
  shows "core t \<in> set (old_to_new ps)"
proof -
  note h = task_in_history [OF assms(1,3)]
  have "busy_ok (ps_levels ps ! ct_level ct) (H (ct_level ct))" using assms(2) h(2) by (simp add: levels_busy_def)
  from history_in_tree [OF this h(1)] assms(4) obtain t' where "t' \<in> set (ps_levels ps ! ct_level ct)" "core t = core t'" by auto
  moreover have "length (ps_levels ps) = L" using assms(1) by (simp add: struct_inv_def)
  ultimately show ?thesis using level_in_order [of "ct_level ct" ps t'] h(2) by simp
qed

subsection \<open>A new table\<close>

lemma old_to_new_push:
  assumes "ps_levels ps \<noteq> []"
  shows "old_to_new (push_table t ps) = old_to_new ps @ [core t]"
  using assms by (cases "ps_levels ps") (simp_all add: old_to_new_def push_table_def)

lemma struct_inv_levels:
  assumes "struct_inv L ps H" "length levels = L" "\<And>l. 0 < l \<Longrightarrow> l < L \<Longrightarrow> ps_levels ps ! l = [] \<Longrightarrow> levels ! l = []"
  shows "struct_inv L (ps\<lparr>ps_levels := levels, ps_levels_seq_num := n\<rparr>) H"
  using assms(1) assms(2) assms(3)
  by (simp add: struct_inv_def chain_ok_def chain_sems_def sems_ok_def tasks_ok_def created_ok_def)

lemma table_ok_update:
  assumes "table_ok xxh st ub C t" "sst_file t \<noteq> f"
  shows "table_ok xxh st ub (C(f := kvs)) t"
  using assms by (simp add: table_ok_def)

lemma output_ok_update:
  assumes "output_ok xxh st ub C ts ct t" "sst_file t \<noteq> f" "\<forall>t \<in> set (ct_inputs ct). sst_file t \<noteq> f"
    "\<forall>t' \<in> set ts'. t' \<in> set ts \<or> sst_file t' = f"
  shows "output_ok xxh st ub (C(f := kvs)) ts' ct t"
proof -
  have inputs: "map (\<lambda>t. (C(f := kvs)) (sst_file t)) (ct_inputs ct) = map (\<lambda>t. C (sst_file t)) (ct_inputs ct)" using assms(3) by simp
  have own: "(C(f := kvs)) (sst_file t) = C (sst_file t)" using assms(2) by simp
  have "sst_file t \<notin> sst_file ` set ts'" using assms(1,2,4) by (auto simp: output_ok_def)
  then show ?thesis using assms(1) unfolding output_ok_def table_ok_def own inputs by blast
qed

lemma tree_map_snoc:
  "tree_map C (ts @ [t]) k = (case map_of (C (sst_file t)) k of None \<Rightarrow> tree_map C ts k | Some v \<Rightarrow> Some v)"
  by (simp add: tree_map_def map_add_def split: option.split)

lemma tree_map_update: "f \<notin> sst_file ` set ts \<Longrightarrow> tree_map (C(f := kvs)) ts k = tree_map C ts k"
proof -
  assume "f \<notin> sst_file ` set ts"
  then have "map (\<lambda>t. (C(f := kvs)) (sst_file t)) (rev ts) = map (\<lambda>t. C (sst_file t)) (rev ts)" by (intro map_cong) auto
  then show ?thesis unfolding tree_map_def by (simp only:)
qed

lemma busy_ok_snoc: "busy_ok level h \<Longrightarrow> pickable_for_compaction t \<Longrightarrow> busy_ok (level @ [t]) h"
  by (auto simp: busy_ok_def free_from_def nth_append)

lemma inv_arrive:
  assumes keeps: "keeps_open st st'" and t: "new_table xxh ub st st' t kvs"
    and newer: "\<forall>s \<in> set (concat (ps_levels ps)). sst_epoch s < sst_epoch t" and inv: "lsm_inv xxh L ub (ps, st, m)"
  shows "lsm_inv xxh L ub (push_table t ps, st', put_all kvs m)"
proof -
  obtain H C where struct: "struct_inv L ps H" and busy: "levels_busy L ps H" and order: "order_ok xxh st ub C (old_to_new ps)"
    and outs: "outputs_ok xxh st ub C (old_to_new ps) (ps_tasks ps)" and m: "m = (\<lambda>k. live_value (tree_map C (old_to_new ps) k))"
    using inv by (auto simp: lsm_inv_def)
  let ?ts = "old_to_new ps" and ?C = "C(sst_file t := kvs)" and ?f = "sst_file t"
  have L: "2 \<le> L" "length (ps_levels ps) = L" using struct by (simp_all add: struct_inv_def)
  have ts': "old_to_new (push_table t ps) = ?ts @ [core t]" using L by (intro old_to_new_push) auto
  have f: "?f \<notin> fst ` set (fs_fds st)" using t by (simp add: new_table_def)
  have fresh: "sst_file s \<noteq> ?f" if "s \<in> set ?ts" for s
    using that order f unfolding order_ok_def table_ok_def by metis
  have fresh_out: "sst_file o' \<noteq> ?f" if "ct \<in> set (ps_tasks ps)" "ct_output ct = Some o'" for ct o'
    using that outs f unfolding outputs_ok_def output_ok_def table_ok_def by metis
  have "struct_inv L (push_table t ps) H"
    unfolding push_table_def using L by (intro struct_inv_levels [OF struct]) simp_all
  moreover have "levels_busy L (push_table t ps) H"
  proof -
    have "pickable_for_compaction t" using t by (simp add: new_table_def)
    from busy_ok_snoc [OF _ this] show ?thesis using busy L by (auto simp: levels_busy_def push_table_def nth_list_update)
  qed
  moreover have "order_ok xxh st' ub ?C (?ts @ [core t])"
  proof -
    have "table_ok xxh st' ub ?C s" if "s \<in> set ?ts" for s
      using that order table_ok_keeps [OF keeps] table_ok_update [OF _ fresh [OF that]] by (auto simp: order_ok_def)
    moreover have "table_ok xxh st' ub ?C (core t)" using t by (simp add: table_ok_def new_table_def)
    moreover have "sorted_wrt (<) (map sst_epoch (?ts @ [core t]))"
      using order newer by (auto simp: order_ok_def sorted_wrt_append old_to_new_def)
    moreover have "?f \<notin> sst_file ` set ?ts" using fresh by (metis imageE)
    then have "distinct (map sst_file (?ts @ [core t]))" using order by (simp add: order_ok_def)
    ultimately show ?thesis by (simp add: order_ok_def)
  qed
  moreover have "outputs_ok xxh st' ub ?C (?ts @ [core t]) (ps_tasks ps)"
  proof -
    have "output_ok xxh st' ub ?C (?ts @ [core t]) ct o'" if ct: "ct \<in> set (ps_tasks ps)" "ct_output ct = Some o'" for ct o'
    proof (rule output_ok_update)
      show "output_ok xxh st' ub C ?ts ct o'"
        using outputs_ok_keeps [OF keeps outs] ct by (simp add: outputs_ok_def)
      show "sst_file o' \<noteq> ?f" by (rule fresh_out [OF ct])
      show "\<forall>t' \<in> set (ct_inputs ct). sst_file t' \<noteq> ?f"
        using task_inputs_in_order [OF struct busy ct(1)] fresh by fastforce
    qed auto
    then show ?thesis using outs unfolding outputs_ok_def by blast
  qed
  moreover have "put_all kvs m = (\<lambda>k. live_value (tree_map ?C (?ts @ [core t]) k))"
  proof
    have "?f \<notin> sst_file ` set ?ts" using fresh by (metis imageE)
    then show "put_all kvs m k = live_value (tree_map ?C (?ts @ [core t]) k)" for k
      by (simp add: m put_all_def tree_map_snoc tree_map_update live_value_def split: option.split)
  qed
  moreover have "ps_tasks (push_table t ps) = ps_tasks ps" by (simp add: push_table_def)
  ultimately show ?thesis unfolding lsm_inv_def prod.case ts' by metis
qed

subsection \<open>A round of scheduling\<close>

definition launched_task :: "nat \<Rightarrow> nat \<Rightarrow> bool \<Rightarrow> sst list \<Rightarrow> partition_state \<Rightarrow> compaction_task" where
  "launched_task L l first bucket ps = last (ps_tasks (launch_bucket L l first bucket ps))"

lemma launch_bucket_fields:
  assumes "l + 1 < L"
  shows "ps_levels (launch_bucket L l first bucket ps) = ps_levels ps"
    "ps_semaphores (launch_bucket L l first bucket ps) = ps_semaphores ps @ [0]"
    "ps_permissions (launch_bucket L l first bucket ps) = (ps_permissions ps)[l := length (ps_semaphores ps)]"
    "ps_created (launch_bucket L l first bucket ps) = (ps_created ps)[l + 1 := True]"
    "ps_tasks (launch_bucket L l first bucket ps) = ps_tasks ps @ [launched_task L l first bucket ps]"
    "ct_can_write (launched_task L l first bucket ps) = ps_permissions ps ! l"
    "ct_next_can_write (launched_task L l first bucket ps) = length (ps_semaphores ps)"
    "ct_level (launched_task L l first bucket ps) = l" "ct_inputs (launched_task L l first bucket ps) = bucket"
    "ct_output (launched_task L l first bucket ps) = None" "strip (launched_task L l first bucket ps) = launched_task L l first bucket ps"
    "length (ps_levels ps) = L \<Longrightarrow> ct_discard_deleted_keys (launched_task L l first bucket ps) \<Longrightarrow>
       l + 2 = L \<and> \<not> ps_created ps ! (l + 1)"
  using assms by (auto simp: launch_bucket_def launched_task_def Let_def strip_def min_def)

lemma launch_bucket_chain:
  fixes first :: bool
  assumes "l < L" "l' < L" "l + 1 < L" "length (ps_permissions ps) = L" "chain_ok ps l' h"
    "set (chain_sems ps l' h) \<subseteq> {..<length (ps_semaphores ps)}" "bucket \<noteq> []"
  defines "ps' \<equiv> launch_bucket L l first bucket ps"
    and "h' \<equiv> if l' = l then h @ [(True, launched_task L l first bucket ps)] else h"
  shows "chain_ok ps' l' h'" "chain_sems ps' l' h' = chain_sems ps l' h @ (if l' = l then [length (ps_semaphores ps)] else [])"
proof -
  note f = launch_bucket_fields [OF assms(3)]
  show sems: "chain_sems ps' l' h' = chain_sems ps l' h @ (if l' = l then [length (ps_semaphores ps)] else [])"
    using assms(1,2,4) by (simp add: chain_sems_def ps'_def h'_def f)
  have old: "map ((!) (ps_semaphores ps @ [0])) (chain_sems ps l' h) = map ((!) (ps_semaphores ps)) (chain_sems ps l' h)"
    using assms(6) by (intro map_cong) (auto simp: nth_append)
  have ne: "chain_sems ps l' h \<noteq> []" by (simp add: chain_sems_def)
  have "map ((!) (ps_semaphores ps')) (chain_sems ps' l' h') = 1 # replicate (length h') 0"
    using assms(5) old unfolding sems by (simp add: ps'_def h'_def f chain_ok_def replicate_append_same nth_append)
  moreover have "map (\<lambda>it. ct_next_can_write (snd it)) h' = tl (chain_sems ps' l' h')"
    using assms(5) ne unfolding sems by (simp add: h'_def f chain_ok_def)
  moreover have "map snd (filter fst h') = map strip (filter (\<lambda>ct. ct_level ct = l') (ps_tasks ps'))"
    using assms(5) by (cases "l' = l") (simp_all add: h'_def ps'_def f chain_ok_def)
  moreover have "\<forall>it \<in> set h'. ct_level (snd it) = l' \<and> ct_inputs (snd it) \<noteq> []"
    using assms(5,7) by (auto simp: h'_def f chain_ok_def)
  ultimately show "chain_ok ps' l' h'" by (simp add: chain_ok_def)
qed

lemma launch_bucket_struct:
  assumes inv: "struct_inv L ps H" and l: "l + 1 < L" and ne: "bucket \<noteq> []"
  shows "struct_inv L (launch_bucket L l first bucket ps) (H(l := H l @ [(True, launched_task L l first bucket ps)]))"
    (is "struct_inv L ?ps ?H")
proof -
  note f = launch_bucket_fields [OF l]
  let ?n = "length (ps_semaphores ps)" and ?t = "launched_task L l first bucket ps"
  have inv': "2 \<le> L" "length (ps_levels ps) = L" "length (ps_permissions ps) = L" "length (ps_created ps) = L"
      "\<forall>l < L. chain_ok ps l (H l)" "H (L - 1) = []" "sems_ok L ps H" "tasks_ok L ps" "created_ok L ps H"
    using inv by (simp_all add: struct_inv_def)
  have bound: "set (chain_sems ps l' (H l')) \<subseteq> {..<?n}" "distinct (chain_sems ps l' (H l'))" if "l' < L" for l'
    using inv'(7) that by (simp_all add: sems_ok_def)
  have H: "?H l' = (if l' = l then H l' @ [(True, ?t)] else H l')" for l' by simp
  have chain: "chain_ok ?ps l' (?H l')"
      "chain_sems ?ps l' (?H l') = chain_sems ps l' (H l') @ (if l' = l then [?n] else [])" if "l' < L" for l'
    unfolding H using launch_bucket_chain [OF _ that l inv'(3) inv'(5) [rule_format, OF that] bound(1) [OF that] ne, of first] l by simp_all
  have "sems_ok L ?ps ?H"
    unfolding sems_ok_def
  proof (intro conjI allI impI)
    fix l' assume "l' < L"
    then show "distinct (chain_sems ?ps l' (?H l'))" "set (chain_sems ?ps l' (?H l')) \<subseteq> {..<length (ps_semaphores ?ps)}"
      unfolding chain(2) [OF \<open>l' < L\<close>] f(2) using bound [of l'] by auto
  next
    fix l1 l2 assume "l1 < L" "l2 < L" "l1 \<noteq> l2"
    then have "set (chain_sems ps l1 (H l1)) \<inter> set (chain_sems ps l2 (H l2)) = {}" using inv'(7) by (simp add: sems_ok_def)
    then show "set (chain_sems ?ps l1 (?H l1)) \<inter> set (chain_sems ?ps l2 (?H l2)) = {}"
      unfolding chain(2) [OF \<open>l1 < L\<close>] chain(2) [OF \<open>l2 < L\<close>]
      using bound(1) [OF \<open>l1 < L\<close>] bound(1) [OF \<open>l2 < L\<close>] \<open>l1 \<noteq> l2\<close> by auto
  qed
  moreover have "tasks_ok L ?ps" using inv'(8) l by (auto simp: tasks_ok_def f)
  moreover have "created_ok L ?ps ?H"
  proof -
    have "ps_levels ps ! (k + 1) = [] \<and> ?H k = []" if "k + 1 < L" "\<not> ps_created ?ps ! (k + 1)" for k
      using that inv'(4,9) l by (auto simp: f created_ok_def nth_list_update split: if_splits)
    moreover have "j = 0 \<and> k + 2 = L \<and> ps_levels ps ! (L - 1) = []"
      if j: "k < L" "j < length (?H k)" "ct_discard_deleted_keys (snd (?H k ! j))" for k j
    proof (cases "j < length (H k)")
      case True
      then have "?H k ! j = H k ! j" by (cases "k = l") (simp_all add: nth_append)
      then show ?thesis using inv'(9) j True by (simp add: created_ok_def)
    next
      case False
      then have k: "k = l" "j = length (H l)" using j(2) by (auto simp: H split: if_splits)
      then have "ct_discard_deleted_keys ?t" using j(3) by simp
      then have "l + 2 = L" "\<not> ps_created ps ! (l + 1)" using f(12) [OF inv'(2)] by blast+
      then have "ps_levels ps ! (l + 1) = []" "H l = []" using inv'(9) l by (auto simp: created_ok_def)
      moreover have "L - 1 = l + 1" using \<open>l + 2 = L\<close> by simp
      ultimately show ?thesis using k \<open>l + 2 = L\<close> by simp
    qed
    ultimately show ?thesis unfolding created_ok_def f(1) by blast
  qed
  moreover have "?H (L - 1) = []" using inv'(6) l by simp
  ultimately show ?thesis using inv' chain(1) l unfolding struct_inv_def by (simp add: f)
qed

text \<open>What a sequence of launches does: new tasks behind the old ones, their inputs behind the inputs of the
  earlier tasks of the level, the tables untouched.\<close>

definition launches ::
    "nat \<Rightarrow> (nat \<Rightarrow> sst list) \<Rightarrow> partition_state \<times> (nat \<Rightarrow> history) \<Rightarrow> partition_state \<times> (nat \<Rightarrow> history) \<Rightarrow> bool" where
  "launches L ins s s' \<longleftrightarrow> (case (s, s') of ((ps, H), (ps', H')) \<Rightarrow>
     struct_inv L ps' H' \<and> ps_levels ps' = ps_levels ps \<and> (\<forall>l. history_inputs (H' l) = history_inputs (H l) @ ins l)
     \<and> (\<exists>new. ps_tasks ps' = ps_tasks ps @ new \<and> (\<forall>ct \<in> set new. ct_output ct = None)))"

lemma launches_refl: "struct_inv L ps H \<Longrightarrow> launches L (\<lambda>_. []) (ps, H) (ps, H)"
  by (simp add: launches_def)

lemma launches_trans:
  "launches L i1 s1 s2 \<Longrightarrow> launches L i2 s2 s3 \<Longrightarrow> launches L (\<lambda>l. i1 l @ i2 l) s1 s3"
  by (cases s1; cases s2; cases s3) (fastforce simp: launches_def)

lemma launches_bucket:
  assumes "struct_inv L ps H" "l + 1 < L" "bucket \<noteq> []"
  shows "launches L (\<lambda>k. if k = l then bucket else []) (ps, H)
    (launch_bucket L l first bucket ps, H(l := H l @ [(True, launched_task L l first bucket ps)]))"
  using launch_bucket_struct [OF assms] launch_bucket_fields [OF assms(2)] by (simp add: launches_def history_inputs_def)

lemma launches_buckets:
  assumes "struct_inv L ps H" "l + 1 < L" "[] \<notin> set bs"
  shows "\<exists>H'. launches L (\<lambda>k. if k = l then concat bs else []) (ps, H)
    (fold (\<lambda>(i, b). launch_bucket L l (i = 0) b) (enumerate n bs) ps, H')"
  using assms(1,3)
proof (induction bs arbitrary: ps H n)
  case Nil
  then show ?case using launches_refl [of L ps H] by (auto simp: launches_def)
next
  case (Cons b bs)
  then have "b \<noteq> []" by auto
  from launches_bucket [OF Cons.prems(1) assms(2) this, of "n = 0"] obtain H1
    where first: "launches L (\<lambda>k. if k = l then b else []) (ps, H) (launch_bucket L l (n = 0) b ps, H1)" by blast
  then have "struct_inv L (launch_bucket L l (n = 0) b ps) H1" by (simp add: launches_def)
  from Cons.IH [OF this] Cons.prems(2) obtain H2 where
    "launches L (\<lambda>k. if k = l then concat bs else []) (launch_bucket L l (n = 0) b ps, H1)
      (fold (\<lambda>(i, b). launch_bucket L l (i = 0) b) (enumerate (Suc n) bs) (launch_bucket L l (n = 0) b ps), H2)"
    by auto
  from launches_trans [OF first this] show ?case
    by (auto simp: if_distrib cong: if_cong intro!: exI [of _ H2])
qed

lemma launches_levels:
  assumes "struct_inv L ps H" "\<forall>i < length bss. bss ! i = [] \<or> n + i + 1 < L \<and> [] \<notin> set (bss ! i)"
  shows "\<exists>H'. launches L (\<lambda>k. if n \<le> k \<and> k < n + length bss then concat (bss ! (k - n)) else []) (ps, H)
    (fold (launch_level L) (enumerate n bss) ps, H')"
  using assms
proof (induction bss arbitrary: ps H n)
  case Nil
  then show ?case using launches_refl [of L ps H] by (auto simp: launches_def)
next
  case (Cons bs bss)
  obtain H1 where first: "launches L (\<lambda>k. if k = n then concat bs else []) (ps, H) (launch_level L (n, bs) ps, H1)"
  proof (cases "bs = []")
    case True
    then show ?thesis using that launches_refl [OF Cons.prems(1)] by (auto simp: launch_level_def cong: if_cong)
  next
    case False
    then have "n + 1 < L" "[] \<notin> set bs" using Cons.prems(2) [rule_format, of 0] by auto
    from launches_buckets [OF Cons.prems(1) this, of 0] show ?thesis using that unfolding launch_level_def prod.case by blast
  qed
  then have inv: "struct_inv L (launch_level L (n, bs) ps) H1" by (simp add: launches_def)
  have "\<forall>i < length bss. bss ! i = [] \<or> Suc n + i + 1 < L \<and> [] \<notin> set (bss ! i)"
    using Cons.prems(2) by (auto dest: spec [of _ "Suc _"])
  from Cons.IH [OF inv this] obtain H2 where
    second: "launches L (\<lambda>k. if Suc n \<le> k \<and> k < Suc n + length bss then concat (bss ! (k - Suc n)) else [])
      (launch_level L (n, bs) ps, H1) (fold (launch_level L) (enumerate (Suc n) bss) (launch_level L (n, bs) ps), H2)"
    by blast
  have eq: "(\<lambda>k. (if k = n then concat bs else []) @
      (if Suc n \<le> k \<and> k < Suc n + length bss then concat (bss ! (k - Suc n)) else [])) =
    (\<lambda>k. if n \<le> k \<and> k < n + length (bs # bss) then concat ((bs # bss) ! (k - n)) else [])"
    by (rule ext) (auto simp: nth_Cons' Suc_diff_Suc)
  show ?case using launches_trans [OF first second] unfolding eq by auto
qed

lemma busy_ok_mark:
  assumes "busy_ok level h" "0 < mn" "mn \<le> mx"
  obtains e bs where "create_buckets_from_level mn mx level = (mark_in_compaction [length (history_inputs h)..<e] level, bs)"
    "concat bs = [length (history_inputs h)..<e]" "[] \<notin> set bs"
    "\<And>h'. history_inputs h' = history_inputs h @ map ((!) (mark_in_compaction [length (history_inputs h)..<e] level)) (concat bs)
      \<Longrightarrow> busy_ok (mark_in_compaction [length (history_inputs h)..<e] level) h'"
proof -
  let ?d = "length (history_inputs h)"
  from assms(1) have free: "free_from ?d level" and same: "map core (take ?d level) = map core (history_inputs h)"
    by (simp_all add: busy_ok_def)
  from create_buckets_spec [OF free assms(2,3)] obtain bs e
    where spec: "create_buckets_from_level mn mx level = (mark_in_compaction [?d..<e] level, bs)"
      "concat bs = [?d..<e]" "?d \<le> e" "e \<le> length level" "[] \<notin> set bs" by blast
  let ?m = "mark_in_compaction [?d..<e] level"
  have m: "map core ?m = map core level" "length ?m = length level" by (simp_all add: core_mark)
  have "free_from e ?m" using free_from_mark [OF free] spec(3,4) by blast
  moreover have "map core (take e ?m) = map core (history_inputs h @ map ((!) ?m) [?d..<e])"
  proof -
    have "take e ?m = take ?d ?m @ map ((!) ?m) [?d..<e]"
      using spec(3,4) m(2) by (intro nth_equalityI) (auto simp: nth_append)
    moreover have "map core (take ?d ?m) = map core (history_inputs h)" using same m(1) by (metis take_map)
    ultimately show ?thesis by simp
  qed
  ultimately show ?thesis
    using spec(3) by (intro that [OF spec(1,2,5)]) (simp add: busy_ok_def spec(2))
qed

lemma map_levels: "map f (concat (rev levels)) = concat (rev (map (map f) levels))"
  by (simp add: map_concat rev_map)

lemma outputs_ok_append:
  assumes "outputs_ok xxh st ub C ts cts" "\<forall>ct \<in> set new. ct_output ct = None"
  shows "outputs_ok xxh st ub C ts (cts @ new)"
  using assms unfolding outputs_ok_def set_append by (metis Un_iff option.distinct(1))

text \<open>A bucket that is picked becomes a task.\<close>

lemma fold_tasks:
  assumes "\<And>x ps. set (ps_tasks ps) \<subseteq> set (ps_tasks (f x ps))"
  shows "set (ps_tasks ps) \<subseteq> set (ps_tasks (fold f xs ps))"
    "x \<in> set xs \<Longrightarrow> (\<And>ps. \<exists>ct \<in> set (ps_tasks (f x ps)). P ct) \<Longrightarrow> \<exists>ct \<in> set (ps_tasks (fold f xs ps)). P ct"
proof -
  show mono: "set (ps_tasks ps) \<subseteq> set (ps_tasks (fold f xs ps))" for xs ps
  proof (induction xs arbitrary: ps)
    case (Cons x xs)
    then show ?case using assms [of ps x] by (simp add: subset_trans)
  qed simp
  assume x: "x \<in> set xs" and P: "\<And>ps. \<exists>ct \<in> set (ps_tasks (f x ps)). P ct"
  from x obtain ys zs where xs: "xs = ys @ x # zs" by (metis split_list)
  from P [of "fold f ys ps"] show "\<exists>ct \<in> set (ps_tasks (fold f xs ps)). P ct"
    using mono [of "f x (fold f ys ps)" zs] unfolding xs by auto
qed

lemma launch_level_tasks:
  "set (ps_tasks ps) \<subseteq> set (ps_tasks (launch_level L (l, bs) ps))"
  "bs \<noteq> [] \<Longrightarrow> \<exists>ct \<in> set (ps_tasks (launch_level L (l, bs) ps)). ct_level ct = l"
proof -
  let ?f = "\<lambda>(i, b). launch_bucket L l (i = 0) b"
  have mono: "set (ps_tasks ps) \<subseteq> set (ps_tasks (?f x ps))" for x :: "nat \<times> sst list" and ps
    by (auto simp: launch_bucket_def Let_def split: prod.split)
  have task: "\<exists>ct \<in> set (ps_tasks (?f x ps)). ct_level ct = l" for x :: "nat \<times> sst list" and ps
    by (auto simp: launch_bucket_def Let_def split: prod.split)
  show "set (ps_tasks ps) \<subseteq> set (ps_tasks (launch_level L (l, bs) ps))"
    using fold_tasks(1) [of ?f, OF mono] by (simp add: launch_level_def)
  assume "bs \<noteq> []"
  then have "(0, hd bs) \<in> set (enumerate 0 bs)" by (cases bs) simp_all
  from fold_tasks(2) [of ?f, OF mono this task] show "\<exists>ct \<in> set (ps_tasks (launch_level L (l, bs) ps)). ct_level ct = l"
    by (simp add: launch_level_def)
qed

lemma schedule_tasks:
  assumes "l < length (ps_levels ps)" "snd (create_buckets_from_level mn mx (ps_levels ps ! l)) \<noteq> []"
  shows "\<exists>ct \<in> set (ps_tasks (schedule_partition L mn mx ps)). ct_level ct = l"
proof -
  let ?bss = "map (\<lambda>level. case create_buckets_from_level mn mx level of (level, bs) \<Rightarrow> map (map ((!) level)) bs) (ps_levels ps)"
  have mono: "set (ps_tasks ps) \<subseteq> set (ps_tasks (launch_level L x ps))" for x ps
    using launch_level_tasks(1) by (cases x) blast
  have ne: "?bss ! l \<noteq> []" using assms by (simp add: case_prod_beta)
  have "(l, ?bss ! l) \<in> set (enumerate 0 ?bss)" using assms(1) by (simp add: in_set_enumerate_eq)
  from fold_tasks(2) [of "launch_level L", OF mono this launch_level_tasks(2) [OF ne]]
  show ?thesis by (simp add: schedule_partition_def pick_ssts_into_buckets_def Let_def comp_def)
qed

lemma inv_schedule:
  assumes inv: "lsm_inv xxh L ub (ps, st, m)" and w: "0 < mn" "mn \<le> mx"
    and last: "\<forall>ct \<in> set (ps_tasks (schedule_partition L mn mx ps)). ct_level ct + 1 < L"
  shows "lsm_inv xxh L ub (schedule_partition L mn mx ps, st, m)"
proof -
  from inv obtain H C where I: "struct_inv L ps H" "levels_busy L ps H" "order_ok xxh st ub C (old_to_new ps)"
      "outputs_ok xxh st ub C (old_to_new ps) (ps_tasks ps)" "m = (\<lambda>k. live_value (tree_map C (old_to_new ps) k))"
    unfolding lsm_inv_def prod.case by (elim exE conjE)
  have len: "length (ps_levels ps) = L" "2 \<le> L" using I(1) by (simp_all add: struct_inv_def)
  let ?pick = "\<lambda>l. create_buckets_from_level mn mx (ps_levels ps ! l)"
  let ?levels = "map (\<lambda>level. fst (create_buckets_from_level mn mx level)) (ps_levels ps)"
  let ?bss = "map (\<lambda>level. case create_buckets_from_level mn mx level of (level, bs) \<Rightarrow> map (map ((!) level)) bs) (ps_levels ps)"
  have sched: "schedule_partition L mn mx ps = fold (launch_level L) (enumerate 0 ?bss) (ps\<lparr>ps_levels := ?levels\<rparr>)"
    by (simp add: schedule_partition_def pick_ssts_into_buckets_def Let_def comp_def)
  have level: "[] \<notin> set (snd (?pick l)) \<and> map core (fst (?pick l)) = map core (ps_levels ps ! l)
      \<and> (\<forall>h'. history_inputs h' = history_inputs (H l) @ map ((!) (fst (?pick l))) (concat (snd (?pick l)))
           \<longrightarrow> busy_ok (fst (?pick l)) h')" if "l < L" for l
  proof -
    have "busy_ok (ps_levels ps ! l) (H l)" using I(2) that by (simp add: levels_busy_def)
    from this w show ?thesis by (rule busy_ok_mark) (simp add: core_mark)
  qed
  have "?levels ! l = []" if "l < L" "ps_levels ps ! l = []" for l
    using level [OF that(1)] that len by (metis (no_types, lifting) map_is_Nil_conv nth_map)
  from struct_inv_levels [OF I(1) _ this, of "ps_levels_seq_num ps"] have struct: "struct_inv L (ps\<lparr>ps_levels := ?levels\<rparr>) H"
    using len by (simp only: length_map) simp
  have bottom: "snd (?pick (L - 1)) = []"
    using schedule_tasks [of "L - 1" ps mn mx L] last len by (cases "snd (?pick (L - 1)) = []") auto
  have "\<forall>i < length ?bss. ?bss ! i = [] \<or> 0 + i + 1 < L \<and> [] \<notin> set (?bss ! i)"
  proof (intro allI impI)
    fix i assume "i < length ?bss"
    then have i: "i < L" using len by simp
    show "?bss ! i = [] \<or> 0 + i + 1 < L \<and> [] \<notin> set (?bss ! i)"
    proof (cases "i = L - 1")
      case True
      then show ?thesis using bottom i len by (auto simp: case_prod_beta)
    next
      case False
      then show ?thesis using level [OF i] i len by (auto simp: case_prod_beta)
    qed
  qed
  from launches_levels [OF struct this] have
    "\<exists>H'. launches L (\<lambda>k. if 0 \<le> k \<and> k < 0 + length ?bss then concat (?bss ! (k - 0)) else []) (ps\<lparr>ps_levels := ?levels\<rparr>, H)
      (schedule_partition L mn mx ps, H')" unfolding sched .
  then obtain H' where run: "launches L (\<lambda>k. if 0 \<le> k \<and> k < 0 + length ?bss then concat (?bss ! (k - 0)) else [])
      (ps\<lparr>ps_levels := ?levels\<rparr>, H) (schedule_partition L mn mx ps, H')" ..
  note H' = run [unfolded launches_def prod.case]
  from H' have levels': "ps_levels (schedule_partition L mn mx ps) = ?levels" by simp
  have "map core (concat (rev ?levels)) = map core (concat (rev (ps_levels ps)))"
  proof -
    have "map (map core) ?levels = map (map core) (ps_levels ps)"
      using level len by (intro nth_equalityI) simp_all
    then show ?thesis unfolding map_levels by (simp only:)
  qed
  then have order: "old_to_new (schedule_partition L mn mx ps) = old_to_new ps" by (simp add: old_to_new_def levels')
  have "levels_busy L (schedule_partition L mn mx ps) H'"
    unfolding levels_busy_def levels'
  proof (intro allI impI)
    fix l assume l: "l < L"
    have "history_inputs (H' l) = history_inputs (H l) @ map ((!) (fst (?pick l))) (concat (snd (?pick l)))"
      using H' l len by (simp add: case_prod_beta map_concat)
    then show "busy_ok (?levels ! l) (H' l)" using level [OF l] l len by simp
  qed
  moreover have "outputs_ok xxh st ub C (old_to_new ps) (ps_tasks (schedule_partition L mn mx ps))"
  proof -
    from H' obtain new where "ps_tasks (schedule_partition L mn mx ps) = ps_tasks ps @ new" "\<forall>ct \<in> set new. ct_output ct = None"
      by auto
    then show ?thesis using outputs_ok_append [OF I(4)] by simp
  qed
  moreover have "struct_inv L (schedule_partition L mn mx ps) H'" using H' by simp
  ultimately show ?thesis using I(3,5) unfolding lsm_inv_def prod.case order by blast
qed

subsection \<open>The merge of a task\<close>

lemma filter_strip: "map strip (filter (\<lambda>ct. ct_level ct = l) cts) = filter (\<lambda>ct. ct_level ct = l) (map strip cts)"
  by (simp add: filter_map comp_def)

lemma struct_inv_tasks:
  assumes "struct_inv L ps H" "map strip cts = map strip (ps_tasks ps)"
  shows "struct_inv L (ps\<lparr>ps_tasks := cts\<rparr>) H"
proof -
  have "map ct_next_can_write cts = map ct_next_can_write (map strip cts)" by simp
  then have nexts: "map ct_next_can_write cts = map ct_next_can_write (ps_tasks ps)" using assms(2) by simp
  have "tasks_ok L (ps\<lparr>ps_tasks := cts\<rparr>)"
  proof -
    have "ct_level ct + 1 < L \<and> ct_next_can_write ct < length (ps_semaphores ps)" if "ct \<in> set cts" for ct
    proof -
      have "strip ct \<in> set (map strip (ps_tasks ps))" using that assms(2) by (metis image_eqI image_set)
      then obtain ct' where "ct' \<in> set (ps_tasks ps)" "strip ct = strip ct'" by auto
      moreover from this have "ct_level ct = ct_level ct'" "ct_next_can_write ct = ct_next_can_write ct'" using strip_simps(2,3) by metis+
      ultimately show ?thesis using assms(1) by (auto simp: struct_inv_def tasks_ok_def)
    qed
    then show ?thesis using assms(1) nexts by (simp add: struct_inv_def tasks_ok_def)
  qed
  then show ?thesis
    using assms unfolding struct_inv_def chain_ok_def chain_sems_def sems_ok_def created_ok_def filter_strip by simp
qed

text \<open>The inputs of a task are neighbours, in the tree and in its order.\<close>

lemma history_block:
  assumes "busy_ok level h" "h = h1 @ it # h2"
  obtains Z where "map core level = map core (history_inputs h1) @ map core (ct_inputs (snd it)) @ Z"
proof -
  let ?d = "length (history_inputs h)"
  have "map core level = map core (take ?d level) @ map core (drop ?d level)" by (metis append_take_drop_id map_append)
  also have "map core (take ?d level) = map core (history_inputs h)" using assms(1) by (simp add: busy_ok_def)
  finally show ?thesis using that by (simp add: assms(2) history_inputs_def)
qed

lemma old_to_new_level:
  assumes "l < length (ps_levels ps)"
  shows "old_to_new ps = map core (concat (rev (drop (Suc l) (ps_levels ps)))) @ map core (ps_levels ps ! l)
    @ map core (concat (rev (take l (ps_levels ps))))"
proof -
  have "ps_levels ps = take l (ps_levels ps) @ ps_levels ps ! l # drop (Suc l) (ps_levels ps)"
    using assms by (rule id_take_nth_drop)
  then have "old_to_new ps = map core (concat (rev (take l (ps_levels ps) @ ps_levels ps ! l # drop (Suc l) (ps_levels ps))))"
    unfolding old_to_new_def by (rule arg_cong)
  then show ?thesis by simp
qed

lemma task_inputs_block:
  assumes "struct_inv L ps H" "levels_busy L ps H" "ct \<in> set (ps_tasks ps)"
  obtains X Y where "old_to_new ps = X @ map core (ct_inputs ct) @ Y"
proof -
  note h = task_in_history [OF assms(1,3)]
  have busy: "busy_ok (ps_levels ps ! ct_level ct) (H (ct_level ct))" using assms(2) h(2) by (simp add: levels_busy_def)
  from h(1) obtain h1 h2 where split: "H (ct_level ct) = h1 @ (True, strip ct) # h2" by (metis split_list)
  from history_block [OF busy split] obtain Z
    where "map core (ps_levels ps ! ct_level ct) = map core (history_inputs h1) @ map core (ct_inputs ct) @ Z" by auto
  moreover have "ct_level ct < length (ps_levels ps)" using h(2) assms(1) by (simp add: struct_inv_def)
  ultimately show ?thesis using that old_to_new_level by (metis append.assoc)
qed

lemma merge_task_inputs:
  assumes order: "order_ok xxh st ub C ts" and block: "ts = X @ map core ins @ Y" and ne: "ins \<noteq> []"
    and size: "0 < tables_size ins" "tables_size ins \<le> 2 ^ 22"
  shows "mergeable xxh st ins (map (\<lambda>t. C (sst_file t)) ins)" "\<forall>t \<in> set ins. sst_upper_bound t = ub"
    "sorted_wrt (<) (map sst_epoch ins)" "length (concat (map (\<lambda>t. C (sst_file t)) ins)) = tables_size ins"
proof -
  have t: "table_ok xxh st ub C (core t)" if "t \<in> set ins" for t using order block that by (auto simp: order_ok_def)
  then show ub: "\<forall>t \<in> set ins. sst_upper_bound t = ub" by (auto simp: table_ok_def)
  have "sorted_wrt (<) (map sst_epoch (map core ins))"
    using order unfolding order_ok_def block by (simp add: sorted_wrt_append)
  then show sorted: "sorted_wrt (<) (map sst_epoch ins)" by (simp add: comp_def)
  have holds: "list_all2 (table_holds xxh (fd_data st)) ins (map (\<lambda>t. C (sst_file t)) ins)"
    using t by (auto simp: list_all2_conv_all_nth table_ok_def)
  have "unat (sst_size t) = length (C (sst_file t))" if "t \<in> set ins" for t
  proof -
    have "table_holds xxh (fd_data st) t (C (sst_file t))" "length (C (sst_file t)) < 2 ^ 64" using t [OF that] by (simp_all add: table_ok_def)
    then show ?thesis by (simp add: table_holds_def sst_size_def unat_of_nat_small)
  qed
  then show len: "length (concat (map (\<lambda>t. C (sst_file t)) ins)) = tables_size ins"
    by (simp add: tables_size_def length_concat comp_def cong: map_cong)
  have "concat (map (\<lambda>t. C (sst_file t)) ins) \<noteq> []"
  proof
    assume "concat (map (\<lambda>t. C (sst_file t)) ins) = []"
    then have "length (concat (map (\<lambda>t. C (sst_file t)) ins)) = 0" by (simp only: list.size)
    then show False using len size(1) by linarith
  qed
  then show "mergeable xxh st ins (map (\<lambda>t. C (sst_file t)) ins)"
    using holds len size(2) ub sorted ne unfolding mergeable_def strict_sorted_iff by simp
qed

lemma wrote_table_pickable: "wrote_table xxh path st kvs t st' \<Longrightarrow> pickable_for_compaction t"
  unfolding wrote_table_def sst_load_def make_sst_def pickable_for_compaction_def
  by (auto split: sum.splits dest!: arg_cong [of _ _ compaction_state])

lemma merge_task_writes:
  assumes io: "kernel_ok io" and rd: "reads_files rd (fd_data st)" and t: "mergeable xxh st (ct_inputs ct) kvsl"
    and cfg: "merge_config_ok (task_merge_config cfg n ct) (ct_inputs ct)" and fuel: "length (concat kvsl) \<le> fuel"
    and absent: "map_of (fs_dir st) (merge_path (task_merge_config cfg n ct) (ct_inputs ct)) = None"
    and run: "merge_task fuel xxh io rd env fi cfg n ct st = Inr (t, st')" and ne: "ct_inputs ct \<noteq> []"
  shows "\<exists>path. wrote_table xxh path st (merged_pairs (ct_discard_deleted_keys ct) kvsl (map sst_epoch (ct_inputs ct))) t st'"
    "sst_upper_bound t = sst_upper_bound (hd (ct_inputs ct))" "sst_epoch t = Min (sst_epoch ` set (ct_inputs ct))"
  using k_way_merge_async2_written [OF io rd t cfg fuel absent, of env fi] run merged_epoch_Min [OF ne]
  by (auto simp: merge_task_def task_merge_config_def)

lemma outputs_ok_set:
  assumes outs: "outputs_ok xxh st ub C ts cts" and i: "i < length cts" and new: "output_ok xxh st ub C ts (cts ! i) t"
    and fresh: "\<forall>ct \<in> set cts. \<forall>t'. ct_output ct = Some t' \<longrightarrow> sst_file t' \<noteq> sst_file t"
  shows "outputs_ok xxh st ub C ts (cts[i := (cts ! i)\<lparr>ct_output := Some t\<rparr>])"
proof -
  let ?new = "(cts ! i)\<lparr>ct_output := Some t\<rparr>"
  have set: "set (cts[i := ?new]) \<subseteq> insert ?new (set cts)" by (rule set_update_subset_insert)
  have "output_ok xxh st ub C ts ?new t" using new by (simp add: output_ok_def)
  moreover have cases: "ct = ?new \<or> ct \<in> set cts" if "ct \<in> set (cts[i := ?new])" for ct using set that by blast
  ultimately have "output_ok xxh st ub C ts ct t'" if "ct \<in> set (cts[i := ?new])" "ct_output ct = Some t'" for ct t'
    using that outs unfolding outputs_ok_def by fastforce
  moreover have "ct_next_can_write ct = ct_next_can_write ct'"
    if "ct \<in> set (cts[i := ?new])" "ct' \<in> set (cts[i := ?new])" "ct_output ct = Some t1" "ct_output ct' = Some t2"
      "sst_file t1 = sst_file t2" for ct ct' t1 t2
  proof (cases "ct \<in> set cts \<and> ct' \<in> set cts")
    case True
    then show ?thesis using that outs unfolding outputs_ok_def by blast
  next
    case False
    then show ?thesis using that fresh cases [OF that(1)] cases [OF that(2)] by fastforce
  qed
  ultimately show ?thesis unfolding outputs_ok_def by blast
qed

lemma merged_pairs_length:
  assumes "length kvsl = length es"
  shows "length (merged_pairs discard kvsl es) \<le> length (concat kvsl)"
proof -
  have "length (merged_pairs discard kvsl es) \<le> length (newest (merge_order (stream_entries kvsl es)))"
    by (simp add: merged_pairs_def)
  then show ?thesis using length_newest [of kvsl es] length_stream_entries [OF assms] by linarith
qed

text \<open>A merge that succeeds found no file of the name of its output.\<close>

lemma merge_task_absent:
  assumes "kernel_ok io" "merge_task fuel xxh io rd env fi cfg n ct st = Inr (t, st')"
  shows "map_of (fs_dir st) (merge_path (task_merge_config cfg n ct) (ct_inputs ct)) = None"
proof (cases "map_of (fs_dir st) (merge_path (task_merge_config cfg n ct) (ct_inputs ct))")
  case (Some i)
  then show ?thesis
    using assms(2)
    by (auto simp: merge_task_def k_way_merge_async2_def merge_path_def from_path_async_def open_guard_def kernel_okD(1) [OF assms(1)]
        stat_of_def stat_size_def Let_def split: if_splits)
qed

lemma inv_merge:
  assumes io: "kernel_ok io" and i: "i < length (ps_tasks ps)" and ct: "ct = ps_tasks ps ! i" and rd: "reads_files rd (fd_data st)"
    and size: "0 < tables_size (ct_inputs ct)" "tables_size (ct_inputs ct) \<le> 2 ^ 22" "tables_size (ct_inputs ct) \<le> fuel"
    and cfg: "merge_config_ok (task_merge_config cfg n ct) (ct_inputs ct)"
    and run: "merge_task fuel xxh io rd env fi cfg n ct st = Inr (t, st')" and inv: "lsm_inv xxh L ub (ps, st, m)"
  shows "lsm_inv xxh L ub (set_output i t ps, st', m)"
proof -
  from inv obtain H C where I: "struct_inv L ps H" "levels_busy L ps H" "order_ok xxh st ub C (old_to_new ps)"
      "outputs_ok xxh st ub C (old_to_new ps) (ps_tasks ps)" "m = (\<lambda>k. live_value (tree_map C (old_to_new ps) k))"
    unfolding lsm_inv_def prod.case by (elim exE conjE)
  let ?ts = "old_to_new ps" and ?ins = "ct_inputs ct" and ?f = "sst_file t"
  let ?kvsl = "map (\<lambda>t. C (sst_file t)) ?ins"
  let ?out = "merged_pairs (ct_discard_deleted_keys ct) ?kvsl (map sst_epoch ?ins)"
  let ?C = "C(?f := ?out)"
  have task: "ct \<in> set (ps_tasks ps)" using i ct by simp
  have chain: "chain_ok ps (ct_level ct) (H (ct_level ct))" using I(1) task_in_history(2) [OF I(1) task] by (simp add: struct_inv_def)
  then have ne: "?ins \<noteq> []" using task_in_history(1) [OF I(1) task] by (force simp: chain_ok_def)
  obtain X Y where "?ts = X @ map core ?ins @ Y" by (rule task_inputs_block [OF I(1,2) task])
  note small = merge_task_inputs [OF I(3) this ne size(1,2)]
  have "length (concat ?kvsl) \<le> fuel" using size(3) small(4) by simp
  note wrote = merge_task_writes [OF io rd small(1) cfg this merge_task_absent [OF io run] run ne]
  have "length ?out < 2 ^ 64" using merged_pairs_length [of ?kvsl "map sst_epoch ?ins" "ct_discard_deleted_keys ct"] small(4) size(2) by simp
  from wrote(1) obtain path where w: "wrote_table xxh path st ?out t st'" ..
  then have added: "adds_file path ?f st st'" and holds: "table_holds xxh (fd_data st') t ?out" by (simp_all add: wrote_table_def)
  have keeps: "keeps_open st st'" using adds_file_extends [OF added] by (rule extends_keeps_open)
  have f: "?f \<notin> fst ` set (fs_fds st)" "?f \<in> fst ` set (fs_fds st')"
    using added adds_file_names(2) [OF added] unfolding adds_file_def by auto
  have fresh: "sst_file s \<noteq> ?f" if "s \<in> set ?ts" for s using that I(3) f unfolding order_ok_def table_ok_def by metis
  have fresh_out: "sst_file o' \<noteq> ?f" if "ct' \<in> set (ps_tasks ps)" "ct_output ct' = Some o'" for ct' o'
    using that I(4) f unfolding outputs_ok_def output_ok_def table_ok_def by metis
  have fresh_in: "\<forall>t' \<in> set (ct_inputs ct'). sst_file t' \<noteq> ?f" if "ct' \<in> set (ps_tasks ps)" for ct'
    using task_inputs_in_order [OF I(1,2) that] fresh by fastforce
  have same: "map (\<lambda>t. ?C (sst_file t)) ?ins = ?kvsl" using fresh_in [OF task] by simp
  have "?f \<notin> sst_file ` set ?ts" using fresh by (metis imageE)
  with \<open>length ?out < 2 ^ 64\<close> have "output_ok xxh st' ub ?C ?ts ct t"
    using wrote(2,3) small(2) ne holds f wrote_table_pickable [OF w] unfolding output_ok_def same by (simp add: table_ok_def)
  moreover have "outputs_ok xxh st' ub ?C ?ts (ps_tasks ps)"
  proof -
    have "output_ok xxh st' ub ?C ?ts ct' o'" if ct': "ct' \<in> set (ps_tasks ps)" "ct_output ct' = Some o'" for ct' o'
    proof (rule output_ok_update [OF _ fresh_out [OF ct'] fresh_in [OF ct'(1)]])
      show "output_ok xxh st' ub C ?ts ct' o'" using outputs_ok_keeps [OF keeps I(4)] ct' by (simp add: outputs_ok_def)
    qed simp
    then show ?thesis using I(4) unfolding outputs_ok_def by blast
  qed
  ultimately have "outputs_ok xxh st' ub ?C ?ts (ps_tasks (set_output i t ps))"
    unfolding set_output_def using outputs_ok_set i fresh_out by (simp add: ct)
  moreover have "order_ok xxh st' ub ?C ?ts"
    using order_ok_keeps [OF keeps I(3)] table_ok_update fresh unfolding order_ok_def by blast
  moreover have "tree_map ?C ?ts k = tree_map C ?ts k" for k using fresh by (intro tree_map_update) (metis imageE)
  moreover have "map strip ((ps_tasks ps)[i := (ps_tasks ps ! i)\<lparr>ct_output := Some t\<rparr>]) = map strip (ps_tasks ps)"
    using i by (simp add: map_update list_update_same_conv)
  then have "struct_inv L (set_output i t ps) H" unfolding set_output_def by (rule struct_inv_tasks [OF I(1)])
  moreover have "levels_busy L (set_output i t ps) H" "old_to_new (set_output i t ps) = ?ts"
    using I(2) by (simp_all add: set_output_def levels_busy_def old_to_new_def)
  ultimately show ?thesis using I(5) unfolding lsm_inv_def prod.case by metis
qed

subsection \<open>A failed merge\<close>

lemma remove_nth_filter:
  assumes "distinct (map f xs)" "i < length xs"
  shows "remove_nth i xs = filter (\<lambda>x. f x \<noteq> f (xs ! i)) xs"
proof -
  have split: "xs = take i xs @ xs ! i # drop (Suc i) xs" by (rule id_take_nth_drop [OF assms(2)])
  have "distinct (map f (take i xs @ xs ! i # drop (Suc i) xs))" using assms(1) split by simp
  then have "f x \<noteq> f (xs ! i)" if "x \<in> set (take i xs) \<union> set (drop (Suc i) xs)" for x using that by (auto dest: sym intro: imageI)
  then have "filter (\<lambda>x. f x \<noteq> f (xs ! i)) (take i xs @ xs ! i # drop (Suc i) xs) = take i xs @ drop (Suc i) xs"
    by (auto simp: filter_id_conv)
  then show ?thesis using split by (simp add: remove_nth_def)
qed

lemma outputs_ok_subset: "outputs_ok xxh st ub C ts cts \<Longrightarrow> set cts' \<subseteq> set cts \<Longrightarrow> outputs_ok xxh st ub C ts cts'"
  unfolding outputs_ok_def by blast

definition without_task :: "nat \<Rightarrow> compaction_task list \<Rightarrow> compaction_task list" where
  "without_task n cts = filter (\<lambda>ct. ct_next_can_write ct \<noteq> n) cts"

lemma without_task_remove:
  assumes "struct_inv L ps H" "i < length (ps_tasks ps)"
  shows "remove_nth i (ps_tasks ps) = without_task (ct_next_can_write (ps_tasks ps ! i)) (ps_tasks ps)"
  unfolding without_task_def using assms by (intro remove_nth_filter) (auto simp: struct_inv_def tasks_ok_def)

lemma without_task_level:
  "map strip (filter (\<lambda>ct. ct_level ct = l) (without_task n cts)) = without_task n (map strip (filter (\<lambda>ct. ct_level ct = l) cts))"
  by (simp add: without_task_def filter_map comp_def conj_commute)

lemma tasks_ok_without: "tasks_ok L ps \<Longrightarrow> tasks_ok L (ps\<lparr>ps_tasks := without_task n (ps_tasks ps)\<rparr>)"
  by (auto simp: tasks_ok_def without_task_def distinct_map_filter)

lemma struct_inv_fail:
  assumes "struct_inv L ps H"
  shows "struct_inv L (ps\<lparr>ps_tasks := without_task n (ps_tasks ps)\<rparr>)
    (\<lambda>l. map (\<lambda>it. (fst it \<and> ct_next_can_write (snd it) \<noteq> n, snd it)) (H l))"
    (is "struct_inv L ?ps ?H")
proof -
  have sems: "chain_sems ?ps l (?H l) = chain_sems ps l (H l)" for l by (simp add: chain_sems_def)
  have "chain_ok ?ps l (?H l)" if "l < L" for l
  proof -
    have chain: "chain_ok ps l (H l)" using assms that by (simp add: struct_inv_def)
    have "map snd (filter fst (?H l)) = without_task n (map snd (filter fst (H l)))"
      by (simp add: without_task_def filter_map comp_def conj_commute)
    then show ?thesis using chain unfolding chain_ok_def sems by (simp add: without_task_level comp_def)
  qed
  moreover have "sems_ok L ?ps ?H" using assms unfolding struct_inv_def sems_ok_def sems by simp
  moreover have "created_ok L ?ps ?H" using assms by (simp add: struct_inv_def created_ok_def)
  ultimately show ?thesis using assms tasks_ok_without unfolding struct_inv_def by simp
qed

lemma input_busy:
  assumes struct: "struct_inv L ps H" and busy: "levels_busy L ps H" and d: "distinct (map sst_file (old_to_new ps))"
    and ct: "ct \<in> set (ps_tasks ps)" and t: "t \<in> set (concat (ps_levels ps))" "sst_file t \<in> sst_file ` set (ct_inputs ct)"
  shows "\<not> pickable_for_compaction t"
proof -
  note h = task_in_history [OF struct ct]
  let ?level = "ps_levels ps ! ct_level ct" and ?d = "length (history_inputs (H (ct_level ct)))"
  have b: "busy_ok ?level (H (ct_level ct))" using busy h(2) by (simp add: levels_busy_def)
  obtain s where s: "s \<in> set (ct_inputs ct)" "sst_file s = sst_file t" using t(2) by auto
  then have "core s \<in> core ` set (history_inputs (H (ct_level ct)))" using h(1) by (force simp: history_inputs_def)
  then have "core s \<in> core ` set (take ?d ?level)" using b by (metis busy_ok_def image_set)
  then obtain t' where t': "t' \<in> set (take ?d ?level)" "core t' = core s" by auto
  then obtain j where j: "j < ?d" "j < length ?level" "t' = ?level ! j" by (auto simp: in_set_conv_nth)
  then have "\<not> pickable_for_compaction t'" using b by (simp add: busy_ok_def free_from_def)
  moreover have "sst_file t' = sst_file t" using t'(2) s(2) by (metis core_simps(1))
  moreover have "t' \<in> set (concat (ps_levels ps))"
    using set_take_subset t'(1) h(2) struct by (fastforce simp: struct_inv_def)
  moreover have "inj_on sst_file (set (concat (ps_levels ps)))"
    using d by (simp add: old_to_new_def distinct_map comp_def)
  ultimately show ?thesis using t(1) by (metis inj_onD)
qed

lemma busy_ok_map:
  assumes "busy_ok level h" "\<And>t. t \<in> set level \<Longrightarrow> pickable_for_compaction (g t) = pickable_for_compaction t"
    "\<And>t. core (g t) = core t"
  shows "busy_ok (map g level) h"
proof -
  have "core \<circ> g = core" using assms(3) by auto
  then show ?thesis using assms(1,2) by (auto simp: busy_ok_def free_from_def take_map)
qed

lemma not_pickable_try_set: "\<not> pickable_for_compaction t \<Longrightarrow> \<not> pickable_for_compaction (try_set_compaction_state c t)"
  using try_set_rank [of t c] by (simp add: pickable_for_compaction_def state_rank_iff)

lemma inv_fail:
  assumes i: "i < length (ps_tasks ps)" and inv: "lsm_inv xxh L ub (ps, st, m)"
  shows "lsm_inv xxh L ub (fail_task i ps, st, m)"
proof -
  from inv obtain H C where I: "struct_inv L ps H" "levels_busy L ps H" "order_ok xxh st ub C (old_to_new ps)"
      "outputs_ok xxh st ub C (old_to_new ps) (ps_tasks ps)" "m = (\<lambda>k. live_value (tree_map C (old_to_new ps) k))"
    unfolding lsm_inv_def prod.case by (elim exE conjE)
  let ?ct = "ps_tasks ps ! i" and ?n = "ct_next_can_write (ps_tasks ps ! i)"
  let ?g = "\<lambda>t. if sst_file t \<in> set (map sst_file (ct_inputs ?ct)) then try_set_compaction_state COMPACTION_ERROR t else t"
  let ?H = "\<lambda>l. map (\<lambda>it. (fst it \<and> ct_next_can_write (snd it) \<noteq> ?n, snd it)) (H l)"
  let ?ps = "ps\<lparr>ps_tasks := without_task ?n (ps_tasks ps)\<rparr>"
  have fail: "fail_task i ps = ?ps\<lparr>ps_levels := map (map ?g) (ps_levels ps), ps_levels_seq_num := ps_levels_seq_num ?ps\<rparr>"
    using without_task_remove [OF I(1) i] by (simp add: fail_task_def Let_def)
  have len: "length (ps_levels ps) = L" using I(1) by (simp add: struct_inv_def)
  have core: "core (?g t) = core t" for t by simp
  then have "core \<circ> ?g = core" by auto
  then have order: "old_to_new (fail_task i ps) = old_to_new ps"
    unfolding fail old_to_new_def map_levels by (simp add: comp_assoc [symmetric])
  have "struct_inv L (fail_task i ps) ?H"
    unfolding fail by (rule struct_inv_levels [OF struct_inv_fail [OF I(1)]]) (simp_all add: len)
  moreover have "levels_busy L (fail_task i ps) ?H"
  proof -
    have "busy_ok (map ?g (ps_levels ps ! l)) (H l)" if l: "l < L" for l
    proof (rule busy_ok_map)
      show "busy_ok (ps_levels ps ! l) (H l)" using I(2) l by (simp add: levels_busy_def)
      fix t assume "t \<in> set (ps_levels ps ! l)"
      then have "t \<in> set (concat (ps_levels ps))" using nth_mem [of l "ps_levels ps"] l len by auto
      then show "pickable_for_compaction (?g t) = pickable_for_compaction t"
        using input_busy [OF I(1,2) _ nth_mem [OF i]] I(3) not_pickable_try_set by (simp add: order_ok_def)
    qed (rule core)
    moreover have "busy_ok level (?H l) = busy_ok level (H l)" for level l by (simp add: busy_ok_def history_inputs_def comp_def)
    ultimately show ?thesis using len by (simp add: levels_busy_def fail)
  qed
  moreover have "outputs_ok xxh st ub C (old_to_new ps) (ps_tasks (fail_task i ps))"
    by (rule outputs_ok_subset [OF I(4)]) (auto simp: fail without_task_def)
  ultimately show ?thesis using I(3,5) unfolding lsm_inv_def prod.case order by blast
qed

subsection \<open>A commit\<close>

text \<open>A permit reaches only the oldest bucket of the level.\<close>

lemma permit_first:
  assumes "chain_ok ps l h" "(a, c) \<in> set h" "0 < ps_semaphores ps ! ct_can_write c"
  shows "\<exists>h2. h = (a, c) # h2"
proof -
  obtain j where j: "j < length h" "h ! j = (a, c)" using assms(2) by (metis in_set_conv_nth)
  have counts: "map ((!) (ps_semaphores ps)) (chain_sems ps l h) = 1 # replicate (length h) 0" using assms(1) by (simp add: chain_ok_def)
  have len: "length (chain_sems ps l h) = Suc (length h)" by (simp add: chain_sems_def)
  have "chain_sems ps l h ! j = ct_can_write c" using j by (simp add: chain_sems_def nth_append)
  then have "(1 # replicate (length h) (0::nat)) ! j = ps_semaphores ps ! ct_can_write c"
    using counts j(1) len by (metis less_SucI nth_map)
  then have "j = 0" using assms(3) j(1) by (cases j) simp_all
  then show ?thesis using j by (cases h) auto
qed

lemma commit_chain_counts:
  fixes sems :: "nat list"
  assumes "map ((!) sems) (a # b # rest) = 1 # 0 # replicate n 0" "distinct (a # b # rest)" "set (a # b # rest) \<subseteq> {..<length sems}"
  defines "sems' \<equiv> (sems[a := sems ! a - 1])[b := sems[a := sems ! a - 1] ! b + 1]"
  shows "map ((!) sems') (b # rest) = 1 # replicate n 0" "c \<notin> {a, b} \<Longrightarrow> sems' ! c = sems ! c"
proof -
  have "a \<noteq> x \<and> b \<noteq> x" if "x \<in> set rest" for x using assms(2) that by auto
  then have "map ((!) sems') rest = map ((!) sems) rest" unfolding sems'_def by (intro map_cong) simp_all
  moreover have "sems' ! b = 1" using assms(1,2,3) by (auto simp: sems'_def)
  ultimately show "map ((!) sems') (b # rest) = 1 # replicate n 0" using assms(1) by (simp del: map_eq_conv)
qed (simp add: sems'_def)

lemma commit_levels_nth:
  assumes "length levels = L" "l + 1 < L" "filter (\<lambda>t. sst_file t \<notin> set (map sst_file ins)) (levels ! l) = rest"
  shows "commit_levels L l ins out levels = levels[l := rest, l + 1 := levels ! (l + 1) @ [out]]"
  using assms by (simp add: commit_levels_def Let_def min_absorb1)

lemma old_to_new_two:
  assumes "l + 1 < length levels"
  shows "concat (rev levels) = concat (rev (drop (l + 2) levels)) @ levels ! (l + 1) @ levels ! l @ concat (rev (take l levels))"
proof -
  have "levels = take l levels @ levels ! l # levels ! (l + 1) # drop (l + 2) levels"
    using assms id_take_nth_drop [of l levels] id_take_nth_drop [of 0 "drop (Suc l) levels"] by simp
  then have "concat (rev levels) = concat (rev (take l levels @ levels ! l # levels ! (l + 1) # drop (l + 2) levels))"
    by (rule arg_cong)
  then show ?thesis by simp
qed

lemma commit_filter:
  assumes "map core level = map core ins @ Z" "distinct (map sst_file level)"
  shows "filter (\<lambda>t. sst_file t \<notin> set (map sst_file ins)) level = drop (length ins) level"
proof -
  let ?n = "length ins"
  have take: "map core (take ?n level) = map core ins" using assms(1) by (metis append_eq_conv_conj length_map take_map)
  have "map sst_file (map core (take ?n level)) = map sst_file (map core ins)" by (simp only: take)
  then have files: "map sst_file (take ?n level) = map sst_file ins" by (simp add: comp_def)
  have "distinct (map sst_file (take ?n level) @ map sst_file (drop ?n level))"
    using assms(2) by (simp add: map_append [symmetric] del: map_append distinct_append)
  then have "sst_file t \<notin> set (map sst_file ins)" if "t \<in> set (drop ?n level)" for t
    using that unfolding files [symmetric] distinct_append by (metis IntI emptyE image_eqI list.set_map)
  moreover have "sst_file t \<in> set (map sst_file ins)" if "t \<in> set (take ?n level)" for t
    using that unfolding files [symmetric] by simp
  ultimately have "filter (\<lambda>t. sst_file t \<notin> set (map sst_file ins)) (take ?n level @ drop ?n level) = drop ?n level"
    by (simp add: filter_id_conv del: append_take_drop_id set_map)
  then show ?thesis by simp
qed

lemma busy_ok_drop:
  assumes "busy_ok level (it # h)"
  shows "busy_ok (drop (length (ct_inputs (snd it))) level) h"
proof -
  let ?n = "length (ct_inputs (snd it))" and ?d = "length (history_inputs h)"
  have all: "history_inputs (it # h) = ct_inputs (snd it) @ history_inputs h" by (simp add: history_inputs_def)
  have "map core (take (?n + ?d) level) = map core (ct_inputs (snd it)) @ map core (history_inputs h)"
    using assms by (simp add: busy_ok_def all)
  then have "drop ?n (map core (take (?n + ?d) level)) = map core (history_inputs h)" by simp
  then have "map core (take ?d (drop ?n level)) = map core (history_inputs h)" by (simp add: drop_map drop_take)
  then show ?thesis using assms by (auto simp: busy_ok_def free_from_def all)
qed

text \<open>The output takes the place of the inputs in the order of the tree.\<close>

lemma table_ok_core: "table_ok xxh st ub C (core t) = table_ok xxh st ub C t"
  by (simp add: table_ok_def)

lemma replace_block_order:
  assumes order: "order_ok xxh st ub C (X @ map core ins @ Y)" and ne: "ins \<noteq> []"
    and out: "output_ok xxh st ub C (X @ map core ins @ Y) ct t" and ins: "ct_inputs ct = ins"
  shows "order_ok xxh st ub C (X @ [core t] @ Y)"
proof -
  have t: "table_ok xxh st ub C (core t)" "sst_file t \<notin> sst_file ` set (X @ map core ins @ Y)"
    "sst_epoch t = Min (sst_epoch ` set ins)" using out ins unfolding table_ok_core by (simp_all add: output_ok_def)
  then have "sst_epoch t \<in> sst_epoch ` set ins" using ne by (metis Min_in List.finite_set finite_imageI image_is_empty set_empty)
  then obtain s where s: "s \<in> set ins" "sst_epoch t = sst_epoch s" by auto
  have "sorted_wrt (<) (map sst_epoch (X @ [core t] @ Y))"
    using order s unfolding order_ok_def by (auto simp: sorted_wrt_append)
  moreover have "distinct (map sst_file (X @ [core t] @ Y))" using order t(2) unfolding order_ok_def by auto
  ultimately show ?thesis using order t(1) by (auto simp: order_ok_def)
qed

lemma tree_map_append: "tree_map C (xs @ ys) k = (case tree_map C ys k of None \<Rightarrow> tree_map C xs k | Some v \<Rightarrow> Some v)"
  by (simp add: tree_map_def map_add_def split: option.split)

lemma tree_map_core: "tree_map C (map core ts) k = tree_map C ts k"
  by (simp add: tree_map_def rev_map comp_def)

lemma replace_block_map:
  assumes order: "order_ok xxh st ub C (X @ map core ins @ Y)"
    and out: "output_ok xxh st ub C (X @ map core ins @ Y) ct t" and ins: "ct_inputs ct = ins"
    and discard: "ct_discard_deleted_keys ct \<Longrightarrow> X = []"
  shows "live_value (tree_map C (X @ [core t] @ Y) k) = live_value (tree_map C (X @ map core ins @ Y) k)"
proof -
  let ?kvsl = "map (\<lambda>t. C (sst_file t)) ins"
  have C: "C (sst_file t) = merged_pairs (ct_discard_deleted_keys ct) ?kvsl (map sst_epoch ins)" using out ins by (simp add: output_ok_def)
  have "sorted_wrt (<) (map sst_epoch (map core ins))" using order unfolding order_ok_def by (auto simp: sorted_wrt_append)
  then have sorted: "sorted_wrt (<) (map sst_epoch ins)" by (simp add: comp_def)
  have "table_ok xxh st ub C (core s)" if "s \<in> set ins" for s using order that by (simp add: order_ok_def)
  then have "table_holds xxh (fd_data st) s (C (sst_file s))" if "s \<in> set ins" for s using that by (simp add: table_ok_def)
  then have pairs: "\<forall>kvs \<in> set ?kvsl. sorted_wrt (<) (map fst kvs)" using table_holds_pairs(1) by fastforce
  have olds: "tree_map C ins k = map_of (concat (rev ?kvsl)) k" by (simp add: tree_map_def rev_map)
  have "tree_map C [core t] k = (case tree_map C ins k of None \<Rightarrow> None
      | Some v \<Rightarrow> if ct_discard_deleted_keys ct \<and> dead_value v then None else Some v)"
    using merged_pairs_lookup [OF _ sorted pairs, of "ct_discard_deleted_keys ct" k] unfolding olds by (simp add: tree_map_def C)
  moreover have "tree_map C [] k = None" by (simp add: tree_map_def)
  ultimately show ?thesis
    using discard unfolding tree_map_append tree_map_core by (auto simp: live_value_def split: option.split)
qed

lemma replace_block_outputs:
  assumes outs: "outputs_ok xxh st ub C (X @ map core ins @ Y) cts" and ct: "ct \<in> set cts" "ct_output ct = Some t"
    and rest: "set cts' \<subseteq> set cts" "\<forall>ct' \<in> set cts'. ct_next_can_write ct' \<noteq> ct_next_can_write ct"
  shows "outputs_ok xxh st ub C (X @ [core t] @ Y) cts'"
proof -
  have "output_ok xxh st ub C (X @ [core t] @ Y) ct' t'" if "ct' \<in> set cts'" "ct_output ct' = Some t'" for ct' t'
  proof -
    have old: "output_ok xxh st ub C (X @ map core ins @ Y) ct' t'" using outs that rest(1) unfolding outputs_ok_def by blast
    have "sst_file t' \<noteq> sst_file t" using outs that rest ct unfolding outputs_ok_def by blast
    then have "sst_file t' \<notin> sst_file ` set (X @ [core t] @ Y)" using old by (auto simp: output_ok_def)
    then show ?thesis using old by (simp add: output_ok_def)
  qed
  then show ?thesis using outs rest(1) unfolding outputs_ok_def by blast
qed

text \<open>The chain of semaphores after the first task of a level has committed.\<close>

lemma without_task_id: "\<forall>ct \<in> set cts. ct_next_can_write ct \<noteq> n \<Longrightarrow> without_task n cts = cts"
  by (simp add: without_task_def)

lemma chain_next_in:
  assumes "chain_ok ps l h" "it \<in> set h"
  shows "ct_next_can_write (snd it) \<in> set (tl (chain_sems ps l h))"
  using assms unfolding chain_ok_def by (metis (no_types, lifting) image_eqI list.set_map)

lemma chain_sems_Cons:
  assumes "chain_ok ps l (it # h)"
  shows "chain_sems ps l (it # h) = ct_can_write (snd it) # chain_sems ps l h"
    "hd (chain_sems ps l h) = ct_next_can_write (snd it)" "chain_sems ps l h \<noteq> []"
proof -
  show "chain_sems ps l (it # h) = ct_can_write (snd it) # chain_sems ps l h" by (simp add: chain_sems_def)
  show ne: "chain_sems ps l h \<noteq> []" by (simp add: chain_sems_def)
  have "ct_next_can_write (snd it) # map (\<lambda>it. ct_next_can_write (snd it)) h = chain_sems ps l h"
    using assms by (simp add: chain_ok_def chain_sems_def)
  then show "hd (chain_sems ps l h) = ct_next_can_write (snd it)" by (metis list.sel(1))
qed

definition after_commit :: "compaction_task \<Rightarrow> sst list list \<Rightarrow> partition_state \<Rightarrow> partition_state" where
  "after_commit ct levels ps =
     (let sems = (ps_semaphores ps)[ct_can_write ct := ps_semaphores ps ! ct_can_write ct - 1]
      in ps\<lparr>ps_levels := levels, ps_levels_seq_num := ps_levels_seq_num ps + 1,
            ps_semaphores := sems[ct_next_can_write ct := sems ! ct_next_can_write ct + 1],
            ps_tasks := without_task (ct_next_can_write ct) (ps_tasks ps)\<rparr>)"

lemma after_commit_sems:
  assumes struct: "struct_inv L ps H" and l: "l < L" and h: "H l = (True, strip ct) # h2" and k: "k < L"
  shows "map ((!) (ps_semaphores (after_commit ct levels ps))) (chain_sems ps k ((H(l := h2)) k)) = 1 # replicate (length ((H(l := h2)) k)) 0"
proof -
  have chains: "chain_ok ps l (H l)" "chain_ok ps k (H k)" and sems: "sems_ok L ps H"
    using struct l k by (simp_all add: struct_inv_def)
  note c = chain_sems_Cons [OF chains(1) [unfolded h]]
  let ?a = "ct_can_write ct" and ?b = "ct_next_can_write ct"
  obtain rest where rest: "chain_sems ps l h2 = ?b # rest" using c(2,3) by (cases "chain_sems ps l h2") simp_all
  then have full: "chain_sems ps l (H l) = ?a # ?b # rest" using c(1) h by simp
  have len: "length h2 = length rest" using arg_cong [OF rest, of length] by (simp add: chain_sems_def)
  have "map ((!) (ps_semaphores ps)) (?a # ?b # rest) = 1 # 0 # replicate (length rest) 0"
    using chains(1) full by (simp add: chain_ok_def h len)
  moreover have "distinct (?a # ?b # rest)" "set (?a # ?b # rest) \<subseteq> {..<length (ps_semaphores ps)}"
    using sems l full unfolding sems_ok_def by metis+
  ultimately have counts: "map ((!) (ps_semaphores (after_commit ct levels ps))) (?b # rest) = 1 # replicate (length rest) 0"
    "\<And>c. c \<notin> {?a, ?b} \<Longrightarrow> ps_semaphores (after_commit ct levels ps) ! c = ps_semaphores ps ! c"
    using commit_chain_counts [of "ps_semaphores ps" ?a ?b rest "length rest"] by (simp_all add: after_commit_def Let_def)
  show ?thesis
  proof (cases "k = l")
    case True
    then show ?thesis using counts(1) rest len by simp
  next
    case False
    have "set (chain_sems ps l (H l)) \<inter> set (chain_sems ps k (H k)) = {}" using sems l k False unfolding sems_ok_def by metis
    then have "c \<notin> {?a, ?b}" if "c \<in> set (chain_sems ps k (H k))" for c using that full by auto
    then have "map ((!) (ps_semaphores (after_commit ct levels ps))) (chain_sems ps k (H k)) = map ((!) (ps_semaphores ps)) (chain_sems ps k (H k))"
      using counts(2) by (intro map_cong) simp_all
    then show ?thesis using chains(2) False by (simp add: chain_ok_def del: map_eq_conv)
  qed
qed

lemma after_commit_tasks:
  assumes struct: "struct_inv L ps H" and l: "l < L" and h: "H l = (True, strip ct) # h2" and k: "k < L"
  shows "without_task (ct_next_can_write ct) (map snd (filter fst (H k))) = map snd (filter fst ((H(l := h2)) k))"
proof -
  have chains: "chain_ok ps l (H l)" "chain_ok ps k (H k)" and sems: "sems_ok L ps H"
    using struct l k by (simp_all add: struct_inv_def)
  note c = chain_sems_Cons [OF chains(1) [unfolded h]]
  let ?b = "ct_next_can_write ct"
  obtain rest where rest: "chain_sems ps l h2 = ?b # rest" using c(2,3) by (cases "chain_sems ps l h2") simp_all
  have d: "distinct (chain_sems ps l (H l))" using sems l by (simp add: sems_ok_def)
  have nexts: "map (\<lambda>it. ct_next_can_write (snd it)) (H l) = tl (chain_sems ps l (H l))" using chains(1) by (simp add: chain_ok_def)
  show ?thesis
  proof (cases "k = l")
    case True
    have "map (\<lambda>it. ct_next_can_write (snd it)) h2 = rest" using nexts rest c(1) h by simp
    moreover have "?b \<notin> set rest" using d rest c(1) h by simp
    ultimately have "ct_next_can_write (snd it) \<noteq> ?b" if "it \<in> set h2" for it using that by (metis (mono_tags, lifting) image_eqI list.set_map)
    then have "without_task ?b (map snd (filter fst h2)) = map snd (filter fst h2)" by (intro without_task_id) auto
    then show ?thesis using True by (simp add: h without_task_def)
  next
    case False
    have "set (chain_sems ps l (H l)) \<inter> set (chain_sems ps k (H k)) = {}" using sems l k False unfolding sems_ok_def by metis
    moreover have "?b \<in> set (chain_sems ps l (H l))" using rest c(1) h by simp
    ultimately have "ct_next_can_write (snd it) \<noteq> ?b" if "it \<in> set (H k)" for it
      using chain_next_in [OF chains(2) that] list.set_sel(2) [of "chain_sems ps k (H k)"] by (cases "chain_sems ps k (H k)") auto
    then show ?thesis using False by (simp, intro without_task_id) auto
  qed
qed

lemma struct_inv_commit:
  assumes struct: "struct_inv L ps H" and l: "l + 1 < L" and h: "H l = (True, strip ct) # h2"
    and levels: "length levels = L" "\<And>k. k < L \<Longrightarrow> k \<noteq> l + 1 \<Longrightarrow> ps_levels ps ! k = [] \<Longrightarrow> levels ! k = []"
  shows "struct_inv L (after_commit ct levels ps) (H(l := h2))" (is "struct_inv L ?ps ?H")
proof -
  have inv: "2 \<le> L" "length (ps_permissions ps) = L" "length (ps_created ps) = L" "\<forall>l < L. chain_ok ps l (H l)"
      "H (L - 1) = []" "sems_ok L ps H" "tasks_ok L ps" "created_ok L ps H"
    using struct by (simp_all add: struct_inv_def)
  have "l < L" using l by simp
  have fields: "ps_permissions ?ps = ps_permissions ps" "ps_created ?ps = ps_created ps" "ps_levels ?ps = levels"
      "length (ps_semaphores ?ps) = length (ps_semaphores ps)" "ps_tasks ?ps = without_task (ct_next_can_write ct) (ps_tasks ps)"
    by (simp_all add: after_commit_def Let_def)
  have sems: "chain_sems ?ps k g = chain_sems ps k g" for k g by (simp add: chain_sems_def fields)
  have sub: "set (chain_sems ps k (?H k)) \<subseteq> set (chain_sems ps k (H k))" for k by (auto simp: chain_sems_def h)
  have "chain_ok ?ps k (?H k)" if k: "k < L" for k
  proof -
    have c: "chain_ok ps k (H k)" using inv(4) k by simp
    have "map snd (filter fst (?H k)) = map strip (filter (\<lambda>ct. ct_level ct = k) (ps_tasks ?ps))"
      using after_commit_tasks [OF struct \<open>l < L\<close> h k] c unfolding chain_ok_def fields without_task_level by simp
    moreover have "\<forall>it \<in> set (?H k). ct_level (snd it) = k \<and> ct_inputs (snd it) \<noteq> []"
      using c h by (auto simp: chain_ok_def split: if_splits)
    moreover have "map (\<lambda>it. ct_next_can_write (snd it)) (?H k) = tl (chain_sems ?ps k (?H k))"
    proof (cases "k = l")
      case True
      then have "ct_next_can_write ct # map (\<lambda>it. ct_next_can_write (snd it)) h2 = chain_sems ps l h2"
        using c h by (simp add: chain_ok_def chain_sems_def)
      then show ?thesis using True by (simp add: sems) (metis list.sel(3))
    qed (use c in \<open>simp add: chain_ok_def sems\<close>)
    ultimately show ?thesis using after_commit_sems [OF struct \<open>l < L\<close> h k, of levels] by (simp add: chain_ok_def sems)
  qed
  moreover have "sems_ok L ?ps ?H"
  proof -
    have "chain_sems ps l (H l) = ct_can_write ct # chain_sems ps l h2" by (simp add: chain_sems_def h)
    moreover have "distinct (chain_sems ps k (H k))" if "k < L" for k using inv(6) that by (simp add: sems_ok_def)
    ultimately have "distinct (chain_sems ps k (?H k))" if "k < L" for k
      using that by (cases "k = l") (metis distinct.simps(2) fun_upd_same, simp)
    then show ?thesis using inv(6) sub unfolding sems_ok_def sems fields by blast
  qed
  moreover have "tasks_ok L ?ps" using tasks_ok_without [OF inv(7)] by (simp add: tasks_ok_def fields)
  moreover have "created_ok L ?ps ?H"
  proof -
    have "levels ! (k + 1) = [] \<and> ?H k = []" if "k + 1 < L" "\<not> ps_created ps ! (k + 1)" for k
      using that inv(8) h levels(2) [of "k + 1"] by (auto simp: created_ok_def)
    moreover have "j = 0 \<and> k + 2 = L \<and> levels ! (L - 1) = []"
      if "k < L" "j < length (?H k)" "ct_discard_deleted_keys (snd (?H k ! j))" for k j
    proof (cases "k = l")
      case True
      then have "Suc j < length (H l)" "ct_discard_deleted_keys (snd (H l ! Suc j))" using that h by simp_all
      then show ?thesis using inv(8) \<open>l < L\<close> unfolding created_ok_def by (metis nat.distinct(1))
    next
      case False
      then have "j = 0" "k + 2 = L" "ps_levels ps ! (L - 1) = []" using inv(8) that by (auto simp: created_ok_def)
      then show ?thesis using levels(2) [of "L - 1"] False by auto
    qed
    ultimately show ?thesis unfolding created_ok_def fields by blast
  qed
  moreover have "?H (L - 1) = []" using inv(5) l by auto
  ultimately show ?thesis using inv(1-3) levels(1) unfolding struct_inv_def by (simp add: fields)
qed

lemma inv_commit:
  assumes can: "can_commit i ps" and inv: "lsm_inv xxh L ub (ps, st, m)"
  shows "lsm_inv xxh L ub (commit_task L i ps, st, m)"
proof -
  from inv obtain H C where I: "struct_inv L ps H" "levels_busy L ps H" "order_ok xxh st ub C (old_to_new ps)"
      "outputs_ok xxh st ub C (old_to_new ps) (ps_tasks ps)" "m = (\<lambda>k. live_value (tree_map C (old_to_new ps) k))"
    unfolding lsm_inv_def prod.case by (elim exE conjE)
  define ct where "ct = ps_tasks ps ! i"
  let ?l = "ct_level ct" and ?ins = "ct_inputs ct"
  let ?level = "ps_levels ps ! ?l" and ?levels = "ps_levels ps"
  from can obtain t where i: "i < length (ps_tasks ps)" and t: "ct_output ct = Some t" and permit: "0 < ps_semaphores ps ! ct_can_write ct"
    by (auto simp: can_commit_def ct_def)
  have task: "ct \<in> set (ps_tasks ps)" using i by (simp add: ct_def)
  note h = task_in_history [OF I(1) task]
  have len: "length ?levels = L" using I(1) by (simp add: struct_inv_def)
  have chain: "chain_ok ps ?l (H ?l)" and d: "distinct (chain_sems ps ?l (H ?l))"
    using I(1) h(2) by (simp_all add: struct_inv_def sems_ok_def)
  obtain h2 where h2: "H ?l = (True, strip ct) # h2" using permit_first [OF chain h(1)] permit by auto
  have busy: "busy_ok ?level ((True, strip ct) # h2)" using I(2) h(2) h2 by (simp add: levels_busy_def flip: h2)
  obtain Z where Z: "map core ?level = map core ?ins @ Z"
    using history_block [OF busy, of "[]" "(True, strip ct)" h2] by (auto simp: history_inputs_def)
  let ?rest = "drop (length ?ins) ?level"
  let ?new = "?levels[?l := ?rest, ?l + 1 := ?levels ! (?l + 1) @ [t]]"
  let ?X = "map core (concat (rev (drop (?l + 2) ?levels))) @ map core (?levels ! (?l + 1))"
  let ?Y = "map core ?rest @ map core (concat (rev (take ?l ?levels)))"
  have "distinct (map sst_file (map core (concat (rev ?levels))))" using I(3) by (simp add: order_ok_def old_to_new_def)
  then have "distinct (map sst_file ?level)" unfolding old_to_new_two [OF h(2) [folded len]] by (simp add: comp_def)
  note rest = commit_filter [OF Z this]
  have commit: "commit_task L i ps = after_commit ct ?new ps"
    using commit_levels_nth [OF len h(2) rest, of t] without_task_remove [OF I(1) i] t
    by (simp add: commit_task_def after_commit_def Let_def ct_def)
  have Z': "Z = map core ?rest" using Z by (metis append_eq_conv_conj drop_map length_map)
  have old: "old_to_new ps = ?X @ map core ?ins @ ?Y"
    using Z Z' old_to_new_two [OF h(2) [folded len]] by (simp add: old_to_new_def)
  have new: "old_to_new (commit_task L i ps) = ?X @ [core t] @ ?Y"
    using old_to_new_two [of ?l ?new] h(2) len by (simp add: old_to_new_def commit after_commit_def Let_def)
  have out: "output_ok xxh st ub C (old_to_new ps) ct t" using I(4) task t unfolding outputs_ok_def by blast
  have ne: "?ins \<noteq> []" using chain h2 by (simp add: chain_ok_def)
  have discard: "?X = []" if "ct_discard_deleted_keys ct"
  proof -
    have "ct_discard_deleted_keys (snd (H ?l ! 0))" "0 < length (H ?l)" using that h2 by simp_all
    then have "?l + 2 = L" "?levels ! (L - 1) = []" using I(1) h(2) unfolding struct_inv_def created_ok_def by (metis add_lessD1)+
    moreover from this have "L - 1 = ?l + 1" by simp
    ultimately show ?thesis using len by simp
  qed
  have "struct_inv L (commit_task L i ps) (H(?l := h2))"
    unfolding commit using len h(2) by (intro struct_inv_commit [OF I(1) h(2) h2]) (auto simp: nth_list_update)
  moreover have "levels_busy L (commit_task L i ps) (H(?l := h2))"
  proof -
    have "pickable_for_compaction t" using out by (simp add: output_ok_def)
    then have "busy_ok (?levels ! (?l + 1) @ [t]) (H (?l + 1))" using I(2) h(2) busy_ok_snoc by (simp add: levels_busy_def)
    moreover have "busy_ok ?rest h2" using busy_ok_drop [OF busy] by simp
    ultimately show ?thesis using I(2) len h(2) by (auto simp: levels_busy_def commit after_commit_def Let_def nth_list_update)
  qed
  moreover have "order_ok xxh st ub C (?X @ [core t] @ ?Y)"
    by (rule replace_block_order [OF I(3) [unfolded old] ne out [unfolded old] refl])
  moreover have "outputs_ok xxh st ub C (?X @ [core t] @ ?Y) (ps_tasks (commit_task L i ps))"
    by (rule replace_block_outputs [OF I(4) [unfolded old] task t]) (auto simp: commit after_commit_def Let_def without_task_def)
  moreover have "m = (\<lambda>k. live_value (tree_map C (?X @ [core t] @ ?Y) k))"
    unfolding I(5) old by (rule ext) (rule replace_block_map [OF I(3) [unfolded old] out [unfolded old] refl discard, symmetric])
  ultimately show ?thesis unfolding lsm_inv_def prod.case new by blast
qed

section \<open>The tree as a map\<close>

lemma lsm_step_inv:
  assumes "lsm_step xxh io L ub s s'" "kernel_ok io" "lsm_inv xxh L ub s" "lsm_limits L s'"
  shows "lsm_inv xxh L ub s'"
  using assms
proof (cases rule: lsm_step.cases)
  case (Other st st' ps m)
  then show ?thesis using inv_files assms(3) by blast
next
  case (Arrive st st' t kvs ps m)
  then show ?thesis using inv_arrive assms(3) by blast
next
  case (Schedule mn mx ps st m)
  then have "\<forall>ct \<in> set (ps_tasks (schedule_partition L mn mx ps)). ct_level ct + 1 < L" using assms(4) by (simp add: lsm_limits_def)
  then show ?thesis using inv_schedule assms(3) Schedule by blast
next
  case (Merge i ps ct rd st fuel cfg n env fi t st' m)
  have "ct\<lparr>ct_output := Some t\<rparr> \<in> set (ps_tasks (set_output i t ps))"
    using Merge by (auto simp: set_output_def in_set_conv_nth intro!: exI [of _ i])
  then have "0 < tables_size (ct_inputs ct)" "tables_size (ct_inputs ct) \<le> 2 ^ 22"
    using assms(4) Merge(2) unfolding lsm_limits_def by fastforce+
  then show ?thesis using inv_merge [OF assms(2)] assms(3) Merge by blast
next
  case (Commit i ps st m)
  then show ?thesis using inv_commit assms(3) by blast
next
  case (Fail i ps st m)
  then show ?thesis using inv_fail assms(3) by blast
qed

lemma lsm_reachable_inv:
  assumes "lsm_reachable xxh io L ub st0 s" "2 \<le> L" "kernel_ok io"
  shows "lsm_inv xxh L ub s"
  using assms(1) unfolding lsm_reachable_def
proof (induction rule: rtranclp_induct)
  case base
  then show ?case by (rule lsm_inv_init [OF assms(2)])
next
  case (step s s')
  then show ?case using lsm_step_inv [OF _ assms(3)] by blast
qed

text \<open>
  C1: The levels of a partition implement a map from keys to values. The state changes by tables that
  arrive from the memtable, each with a higher epoch than those before, by rounds of scheduling, by
  merges that end in any order, by commits that the semaphores allow, and by failed merges. Whatever
  the order of these steps, a lookup in the tree succeeds, and it gives the last value written for
  the key, or nothing (or a tombstone) if there is none or it was deleted. This holds as long as the
  run stays within \<open>lsm_limits\<close>: no round has picked tables of the lowest level, whose merge may
  hide newer values (\<open>commit_levels\<close> puts its output behind them), and the inputs of each merge that
  ended have between 1 and \<open>2 ^ 22\<close> pairs.
\<close>

theorem lsm_lookup:
  assumes "2 \<le> L" "kernel_ok io" "lsm_reachable xxh io L ub st0 (ps, st, m)" "reads_files rd (fd_data st)"
  shows "\<exists>r. levels_lookup xxh rd path_of key (ps_levels ps) = Inr r
    \<and> (case m key of None \<Rightarrow> r = None \<or> r = Some Tombstone | Some v \<Rightarrow> \<exists>w. value_from_span v = Inr w \<and> r = Some w)"
  by (rule lsm_inv_lookup [OF lsm_reachable_inv [OF assms(3,1,2)] assms(4)])

text \<open>A run with all steps but the failure: two tables arrive, are scheduled, merged and committed.\<close>

definition sample_manager_config :: manager_config where
  "sample_manager_config = \<lparr>cf_num_partition_exponent = 0, cf_max_num_levels = 2, cf_min_merge_width = 2, cf_max_merge_width = 8,
     cf_compaction_read_ahead_size_bytes = 8192, cf_use_odirect_for_ssts = False, cf_ssts_in_l0_block_write_threshold = None,
     cf_partitions_path = ''db''\<rparr>"

definition marked :: "sst \<Rightarrow> sst" where
  "marked t = try_set_compaction_state IN_COMPACTION t"

definition sample_task :: "sst \<Rightarrow> sst \<Rightarrow> compaction_task" where
  "sample_task t1 t2 = \<lparr>ct_can_write = 0, ct_next_can_write = 2, ct_level = 0, ct_inputs = [marked t1, marked t2],
     ct_discard_deleted_keys = True, ct_output = None\<rparr>"

definition sample_levels :: "sst list \<Rightarrow> nat \<Rightarrow> partition_state" where
  "sample_levels ts n = \<lparr>ps_levels = [ts, []], ps_permissions = [0, 1], ps_created = [False, False], ps_levels_seq_num = n,
     ps_semaphores = [1, 1], ps_tasks = []\<rparr>"

definition sample_scheduled :: "sst \<Rightarrow> sst \<Rightarrow> partition_state" where
  "sample_scheduled t1 t2 = \<lparr>ps_levels = [[marked t1, marked t2], []], ps_permissions = [2, 1], ps_created = [False, True],
     ps_levels_seq_num = 2, ps_semaphores = [1, 1, 0], ps_tasks = [sample_task t1 t2]\<rparr>"

lemma schedule_two:
  assumes "pickable_for_compaction t1" "pickable_for_compaction t2"
  shows "schedule_partition 2 2 8 (sample_levels [t1, t2] 2) = sample_scheduled t1 t2"
proof -
  have m: "\<not> pickable_for_compaction (marked t1)" "\<not> pickable_for_compaction (marked t2)"
    using assms by (simp_all add: marked_def try_set_compaction_state_def set_compaction_state_def pickable_for_compaction_def)
  have "skip_non_pickable [t1, t2] 0 = 0" using assms by (subst skip_non_pickable.simps) simp
  moreover have "skip_non_pickable [marked t1, marked t2] 1 = 2"
    using m by (subst skip_non_pickable.simps, simp, subst skip_non_pickable.simps) simp
  then have "bucket_loop 2 8 [t1, t2] 1 [0] [] = ([marked t1, marked t2], [[0, 1]])"
    using assms by (subst bucket_loop.simps) (simp add: Let_def emit_candidates_def mark_in_compaction_def marked_def)
  ultimately have "create_buckets_from_level 2 8 [t1, t2] = ([marked t1, marked t2], [[0, 1]])"
    by (simp add: create_buckets_from_level_def)
  moreover have "create_buckets_from_level 2 8 [] = ([], [])" by (simp add: create_buckets_from_level_def)
  ultimately show ?thesis
    by (simp add: schedule_partition_def pick_ssts_into_buckets_def sample_levels_def sample_scheduled_def sample_task_def
        launch_level_def launch_bucket_def Let_def)
qed

lemma exported_new_table:
  assumes "exported sample_xxh path st es t st'" "sst_upper_bound t = 7" "length (key_runs es) < 2 ^ 64"
  shows "new_table sample_xxh 7 st st' t (key_runs es)" "keeps_open st st'"
proof -
  have w: "wrote_table sample_xxh path st (key_runs es) t st'" using assms(1) by (simp add: exported_def)
  then have a: "adds_file path (sst_file t) st st'" by (simp add: wrote_table_def)
  have "sst_file t \<notin> fst ` set (fs_fds st)" using a unfolding adds_file_def by blast
  then show "new_table sample_xxh 7 st st' t (key_runs es)"
    using w wrote_table_pickable [OF w] assms(2,3) adds_file_names(2) [OF a] by (simp add: new_table_def wrote_table_def)
  show "keeps_open st st'" by (rule extends_keeps_open [OF adds_file_extends [OF a]])
qed

lemma sample_arrivals:
  obtains t1 st1 t2 st2 where "new_table sample_xxh 7 empty_fs st1 t1 (key_runs [sample_entry])" "keeps_open empty_fs st1"
    "new_table sample_xxh 7 st1 st2 t2 (key_runs [sample_newer])" "keeps_open st1 st2" "sst_epoch t1 = 3" "sst_epoch t2 = 4"
    "map_of (fs_dir st2) (merge_path sample_cfg [t1, t2]) = None"
proof -
  obtain t1 st1 where t1: "exported sample_xxh ''p'' empty_fs [sample_entry] t1 st1" "sst_upper_bound t1 = 7" "sst_epoch t1 = 3"
    using export_as_sst_exported [OF kernel_ok_sample_io, of empty_fs "''p''" "[sample_entry]" sample_xxh sample_env 10 7 3 False True]
      exportable_sample io_succeeds_sample_io by (auto simp: empty_fs_def)
  then have a1: "adds_file ''p'' (sst_file t1) empty_fs st1" by (simp add: exported_def wrote_table_def)
  have "map_of (fs_dir st1) ''q'' = None" using adds_file_names(1) [OF a1] by (simp add: empty_fs_def)
  then obtain t2 st2 where t2: "exported sample_xxh ''q'' st1 [sample_newer] t2 st2" "sst_upper_bound t2 = 7" "sst_epoch t2 = 4"
    using export_as_sst_exported [OF kernel_ok_sample_io, of st1 "''q''" "[sample_newer]" sample_xxh sample_env 10 7 4 False True]
      exportable_newer io_succeeds_sample_io by auto
  then have a2: "adds_file ''q'' (sst_file t2) st1 st2" by (simp add: exported_def wrote_table_def)
  have "map_of (fs_dir st2) (merge_path sample_cfg [t1, t2]) = None"
    unfolding adds_file_names(1) [OF a2] adds_file_names(1) [OF a1] merge_path_def sample_cfg_def sst_path_def
    by (auto simp: path_join_def empty_fs_def Let_def format_prefix_def hex2_def)
  moreover have "length (key_runs [sample_entry]) < 2 ^ 64" "length (key_runs [sample_newer]) < 2 ^ 64" by simp_all
  note exported_new_table [OF t1(1,2) this(1)] exported_new_table [OF t2(1,2) this(2)]
  ultimately show ?thesis using that t1(3) t2(3) by blast
qed

lemma sample_reachable:
  assumes "new_table sample_xxh 7 empty_fs st1 t1 kvs1" "keeps_open empty_fs st1"
    "new_table sample_xxh 7 st1 st2 t2 kvs2" "keeps_open st1 st2" "sst_epoch t1 < sst_epoch t2"
  shows "lsm_reachable sample_xxh sample_io 2 7 empty_fs (sample_scheduled t1 t2, st2, put_all kvs2 (put_all kvs1 (\<lambda>_. None)))"
proof -
  let ?step = "lsm_step sample_xxh sample_io 2 7" and ?run = "\<lambda>s s'. lsm_step sample_xxh sample_io 2 7 s s' \<and> lsm_limits 2 s'"
  have "?step (lsm_init 2 empty_fs) (push_table t1 (make_partition_state 2), st1, put_all kvs1 (\<lambda>_. None))"
    unfolding lsm_init_def using assms(1,2) by (intro lsm_step.Arrive) (simp_all add: make_partition_state_def)
  also have "push_table t1 (make_partition_state 2) = sample_levels [t1] 1"
    by (simp add: push_table_def make_partition_state_def sample_levels_def numeral_2_eq_2)
  finally have one: "?step (lsm_init 2 empty_fs) (sample_levels [t1] 1, st1, put_all kvs1 (\<lambda>_. None))" .
  have "?step (sample_levels [t1] 1, st1, put_all kvs1 (\<lambda>_. None))
      (push_table t2 (sample_levels [t1] 1), st2, put_all kvs2 (put_all kvs1 (\<lambda>_. None)))"
    using assms(3-5) by (intro lsm_step.Arrive) (simp_all add: sample_levels_def)
  also have "push_table t2 (sample_levels [t1] 1) = sample_levels [t1, t2] 2" by (simp add: push_table_def sample_levels_def)
  finally have two: "?step (sample_levels [t1] 1, st1, put_all kvs1 (\<lambda>_. None))
      (sample_levels [t1, t2] 2, st2, put_all kvs2 (put_all kvs1 (\<lambda>_. None)))" .
  have "?step (sample_levels [t1, t2] 2, st2, put_all kvs2 (put_all kvs1 (\<lambda>_. None)))
      (schedule_partition 2 2 8 (sample_levels [t1, t2] 2), st2, put_all kvs2 (put_all kvs1 (\<lambda>_. None)))"
    by (rule lsm_step.Schedule) (simp_all add: sample_levels_def)
  then have "?step (sample_levels [t1, t2] 2, st2, put_all kvs2 (put_all kvs1 (\<lambda>_. None)))
      (sample_scheduled t1 t2, st2, put_all kvs2 (put_all kvs1 (\<lambda>_. None)))"
    using schedule_two [of t1 t2] assms(1,3) by (simp add: new_table_def)
  moreover have "lsm_limits 2 (sample_levels ts n, st, m)" "lsm_limits 2 (sample_scheduled t1 t2, st, m)"
    for ts n st and m :: "bytes \<Rightarrow> bytes option"
    by (simp_all add: lsm_limits_def sample_levels_def sample_scheduled_def sample_task_def)
  ultimately have "?run (lsm_init 2 empty_fs) (sample_levels [t1] 1, st1, put_all kvs1 (\<lambda>_. None))"
      "?run (sample_levels [t1] 1, st1, put_all kvs1 (\<lambda>_. None)) (sample_levels [t1, t2] 2, st2, put_all kvs2 (put_all kvs1 (\<lambda>_. None)))"
      "?run (sample_levels [t1, t2] 2, st2, put_all kvs2 (put_all kvs1 (\<lambda>_. None)))
        (sample_scheduled t1 t2, st2, put_all kvs2 (put_all kvs1 (\<lambda>_. None)))"
    using one two by blast+
  from rtranclp.rtrancl_into_rtrancl [OF rtranclp.rtrancl_into_rtrancl [OF r_into_rtranclp [of ?run, OF this(1)] this(2)] this(3)]
  show ?thesis unfolding lsm_reachable_def .
qed

lemma marked_simps [simp]:
  "core (marked t) = core t" "sst_epoch (marked t) = sst_epoch t" "sst_upper_bound (marked t) = sst_upper_bound t"
  "sst_size (marked t) = sst_size t" "table_holds xxh files (marked t) kvs = table_holds xxh files t kvs"
proof -
  show core: "core (marked t) = core t" by (simp add: marked_def)
  show "table_holds xxh files (marked t) kvs = table_holds xxh files t kvs" using core table_holds_core by metis
qed (simp_all add: marked_def try_set_compaction_state_def set_compaction_state_def sst_epoch_def sst_upper_bound_def sst_size_def)

lemma sample_merge:
  assumes t1: "new_table sample_xxh 7 empty_fs st1 t1 (key_runs [sample_entry])" and t2: "new_table sample_xxh 7 st1 st2 t2 (key_runs [sample_newer])"
    and keeps: "keeps_open st1 st2" and epochs: "sst_epoch t1 = 3" "sst_epoch t2 = 4"
    and absent: "map_of (fs_dir st2) (merge_path sample_cfg [t1, t2]) = None"
  obtains t st3 where "merge_task 2 sample_xxh sample_io (\<lambda>f len off. Inr (read_at (fd_data st2 f) off len)) sample_env
      \<lparr>fi_size = \<lambda>_. 4096, fi_direct = \<lambda>_. False\<rparr> sample_manager_config 9 (sample_task t1 t2) st2 = Inr (t, st3)"
    "tables_size (ct_inputs (sample_task t1 t2)) = 2"
    "merge_config_ok (task_merge_config sample_manager_config 9 (sample_task t1 t2)) (ct_inputs (sample_task t1 t2))"
    "map_of (fs_dir st2) (merge_path (task_merge_config sample_manager_config 9 (sample_task t1 t2)) (ct_inputs (sample_task t1 t2))) = None"
proof -
  let ?rd = "\<lambda>f len off. Inr (read_at (fd_data st2 f) off len)" and ?cfg = "task_merge_config sample_manager_config 9 (sample_task t1 t2)"
  let ?ins = "ct_inputs (sample_task t1 t2)" and ?kvsl = "[key_runs [sample_entry], key_runs [sample_newer]]"
  have one: "table_holds sample_xxh (fd_data st2) t1 (key_runs [sample_entry])"
    using t1 keeps table_holds_cong unfolding new_table_def keeps_open_def by metis
  have two: "table_holds sample_xxh (fd_data st2) t2 (key_runs [sample_newer])" using t2 by (simp add: new_table_def)
  have ub: "sst_upper_bound t1 = 7" "sst_upper_bound t2 = 7" using t1 t2 by (simp_all add: new_table_def)
  have m: "mergeable sample_xxh st2 ?ins ?kvsl"
    using one two ub epochs by (simp add: mergeable_def sample_task_def)
  have "sst_size t1 = 1" "sst_size t2 = 1" using one two by (simp_all add: table_holds_def sst_size_def)
  then have "tables_size ?ins = 2" by (simp add: tables_size_def sample_task_def)
  moreover have cfg: "merge_config_ok ?cfg ?ins"
    by (simp add: merge_config_ok_def task_merge_config_def sample_manager_config_def sample_task_def)
  moreover have path: "map_of (fs_dir st2) (merge_path ?cfg ?ins) = None"
    using absent by (simp add: merge_path_def task_merge_config_def sample_manager_config_def sample_cfg_def sample_task_def)
  moreover obtain t st3 where "merge_task 2 sample_xxh sample_io ?rd sample_env \<lparr>fi_size = \<lambda>_. 4096, fi_direct = \<lambda>_. False\<rparr>
      sample_manager_config 9 (sample_task t1 t2) st2 = Inr (t, st3)"
    using k_way_merge_async2_written [OF kernel_ok_sample_io _ m cfg _ path, of ?rd 2 sample_env "\<lparr>fi_size = \<lambda>_. 4096, fi_direct = \<lambda>_. False\<rparr>"]
      io_succeeds_sample_io by (auto simp: merge_task_def reads_files_def)
  ultimately show ?thesis using that by blast
qed

theorem lsm_lookup_witness:
  "\<exists>ps st m. lsm_reachable sample_xxh sample_io 2 7 empty_fs (ps, st, m) \<and> length (concat (ps_levels ps)) = 1 \<and> ps_tasks ps = []
    \<and> levels_lookup sample_xxh (\<lambda>f len off. Inr (read_at (fd_data st f) off len)) (\<lambda>_. []) [1, 2] (ps_levels ps) = Inr (Some (In_Place [8]))"
proof -
  obtain t1 st1 t2 st2 where t: "new_table sample_xxh 7 empty_fs st1 t1 (key_runs [sample_entry])" "keeps_open empty_fs st1"
    "new_table sample_xxh 7 st1 st2 t2 (key_runs [sample_newer])" "keeps_open st1 st2" "sst_epoch t1 = 3" "sst_epoch t2 = 4"
    "map_of (fs_dir st2) (merge_path sample_cfg [t1, t2]) = None" by (rule sample_arrivals)
  let ?rd = "\<lambda>st f len off. Inr (read_at (fd_data st f) off len)" and ?fi = "\<lparr>fi_size = \<lambda>_. 4096, fi_direct = \<lambda>_. False\<rparr>"
  let ?m = "put_all (key_runs [sample_newer]) (put_all (key_runs [sample_entry]) (\<lambda>_. None))" and ?ps = "sample_scheduled t1 t2"
  obtain u st3 where u: "merge_task 2 sample_xxh sample_io (?rd st2) sample_env ?fi sample_manager_config 9 (sample_task t1 t2) st2 = Inr (u, st3)"
    "tables_size (ct_inputs (sample_task t1 t2)) = 2"
    "merge_config_ok (task_merge_config sample_manager_config 9 (sample_task t1 t2)) (ct_inputs (sample_task t1 t2))"
    "map_of (fs_dir st2) (merge_path (task_merge_config sample_manager_config 9 (sample_task t1 t2)) (ct_inputs (sample_task t1 t2))) = None"
    by (rule sample_merge [OF t(1,3,4,5,6,7)])
  let ?step = "\<lambda>s s'. lsm_step sample_xxh sample_io 2 7 s s' \<and> lsm_limits 2 s'"
  have rd: "reads_files (?rd st) (fd_data st)" for st by (simp add: reads_files_def)
  have scheduled: "?step\<^sup>*\<^sup>* (lsm_init 2 empty_fs) (?ps, st2, ?m)"
    using sample_reachable [OF t(1,2,3,4)] t(5,6) by (simp add: lsm_reachable_def)
  have tasks: "ps_tasks (set_output 0 u ?ps) = [(sample_task t1 t2)\<lparr>ct_output := Some u\<rparr>]" "ps_tasks (commit_task 2 0 (set_output 0 u ?ps)) = []"
    by (simp_all add: commit_task_def set_output_def sample_scheduled_def remove_nth_def Let_def)
  have limits: "lsm_limits 2 (set_output 0 u ?ps, st3, ?m)" "lsm_limits 2 (commit_task 2 0 (set_output 0 u ?ps), st3, ?m)"
    using u(2) by (simp_all add: lsm_limits_def tasks) (simp add: sample_task_def)
  have "lsm_step sample_xxh sample_io 2 7 (?ps, st2, ?m) (set_output 0 u ?ps, st3, ?m)"
    by (rule lsm_step.Merge [OF _ _ _ rd _ u(3,1)]) (simp_all add: u(2), simp_all add: sample_scheduled_def sample_task_def)
  then have "?step (?ps, st2, ?m) (set_output 0 u ?ps, st3, ?m)" using limits(1) by blast
  moreover have "lsm_step sample_xxh sample_io 2 7 (set_output 0 u ?ps, st3, ?m) (commit_task 2 0 (set_output 0 u ?ps), st3, ?m)"
    by (rule lsm_step.Commit) (simp add: can_commit_def set_output_def sample_scheduled_def sample_task_def)
  then have "?step (set_output 0 u ?ps, st3, ?m) (commit_task 2 0 (set_output 0 u ?ps), st3, ?m)" using limits(2) by blast
  ultimately have run: "lsm_reachable sample_xxh sample_io 2 7 empty_fs (commit_task 2 0 (set_output 0 u ?ps), st3, ?m)"
    unfolding lsm_reachable_def by (rule rtranclp.rtrancl_into_rtrancl [OF rtranclp.rtrancl_into_rtrancl [OF scheduled]])
  have get: "?m [1, 2] = Some (stored_value (In_Place [8]))" by (simp add: put_all_def sample_newer_def dead_value_def)
  have "levels_lookup sample_xxh (?rd st3) (\<lambda>_. []) [1, 2] (ps_levels (commit_task 2 0 (set_output 0 u ?ps))) = Inr (Some (In_Place [8]))"
    using lsm_lookup [OF _ kernel_ok_sample_io run rd, of "\<lambda>_. []" "[1, 2]"] get by auto
  moreover have "ps_levels (commit_task 2 0 (set_output 0 u ?ps)) = [[], [u]]" "ps_tasks (commit_task 2 0 (set_output 0 u ?ps)) = []"
    by (simp_all add: commit_task_def set_output_def sample_scheduled_def sample_task_def commit_levels_def remove_nth_def Let_def)
  ultimately show ?thesis using run by (intro exI conjI) auto
qed

section \<open>A failed merge stops its level\<close>

text \<open>
  The semaphores behind a failed task: no permit, the tasks that could give one wait for one of
  them, and every task that was launched later waits for one of them.
\<close>

definition blocked :: "nat \<Rightarrow> compaction_task set \<Rightarrow> nat set \<Rightarrow> partition_state \<Rightarrow> bool" where
  "blocked l T N ps \<longleftrightarrow> l < length (ps_permissions ps) \<and> ps_permissions ps ! l \<in> N \<and> N \<subseteq> {..<length (ps_semaphores ps)}
     \<and> (\<forall>c \<in> N. ps_semaphores ps ! c = 0)
     \<and> (\<forall>ct \<in> set (ps_tasks ps). ct_next_can_write ct < length (ps_semaphores ps)
          \<and> (ct_next_can_write ct \<in> N \<longrightarrow> ct_can_write ct \<in> N)
          \<and> (ct_level ct = l \<longrightarrow> strip ct \<in> T \<or> ct_can_write ct \<in> N))"

lemma blocked_tables:
  assumes "blocked l T N ps"
  shows "blocked l T N (ps\<lparr>ps_levels := levels\<rparr>)" "blocked l T N (push_table t ps)"
  using assms by (simp_all add: blocked_def push_table_def)

lemma blocked_launch:
  assumes "blocked l T N ps"
  shows "\<exists>N'. blocked l T N' (launch_bucket L k first bucket ps)"
proof -
  let ?n = "length (ps_semaphores ps)"
  have b: "l < length (ps_permissions ps)" "ps_permissions ps ! l \<in> N" "N \<subseteq> {..<?n}" "\<forall>c \<in> N. ps_semaphores ps ! c = 0"
    "\<forall>ct \<in> set (ps_tasks ps). ct_next_can_write ct < ?n \<and> (ct_next_can_write ct \<in> N \<longrightarrow> ct_can_write ct \<in> N)
       \<and> (ct_level ct = l \<longrightarrow> strip ct \<in> T \<or> ct_can_write ct \<in> N)"
    using assms by (simp_all add: blocked_def)
  have "?n \<notin> N" using b(3) by auto
  have "blocked l T (if k = l then insert ?n N else N) (launch_bucket L k first bucket ps)"
    using b \<open>?n \<notin> N\<close> by (auto simp: blocked_def launch_bucket_def Let_def nth_append nth_list_update)
  then show ?thesis ..
qed

lemma blocked_fold:
  assumes "blocked l T N ps" "\<And>x N ps. blocked l T N ps \<Longrightarrow> \<exists>N'. blocked l T N' (f x ps)"
  shows "\<exists>N'. blocked l T N' (fold f xs ps)"
  using assms(1)
proof (induction xs arbitrary: N ps)
  case (Cons x xs)
  from assms(2) [OF Cons.prems] obtain N' where "blocked l T N' (f x ps)" ..
  then show ?case using Cons.IH by simp
qed auto

lemma blocked_schedule:
  assumes "blocked l T N ps"
  shows "\<exists>N'. blocked l T N' (schedule_partition L mn mx ps)"
proof -
  have level: "\<exists>N'. blocked l T N' (launch_level L lb ps)" if "blocked l T N ps" for lb N ps
  proof -
    have "\<exists>N'. blocked l T N' ((\<lambda>(i, b). launch_bucket L (fst lb) (i = 0) b) x ps)" if "blocked l T N ps" for x :: "nat \<times> sst list" and N ps
      using blocked_launch [OF that] by (cases x) simp
    from blocked_fold [OF that this] show ?thesis by (cases lb) (simp add: launch_level_def)
  qed
  show ?thesis
    unfolding schedule_partition_def using blocked_fold [OF blocked_tables(1) [OF assms] level] by (auto split: prod.split)
qed

lemma remove_nth_subset: "set (remove_nth i xs) \<subseteq> set xs"
  by (auto simp: remove_nth_def dest: in_set_takeD in_set_dropD)

lemma blocked_step:
  assumes step: "lsm_step xxh io L ub (ps, st, m) (ps', st', m')" and b: "blocked l T N ps"
  shows "\<exists>N'. blocked l T N' ps'"
  using step
proof (cases rule: lsm_step.cases)
  case (Merge i ct rd fuel cfg n env fi t)
  have ps': "ps' = set_output i t ps" using Merge by simp
  have "set (ps_tasks ps') \<subseteq> insert ((ps_tasks ps ! i)\<lparr>ct_output := Some t\<rparr>) (set (ps_tasks ps))"
    unfolding ps' set_output_def by (simp add: set_update_subset_insert)
  moreover have "ps_tasks ps ! i \<in> set (ps_tasks ps)" using Merge by simp
  ultimately show ?thesis
    using b ps' by (intro exI [of _ N]) (fastforce simp: blocked_def set_output_def)
next
  case (Commit i)
  let ?ct = "ps_tasks ps ! i"
  have ct: "?ct \<in> set (ps_tasks ps)" "0 < ps_semaphores ps ! ct_can_write ?ct" using Commit by (simp_all add: can_commit_def)
  then have "ct_can_write ?ct \<notin> N" "ct_next_can_write ?ct \<notin> N" using b by (auto simp: blocked_def)
  then have "ct_can_write ?ct \<noteq> c \<and> ct_next_can_write ?ct \<noteq> c" if "c \<in> N" for c using that by blast
  then have "\<forall>c \<in> N. ps_semaphores ps' ! c = ps_semaphores ps ! c" unfolding Commit by (simp add: commit_task_def Let_def)
  moreover have "set (ps_tasks ps') \<subseteq> set (ps_tasks ps)" "ps_permissions ps' = ps_permissions ps"
      "length (ps_semaphores ps') = length (ps_semaphores ps)"
    using remove_nth_subset by (simp_all add: Commit commit_task_def Let_def)
  ultimately show ?thesis using b by (intro exI [of _ N]) (auto simp: blocked_def)
next
  case (Fail i)
  have "set (ps_tasks ps') \<subseteq> set (ps_tasks ps)" "ps_permissions ps' = ps_permissions ps" "ps_semaphores ps' = ps_semaphores ps"
    using remove_nth_subset by (simp_all add: Fail fail_task_def Let_def)
  then show ?thesis using b by (intro exI [of _ N]) (auto simp: blocked_def)
qed (use b blocked_tables(2) blocked_schedule in blast)+

lemma blocked_run:
  assumes "(lsm_step xxh io L ub)\<^sup>*\<^sup>* s s'" "blocked l T N (fst s)"
  shows "\<exists>N'. blocked l T N' (fst s')"
  using assms
proof (induction rule: rtranclp_induct)
  case base
  then show ?case by blast
next
  case (step s1 s2)
  then obtain N' where "blocked l T N' (fst s1)" by blast
  then show ?case using blocked_step step(2) by (cases s1; cases s2) auto
qed

text \<open>At the failure the semaphores behind the task are blocked.\<close>

lemma chain_tail_blocked:
  assumes chain: "chain_ok ps l (h1 @ (a, c) # h2)"
  shows "\<forall>s \<in> set (chain_sems ps l h2). ps_semaphores ps ! s = 0"
    "it \<in> set h2 \<Longrightarrow> ct_can_write (snd it) \<in> set (chain_sems ps l h2)"
    "ct_next_can_write c \<in> set (chain_sems ps l h2)"
proof -
  let ?h = "h1 @ (a, c) # h2"
  have sems: "chain_sems ps l ?h = map (\<lambda>it. ct_can_write (snd it)) h1 @ ct_can_write c # chain_sems ps l h2"
    by (simp add: chain_sems_def)
  have "map ((!) (ps_semaphores ps)) (chain_sems ps l ?h) = 1 # replicate (length ?h) 0" using chain unfolding chain_ok_def by blast
  then have "tl (map ((!) (ps_semaphores ps)) (chain_sems ps l ?h)) = replicate (length ?h) 0" by simp
  then have "\<forall>x \<in> set (tl (map ((!) (ps_semaphores ps)) (chain_sems ps l ?h))). x = 0" by simp
  then show "\<forall>s \<in> set (chain_sems ps l h2). ps_semaphores ps ! s = 0" unfolding sems by (cases h1) auto
  show "it \<in> set h2 \<Longrightarrow> ct_can_write (snd it) \<in> set (chain_sems ps l h2)" by (simp add: chain_sems_def)
  have "map (\<lambda>it. ct_next_can_write (snd it)) ?h = tl (chain_sems ps l ?h)" using chain by (simp add: chain_ok_def)
  then have "drop (length h1) (map (\<lambda>it. ct_next_can_write (snd it)) ?h) = drop (length h1) (tl (chain_sems ps l ?h))" by (rule arg_cong)
  then have "ct_next_can_write c # map (\<lambda>it. ct_next_can_write (snd it)) h2 = chain_sems ps l h2" unfolding sems by (cases h1) simp_all
  then show "ct_next_can_write c \<in> set (chain_sems ps l h2)" by (metis list.set_intros(1))
qed

lemma chain_head_nexts:
  assumes chain: "chain_ok ps l (h1 @ (a, c) # h2)" and d: "distinct (chain_sems ps l (h1 @ (a, c) # h2))" and it: "it \<in> set h1"
  shows "ct_next_can_write (snd it) \<notin> set (chain_sems ps l h2)"
proof -
  let ?f = "\<lambda>it. ct_next_can_write (snd it)" and ?h = "h1 @ (a, c) # h2"
  have sems: "chain_sems ps l ?h = map (\<lambda>it. ct_can_write (snd it)) h1 @ ct_can_write c # chain_sems ps l h2"
    by (simp add: chain_sems_def)
  obtain A where A: "tl (chain_sems ps l ?h) = A @ chain_sems ps l h2" "length A = length h1" unfolding sems by (cases h1) auto
  have "map ?f ?h = A @ chain_sems ps l h2" using chain A(1) by (simp add: chain_ok_def)
  then have "take (length h1) (map ?f ?h) = take (length A) (A @ chain_sems ps l h2)" by (simp only: A(2))
  then have "map ?f h1 = A" by simp
  moreover have "set A \<inter> set (chain_sems ps l h2) = {}" using d A(1) by (metis distinct_append distinct_tl)
  ultimately show ?thesis using it by (metis IntI empty_iff image_eqI list.set_map)
qed

lemma blocked_fail:
  assumes inv: "lsm_inv xxh L ub (ps, st, m)" and i: "i < length (ps_tasks ps)"
  shows "\<exists>N. blocked (ct_level (ps_tasks ps ! i)) (strip ` set (ps_tasks ps)) N (fail_task i ps)"
proof -
  from inv obtain H where struct: "struct_inv L ps H" unfolding lsm_inv_def prod.case by blast
  define ct where "ct = ps_tasks ps ! i"
  let ?l = "ct_level ct" and ?n = "ct_next_can_write ct"
  have task: "ct \<in> set (ps_tasks ps)" using i by (simp add: ct_def)
  note h = task_in_history [OF struct task]
  from h(1) obtain h1 h2 where split: "H ?l = h1 @ (True, strip ct) # h2" by (metis split_list)
  have sems: "sems_ok L ps H" and tasks: "tasks_ok L ps" and len: "length (ps_permissions ps) = L" and chain: "chain_ok ps ?l (H ?l)"
    using struct h(2) by (simp_all add: struct_inv_def)
  let ?N = "set (chain_sems ps ?l h2)"
  note tail = chain_tail_blocked [OF chain [unfolded split]]
  have d: "distinct (chain_sems ps ?l (H ?l))" and bound: "set (chain_sems ps ?l (H ?l)) \<subseteq> {..<length (ps_semaphores ps)}"
    using sems h(2) by (simp_all add: sems_ok_def)
  have sub: "?N \<subseteq> set (chain_sems ps ?l (H ?l))" by (auto simp: chain_sems_def split)
  have waits: "ct_can_write ct' \<in> ?N"
    if ct': "ct' \<in> set (ps_tasks ps)" "ct_next_can_write ct' \<noteq> ?n" "ct_next_can_write ct' \<in> ?N" for ct'
  proof -
    note h' = task_in_history [OF struct ct'(1)]
    have "chain_ok ps (ct_level ct') (H (ct_level ct'))" using struct h'(2) by (simp add: struct_inv_def)
    from chain_next_in [OF this h'(1)] have "ct_next_can_write ct' \<in> set (chain_sems ps (ct_level ct') (H (ct_level ct')))"
      by (cases "chain_sems ps (ct_level ct') (H (ct_level ct'))") auto
    then have "ct_level ct' = ?l" using sems sub ct'(3) h(2) h'(2) unfolding sems_ok_def by (metis IntI add_lessD1 empty_iff subsetD)
    then have "(True, strip ct') \<in> set h1 \<or> strip ct' = strip ct \<or> (True, strip ct') \<in> set h2" using h'(1) split by auto
    moreover have "(True, strip ct') \<notin> set h1"
      using chain_head_nexts [OF chain [unfolded split] d [unfolded split], of "(True, strip ct')"] ct'(3) by auto
    moreover have "strip ct' \<noteq> strip ct" using ct'(2) strip_simps(2) by metis
    ultimately show ?thesis using tail(2) [of "(True, strip ct')"] by auto
  qed
  have remaining: "set (ps_tasks (fail_task i ps)) = {ct' \<in> set (ps_tasks ps). ct_next_can_write ct' \<noteq> ?n}"
    using without_task_remove [OF struct i] by (simp add: fail_task_def Let_def ct_def without_task_def)
  have "ps_permissions ps ! ?l \<in> ?N" by (simp add: chain_sems_def)
  then have "blocked ?l (strip ` set (ps_tasks ps)) ?N (fail_task i ps)"
    unfolding blocked_def remaining using tail(1) sub bound waits tasks h(2) len
    by (auto simp: fail_task_def Let_def tasks_ok_def)
  then show ?thesis unfolding ct_def by blast
qed

text \<open>
  C28: A failed merge stops the compaction of its level for good: whatever happens later, no task of
  the level that was launched after the failure commits, because the permit of the failed task is
  not passed on. Up to the failure the run is one of \<open>lsm_reachable\<close>, after it any steps are allowed.
\<close>

theorem failed_merge_stops_level:
  assumes "2 \<le> L" "kernel_ok io" "lsm_reachable xxh io L ub st0 (ps, st, m)" "i < length (ps_tasks ps)"
    and run: "(lsm_step xxh io L ub)\<^sup>*\<^sup>* (fail_task i ps, st, m) (ps', st', m')"
    and "ct_level (ps_tasks ps' ! j) = ct_level (ps_tasks ps ! i)" "strip (ps_tasks ps' ! j) \<notin> strip ` set (ps_tasks ps)"
  shows "\<not> can_commit j ps'"
proof -
  obtain N where "blocked (ct_level (ps_tasks ps ! i)) (strip ` set (ps_tasks ps)) N (fail_task i ps)"
    using blocked_fail [OF lsm_reachable_inv [OF assms(3,1,2)] assms(4)] by blast
  then obtain N' where "blocked (ct_level (ps_tasks ps ! i)) (strip ` set (ps_tasks ps)) N' ps'"
    using blocked_run [OF run] unfolding fst_conv by blast
  then show ?thesis using assms(6,7) by (auto simp: blocked_def can_commit_def)
qed

lemma sample_arrival:
  obtains t st' where "new_table sample_xxh 7 st st' t (key_runs [sample_newer])" "keeps_open st st'" "sst_epoch t = e"
proof -
  have "finite (dom (map_of (fs_dir st)))" by (rule finite_dom_map_of)
  then obtain path :: path where "map_of (fs_dir st) path = None"
    using ex_new_if_finite [OF infinite_UNIV_listI] by (metis domIff)
  then obtain t st' where t: "exported sample_xxh path st [sample_newer] t st'" "sst_upper_bound t = 7" "sst_epoch t = e"
    using export_as_sst_exported [OF kernel_ok_sample_io, of st path "[sample_newer]" sample_xxh sample_env 10 7 e False True]
      exportable_newer io_succeeds_sample_io by auto
  moreover have "length (key_runs [sample_newer]) < 2 ^ 64" by simp
  ultimately show ?thesis using that exported_new_table by blast
qed

definition sample_failed :: "sst \<Rightarrow> sst \<Rightarrow> sst list \<Rightarrow> nat \<Rightarrow> partition_state" where
  "sample_failed t1 t2 ts n = \<lparr>ps_levels = [map (\<lambda>t. try_set_compaction_state COMPACTION_ERROR (marked t)) [t1, t2] @ ts, []],
     ps_permissions = [2, 1], ps_created = [False, True], ps_levels_seq_num = n, ps_semaphores = [1, 1, 0], ps_tasks = []\<rparr>"

lemma schedule_after_failure:
  assumes "pickable_for_compaction t1" "pickable_for_compaction t2" "pickable_for_compaction t3" "pickable_for_compaction t4"
  shows "ps_tasks (schedule_partition 2 2 8 (sample_failed t1 t2 [t3, t4] 4)) =
    [\<lparr>ct_can_write = 2, ct_next_can_write = 3, ct_level = 0, ct_inputs = [marked t3, marked t4], ct_discard_deleted_keys = False,
      ct_output = None\<rparr>]"
proof -
  let ?e = "\<lambda>t. try_set_compaction_state COMPACTION_ERROR (marked t)"
  have m: "\<not> pickable_for_compaction (marked t)" if "pickable_for_compaction t" for t
    using that by (simp add: marked_def try_set_compaction_state_def set_compaction_state_def pickable_for_compaction_def)
  let ?level = "[?e t1, ?e t2, t3, t4]" and ?level' = "[?e t1, ?e t2, marked t3, marked t4]"
  have e: "\<not> pickable_for_compaction (?e t1)" "\<not> pickable_for_compaction (?e t2)" using not_pickable_try_set m assms by blast+
  have "free_from 2 ?level" using e assms by (auto simp: free_from_def less_Suc_eq numeral_eq_Suc)
  then have skip: "skip_non_pickable ?level 0 = 2" using skip_non_pickable_free [of 2 ?level 0] by simp
  have "skip_non_pickable ?level' 3 = 4"
    using m [OF assms(4)] by (subst skip_non_pickable.simps, simp, subst skip_non_pickable.simps) simp
  then have "bucket_loop 2 8 ?level 3 [2] [] = (?level', [[2, 3]])"
    using assms(4) by (subst bucket_loop.simps) (simp add: Let_def emit_candidates_def mark_in_compaction_def marked_def)
  then have "create_buckets_from_level 2 8 ?level = (?level', [[2, 3]])"
    by (simp add: create_buckets_from_level_def skip)
  moreover have "create_buckets_from_level 2 8 [] = ([], [])" by (simp add: create_buckets_from_level_def)
  ultimately show ?thesis
    by (simp add: schedule_partition_def pick_ssts_into_buckets_def sample_failed_def launch_level_def launch_bucket_def Let_def)
qed

lemma sample_failure_run:
  assumes "new_table sample_xxh 7 st2 st3 t3 kvs3" "keeps_open st2 st3" "new_table sample_xxh 7 st3 st4 t4 kvs4" "keeps_open st3 st4"
    "sst_epoch t1 < 5" "sst_epoch t2 < 5" "sst_epoch t3 = 5" "sst_epoch t4 = 6"
  shows "(lsm_step sample_xxh sample_io 2 7)\<^sup>*\<^sup>* (sample_failed t1 t2 [] 2, st2, m)
    (schedule_partition 2 2 8 (sample_failed t1 t2 [t3, t4] 4), st4, put_all kvs4 (put_all kvs3 m))"
proof -
  let ?step = "lsm_step sample_xxh sample_io 2 7"
  have epoch: "sst_epoch (try_set_compaction_state COMPACTION_ERROR (marked t)) = sst_epoch t" for t
    by (simp add: try_set_compaction_state_def set_compaction_state_def marked_def sst_epoch_def)
  have lt: "x < 5 \<Longrightarrow> x < 6" for x :: u64 by (simp add: word_less_nat_alt)
  have push: "push_table t (sample_failed t1 t2 ts n) = sample_failed t1 t2 (ts @ [t]) (n + 1)" for t ts n
    by (simp add: push_table_def sample_failed_def)
  have "?step (sample_failed t1 t2 [] 2, st2, m) (push_table t3 (sample_failed t1 t2 [] 2), st3, put_all kvs3 m)"
    using assms by (intro lsm_step.Arrive) (simp_all add: sample_failed_def epoch)
  moreover have "?step (sample_failed t1 t2 [t3] 3, st3, put_all kvs3 m)
      (push_table t4 (sample_failed t1 t2 [t3] 3), st4, put_all kvs4 (put_all kvs3 m))"
    using assms lt by (intro lsm_step.Arrive) (simp_all add: sample_failed_def epoch)
  moreover have "?step (sample_failed t1 t2 [t3, t4] 4, st4, put_all kvs4 (put_all kvs3 m))
      (schedule_partition 2 2 8 (sample_failed t1 t2 [t3, t4] 4), st4, put_all kvs4 (put_all kvs3 m))"
    by (rule lsm_step.Schedule) (simp_all add: sample_failed_def)
  ultimately have "?step (sample_failed t1 t2 [] 2, st2, m) (sample_failed t1 t2 [t3] 3, st3, put_all kvs3 m)"
      "?step (sample_failed t1 t2 [t3] 3, st3, put_all kvs3 m) (sample_failed t1 t2 [t3, t4] 4, st4, put_all kvs4 (put_all kvs3 m))"
      "?step (sample_failed t1 t2 [t3, t4] 4, st4, put_all kvs4 (put_all kvs3 m))
        (schedule_partition 2 2 8 (sample_failed t1 t2 [t3, t4] 4), st4, put_all kvs4 (put_all kvs3 m))"
    by (simp_all add: push)
  from rtranclp.rtrancl_into_rtrancl [OF rtranclp.rtrancl_into_rtrancl [OF r_into_rtranclp [of ?step, OF this(1)] this(2)] this(3)]
  show ?thesis .
qed

theorem failed_merge_stops_level_witness:
  "\<exists>ps st m ps' st' m'. lsm_reachable sample_xxh sample_io 2 7 empty_fs (ps, st, m) \<and> length (ps_tasks ps) = 1
    \<and> (lsm_step sample_xxh sample_io 2 7)\<^sup>*\<^sup>* (fail_task 0 ps, st, m) (ps', st', m')
    \<and> length (ps_tasks ps') = 1 \<and> \<not> can_commit 0 ps'"
proof -
  obtain t1 st1 t2 st2 where t: "new_table sample_xxh 7 empty_fs st1 t1 (key_runs [sample_entry])" "keeps_open empty_fs st1"
    "new_table sample_xxh 7 st1 st2 t2 (key_runs [sample_newer])" "keeps_open st1 st2" "sst_epoch t1 = 3" "sst_epoch t2 = 4"
    "map_of (fs_dir st2) (merge_path sample_cfg [t1, t2]) = None" by (rule sample_arrivals)
  obtain t3 st3 where t3: "new_table sample_xxh 7 st2 st3 t3 (key_runs [sample_newer])" "keeps_open st2 st3" "sst_epoch t3 = 5"
    by (rule sample_arrival)
  obtain t4 st4 where t4: "new_table sample_xxh 7 st3 st4 t4 (key_runs [sample_newer])" "keeps_open st3 st4" "sst_epoch t4 = 6"
    by (rule sample_arrival)
  let ?kvs = "key_runs [sample_newer]" and ?ps = "sample_scheduled t1 t2"
  let ?m = "put_all ?kvs (put_all (key_runs [sample_entry]) (\<lambda>_. None))" and ?m' = "\<lambda>m. put_all ?kvs (put_all ?kvs m)"
  let ?ps' = "schedule_partition 2 2 8 (sample_failed t1 t2 [t3, t4] 4)"
  have reach: "lsm_reachable sample_xxh sample_io 2 7 empty_fs (?ps, st2, ?m)" using sample_reachable [OF t(1-4)] t(5,6) by simp
  have fail: "fail_task 0 ?ps = sample_failed t1 t2 [] 2"
    by (simp add: fail_task_def sample_scheduled_def sample_task_def sample_failed_def remove_nth_def Let_def)
  have run: "(lsm_step sample_xxh sample_io 2 7)\<^sup>*\<^sup>* (fail_task 0 ?ps, st2, ?m) (?ps', st4, ?m' ?m)"
    unfolding fail using sample_failure_run [OF t3(1,2) t4(1,2)] t(5,6) t3(3) t4(3) by simp
  have pick: "pickable_for_compaction t1" "pickable_for_compaction t2" "pickable_for_compaction t3" "pickable_for_compaction t4"
    using t(1,3) t3(1) t4(1) by (simp_all add: new_table_def)
  note tasks = schedule_after_failure [OF pick]
  have "\<not> can_commit 0 ?ps'"
    by (rule failed_merge_stops_level [OF _ kernel_ok_sample_io reach _ run])
      (simp_all add: tasks sample_scheduled_def sample_task_def strip_def)
  then show ?thesis
    using reach run tasks by (intro exI [of _ ?ps] exI [of _ st2] exI [of _ ?m] exI [of _ ?ps'] exI [of _ st4] exI [of _ "?m' ?m"])
      (simp add: sample_scheduled_def)
qed

section \<open>The lowest level\<close>

lemma level_lookup_hit:
  assumes "table_holds xxh files t kvs" "reads_files rd files" "map_of kvs key = Some v" "value_from_span v = Inr w"
  shows "level_lookup xxh rd path_of key (t # ts) = Inr (Some w)"
  using table_holds_lookup [OF assms(1,2), of key] assms(3,4) by simp

text \<open>
  C29: A merge of tables of the lowest level itself puts its output behind the newer tables of that
  level, where a lookup reads it first: the value of a newer table is hidden by an older one.
\<close>

theorem last_level_commit_stale:
  fixes n :: nat
  assumes "table_holds xxh files out kvs" "map_of kvs key = Some v" "value_from_span v = Inr w"
    and "table_holds xxh files newer kvs'" "map_of kvs' key = Some v'" "value_from_span v' = Inr w'"
    and "reads_files rd files" "sst_file newer \<notin> sst_file ` set inputs"
  defines "levels \<equiv> replicate n [] @ [inputs @ [newer]]"
  shows "levels_lookup xxh rd path_of key levels = Inr (Some w')
    \<and> newer \<in> set (last (commit_levels (n + 1) n inputs out levels))
    \<and> levels_lookup xxh rd path_of key (commit_levels (n + 1) n inputs out levels) = Inr (Some w)"
proof -
  have upper: "levels_lookup xxh rd path_of key (replicate k [] @ ls) = levels_lookup xxh rd path_of key ls" for k ls
    by (induction k) simp_all
  have "filter (\<lambda>t. sst_file t \<notin> set (map sst_file inputs)) (inputs @ [newer]) = [newer]" using assms(8) by (auto simp: filter_empty_conv)
  then have "commit_levels (n + 1) n inputs out levels = replicate n [] @ [[newer, out]]"
    using assms(8) by (simp add: commit_levels_def levels_def Let_def nth_append list_update_append)
  then show ?thesis
    using level_lookup_hit [OF assms(1,7,2,3)] level_lookup_hit [OF assms(4,7,5,6)] by (simp add: levels_def upper)
qed

theorem last_level_commit_stale_witness:
  "\<exists>t1 t2 st. levels_lookup sample_xxh (\<lambda>f len off. Inr (read_at (fd_data st f) off len)) (\<lambda>_. []) [1, 2] [[], [t1, t2]] = Inr (Some (In_Place [8]))
    \<and> levels_lookup sample_xxh (\<lambda>f len off. Inr (read_at (fd_data st f) off len)) (\<lambda>_. []) [1, 2]
        (commit_levels 2 1 [t1] t1 [[], [t1, t2]]) \<noteq> Inr (Some (In_Place [8]))"
proof -
  obtain t1 st1 t2 st2 where t: "new_table sample_xxh 7 empty_fs st1 t1 (key_runs [sample_entry])"
    "new_table sample_xxh 7 st1 st2 t2 (key_runs [sample_newer])" "keeps_open st1 st2" by (rule sample_arrivals)
  have one: "table_holds sample_xxh (fd_data st2) t1 (key_runs [sample_entry])"
    using t(1,3) table_holds_cong unfolding new_table_def keeps_open_def by metis
  have two: "table_holds sample_xxh (fd_data st2) t2 (key_runs [sample_newer])" using t(2) by (simp add: new_table_def)
  have "sst_file t1 \<noteq> sst_file t2" using t(1,2) unfolding new_table_def by metis
  then have "sst_file t2 \<notin> sst_file ` set [t1]" by simp
  from last_level_commit_stale [OF one _ _ two _ _ _ this, where key = "[1, 2]" and n = 1
      and rd = "\<lambda>f len off. Inr (read_at (fd_data st2 f) off len)" and path_of = "\<lambda>_. []"]
  show ?thesis
    by (intro exI [of _ t1] exI [of _ t2] exI [of _ st2]) (simp add: sample_entry_def sample_newer_def reads_files_def numeral_2_eq_2)
qed

end
