(* ===== verification/Manifest.thy ===== *)
theory Manifest
  imports Compaction
begin

text \<open>
  The manifest of a partition, \<^verbatim>\<open>src/db/sst_manager.cc\<close> (writing) and
  \<^verbatim>\<open>src/db/sst_manager_loader.cc\<close> (loading). The manifest is a page of text: a line per level, the names of
  the tables of the level with semicolons between them. The name of the file of a table is a
  parameter \<open>name_of\<close>, a function of the handle. Loading opens the named files again and reads the
  tables from them.
\<close>

section \<open>The text\<close>

definition NL :: char where
  "NL = CHR 0x0A"

definition MANIFEST_FILENAME :: string where
  "MANIFEST_FILENAME = ''manifest''"

fun serialize_names :: "bool \<Rightarrow> string list \<Rightarrow> string" where
  "serialize_names is_first [] = []"
| "serialize_names is_first (n # ns) = (if is_first then [] else '';'') @ n @ serialize_names False ns"

definition level_names :: "(nat \<Rightarrow> string) \<Rightarrow> sst list \<Rightarrow> string list" where
  "level_names name_of level = map (\<lambda>t. name_of (sst_file t)) level"

definition serialize_text :: "string list list \<Rightarrow> string" where
  "serialize_text levels = concat (map (\<lambda>ns. serialize_names True ns @ [NL]) levels)"

definition serialize_levels :: "(nat \<Rightarrow> string) \<Rightarrow> sst list list \<Rightarrow> string" where
  "serialize_levels name_of levels =
     (let result = serialize_text (map (level_names name_of) levels)
      in take PAGE_SIZE_IN_BYTES result @ replicate (PAGE_SIZE_IN_BYTES - length result) (CHR 0x00))"

section \<open>Parsing\<close>

function split_str_by :: "char \<Rightarrow> string \<Rightarrow> string list" where
  "split_str_by delim s =
     (case dropWhile (\<lambda>c. c \<noteq> delim) s of
        [] \<Rightarrow> [s]
      | _ # rest \<Rightarrow> takeWhile (\<lambda>c. c \<noteq> delim) s # split_str_by delim rest)"
  by pat_completeness auto
termination
proof (relation "measure (\<lambda>(_, s). length s)", goal_cases)
  case (2 delim s c rest)
  then have "length (c # rest) \<le> length s" using length_dropWhile_le [of "\<lambda>c. c \<noteq> delim" s] by simp
  then show ?case by simp
qed simp

declare split_str_by.simps [simp del]

fun load_level :: "(string \<Rightarrow> 's \<Rightarrow> 't expected \<times> 's) \<Rightarrow> string list \<Rightarrow> 's \<Rightarrow> 't list expected \<times> 's" where
  "load_level load [] st = (Inr [], st)"
| "load_level load (fname # fnames) st =
     (if fname = [] then load_level load fnames st
      else case load fname st of
        (Inl e, st) \<Rightarrow> (Inl e, st)
      | (Inr t, st) \<Rightarrow>
          (case load_level load fnames st of (Inl e, st) \<Rightarrow> (Inl e, st) | (Inr ts, st) \<Rightarrow> (Inr (t # ts), st)))"

text \<open>Levels without a line stay empty.\<close>

fun parse_manifest :: "(string \<Rightarrow> 's \<Rightarrow> 't expected \<times> 's) \<Rightarrow> nat \<Rightarrow> string \<Rightarrow> 's \<Rightarrow> 't list list expected \<times> 's" where
  "parse_manifest load 0 content st = (Inr [], st)"
| "parse_manifest load (Suc n) content st =
     (if NL \<notin> set content then (Inr (replicate (Suc n) []), st)
      else
        (let line = takeWhile (\<lambda>c. c \<noteq> NL) content; rest = tl (dropWhile (\<lambda>c. c \<noteq> NL) content)
         in case load_level load (if line = [] then [] else split_str_by (CHR '';'') line) st of
              (Inl e, st) \<Rightarrow> (Inl e, st)
            | (Inr level, st) \<Rightarrow>
                (case parse_manifest load n rest st of
                   (Inl e, st) \<Rightarrow> (Inl e, st) | (Inr levels, st) \<Rightarrow> (Inr (level # levels), st))))"

section \<open>Loading\<close>

definition load_table :: "io_ops \<Rightarrow> path \<Rightarrow> bool \<Rightarrow> string \<Rightarrow> fs_state \<Rightarrow> (string \<times> sst) expected \<times> fs_state" where
  "load_table io dir_path use_odirect fname st =
     (case from_path io (path_join dir_path fname) read_only use_odirect None st of
        (Inl e, st) \<Rightarrow> (Inl (generic_error (''sst::load: failed to open file: '' @ error_msg e)), st)
      | (Inr f, st) \<Rightarrow>
          (case sst_load (file_fd f) (fd_data st (file_fd f)) of
             Inl e \<Rightarrow> (Inl e, io_close io (file_fd f) st)
           | Inr t \<Rightarrow> (Inr (fname, t), st)))"

text \<open>The number of a flush from the name of a file: the decimal number behind the last dot.\<close>

definition path_extension :: "string \<Rightarrow> string" where
  "path_extension name =
     (let tail = takeWhile (\<lambda>c. c \<noteq> CHR ''.'') (rev name)
      in if Suc (length tail) < length name then CHR ''.'' # rev tail else [])"

definition path_stem :: "string \<Rightarrow> string" where
  "path_stem name = take (length name - length (path_extension name)) name"

definition is_digit :: "char \<Rightarrow> bool" where
  "is_digit c \<longleftrightarrow> 48 \<le> (of_char c :: nat) \<and> (of_char c :: nat) \<le> 57"

definition is_space :: "char \<Rightarrow> bool" where
  "is_space c \<longleftrightarrow> (of_char c :: nat) \<in> {9, 10, 11, 12, 13, 32}"

definition digits_value :: "string \<Rightarrow> nat" where
  "digits_value ds = foldl (\<lambda>n c. n * 10 + (of_char c - 48)) 0 ds"

definition stoull :: "string \<Rightarrow> nat expected" where
  "stoull s =
     (let s = dropWhile is_space s;
          neg = (s \<noteq> [] \<and> hd s = CHR ''-'');
          s = (if s \<noteq> [] \<and> (hd s = CHR ''-'' \<or> hd s = CHR ''+'') then tl s else s);
          ds = takeWhile is_digit s;
          n = digits_value ds
      in if ds = [] \<or> 2 ^ 64 \<le> n then Inl (generic_error ''stoull'')
         else Inr (if neg then (2 ^ 64 - n) mod 2 ^ 64 else n))"

definition flush_iteration_from_filename :: "string \<Rightarrow> nat expected" where
  "flush_iteration_from_filename name =
     (if path_extension name = [] then Inl (generic_error ''basic_string::substr'') else stoull (tl (path_extension name)))"

fun max_iteration :: "string list \<Rightarrow> nat \<Rightarrow> nat expected" where
  "max_iteration [] m = Inr m"
| "max_iteration (n # ns) m =
     (case flush_iteration_from_filename n of Inl e \<Rightarrow> Inl e | Inr i \<Rightarrow> max_iteration ns (max m i))"

text \<open>
  An exception of the file system leaves all these functions. In the model it is an error like the
  others, except where an error would be ignored; the text that the callers put in front of an error
  is also put in front of this one.

  Directories are not part of the model of the file system: whether a directory exists, and the
  descriptor that opening it gives, are parameters.
\<close>

record dir_env =
  dir_exists :: "path \<Rightarrow> bool"
  dir_open :: "path \<Rightarrow> int"

definition dir_path :: "path \<Rightarrow> nat \<Rightarrow> path" where
  "dir_path partitions_path pid = path_join partitions_path (fst (format_prefix (of_nat pid)))"

definition manifest_path :: "path \<Rightarrow> nat \<Rightarrow> path" where
  "manifest_path partitions_path pid = path_join (dir_path partitions_path pid) MANIFEST_FILENAME"

text \<open>The files of a directory.\<close>

definition dir_entries :: "path \<Rightarrow> fs_state \<Rightarrow> string list" where
  "dir_entries dir st =
     concat (map (\<lambda>(p, _). if take (length dir + 1) p = dir @ ''/'' \<and> CHR ''/'' \<notin> set (drop (length dir + 1) p)
                           then [drop (length dir + 1) p] else []) (fs_dir st))"

definition load_partition_manifest :: "io_ops \<Rightarrow> dir_env \<Rightarrow> path \<Rightarrow> fs_state \<Rightarrow> (nat option \<times> int option) expected \<times> fs_state" where
  "load_partition_manifest io denv dir st =
     (let manifest = path_join dir MANIFEST_FILENAME
      in case io_statx io manifest st of
           Stat_Error _ \<Rightarrow> (Inl filesystem_error, st)
         | Absent \<Rightarrow> (Inr (None, None), st)
         | Found _ \<Rightarrow>
             (case from_path io manifest read_write False (Some (of_nat PAGE_SIZE_IN_BYTES)) st of
                (maybe_file, st) \<Rightarrow>
                  (if maybe_file = Inl filesystem_error then (Inl filesystem_error, st)
                   else
                     (let fd = dir_open denv dir
                      in (if fd < 0
                          then Inl (generic_error (''Failed to open directory for partition '' @ dir @ '': '' @ io_strerror io (- fd)))
                          else Inr (case maybe_file of Inl _ \<Rightarrow> None | Inr f \<Rightarrow> Some (file_fd f), Some fd), st)))))"

definition check_orphans :: "path \<Rightarrow> string list \<Rightarrow> fs_state \<Rightarrow> status" where
  "check_orphans dir tracked st =
     (let orphans = filter (\<lambda>n. n \<notin> set tracked) (filter (\<lambda>n. path_stem n \<noteq> MANIFEST_FILENAME) (dir_entries dir st))
      in if orphans \<noteq> []
         then Inl (generic_error (''Orphan SST files detected in partition '' @ dir @ '':'' @ concat (map (\<lambda>n. '' '' @ n) orphans)))
         else ok)"

definition manifest_text :: "bytes \<Rightarrow> string" where
  "manifest_text content =
     map (\<lambda>b. char_of (unat b)) (take PAGE_SIZE_IN_BYTES content) @ replicate (PAGE_SIZE_IN_BYTES - length content) (CHR 0x00)"

text \<open>A failed parse closes the files it has opened and is not reported; the files it did not load are orphans then.\<close>

definition close_since :: "fs_state \<Rightarrow> fs_state \<Rightarrow> fs_state" where
  "close_since st0 st = st\<lparr>fs_fds := filter (\<lambda>e. fst e \<in> fst ` set (fs_fds st0)) (fs_fds st)\<rparr>"

definition load_tables ::
    "io_ops \<Rightarrow> manager_config \<Rightarrow> path \<Rightarrow> nat option \<Rightarrow> fs_state \<Rightarrow> (string \<times> sst) list list option \<times> fs_state" where
  "load_tables io cfg dir manifest st =
     (let content = (case manifest of None \<Rightarrow> [] | Some fd \<Rightarrow> fd_data st fd)
      in if content = [] then (None, st)
         else case parse_manifest (load_table io dir (cf_use_odirect_for_ssts cfg)) (cf_max_num_levels cfg) (manifest_text content) st of
           (Inl _, st') \<Rightarrow> (None, close_since st st')
         | (Inr levels, st') \<Rightarrow> (Some levels, st'))"

definition loaded_state :: "manager_config \<Rightarrow> (string \<times> sst) list list option \<Rightarrow> partition_state" where
  "loaded_state cfg r =
     (case r of
        None \<Rightarrow> make_partition_state (cf_max_num_levels cfg)
      | Some levels \<Rightarrow>
          (make_partition_state (cf_max_num_levels cfg))\<lparr>ps_levels := map (map snd) levels, ps_created := map (\<lambda>l. l \<noteq> []) levels\<rparr>)"

definition load_partition ::
    "io_ops \<Rightarrow> dir_env \<Rightarrow> manager_config \<Rightarrow> nat \<Rightarrow> nat \<Rightarrow> fs_state \<Rightarrow> (partition_state \<times> nat) expected \<times> fs_state" where
  "load_partition io denv cfg pid max_flush_iteration st =
     (let dir = dir_path (cf_partitions_path cfg) pid
      in if \<not> dir_exists denv dir then (Inr (make_partition_state (cf_max_num_levels cfg), max_flush_iteration), st)
         else case load_partition_manifest io denv dir st of
           (Inl e, st) \<Rightarrow> (Inl (generic_error (''Failed to load manifest for partition '' @ decimal pid @ '': '' @ error_msg e)), st)
         | (Inr (manifest, _), st) \<Rightarrow>
             (case load_tables io cfg dir manifest st of
                (r, st) \<Rightarrow>
                  (let tracked = map fst (concat (case r of None \<Rightarrow> [] | Some levels \<Rightarrow> levels))
                   in case max_iteration tracked max_flush_iteration of
                        Inl e \<Rightarrow> (Inl e, st)
                      | Inr m \<Rightarrow>
                          (case check_orphans dir tracked st of
                             Inl e \<Rightarrow> (Inl (generic_error (''Error while checking orphans: '' @ error_msg e)), st)
                           | Inr _ \<Rightarrow> (Inr (loaded_state cfg r, m), st)))))"

fun load_partitions ::
    "io_ops \<Rightarrow> dir_env \<Rightarrow> manager_config \<Rightarrow> nat list \<Rightarrow> nat \<Rightarrow> fs_state \<Rightarrow> ((nat \<times> partition_state) list \<times> nat) expected \<times> fs_state" where
  "load_partitions io denv cfg [] m st = (Inr ([], m), st)"
| "load_partitions io denv cfg (pid # pids) m st =
     (case load_partition io denv cfg pid m st of
        (Inl e, st) \<Rightarrow> (Inl (generic_error (''Error while loading prefix '' @ decimal pid @ '': '' @ error_msg e)), st)
      | (Inr (ps, m), st) \<Rightarrow>
          (case load_partitions io denv cfg pids m st of
             (Inl e, st) \<Rightarrow> (Inl e, st) | (Inr (rest, m), st) \<Rightarrow> (Inr ((pid, ps) # rest, m), st)))"

definition manager_load :: "io_ops \<Rightarrow> dir_env \<Rightarrow> manager_config \<Rightarrow> fs_state \<Rightarrow> sst_manager expected \<times> fs_state" where
  "manager_load io denv cfg st =
     (let mgr = make_sst_manager cfg
      in if \<not> dir_exists denv (cf_partitions_path cfg) then (Inr mgr, st)
         else case load_partitions io denv cfg (map fst (sm_sorted_indices mgr)) 0 st of
           (Inl e, st) \<Rightarrow> (Inl e, st)
         | (Inr (indices, m), st) \<Rightarrow> (Inr (mgr\<lparr>sm_sorted_indices := indices, sm_flush_iteration := (m + 1) mod 2 ^ 64\<rparr>), st))"

section \<open>Writing\<close>

definition open_manifest :: "io_ops \<Rightarrow> path \<Rightarrow> nat option \<Rightarrow> fs_state \<Rightarrow> nat expected \<times> fs_state" where
  "open_manifest io path state_file st =
     (case state_file of
        Some fd \<Rightarrow> (Inr fd, st)
      | None \<Rightarrow>
          (case io_statx io path st of
             Stat_Error _ \<Rightarrow> (Inl filesystem_error, st)
           | statx \<Rightarrow>
               (case from_path io path (if statx \<noteq> Absent then read_write else read_write_new) False
                       (Some (of_nat PAGE_SIZE_IN_BYTES)) st of
                  (Inl e, st) \<Rightarrow> (Inl (generic_error (''Failed to open partition state file: '' @ error_msg e)), st)
                | (Inr f, st) \<Rightarrow> (Inr (file_fd f), st))))"

text \<open>
  The levels that are written. The tree goes on changing meanwhile: \<open>snapshot\<close> is its state when the
  snapshot is taken, \<open>checked\<close> when the generation number is compared, and \<open>latest\<close> when the levels
  are read again because the numbers differ.
\<close>

definition levels_to_write :: "partition_state \<Rightarrow> partition_state \<Rightarrow> partition_state \<Rightarrow> sst list list" where
  "levels_to_write snapshot checked latest =
     (if ps_levels_seq_num checked \<noteq> ps_levels_seq_num snapshot then ps_levels latest else ps_levels snapshot)"

definition string_bytes :: "string \<Rightarrow> bytes" where
  "string_bytes s = map (\<lambda>c. of_nat (of_char c)) s"

definition write_manifest ::
    "io_ops \<Rightarrow> (nat \<Rightarrow> string) \<Rightarrow> nat \<Rightarrow> nat \<Rightarrow> sst list list \<Rightarrow> fs_state \<Rightarrow> status \<times> fs_state" where
  "write_manifest io name_of fd dir_fd levels st =
     (case io_write io fd (string_bytes (serialize_levels name_of levels)) 0 st of
        (r, st) \<Rightarrow>
          if r < 0 then (Inl (generic_error (''pwrite failed for partition state file: '' @ io_strerror io (- r))), st)
          else case io_fdatasync io fd st of
            (r, st) \<Rightarrow>
              if r < 0 then (Inl (generic_error (''fdatasync failed for partition state file: '' @ io_strerror io (- r))), st)
              else case io_fdatasync io dir_fd st of
                (r, st) \<Rightarrow> (if r < 0 then Inl (generic_error (''fdatasync dir failed: '' @ io_strerror io (- r))) else ok, st))"

definition persist_partition_state ::
    "io_ops \<Rightarrow> (nat \<Rightarrow> string) \<Rightarrow> path \<Rightarrow> nat option \<Rightarrow> nat \<Rightarrow> partition_state \<Rightarrow> partition_state \<Rightarrow> partition_state
      \<Rightarrow> fs_state \<Rightarrow> status \<times> nat option \<times> fs_state" where
  "persist_partition_state io name_of path state_file dir_fd snapshot checked latest st =
     (case open_manifest io path state_file st of
        (Inl e, st) \<Rightarrow> (Inl e, state_file, st)
      | (Inr fd, st) \<Rightarrow>
          (case write_manifest io name_of fd dir_fd (levels_to_write snapshot checked latest) st of (r, st) \<Rightarrow> (r, Some fd, st)))"

section \<open>The round trip\<close>

definition name_ok :: "string \<Rightarrow> bool" where
  "name_ok n \<longleftrightarrow> n \<noteq> [] \<and> CHR '';'' \<notin> set n \<and> NL \<notin> set n"

lemma until_delim:
  assumes "delim \<notin> set s"
  shows "takeWhile (\<lambda>c. c \<noteq> delim) (s @ delim # t) = s" "dropWhile (\<lambda>c. c \<noteq> delim) (s @ delim # t) = delim # t"
    "dropWhile (\<lambda>c. c \<noteq> delim) s = []"
  using assms by (induction s) auto

lemma split_str_by_no_delim: "delim \<notin> set s \<Longrightarrow> split_str_by delim s = [s]"
  by (subst split_str_by.simps) (simp add: until_delim)

lemma split_str_by_delim: "delim \<notin> set s \<Longrightarrow> split_str_by delim (s @ delim # t) = s # split_str_by delim t"
  by (subst split_str_by.simps) (simp add: until_delim)

lemma split_serialize_names:
  assumes "\<forall>n \<in> set (n # ns). CHR '';'' \<notin> set n"
  shows "split_str_by (CHR '';'') (n @ serialize_names False ns) = n # ns"
  using assms
proof (induction ns arbitrary: n)
  case Nil
  then show ?case by (simp add: split_str_by_no_delim)
next
  case (Cons m ns)
  then show ?case by (simp add: split_str_by_delim)
qed

lemma NL_serialize_names: "\<forall>n \<in> set ns. NL \<notin> set n \<Longrightarrow> NL \<notin> set (serialize_names is_first ns)"
  by (induction ns arbitrary: is_first) (auto simp: NL_def)

lemma line_names:
  assumes "\<forall>n \<in> set ns. name_ok n"
  shows "(if serialize_names True ns = [] then [] else split_str_by (CHR '';'') (serialize_names True ns)) = ns"
proof (cases ns)
  case (Cons n ns')
  then have "n \<noteq> []" "split_str_by (CHR '';'') (n @ serialize_names False ns') = n # ns'"
    using assms split_serialize_names [of n ns'] by (auto simp: name_ok_def)
  then show ?thesis using Cons by simp
qed simp

text \<open>Loading the tables of given names, level by level.\<close>

fun load_levels :: "(string \<Rightarrow> 's \<Rightarrow> 't expected \<times> 's) \<Rightarrow> string list list \<Rightarrow> 's \<Rightarrow> 't list list expected \<times> 's" where
  "load_levels load [] st = (Inr [], st)"
| "load_levels load (ns # nss) st =
     (case load_level load ns st of
        (Inl e, st) \<Rightarrow> (Inl e, st)
      | (Inr level, st) \<Rightarrow> (case load_levels load nss st of (Inl e, st) \<Rightarrow> (Inl e, st) | (Inr ls, st) \<Rightarrow> (Inr (level # ls), st)))"

lemma parse_serialize_text:
  assumes "\<forall>n \<in> set (concat nss). name_ok n"
  shows "parse_manifest load (length nss) (serialize_text nss @ pad) st = load_levels load nss st"
  using assms
proof (induction nss arbitrary: st)
  case (Cons ns nss)
  let ?line = "serialize_names True ns" and ?rest = "serialize_text nss @ pad"
  have nl: "NL \<notin> set ?line" using Cons.prems by (intro NL_serialize_names) (auto simp: name_ok_def)
  have whole: "serialize_text (ns # nss) @ pad = ?line @ NL # ?rest" by (simp add: serialize_text_def)
  have line: "takeWhile (\<lambda>c. c \<noteq> NL) (?line @ NL # ?rest) = ?line" "dropWhile (\<lambda>c. c \<noteq> NL) (?line @ NL # ?rest) = NL # ?rest"
    using nl by (simp_all add: until_delim)
  have "\<forall>n \<in> set ns. name_ok n" using Cons.prems by simp
  note names = line_names [OF this]
  have IH: "parse_manifest load (length nss) ?rest st = load_levels load nss st" for st using Cons by simp
  show ?case unfolding whole by (simp add: Let_def line names IH split: prod.split sum.split)
qed simp

lemma string_bytes_text:
  assumes "length s = PAGE_SIZE_IN_BYTES"
  shows "manifest_text (string_bytes s @ rest) = s"
proof -
  have "char_of (unat (of_nat (of_char c) :: byte)) = c" for c :: char
  proof -
    have "unat (of_nat (of_char c) :: byte) = of_char c" by (simp add: unsigned_of_nat take_bit_nat_eq_self)
    then show ?thesis by simp
  qed
  then show ?thesis using assms by (simp add: manifest_text_def string_bytes_def comp_def)
qed

lemma length_serialize_levels: "length (serialize_levels name_of levels) = PAGE_SIZE_IN_BYTES"
  by (simp add: serialize_levels_def Let_def)

definition manifest_fits :: "(nat \<Rightarrow> string) \<Rightarrow> sst list list \<Rightarrow> bool" where
  "manifest_fits name_of levels \<longleftrightarrow> (\<forall>n \<in> set (concat (map (level_names name_of) levels)). name_ok n)
     \<and> length (serialize_text (map (level_names name_of) levels)) \<le> PAGE_SIZE_IN_BYTES"

lemma parse_serialized:
  assumes "manifest_fits name_of levels"
  shows "parse_manifest load (length levels) (manifest_text (string_bytes (serialize_levels name_of levels))) st
    = load_levels load (map (level_names name_of) levels) st"
proof -
  let ?nss = "map (level_names name_of) levels"
  have "manifest_text (string_bytes (serialize_levels name_of levels))
      = serialize_text ?nss @ replicate (PAGE_SIZE_IN_BYTES - length (serialize_text ?nss)) (CHR 0x00)"
    using assms string_bytes_text [OF length_serialize_levels, of name_of levels "[]"]
    by (simp add: serialize_levels_def Let_def manifest_fits_def)
  then show ?thesis using parse_serialize_text [of ?nss load] assms by (simp add: manifest_fits_def)
qed

lemma load_levels_names:
  assumes "\<forall>n \<in> set (concat nss). name_ok n"
  shows "load_levels (\<lambda>n s. (Inr n, s)) nss () = (Inr nss, ())"
  using assms
proof (induction nss)
  case (Cons ns nss)
  have "load_level (\<lambda>n s. (Inr n, s)) ms () = (Inr ms, ())" if "\<forall>n \<in> set ms. name_ok n" for ms
    using that by (induction ms) (simp_all add: name_ok_def)
  from this [of ns] show ?case using Cons by simp
qed simp

section \<open>Names of files\<close>

lemma digit_char: "d < 10 \<Longrightarrow> of_char (hex_digit d) = (48 + d :: nat)"
  unfolding hex_digit_def by (auto simp: less_Suc_eq numeral_eq_Suc)

lemma digit_is_digit: "d < 10 \<Longrightarrow> is_digit (hex_digit d)"
  using digit_char [of d] by (simp add: is_digit_def)

lemma digits_value_snoc: "digits_value (ds @ [c]) = digits_value ds * 10 + (of_char c - 48)"
  by (simp add: digits_value_def)

lemma decimal_digits: "list_all is_digit (decimal n)" "digits_value (decimal n) = n" "decimal n \<noteq> []"
proof (induction n rule: decimal.induct)
  case (1 n)
  { case 1 show ?case using "1.IH"(1) by (subst decimal.simps) (auto simp: digit_is_digit) }
  { case 2
    show ?case
    proof (cases "n < 10")
      case True
      then have "decimal n = [hex_digit n]" by (subst decimal.simps) simp
      then show ?thesis using True digit_char [of n] by (simp add: digits_value_def)
    next
      case False
      then have "decimal n = decimal (n div 10) @ [hex_digit (n mod 10)]" by (subst decimal.simps) simp
      then show ?thesis using "1.IH"(2) [OF False] digit_char [of "n mod 10"] by (simp add: digits_value_snoc)
    qed }
  { case 3 show ?case by (subst decimal.simps) simp }
qed

lemma digits_value_zeros: "digits_value (replicate k (CHR ''0'') @ ds) = digits_value ds"
proof -
  have "foldl (\<lambda>n c. n * 10 + (of_char c - 48)) 0 (replicate k (CHR ''0'')) = (0 :: nat)" by (induction k) simp_all
  then show ?thesis by (simp add: digits_value_def)
qed

lemma stoull_digits:
  assumes "list_all is_digit ds" "ds \<noteq> []" "digits_value ds < 2 ^ 64"
  shows "stoull ds = Inr (digits_value ds)"
proof -
  obtain c cs where ds: "ds = c # cs" using assms(2) by (cases ds) simp_all
  then have "is_digit c" using assms(1) by simp
  then have c: "\<not> is_space c" "c \<noteq> CHR ''-''" "c \<noteq> CHR ''+''" by (auto simp: is_digit_def is_space_def)
  have "takeWhile is_digit ds = ds" using assms(1) by (simp add: list_all_iff)
  then show ?thesis using assms(3) c ds by (simp add: stoull_def Let_def)
qed

lemma extension_parts:
  assumes "CHR ''.'' \<notin> set ds" "prefix \<noteq> []"
  shows "path_extension (prefix @ CHR ''.'' # ds) = CHR ''.'' # ds" "path_stem (prefix @ CHR ''.'' # ds) = prefix"
proof -
  have "takeWhile (\<lambda>c. c \<noteq> CHR ''.'') (rev (prefix @ CHR ''.'' # ds)) = rev ds"
    using until_delim(1) [of "CHR ''.''" "rev ds" "rev prefix"] assms(1) by simp
  then show "path_extension (prefix @ CHR ''.'' # ds) = CHR ''.'' # ds"
    using assms(2) by (simp add: path_extension_def Let_def)
  then show "path_stem (prefix @ CHR ''.'' # ds) = prefix" by (simp add: path_stem_def)
qed

lemma iteration_digits:
  obtains ds where "iteration_extension n = CHR ''.'' # ds" "list_all is_digit ds" "ds \<noteq> []" "digits_value ds = n" "CHR ''.'' \<notin> set ds"
proof
  let ?ds = "replicate (6 - length (decimal n)) CHR ''0'' @ decimal n"
  show "iteration_extension n = CHR ''.'' # ?ds" by (simp add: iteration_extension_def)
  have "list_all is_digit (replicate k (CHR ''0''))" for k by (induction k) (simp_all add: is_digit_def)
  then show all: "list_all is_digit ?ds" using decimal_digits(1) by simp
  show "?ds \<noteq> []" using decimal_digits(3) by simp
  show "digits_value ?ds = n" by (simp add: digits_value_zeros decimal_digits(2))
  have "\<not> is_digit (CHR ''.'')" by (simp add: is_digit_def)
  then show "CHR ''.'' \<notin> set ?ds" using all by (auto simp: list_all_iff)
qed

lemma flush_iteration_sst_name:
  assumes "prefix \<noteq> []" "n < 2 ^ 64"
  shows "flush_iteration_from_filename (with_extension prefix (iteration_extension n)) = Inr n"
    "path_stem (with_extension prefix (iteration_extension n)) = prefix"
proof -
  obtain ds where ds: "iteration_extension n = CHR ''.'' # ds" "list_all is_digit ds" "ds \<noteq> []" "digits_value ds = n" "CHR ''.'' \<notin> set ds"
    by (rule iteration_digits)
  show "flush_iteration_from_filename (with_extension prefix (iteration_extension n)) = Inr n"
    "path_stem (with_extension prefix (iteration_extension n)) = prefix"
    using extension_parts [OF ds(5) assms(1)] stoull_digits [OF ds(2,3)] ds(1,4) assms(2)
    by (simp_all add: flush_iteration_from_filename_def with_extension_def)
qed

section \<open>What loading leaves alone\<close>

lemma from_path_keeps_dir:
  assumes "kernel_ok io" "mode = read_only \<or> mode = read_write"
  shows "fs_dir (snd (from_path io path mode d expected st)) = fs_dir st"
proof -
  obtain fd st1 where o: "io_open io path (open_flags mode d) st = (fd, st1)" by fastforce
  have "open_flags mode d AND O_CREAT = 0" "open_flags mode d AND O_TRUNC = 0"
    using mode_flags_bits [of mode d] assms(2) by auto
  then have "fs_dir st1 = fs_dir st"
    using kernel_okD(2) [OF assms(1) o] by (auto simp: open_result_def split: option.splits)
  then show ?thesis
    using assms(2) by (auto simp: from_path_def o expect_size_def wrap_fd_def Let_def split: stat_result.split sum.split option.split)
qed

lemma load_table_keeps_dir: "kernel_ok io \<Longrightarrow> fs_dir (snd (load_table io dir od n st)) = fs_dir st"
  using from_path_keeps_dir [of io read_only "path_join dir n" od None st] kernel_okD(8) [of io]
  by (auto simp: load_table_def split: prod.split sum.split)

lemma load_level_keeps:
  assumes "\<And>n st. f (snd (load n st)) = f st"
  shows "f (snd (load_level load ns st)) = f st"
proof (induction ns arbitrary: st)
  case (Cons n ns)
  obtain r st1 where l: "load n st = (r, st1)" by fastforce
  obtain r' st2 where l': "load_level load ns st1 = (r', st2)" by fastforce
  have "f st1 = f st" "f st2 = f st1" using assms [of n st] Cons.IH [of st1] l l' by simp_all
  then show ?case using Cons.IH by (simp add: l l' split: sum.split)
qed simp

lemma parse_manifest_keeps:
  assumes "\<And>n st. f (snd (load n st)) = f st"
  shows "f (snd (parse_manifest load n content st)) = f st"
proof (induction n arbitrary: content st)
  case (Suc n)
  let ?line = "takeWhile (\<lambda>c. c \<noteq> NL) content"
  obtain r st1 where l: "load_level load (if ?line = [] then [] else split_str_by (CHR '';'') ?line) st = (r, st1)" by fastforce
  obtain r' st2 where l': "parse_manifest load n (tl (dropWhile (\<lambda>c. c \<noteq> NL) content)) st1 = (r', st2)" by fastforce
  have "f st1 = f st" using load_level_keeps [of f load "if ?line = [] then [] else split_str_by (CHR '';'') ?line" st] assms l by simp
  moreover have "f st2 = f st1" using Suc.IH [of "tl (dropWhile (\<lambda>c. c \<noteq> NL) content)" st1] l' by simp
  ultimately show ?case unfolding parse_manifest.simps Let_def l by (simp add: l' split: sum.split)
qed simp

lemma load_tables_keeps_dir:
  assumes "kernel_ok io"
  shows "fs_dir (snd (load_tables io cfg dir manifest st)) = fs_dir st"
proof -
  let ?load = "load_table io dir (cf_use_odirect_for_ssts cfg)"
  have "fs_dir (snd (parse_manifest ?load n c st)) = fs_dir st" for n c
    by (rule parse_manifest_keeps) (rule load_table_keeps_dir [OF assms])
  then show ?thesis by (auto simp: load_tables_def Let_def close_since_def split: prod.split sum.split dest: arg_cong [of _ _ snd]) (metis snd_conv)+
qed

lemma max_iteration_bound:
  "max_iteration ns m = Inr m' \<Longrightarrow> m \<le> m' \<and> (\<forall>n \<in> set ns. \<exists>i \<le> m'. flush_iteration_from_filename n = Inr i)"
proof (induction ns arbitrary: m)
  case (Cons n ns)
  then obtain i where i: "flush_iteration_from_filename n = Inr i" "max_iteration ns (max m i) = Inr m'"
    by (auto split: sum.splits)
  then show ?case using Cons.IH [OF i(2)] by auto
qed simp

lemma stoull_less: "stoull s = Inr i \<Longrightarrow> i < 2 ^ 64"
  unfolding stoull_def Let_def by (auto split: if_splits)

lemma max_iteration_less: "max_iteration ns m = Inr m' \<Longrightarrow> m < 2 ^ 64 \<Longrightarrow> m' < 2 ^ 64"
proof (induction ns arbitrary: m)
  case (Cons n ns)
  then obtain i where i: "flush_iteration_from_filename n = Inr i" "max_iteration ns (max m i) = Inr m'"
    by (auto split: sum.splits)
  then have "i < 2 ^ 64" using stoull_less by (auto simp: flush_iteration_from_filename_def split: if_splits)
  then show ?case using Cons.IH [OF i(2)] Cons.prems(2) by (simp add: max_def)
qed simp

lemma load_partition_less: "load_partition io denv cfg pid m st = (Inr (ps, m'), st') \<Longrightarrow> m < 2 ^ 64 \<Longrightarrow> m' < 2 ^ 64"
  unfolding load_partition_def Let_def by (auto split: if_splits sum.splits prod.splits dest: max_iteration_less)

lemma load_partitions_less:
  "load_partitions io denv cfg pids m st = (Inr (indices, m'), st') \<Longrightarrow> m < 2 ^ 64 \<Longrightarrow> m' < 2 ^ 64"
proof (induction pids arbitrary: m st indices)
  case (Cons pid pids)
  then obtain ps m1 st1 rest where one: "load_partition io denv cfg pid m st = (Inr (ps, m1), st1)"
    and rest: "load_partitions io denv cfg pids m1 st1 = (Inr (rest, m'), st')"
    by (auto split: prod.splits sum.splits)
  show ?case by (rule Cons.IH [OF rest load_partition_less [OF one Cons.prems(2)]])
qed simp

text \<open>After a partition was loaded, each of its files has a number not above the one that is kept.\<close>

definition numbered :: "path \<Rightarrow> nat \<Rightarrow> fs_state \<Rightarrow> bool" where
  "numbered dir m st \<longleftrightarrow> (\<forall>n \<in> set (dir_entries dir st). path_stem n = MANIFEST_FILENAME
     \<or> (\<exists>i \<le> m. flush_iteration_from_filename n = Inr i))"

definition dir_env_ok :: "dir_env \<Rightarrow> path \<Rightarrow> fs_state \<Rightarrow> bool" where
  "dir_env_ok denv base st \<longleftrightarrow>
     (\<forall>pid. dir_entries (dir_path base pid) st \<noteq> [] \<longrightarrow> dir_exists denv (dir_path base pid) \<and> dir_exists denv base)"

lemma dir_entries_cong: "fs_dir st' = fs_dir st \<Longrightarrow> dir_entries dir st' = dir_entries dir st"
  by (simp add: dir_entries_def)

lemma load_partition_numbered:
  assumes io: "kernel_ok io" and denv: "dir_env_ok denv (cf_partitions_path cfg) st"
    and load: "load_partition io denv cfg pid m st = (Inr (ps, m'), st')"
  shows "fs_dir st' = fs_dir st" "m \<le> m'" "numbered (dir_path (cf_partitions_path cfg) pid) m' st"
proof -
  let ?dir = "dir_path (cf_partitions_path cfg) pid"
  have "fs_dir st' = fs_dir st \<and> m \<le> m' \<and> numbered ?dir m' st"
  proof (cases "dir_exists denv ?dir")
    case False
    then have "dir_entries ?dir st = []" using denv by (auto simp: dir_env_ok_def)
    then show ?thesis using False load by (simp add: load_partition_def Let_def numbered_def)
  next
    case True
    obtain r1 st1 where lm: "load_partition_manifest io denv ?dir st = (r1, st1)" by fastforce
    have dir1: "fs_dir st1 = fs_dir st"
      using lm from_path_keeps_dir [OF io, of read_write "path_join ?dir MANIFEST_FILENAME" False "Some (of_nat PAGE_SIZE_IN_BYTES)" st]
      by (auto simp: load_partition_manifest_def Let_def split: stat_result.splits if_splits prod.splits)
    from load True lm obtain manifest d where r1: "r1 = Inr (manifest, d)"
      by (cases r1) (auto simp: load_partition_def Let_def)
    obtain r2 st2 where lt: "load_tables io cfg ?dir manifest st1 = (r2, st2)" by fastforce
    have dir2: "fs_dir st2 = fs_dir st" using load_tables_keeps_dir [OF io, of cfg ?dir manifest st1] lt dir1 by simp
    let ?tracked = "map fst (concat (case r2 of None \<Rightarrow> [] | Some levels \<Rightarrow> levels))"
    from load True lm r1 lt have max: "max_iteration ?tracked m = Inr m'" and orphans: "check_orphans ?dir ?tracked st2 = ok" and "st' = st2"
      by (auto simp: load_partition_def Let_def split: sum.splits)
    have "\<forall>n \<in> set (dir_entries ?dir st). path_stem n = MANIFEST_FILENAME \<or> n \<in> set ?tracked"
      using orphans dir_entries_cong [OF dir2, of ?dir] by (auto simp: check_orphans_def Let_def filter_empty_conv split: if_splits)
    then show ?thesis using max_iteration_bound [OF max] dir2 \<open>st' = st2\<close> unfolding numbered_def by blast
  qed
  then show "fs_dir st' = fs_dir st" "m \<le> m'" "numbered ?dir m' st" by blast+
qed

lemma numbered_mono: "numbered dir m st \<Longrightarrow> m \<le> m' \<Longrightarrow> numbered dir m' st"
  unfolding numbered_def by (meson le_trans)

lemma load_partitions_numbered:
  assumes io: "kernel_ok io" and "dir_env_ok denv (cf_partitions_path cfg) st"
    and "load_partitions io denv cfg pids m st = (Inr (indices, m'), st')"
  shows "fs_dir st' = fs_dir st \<and> m \<le> m' \<and> (\<forall>pid \<in> set pids. numbered (dir_path (cf_partitions_path cfg) pid) m' st)"
  using assms(2,3)
proof (induction pids arbitrary: m st indices)
  case (Cons pid pids)
  then obtain ps m1 st1 where one: "load_partition io denv cfg pid m st = (Inr (ps, m1), st1)"
    by (auto split: prod.splits sum.splits)
  with Cons.prems(2) obtain rest where rest: "load_partitions io denv cfg pids m1 st1 = (Inr (rest, m'), st')"
    by (auto split: prod.splits sum.splits)
  note p = load_partition_numbered [OF io Cons.prems(1) one]
  note same = dir_entries_cong [OF p(1)]
  have "dir_env_ok denv (cf_partitions_path cfg) st1" using Cons.prems(1) by (simp add: dir_env_ok_def same)
  from Cons.IH [OF this rest] have "fs_dir st' = fs_dir st1" "m1 \<le> m'"
      "\<forall>pid \<in> set pids. numbered (dir_path (cf_partitions_path cfg) pid) m' st"
    by (simp_all add: numbered_def same)
  then show ?case using p numbered_mono by auto
qed simp

lemma hex_digit_slash: "d < 16 \<Longrightarrow> hex_digit d \<noteq> CHR ''/''"
  unfolding hex_digit_def by (auto simp: less_Suc_eq numeral_eq_Suc)

lemma hex2_no_slash: "length (hex2 b) = 2" "CHR ''/'' \<notin> set (hex2 b)"
proof -
  have "unat b < 256" using unsigned_less [where 'a = nat, of b] by simp
  then have "unat b div 16 < 16" by (simp add: less_mult_imp_div_less)
  then show "CHR ''/'' \<notin> set (hex2 b)" using hex_digit_slash [of "unat b div 16"] hex_digit_slash [of "unat b mod 16"] by (auto simp: hex2_def)
qed (simp add: hex2_def)

lemma sst_path_in_dir:
  obtains prefix where "sst_path base pid n = dir_path base pid @ ''/'' @ with_extension prefix (iteration_extension n)"
    "length prefix = 4" "CHR ''/'' \<notin> set (with_extension prefix (iteration_extension n))"
proof
  let ?a = "le_image 2 (of_nat pid :: u16)"
  let ?prefix = "hex2 (?a ! 1) @ hex2 (?a ! 0)" and ?dir = "dir_path base pid"
  let ?name = "with_extension ?prefix (iteration_extension n)"
  have dir: "?dir = path_join base (hex2 (?a ! 1))" by (simp add: dir_path_def format_prefix_def Let_def)
  obtain c d where h: "hex2 (?a ! 1) = [c, d]" "c \<noteq> CHR ''/''" "d \<noteq> CHR ''/''"
    using hex2_no_slash [of "?a ! 1"] by (auto simp: length_Suc_conv numeral_2_eq_2)
  then have "?dir \<noteq> []" "last ?dir \<noteq> CHR ''/''" by (auto simp: dir path_join_def)
  moreover have "?name \<noteq> []" "hd ?name \<noteq> CHR ''/''" using h by (simp_all add: with_extension_def)
  moreover have "sst_path base pid n = path_join ?dir ?name"
    by (simp add: sst_path_def dir format_prefix_def Let_def)
  ultimately show "sst_path base pid n = ?dir @ ''/'' @ ?name" by (simp add: path_join_def)
  show "length ?prefix = 4" using hex2_no_slash(1) by simp
  obtain ds where ds: "iteration_extension n = CHR ''.'' # ds" "list_all is_digit ds" by (rule iteration_digits)
  have "\<not> is_digit (CHR ''/'')" by (simp add: is_digit_def)
  then have "CHR ''/'' \<notin> set ds" using ds(2) by (auto simp: list_all_iff)
  then show "CHR ''/'' \<notin> set ?name" using hex2_no_slash(2) ds(1) by (simp add: with_extension_def)
qed

lemma dir_entries_mem:
  "p = dir @ ''/'' @ name \<Longrightarrow> CHR ''/'' \<notin> set name \<Longrightarrow> map_of (fs_dir st) p = Some i \<Longrightarrow> name \<in> set (dir_entries dir st)"
  by (auto simp: dir_entries_def dest!: map_of_SomeD intro!: bexI [of _ "(p, i)"])

lemma numbered_fresh:
  assumes "numbered (dir_path base pid) m st" "m < n" "n < 2 ^ 64"
  shows "map_of (fs_dir st) (sst_path base pid n) = None"
proof (rule ccontr)
  assume "map_of (fs_dir st) (sst_path base pid n) \<noteq> None"
  then obtain i where i: "map_of (fs_dir st) (sst_path base pid n) = Some i" by blast
  obtain prefix where p: "sst_path base pid n = dir_path base pid @ ''/'' @ with_extension prefix (iteration_extension n)"
    "length prefix = 4" "CHR ''/'' \<notin> set (with_extension prefix (iteration_extension n))" by (rule sst_path_in_dir)
  have "prefix \<noteq> []" "prefix \<noteq> MANIFEST_FILENAME" using p(2) by (auto simp: MANIFEST_FILENAME_def)
  then show False
    using assms dir_entries_mem [OF p(1,3) i] flush_iteration_sst_name [of prefix n] unfolding numbered_def by fastforce
qed

text \<open>
  C9: After a restart the names of new tables are free. Loading the partitions either fails, or sets
  the number of the next flush above the numbers of all files of all partitions, whether or not they
  are named in a manifest; so no flush and no merge finds its file already there. The number has 64
  bits: it is 0 again if there is a file with the highest number, and then nothing is claimed.
\<close>

theorem load_names_fresh:
  assumes "kernel_ok io" "dir_env_ok denv (cf_partitions_path cfg) st" "manager_load io denv cfg st = (Inr m, st')"
    and "pid \<in> fst ` set (sm_sorted_indices m)" "sm_flush_iteration m \<le> n" "n < 2 ^ 64"
    and "dir_exists denv (cf_partitions_path cfg) \<Longrightarrow> sm_flush_iteration m \<noteq> 0"
  shows "map_of (fs_dir st') (sst_path (cf_partitions_path cfg) pid n) = None"
proof (cases "dir_exists denv (cf_partitions_path cfg)")
  case False
  then have "st' = st" using assms(3) by (simp add: manager_load_def Let_def)
  moreover have "dir_entries (dir_path (cf_partitions_path cfg) pid) st = []" using assms(2) False by (auto simp: dir_env_ok_def)
  moreover obtain prefix where "sst_path (cf_partitions_path cfg) pid n
      = dir_path (cf_partitions_path cfg) pid @ ''/'' @ with_extension prefix (iteration_extension n)"
    "CHR ''/'' \<notin> set (with_extension prefix (iteration_extension n))" by (rule sst_path_in_dir)
  note dir_entries_mem [OF this, of st]
  ultimately show ?thesis by (cases "map_of (fs_dir st) (sst_path (cf_partitions_path cfg) pid n)") auto
next
  case True
  let ?pids = "map fst (sm_sorted_indices (make_sst_manager cfg))"
  obtain indices m' where load: "load_partitions io denv cfg ?pids 0 st = (Inr (indices, m'), st')"
    and m: "m = (make_sst_manager cfg)\<lparr>sm_sorted_indices := indices, sm_flush_iteration := (m' + 1) mod 2 ^ 64\<rparr>"
    using assms(3) True by (auto simp: manager_load_def Let_def split: prod.splits sum.splits)
  have pids: "map fst indices = pids" if "load_partitions io denv cfg pids k s = (Inr (indices, k'), s')" for pids k s indices k' s'
    using that by (induction pids arbitrary: k s indices) (auto split: prod.splits sum.splits)
  note all = load_partitions_numbered [OF assms(1,2) load]
  have "pid \<in> set (map fst indices)" using assms(4) by (simp add: m)
  then have "pid \<in> set ?pids" unfolding pids [OF load] .
  then have "numbered (dir_path (cf_partitions_path cfg) pid) m' st" using all by blast
  then have "numbered (dir_path (cf_partitions_path cfg) pid) m' st'" using all dir_entries_cong [of st' st] by (simp only: numbered_def)
  moreover have "m' < 2 ^ 64" using load_partitions_less [OF load] by simp
  then have "m' < n" using assms(5) assms(7) [OF True] by (cases "m' + 1 = 2 ^ 64") (simp_all add: m)
  ultimately show ?thesis using numbered_fresh assms(6) by blast
qed

section \<open>The tables after a restart\<close>

text \<open>A file that holds a table, whatever descriptor it is opened with.\<close>

definition stored_at :: "hash64 \<Rightarrow> fs_state \<Rightarrow> path \<Rightarrow> sst \<Rightarrow> (bytes \<times> bytes) list \<Rightarrow> bool" where
  "stored_at xxh st path t kvs \<longleftrightarrow>
     (\<exists>i t'. map_of (fs_dir st) path = Some i \<and> sst_load (sst_file t) (fs_data st i) = Inr t' \<and> sst_file t' = sst_file t
        \<and> table_holds xxh (\<lambda>_. fs_data st i) t' kvs)"

lemma sst_load_file: "sst_load fd content = Inr t \<Longrightarrow> sst_load fd' content = Inr (t\<lparr>sst_file := fd'\<rparr>)"
  by (auto simp: sst_load_def make_sst_def split: sum.splits)

lemma table_holds_file: "table_holds xxh (\<lambda>_. content) t kvs \<Longrightarrow> files fd = content \<Longrightarrow> table_holds xxh files (t\<lparr>sst_file := fd\<rparr>) kvs"
  by (simp add: table_holds_def sst_rep_def super_ok_def probe_filter_def)

lemma adds_file_inode:
  assumes "adds_file path fd st st'"
  obtains i where "map_of (fs_dir st') path = Some i" "fd_data st' fd = fs_data st' i"
  using assms unfolding adds_file_def by (elim conjE exE) (simp add: fd_data_def)

lemma wrote_table_stored:
  assumes "wrote_table xxh path st kvs t st'"
  shows "stored_at xxh st' path t kvs"
proof -
  have w: "adds_file path (sst_file t) st st'" "table_holds xxh (fd_data st') t kvs"
      "sst_load (sst_file t) (fd_data st' (sst_file t)) = Inr (t\<lparr>super_index := super_index_of (meta_index t)\<rparr>)"
    using assms by (simp_all add: wrote_table_def)
  obtain i where i: "map_of (fs_dir st') path = Some i" "fd_data st' (sst_file t) = fs_data st' i" by (rule adds_file_inode [OF w(1)])
  have "table_holds xxh (fd_data st') (t\<lparr>super_index := super_index_of (meta_index t)\<rparr>) kvs"
    using w(2) by (auto simp: table_holds_def sst_rep_def probe_filter_def super_ok_def super_index_of_def)
  then have "table_holds xxh (\<lambda>_. fs_data st' i) (t\<lparr>super_index := super_index_of (meta_index t)\<rparr>) kvs"
    by (rule table_holds_cong) (simp add: i(2))
  then show ?thesis
    using w(3) i unfolding stored_at_def
    by (intro exI [of _ i] exI [of _ "t\<lparr>super_index := super_index_of (meta_index t)\<rparr>"]) simp
qed

text \<open>What a step of loading keeps: the named files, and the files that are open.\<close>

definition loads :: "fs_state \<Rightarrow> fs_state \<Rightarrow> bool" where
  "loads st st' \<longleftrightarrow> fs_dir st' = fs_dir st \<and> fs_data st' = fs_data st \<and> keeps_open st st'"

lemma loads_refl: "loads st st"
  by (simp add: loads_def keeps_open_def)

lemma loads_trans: "loads st st1 \<Longrightarrow> loads st1 st2 \<Longrightarrow> loads st st2"
  unfolding loads_def keeps_open_def by metis

lemma stored_at_loads: "loads st st' \<Longrightarrow> stored_at xxh st path t kvs \<Longrightarrow> stored_at xxh st' path t kvs"
  by (simp add: loads_def stored_at_def)

definition reloaded :: "hash64 \<Rightarrow> fs_state \<Rightarrow> (bytes \<times> bytes) list \<Rightarrow> string \<times> sst \<Rightarrow> bool" where
  "reloaded xxh st kvs nt \<longleftrightarrow> table_holds xxh (fd_data st) (snd nt) kvs \<and> sst_file (snd nt) \<in> fst ` set (fs_fds st)"

lemma reloaded_loads: "loads st st' \<Longrightarrow> reloaded xxh st kvs nt \<Longrightarrow> reloaded xxh st' kvs nt"
  unfolding loads_def reloaded_def keeps_open_def using table_holds_cong by metis

lemma from_path_read:
  assumes io: "kernel_ok io" and p: "map_of (fs_dir st) path = Some i" and res: "from_path io path read_only d None st = (Inr f, st')"
  shows "loads st st'" "fd_data st' (file_fd f) = fs_data st i" "file_fd f \<in> fst ` set (fs_fds st')"
proof -
  obtain fd st1 where o: "io_open io path (open_flags read_only d) st = (fd, st1)" by fastforce
  have bits: "open_flags read_only d AND O_TRUNC = 0" using mode_flags_bits [of read_only d] by auto
  have fd: "0 \<le> fd" using res by (auto simp: from_path_def o split: stat_result.splits sum.splits if_splits)
  have "open_result path (open_flags read_only d) fd st st1" by (rule kernel_okD(2) [OF io o])
  then have st1: "st1 = st\<lparr>fs_fds := (nat fd, i) # fs_fds st\<rparr>" "nat fd \<notin> fst ` set (fs_fds st)"
    using fd p bits by (auto simp: open_result_def)
  have f: "file_fd f = nat fd" "st' = st1\<lparr>fs_ids := fs_ids st1 + 1\<rparr>"
    using res fd by (auto simp: from_path_def o expect_size_def wrap_fd_def Let_def split: stat_result.splits sum.splits if_splits option.splits)
  show "fd_data st' (file_fd f) = fs_data st i" "file_fd f \<in> fst ` set (fs_fds st')" by (simp_all add: f st1 fd_data_def)
  have "fd_data st' h = fd_data st h" if "h \<in> fst ` set (fs_fds st)" for h
  proof -
    have "h \<noteq> nat fd" using that st1(2) by blast
    then show ?thesis by (simp add: f st1 fd_data_def split: option.split)
  qed
  then show "loads st st'" by (auto simp: loads_def keeps_open_def f st1)
qed

lemma load_table_reloads:
  assumes io: "kernel_ok io" and t: "stored_at xxh st (path_join dir n) t kvs" and res: "load_table io dir d n st = (Inr nt, st')"
  shows "loads st st'" "reloaded xxh st' kvs nt" "fst nt = n"
proof -
  obtain i t' where i: "map_of (fs_dir st) (path_join dir n) = Some i" "sst_load (sst_file t) (fs_data st i) = Inr t'"
      "table_holds xxh (\<lambda>_. fs_data st i) t' kvs" using t by (auto simp: stored_at_def)
  obtain r st1 where o: "from_path io (path_join dir n) read_only d None st = (r, st1)" by fastforce
  then obtain f where f: "r = Inr f" using res by (cases r) (simp_all add: load_table_def)
  note opened = from_path_read [OF io i(1) o [unfolded f]]
  have "sst_load (file_fd f) (fd_data st1 (file_fd f)) = Inr (t'\<lparr>sst_file := file_fd f\<rparr>)"
    using sst_load_file [OF i(2)] opened(2) by simp
  then have nt: "nt = (n, t'\<lparr>sst_file := file_fd f\<rparr>)" "st' = st1" using res by (simp_all add: load_table_def o f)
  show "loads st st'" "fst nt = n" using opened(1) by (simp_all add: nt)
  show "reloaded xxh st' kvs nt"
    using table_holds_file [OF i(3), of "fd_data st1" "file_fd f"] opened(2,3) by (simp add: reloaded_def nt)
qed

lemma load_level_reloads:
  assumes io: "kernel_ok io"
    and "list_all2 (\<lambda>n kvs. n \<noteq> [] \<and> (\<exists>t. stored_at xxh st (path_join dir n) t kvs)) ns kvsl"
    and "load_level (load_table io dir d) ns st = (Inr nts, st')"
  shows "loads st st' \<and> list_all2 (reloaded xxh st') kvsl nts \<and> map fst nts = ns"
  using assms(2,3)
proof (induction ns arbitrary: st kvsl nts)
  case Nil
  then show ?case by (simp add: loads_refl)
next
  case (Cons n ns)
  from Cons.prems(1) obtain kvs kvsl' t where c: "kvsl = kvs # kvsl'" "n \<noteq> []" "stored_at xxh st (path_join dir n) t kvs"
      "list_all2 (\<lambda>n kvs. n \<noteq> [] \<and> (\<exists>t. stored_at xxh st (path_join dir n) t kvs)) ns kvsl'"
    by (auto simp: list_all2_Cons1)
  from Cons.prems(2) c(2) obtain nt st1 nts' where l: "load_table io dir d n st = (Inr nt, st1)"
      "load_level (load_table io dir d) ns st1 = (Inr nts', st')" "nts = nt # nts'"
    by (auto split: prod.splits sum.splits)
  note one = load_table_reloads [OF io c(3) l(1)]
  have "list_all2 (\<lambda>n kvs. n \<noteq> [] \<and> (\<exists>t. stored_at xxh st1 (path_join dir n) t kvs)) ns kvsl'"
    using c(4) by (rule list_all2_mono) (use stored_at_loads [OF one(1)] in blast)
  from Cons.IH [OF this l(2)] have rest: "loads st1 st'" "list_all2 (reloaded xxh st') kvsl' nts'" "map fst nts' = ns" by blast+
  then show ?case using one reloaded_loads [OF rest(1) one(2)] loads_trans [OF one(1) rest(1)] by (simp add: c(1) l(3))
qed

lemma load_levels_reloads:
  assumes io: "kernel_ok io"
    and "list_all2 (list_all2 (\<lambda>n kvs. n \<noteq> [] \<and> (\<exists>t. stored_at xxh st (path_join dir n) t kvs))) nss kvsll"
    and "load_levels (load_table io dir d) nss st = (Inr ntss, st')"
  shows "loads st st' \<and> list_all2 (list_all2 (reloaded xxh st')) kvsll ntss \<and> map (map fst) ntss = nss"
  using assms(2,3)
proof (induction nss arbitrary: st kvsll ntss)
  case Nil
  then show ?case by (simp add: loads_refl)
next
  case (Cons ns nss)
  from Cons.prems(1) obtain kvsl kvsll' where c: "kvsll = kvsl # kvsll'"
      "list_all2 (\<lambda>n kvs. n \<noteq> [] \<and> (\<exists>t. stored_at xxh st (path_join dir n) t kvs)) ns kvsl"
      "list_all2 (list_all2 (\<lambda>n kvs. n \<noteq> [] \<and> (\<exists>t. stored_at xxh st (path_join dir n) t kvs))) nss kvsll'"
    by (auto simp: list_all2_Cons1)
  from Cons.prems(2) obtain nts st1 ntss' where l: "load_level (load_table io dir d) ns st = (Inr nts, st1)"
      "load_levels (load_table io dir d) nss st1 = (Inr ntss', st')" "ntss = nts # ntss'"
    by (auto split: prod.splits sum.splits)
  from load_level_reloads [OF io c(2) l(1)] have one: "loads st st1" "list_all2 (reloaded xxh st1) kvsl nts" "map fst nts = ns" by blast+
  have "list_all2 (list_all2 (\<lambda>n kvs. n \<noteq> [] \<and> (\<exists>t. stored_at xxh st1 (path_join dir n) t kvs))) nss kvsll'"
    using c(3) by (rule list_all2_mono) (erule list_all2_mono, use stored_at_loads [OF one(1)] in blast)
  from Cons.IH [OF this l(2)] have rest: "loads st1 st'" "list_all2 (list_all2 (reloaded xxh st')) kvsll' ntss'" "map (map fst) ntss' = nss" by blast+
  have "list_all2 (reloaded xxh st') kvsl nts" using one(2) by (rule list_all2_mono) (rule reloaded_loads [OF rest(1)])
  then show ?case using one rest loads_trans by (auto simp: c(1) l(3))
qed

text \<open>The result of a lookup depends on the pairs of the tables only.\<close>

definition pairs_lookup :: "(bytes \<times> bytes) list \<Rightarrow> bytes \<Rightarrow> value_t option" where
  "pairs_lookup kvs key = (case map_of kvs key of None \<Rightarrow> None | Some v \<Rightarrow> (case value_from_span v of Inl _ \<Rightarrow> None | Inr w \<Rightarrow> Some w))"

lemma level_lookup_pairs:
  assumes "list_all2 (table_holds xxh files) ts kvsl" "reads_files rd files"
  shows "level_lookup xxh rd path_of key ts = Inr (pairs_lookup (concat kvsl) key)"
  using assms(1)
proof (induction ts arbitrary: kvsl)
  case (Cons t ts)
  then obtain kvs kvsl' where k: "kvsl = kvs # kvsl'" "table_holds xxh files t kvs" "list_all2 (table_holds xxh files) ts kvsl'"
    by (auto simp: list_all2_Cons1)
  note lookup = table_holds_lookup [OF k(2) assms(2), of key]
  show ?case
  proof (cases "map_of kvs key")
    case None
    then show ?thesis using lookup(1) Cons.IH [OF k(3)] by (simp add: k(1) pairs_lookup_def map_add_def)
  next
    case (Some v)
    then have "v \<in> snd ` set kvs" using map_of_SomeD by force
    then obtain w where "value_from_span v = Inr w" using table_holds_pairs(2) [OF k(2)] by (auto simp: values_parse_def)
    then show ?thesis using level_lookup_hit [OF k(2) assms(2) Some] by (simp add: k(1) pairs_lookup_def map_add_def Some)
  qed
qed (simp add: pairs_lookup_def)

lemma levels_lookup_pairs:
  assumes "list_all2 (list_all2 (table_holds xxh files)) levels kvsll" "reads_files rd files"
  shows "levels_lookup xxh rd path_of key levels = Inr (pairs_lookup (concat (concat (map rev kvsll))) key)"
proof -
  have "list_all2 (table_holds xxh files) (concat (map rev levels)) (concat (map rev kvsll))"
    using assms(1) by (induction rule: list_all2_induct) (simp_all add: list_all2_appendI)
  then show ?thesis unfolding levels_lookup_flat by (rule level_lookup_pairs [OF _ assms(2)])
qed

text \<open>The tables of some levels, as they are stored under their names.\<close>

definition levels_stored ::
    "hash64 \<Rightarrow> fs_state \<Rightarrow> path \<Rightarrow> (nat \<Rightarrow> string) \<Rightarrow> sst list list \<Rightarrow> (bytes \<times> bytes) list list list \<Rightarrow> bool" where
  "levels_stored xxh st dir name_of levels kvsll \<longleftrightarrow>
     list_all2 (list_all2 (\<lambda>t kvs. stored_at xxh st (path_join dir (name_of (sst_file t))) t kvs)) levels kvsll"

lemma levels_stored_names:
  assumes "levels_stored xxh st dir name_of levels kvsll" "manifest_fits name_of levels"
  shows "list_all2 (list_all2 (\<lambda>n kvs. n \<noteq> [] \<and> (\<exists>t. stored_at xxh st (path_join dir n) t kvs))) (map (level_names name_of) levels) kvsll"
proof -
  have ok: "name_of (sst_file t) \<noteq> []" if "level \<in> set levels" "t \<in> set level" for level t
    using assms(2) that by (auto simp: manifest_fits_def level_names_def name_ok_def)
  show ?thesis
    using assms(1) ok unfolding levels_stored_def level_names_def
    by (auto simp: list_all2_conv_all_nth in_set_conv_nth) metis+
qed

text \<open>
  C8: A partition is found again after a restart. If its manifest was written for some levels, fits
  into its page, and the files of the tables are there, then reading the manifest and loading the
  tables gives levels with the same names in the same order, and every lookup in them gives what a
  lookup in the old levels gave.
\<close>

theorem manifest_reload:
  assumes "kernel_ok io" "manifest_fits name_of levels" "levels_stored xxh st dir name_of levels kvsll"
    and "list_all2 (list_all2 (table_holds xxh files)) levels kvsll" "reads_files rd files"
    and "fd_data st fd = string_bytes (serialize_levels name_of levels)" "length levels = cf_max_num_levels cfg"
    and "load_tables io cfg dir (Some fd) st = (Some ntss, st')" "reads_files rd' (fd_data st')"
  shows "map (map fst) ntss = map (level_names name_of) levels
    \<and> levels_lookup xxh rd' path_of' key (ps_levels (loaded_state cfg (Some ntss))) = levels_lookup xxh rd path_of key levels"
proof -
  have "fd_data st fd \<noteq> []"
  proof
    assume "fd_data st fd = []"
    then have "length (serialize_levels name_of levels) = 0" using assms(6) by (simp add: string_bytes_def)
    then show False by (simp add: length_serialize_levels PAGE_SIZE_IN_BYTES_def)
  qed
  then have "parse_manifest (load_table io dir (cf_use_odirect_for_ssts cfg)) (length levels)
      (manifest_text (string_bytes (serialize_levels name_of levels))) st = (Inr ntss, st')"
    using assms(6-8) by (auto simp: load_tables_def Let_def split: prod.splits sum.splits)
  then have "load_levels (load_table io dir (cf_use_odirect_for_ssts cfg)) (map (level_names name_of) levels) st = (Inr ntss, st')"
    by (simp add: parse_serialized [OF assms(2)])
  from load_levels_reloads [OF assms(1) levels_stored_names [OF assms(3,2)] this]
  have r: "list_all2 (list_all2 (reloaded xxh st')) kvsll ntss" "map (map fst) ntss = map (level_names name_of) levels" by blast+
  have "list_all2 (list_all2 (table_holds xxh (fd_data st'))) (map (map snd) ntss) kvsll"
    using r(1) by (auto simp: list_all2_conv_all_nth reloaded_def)
  from levels_lookup_pairs [OF this assms(9)] show ?thesis
    using levels_lookup_pairs [OF assms(4,5)] r(2) by (simp add: loaded_state_def)
qed

section \<open>The manifest that is written\<close>

lemma from_path_parts:
  assumes "from_path io path mode d (Some n) st = (Inr f, st1)"
  obtains h st0 fsize stx where "io_open io path (open_flags mode d) st = (h, st0)" "0 \<le> h" "file_fd f = nat h"
    "expect_size io path mode (nat h) fsize (Some n) st0 = (Inr (), stx)" "io_statx io path st0 = Found fsize"
    "fs_fds st1 = fs_fds stx" "fs_data st1 = fs_data stx"
proof -
  obtain h st0 where o: "io_open io path (open_flags mode d) st = (h, st0)" by fastforce
  obtain fsize where found: "0 \<le> h" "io_statx io path st0 = Found fsize"
    using assms o by (auto simp: from_path_def split: stat_result.splits sum.splits if_splits)
  obtain r stx where e: "expect_size io path mode (nat h) fsize (Some n) st0 = (r, stx)" by fastforce
  show ?thesis
    using assms o e found
    by (intro that [OF o, of fsize stx]) (auto simp: from_path_def wrap_fd_def Let_def split: stat_result.splits sum.splits if_splits)
qed

lemma open_manifest_mode:
  assumes "kernel_ok io"
  shows "open_manifest io path None st =
    (case from_path io path (if map_of (fs_dir st) path \<noteq> None then read_write else read_write_new) False
            (Some (of_nat PAGE_SIZE_IN_BYTES)) st of
       (Inl e, st) \<Rightarrow> (Inl (generic_error (''Failed to open partition state file: '' @ error_msg e)), st)
     | (Inr f, st) \<Rightarrow> (Inr (file_fd f), st))"
  by (cases "map_of (fs_dir st) path") (simp_all add: open_manifest_def kernel_okD(1) [OF assms] stat_of_def)

lemma open_manifest_opens:
  assumes io: "kernel_ok io" and open_it: "open_manifest io path None st = (Inr fd, st1)"
    and small: "\<forall>i. length (fs_data st i) < 2 ^ 64"
  obtains i where "map_of (fs_fds st1) fd = Some i" "length (fs_data st1 i) = PAGE_SIZE_IN_BYTES"
proof -
  define mode where "mode = (if map_of (fs_dir st) path \<noteq> None then read_write else read_write_new)"
  obtain f where f: "from_path io path mode False (Some (of_nat PAGE_SIZE_IN_BYTES)) st = (Inr f, st1)" "file_fd f = fd"
    using open_it unfolding open_manifest_mode [OF io] mode_def [symmetric] by (auto split: prod.splits sum.splits)
  obtain h st0 fsize stx where o: "io_open io path (open_flags mode False) st = (h, st0)" "0 \<le> h" "file_fd f = nat h"
    "expect_size io path mode (nat h) fsize (Some (of_nat PAGE_SIZE_IN_BYTES)) st0 = (Inr (), stx)" "io_statx io path st0 = Found fsize"
    "fs_fds st1 = fs_fds stx" "fs_data st1 = fs_data stx" by (rule from_path_parts [OF f(1)])
  have opened: "open_result path (open_flags mode False) h st st0" by (rule kernel_okD(2) [OF io o(1)])
  then obtain i where i: "map_of (fs_fds st0) (nat h) = Some i"
    using o(2) by (cases "open_flags mode False AND O_TRUNC = 0") (auto simp: open_result_def split: option.splits)
  have "map_of (fs_fds stx) (nat h) = Some i \<and> length (fs_data stx i) = PAGE_SIZE_IN_BYTES"
  proof (cases "map_of (fs_dir st) path")
    case None
    then have mode: "mode = read_write_new" by (simp add: mode_def)
    obtain r' sty where a: "io_fallocate io (nat h) (of_nat PAGE_SIZE_IN_BYTES) st0 = (r', sty)" by fastforce
    have "stx = sty" "0 \<le> r'" using o(4) a mode by (auto simp: expect_size_def split: if_splits)
    moreover have "fs_data st0 i = []" using opened o(2) i None by (auto simp: open_result_def)
    ultimately show ?thesis
      using kernel_okD(5) [OF io i a] i by (auto simp: resize_result_def PAGE_SIZE_IN_BYTES_def)
  next
    case (Some j)
    then have mode: "mode = read_write" by (simp add: mode_def)
    then have bits: "open_flags mode False AND O_TRUNC = 0" using mode_flags_bits(2) [of read_write False] by simp
    then have st0: "st0 = st\<lparr>fs_fds := (nat h, j) # fs_fds st\<rparr>" "i = j" using opened o(2) Some i by (auto simp: open_result_def)
    then have "fsize = of_nat (length (fs_data st i))" using Some o(5) by (simp add: kernel_okD(1) [OF io] stat_of_def)
    then have size: "(of_nat (length (fs_data st i)) :: u64) = of_nat PAGE_SIZE_IN_BYTES" and stx: "stx = st0"
      using o(4) mode by (auto simp: expect_size_def split: if_splits)
    have "length (fs_data st i) = PAGE_SIZE_IN_BYTES"
    proof -
      have "unat (of_nat (length (fs_data st i)) :: u64) = length (fs_data st i)" using small by (simp add: unsigned_of_nat take_bit_nat_eq_self)
      moreover have "unat (of_nat PAGE_SIZE_IN_BYTES :: u64) = PAGE_SIZE_IN_BYTES" by (simp add: PAGE_SIZE_IN_BYTES_def)
      ultimately show ?thesis using size by metis
    qed
    then show ?thesis using i st0 stx by simp
  qed
  then show ?thesis using that o f(2) by simp
qed

text \<open>The descriptor of the manifest, when it was opened before.\<close>

definition manifest_open :: "nat option \<Rightarrow> fs_state \<Rightarrow> bool" where
  "manifest_open state_file st \<longleftrightarrow> (case state_file of None \<Rightarrow> True | Some fd \<Rightarrow> fd \<in> fst ` set (fs_fds st))"

lemma open_manifest_inode:
  assumes io: "kernel_ok io" and small: "\<forall>i. length (fs_data st i) < 2 ^ 64" and fd: "manifest_open state_file st"
    and res: "open_manifest io path state_file st = (Inr fd, st1)"
  obtains i where "map_of (fs_fds st1) fd = Some i" "state_file = None \<longrightarrow> length (fs_data st1 i) = PAGE_SIZE_IN_BYTES"
proof (cases state_file)
  case None
  then show ?thesis using open_manifest_opens [OF io res [unfolded None] small] that by blast
next
  case (Some h)
  then have h: "fd = h" "st1 = st" using res by (simp_all add: open_manifest_def)
  then obtain i where "map_of (fs_fds st1) fd = Some i"
    using fd Some by (cases "map_of (fs_fds st) h") (auto simp: manifest_open_def map_of_eq_None_iff)
  then show ?thesis using that Some by simp
qed

lemma persist_written:
  assumes io: "kernel_ok io" and small: "\<forall>i. length (fs_data st i) < 2 ^ 64" and fd: "manifest_open state_file st"
    and run: "persist_partition_state io name_of path state_file dir_fd snapshot checked latest st = (Inr u, sf, st')"
  obtains fd rest where "sf = Some fd"
    "fd_data st' fd = string_bytes (serialize_levels name_of (levels_to_write snapshot checked latest)) @ rest"
    "state_file = None \<longrightarrow> rest = []"
proof -
  let ?data = "string_bytes (serialize_levels name_of (levels_to_write snapshot checked latest))"
  obtain r1 st1 where o: "open_manifest io path state_file st = (r1, st1)" by fastforce
  obtain fd where fd': "r1 = Inr fd" using run o by (cases r1) (simp_all add: persist_partition_state_def)
  obtain i where i: "map_of (fs_fds st1) fd = Some i" "state_file = None \<longrightarrow> length (fs_data st1 i) = PAGE_SIZE_IN_BYTES"
    by (rule open_manifest_inode [OF io small fd o [unfolded fd']])
  obtain r2 st2 where w: "io_write io fd ?data 0 st1 = (r2, st2)" by fastforce
  have len: "length ?data = PAGE_SIZE_IN_BYTES" by (simp add: string_bytes_def length_serialize_levels)
  have sync: "io_fdatasync io h s = (fst (io_fdatasync io h s), s)" for h s using kernel_okD(6) [OF io, of h s] by (metis prod.collapse)
  have "0 \<le> r2" and st': "st' = st2" and sf: "sf = Some fd"
    using run o fd' w sync [of fd st2] sync [of dir_fd st2]
    by (auto simp: persist_partition_state_def write_manifest_def split: if_splits prod.splits)
  then have "st2 = set_data i (pwrite (fs_data st1 i) 0 ?data) st1"
    using kernel_okD(3) [OF io i(1) _ w] len by (auto simp: whole_write_result_def PAGE_SIZE_IN_BYTES_def MAX_RW_COUNT_def)
  then have "fd_data st' fd = ?data @ drop PAGE_SIZE_IN_BYTES (fs_data st1 i)" using i len by (simp add: st' fd_data_def pwrite_def)
  then show ?thesis using that sf i(2) by simp
qed

text \<open>The number of the levels changes with their tables.\<close>

definition table_files :: "partition_state \<Rightarrow> nat list list" where
  "table_files ps = map (map sst_file) (ps_levels ps)"

definition same_or_later :: "partition_state \<Rightarrow> partition_state \<Rightarrow> bool" where
  "same_or_later ps ps' \<longleftrightarrow> ps_levels_seq_num ps < ps_levels_seq_num ps'
     \<or> ps_levels_seq_num ps = ps_levels_seq_num ps' \<and> table_files ps = table_files ps'"

lemma core_files: "map core xs = map core ys \<Longrightarrow> map sst_file xs = map sst_file ys"
proof -
  assume "map core xs = map core ys"
  then have "map sst_file (map core xs) = map sst_file (map core ys)" by (simp only:)
  then show ?thesis by (simp add: comp_def)
qed

lemma bucket_loop_core: "map core (fst (bucket_loop mn mx level it cs out)) = map core level"
proof (induction mn mx level it cs out rule: bucket_loop.induct)
  case (1 mn mx level it cs out)
  have "map core (fst (emit_candidates mn c l out)) = map core l" for c l by (simp add: emit_candidates_def core_mark)
  then show ?case using 1 by (subst bucket_loop.simps) (auto simp: Let_def)
qed

lemma create_buckets_core: "map core (fst (create_buckets_from_level mn mx level)) = map core level"
  using bucket_loop_core by (simp add: create_buckets_from_level_def Let_def)

lemma schedule_same: "same_or_later ps (schedule_partition L mn mx ps)"
proof -
  have launch: "ps_levels (launch_bucket L l a b ps) = ps_levels ps \<and> ps_levels_seq_num (launch_bucket L l a b ps) = ps_levels_seq_num ps" for l a b ps
    by (simp add: launch_bucket_def Let_def)
  have buckets: "ps_levels (fold (\<lambda>(i, b). launch_bucket L l (i = 0) b) bs ps) = ps_levels ps
      \<and> ps_levels_seq_num (fold (\<lambda>(i, b). launch_bucket L l (i = 0) b) bs ps) = ps_levels_seq_num ps" for l ps and bs :: "(nat \<times> sst list) list"
    by (induction bs arbitrary: ps) (auto simp: launch)
  have levels: "ps_levels (fold (launch_level L) lbs ps) = ps_levels ps
      \<and> ps_levels_seq_num (fold (launch_level L) lbs ps) = ps_levels_seq_num ps" for lbs ps
    by (induction lbs arbitrary: ps) (auto simp: launch_level_def buckets split: prod.split)
  have "map sst_file (fst (create_buckets_from_level mn mx level)) = map sst_file level" for level
    by (rule core_files [OF create_buckets_core])
  then show ?thesis
    by (simp add: same_or_later_def table_files_def schedule_partition_def pick_ssts_into_buckets_def Let_def levels comp_def)
qed

lemma step_same_or_later:
  assumes "lsm_step xxh io L ub (ps, st, m) (ps', st', m')"
  shows "same_or_later ps ps'"
  using assms
proof (cases rule: lsm_step.cases)
  case (Schedule mn mx)
  then show ?thesis by (simp add: schedule_same)
next
  case (Fail i)
  have "sst_file (try_set_compaction_state c t) = sst_file t" for c t using core_try_set core_simps(1) by metis
  then show ?thesis using Fail by (simp add: same_or_later_def table_files_def fail_task_def Let_def comp_def if_distrib cong: if_cong)
qed (auto simp: same_or_later_def table_files_def push_table_def set_output_def commit_task_def Let_def)

lemma run_same_or_later:
  assumes "(lsm_step xxh io L ub)\<^sup>*\<^sup>* s s'"
  shows "same_or_later (fst s) (fst s')"
  using assms
proof (induction rule: rtranclp_induct)
  case base
  then show ?case by (simp add: same_or_later_def)
next
  case (step s1 s2)
  then have "same_or_later (fst s1) (fst s2)" using step_same_or_later by (cases s1; cases s2) auto
  then show ?case using step.IH by (auto simp: same_or_later_def)
qed

lemma serialize_files:
  "map (map sst_file) levels = map (map sst_file) levels' \<Longrightarrow> serialize_levels name_of levels = serialize_levels name_of levels'"
proof -
  assume "map (map sst_file) levels = map (map sst_file) levels'"
  then have "map (map name_of) (map (map sst_file) levels) = map (map name_of) (map (map sst_file) levels')" by (simp only:)
  moreover have "map (level_names name_of) ls = map (map name_of) (map (map sst_file) ls)" for ls by (simp add: level_names_def)
  ultimately show ?thesis by (simp only: serialize_levels_def)
qed

text \<open>
  C10: The manifest is not behind the tree. It is serialised from a snapshot that is taken before the
  lock of the file; if tables arrived or were committed in between, it is serialised again. So after
  a write that succeeds, the first one or a later one to the open file, the file holds the text for
  the levels the tree had when the generation number was compared under that lock, or for later
  ones. If the text fits into its page, parsing it gives the names of exactly these tables, level by
  level. Tables that arrive between the comparison and the write are left to the next write.
\<close>

theorem persist_current:
  assumes "kernel_ok io" "\<forall>i. length (fs_data st i) < 2 ^ 64" "manifest_open state_file st"
    and "(lsm_step xxh io L ub)\<^sup>*\<^sup>* (snapshot, s1, m1) (checked, s2, m2)" "(lsm_step xxh io L ub)\<^sup>*\<^sup>* (checked, s2, m2) (latest, s3, m3)"
    and "persist_partition_state io name_of path state_file dir_fd snapshot checked latest st = (Inr u, sf, st')"
  shows "\<exists>fd. \<exists>ps \<in> {checked, latest}. sf = Some fd \<and> manifest_text (fd_data st' fd) = serialize_levels name_of (ps_levels ps)
    \<and> (manifest_fits name_of (ps_levels ps) \<longrightarrow>
         parse_manifest (\<lambda>n s. (Inr n, s)) (length (ps_levels ps)) (manifest_text (fd_data st' fd)) ()
           = (Inr (map (level_names name_of) (ps_levels ps)), ()))"
proof -
  let ?levels = "levels_to_write snapshot checked latest"
  obtain fd rest where fd: "sf = Some fd" "fd_data st' fd = string_bytes (serialize_levels name_of ?levels) @ rest"
    by (rule persist_written [OF assms(1-3,6)])
  have same: "same_or_later snapshot checked" using run_same_or_later [OF assms(4)] by simp
  have ps: "\<exists>ps \<in> {checked, latest}. serialize_levels name_of ?levels = serialize_levels name_of (ps_levels ps)"
    using same by (auto simp: levels_to_write_def same_or_later_def table_files_def intro: serialize_files)
  have written: "manifest_text (fd_data st' fd) = serialize_levels name_of ?levels"
    unfolding fd(2) by (rule string_bytes_text) (simp add: length_serialize_levels)
  have "parse_manifest (\<lambda>n s. (Inr n, s)) (length levels) (serialize_levels name_of levels) () = (Inr (map (level_names name_of) levels), ())"
    if "manifest_fits name_of levels" for levels
    using parse_serialized [OF that, of "\<lambda>n s. (Inr n, s)" "()"] load_levels_names [of "map (level_names name_of) levels"] that
      string_bytes_text [OF length_serialize_levels, of name_of levels "[]"] by (simp add: manifest_fits_def)
  then show ?thesis using fd(1) ps written by auto
qed

section \<open>A partition that is written and loaded\<close>

lemma persist_new:
  assumes io: "kernel_ok io" and absent: "map_of (fs_dir st) path = None"
    and run: "persist_partition_state io name_of path None dir_fd snapshot checked latest st = (Inr u, Some fd, st')"
  shows "adds_file path fd st st'"
proof -
  let ?data = "string_bytes (serialize_levels name_of (levels_to_write snapshot checked latest))"
  obtain r1 st1 where o: "open_manifest io path None st = (r1, st1)" by fastforce
  obtain r2 st2 where w: "io_write io fd ?data 0 st1 = (r2, st2)" by fastforce
  have sync: "io_fdatasync io h s = (fst (io_fdatasync io h s), s)" for h s using kernel_okD(6) [OF io, of h s] by (metis prod.collapse)
  have fd: "r1 = Inr fd" and st': "st' = st2"
    using run o w sync [of fd st2] sync [of dir_fd st2]
    by (auto simp: persist_partition_state_def write_manifest_def split: if_splits prod.splits sum.splits)
  obtain f where f: "from_path io path read_write_new False (Some (of_nat PAGE_SIZE_IN_BYTES)) st = (Inr f, st1)" "file_fd f = fd"
    using o fd absent unfolding open_manifest_mode [OF io] by (auto split: prod.splits sum.splits)
  obtain h st0 where op: "io_open io path (open_flags read_write_new False) st = (h, st0)" by fastforce
  obtain r3 st3 where al: "io_fallocate io (nat h) (of_nat PAGE_SIZE_IN_BYTES) st0 = (r3, st3)" by fastforce
  have h: "0 \<le> h" "fd = nat h" "0 \<le> r3" "st1 = st3\<lparr>fs_ids := fs_ids st3 + 1\<rparr>"
    using f op al by (auto simp: from_path_def expect_size_def wrap_fd_def Let_def split: sum.splits if_splits option.splits stat_result.splits)
  obtain i where i: "fresh_inode i st" "nat h \<notin> fst ` set (fs_fds st)"
      "st0 = set_data i [] (st\<lparr>fs_dir := (path, i) # fs_dir st, fs_fds := (nat h, i) # fs_fds st\<rparr>)"
    using kernel_okD(2) [OF io op] h(1) absent by (auto simp: open_result_def)
  have fds0: "map_of (fs_fds st0) (nat h) = Some i" by (simp add: i(3))
  obtain c where c: "st3 = set_data i c st0" using kernel_okD(5) [OF io fds0 al] h(3) by (auto simp: resize_result_def)
  have fds1: "map_of (fs_fds st1) fd = Some i" by (simp add: h i(3) c)
  have "length ?data \<le> MAX_RW_COUNT" by (simp add: string_bytes_def length_serialize_levels MAX_RW_COUNT_def PAGE_SIZE_IN_BYTES_def)
  then obtain c' where c': "st2 = set_data i c' st1" using kernel_okD(3) [OF io fds1 _ w] by (auto simp: whole_write_result_def)
  have "st' = set_data i c' (st\<lparr>fs_dir := (path, i) # fs_dir st, fs_fds := (fd, i) # fs_fds st, fs_ids := fs_ids st + 1\<rparr>)"
    by (simp add: st' c' h(2,4) c i(3) set_data_def)
  then show ?thesis
    using absent i(1,2) h(2) unfolding adds_file_def
    by (intro conjI exI [of _ i] exI [of _ c'] exI [of _ "fs_ids st + 1"]) simp_all
qed

lemma persist_succeeds:
  assumes io: "kernel_ok io" "io_succeeds io" and absent: "map_of (fs_dir st) path = None"
  obtains fd st' where "persist_partition_state io name_of path None dir_fd snapshot checked latest st = (Inr (), Some fd, st')"
proof -
  obtain h st0 where op: "io_open io path (open_flags read_write_new False) st = (h, st0)" by fastforce
  have "open_flags read_write_new False AND O_CREAT \<noteq> 0" by (simp add: mode_flags_bits)
  then have h: "0 \<le> h" using io(2) op unfolding io_succeeds_def by (metis fst_conv)
  then obtain i where i: "map_of (fs_fds st0) (nat h) = Some i" and named: "map_of (fs_dir st0) path = Some i"
    using kernel_okD(2) [OF io(1) op] absent by (auto simp: open_result_def)
  obtain r3 st3 where al: "io_fallocate io (nat h) (of_nat PAGE_SIZE_IN_BYTES) st0 = (r3, st3)" by fastforce
  have r3: "0 \<le> r3" using io(2) i al unfolding io_succeeds_def by (metis fst_conv)
  then have i3: "map_of (fs_fds st3) (nat h) = Some i" using kernel_okD(5) [OF io(1) i al] i by (auto simp: resize_result_def)
  let ?st = "st3\<lparr>fs_ids := fs_ids st3 + 1\<rparr>" and ?data = "string_bytes (serialize_levels name_of (levels_to_write snapshot checked latest))"
  have o: "open_manifest io path None st = (Inr (nat h), ?st)"
    using h r3 op al absent named
    by (simp add: open_manifest_mode [OF io(1)] from_path_def open_guard_def expect_size_def wrap_fd_def Let_def kernel_okD(1) [OF io(1)] stat_of_def)
  obtain r st4 where w: "io_write io (nat h) ?data 0 ?st = (r, st4)" by fastforce
  have "map_of (fs_fds ?st) (nat h) = Some i" using i3 by simp
  then have "0 \<le> r" using io(2) w unfolding io_succeeds_def by (metis fst_conv)
  moreover obtain x y where "io_fdatasync io (nat h) st4 = (x, st4)" "io_fdatasync io dir_fd st4 = (y, st4)"
    using kernel_okD(6) [OF io(1)] by (metis prod.collapse)
  moreover from this have "0 \<le> x" "0 \<le> y" using io(2) unfolding io_succeeds_def by (metis fst_conv)+
  ultimately have "persist_partition_state io name_of path None dir_fd snapshot checked latest st = (Inr (), Some (nat h), st4)"
    using o w by (simp add: persist_partition_state_def write_manifest_def)
  then show ?thesis by (rule that)
qed

lemma sample_paths:
  "dir_path ''db'' 65535 = ''db/ff''" "manifest_path ''db'' 65535 = ''db/ff/manifest''"
  "path_join ''db/ff'' ''ffff.000005'' = ''db/ff/ffff.000005''"
proof -
  have two: "le_image 2 w = [ucast w, ucast (drop_bit 8 w)]" for w :: u16 unfolding numeral_2_eq_2 le_image.simps ..
  have "fst (format_prefix (of_nat 65535)) = ''ff''" by (simp add: format_prefix_def two hex2_def hex_digit_def Let_def)
  then show "dir_path ''db'' 65535 = ''db/ff''" by (simp add: dir_path_def path_join_def)
  then show "manifest_path ''db'' 65535 = ''db/ff/manifest''" by (simp add: manifest_path_def path_join_def MANIFEST_FILENAME_def)
qed (simp add: path_join_def)

definition sample_name :: "nat \<Rightarrow> string" where
  "sample_name fd = ''ffff.000005''"

lemma stored_at_keeps: "keeps_files st st' \<Longrightarrow> stored_at xxh st path t kvs \<Longrightarrow> stored_at xxh st' path t kvs"
  unfolding stored_at_def keeps_files_def by fastforce

lemma sample_partition:
  obtains t st1 st2 fd where "new_table sample_xxh 7 empty_fs st1 t (key_runs [sample_entry])" "keeps_open empty_fs st1"
    "\<forall>i. length (fs_data st1 i) < 2 ^ 64" "stored_at sample_xxh st2 ''db/ff/ffff.000005'' t (key_runs [sample_entry])"
    "persist_partition_state sample_io sample_name ''db/ff/manifest'' None 0 (make_partition_state 2) (push_table t (make_partition_state 2)) (push_table t (make_partition_state 2)) st1
      = (Inr (), Some fd, st2)"
    "map fst (fs_dir st2) = [''db/ff/manifest'', ''db/ff/ffff.000005'']"
    "\<exists>i. map_of (fs_dir st2) ''db/ff/manifest'' = Some i \<and> fd_data st2 fd = fs_data st2 i"
proof -
  obtain t st1 where t: "exported sample_xxh ''db/ff/ffff.000005'' empty_fs [sample_entry] t st1" "sst_upper_bound t = 7"
    using export_as_sst_exported [OF kernel_ok_sample_io, of empty_fs "''db/ff/ffff.000005''" "[sample_entry]" sample_xxh sample_env 10 7 3 False True]
      exportable_sample io_succeeds_sample_io by (auto simp: empty_fs_def)
  then have w: "wrote_table sample_xxh ''db/ff/ffff.000005'' empty_fs (key_runs [sample_entry]) t st1" by (simp add: exported_def)
  then have a: "adds_file ''db/ff/ffff.000005'' (sst_file t) empty_fs st1" "table_holds sample_xxh (fd_data st1) t (key_runs [sample_entry])"
    by (simp_all add: wrote_table_def)
  have "length (fd_data st1 (sst_file t)) < 2 ^ 64" using a(2) by (auto simp: table_holds_def sst_rep_def)
  then have small: "\<forall>i. length (fs_data st1 i) < 2 ^ 64"
    using a(1) by (auto simp: adds_file_def fd_data_def empty_fs_def)
  have absent: "map_of (fs_dir st1) ''db/ff/manifest'' = None" using adds_file_names(1) [OF a(1)] by (simp add: empty_fs_def)
  obtain fd st2 where p: "persist_partition_state sample_io sample_name ''db/ff/manifest'' None 0 (make_partition_state 2)
      (push_table t (make_partition_state 2)) (push_table t (make_partition_state 2)) st1 = (Inr (), Some fd, st2)"
    by (rule persist_succeeds [OF kernel_ok_sample_io io_succeeds_sample_io absent])
  have b: "adds_file ''db/ff/manifest'' fd st1 st2" by (rule persist_new [OF kernel_ok_sample_io absent p])
  have "stored_at sample_xxh st2 ''db/ff/ffff.000005'' t (key_runs [sample_entry])"
    by (rule stored_at_keeps [OF adds_file_keeps_files [OF b] wrote_table_stored [OF w]])
  moreover have "map fst (fs_dir st2) = [''db/ff/manifest'', ''db/ff/ffff.000005'']"
  proof -
    have "map fst (fs_dir st1) = [''db/ff/ffff.000005'']" using a(1) unfolding adds_file_def by (elim conjE exE) (simp add: empty_fs_def)
    then show ?thesis using b unfolding adds_file_def by (elim conjE exE) simp
  qed
  moreover have "length (key_runs [sample_entry]) < 2 ^ 64" by simp
  note new = exported_new_table [OF t this]
  moreover have "\<exists>i. map_of (fs_dir st2) ''db/ff/manifest'' = Some i \<and> fd_data st2 fd = fs_data st2 i"
    using adds_file_inode [OF b] by blast
  ultimately show ?thesis using that [OF new small _ p] by simp
qed

theorem persist_current_witness:
  "\<exists>t st1 st2 fd. persist_partition_state sample_io sample_name ''db/ff/manifest'' None 0 (make_partition_state 2)
        (push_table t (make_partition_state 2)) (push_table t (make_partition_state 2)) st1 = (Inr (), Some fd, st2)
    \<and> take 13 (manifest_text (fd_data st2 fd)) = ''ffff.000005'' @ [NL, NL]"
proof -
  obtain t st1 st2 fd where t: "new_table sample_xxh 7 empty_fs st1 t (key_runs [sample_entry])" "keeps_open empty_fs st1"
    "\<forall>i. length (fs_data st1 i) < 2 ^ 64"
    "persist_partition_state sample_io sample_name ''db/ff/manifest'' None 0 (make_partition_state 2) (push_table t (make_partition_state 2)) (push_table t (make_partition_state 2)) st1
      = (Inr (), Some fd, st2)" by (rule sample_partition)
  have "lsm_step sample_xxh sample_io 2 7 (make_partition_state 2, empty_fs, \<lambda>_. None)
      (push_table t (make_partition_state 2), st1, put_all (key_runs [sample_entry]) (\<lambda>_. None))"
    using t(1,2) by (intro lsm_step.Arrive) (simp_all add: make_partition_state_def)
  from persist_current [OF kernel_ok_sample_io t(3) _ r_into_rtranclp [of "lsm_step sample_xxh sample_io 2 7", OF this] rtranclp.rtrancl_refl t(4)]
  have "manifest_text (fd_data st2 fd) = serialize_levels sample_name [[t], []]"
    by (simp add: push_table_def make_partition_state_def manifest_open_def numeral_2_eq_2)
  then have "take 13 (manifest_text (fd_data st2 fd)) = ''ffff.000005'' @ [NL, NL]"
    by (simp add: serialize_levels_def serialize_text_def level_names_def sample_name_def PAGE_SIZE_IN_BYTES_def Let_def)
  then show ?thesis using t(4) by blast
qed

lemma sample_load_table:
  assumes "stored_at xxh st (path_join dir n) t kvs"
  obtains t' st' where "load_table sample_io dir False n st = (Inr (n, t'), st')"
proof -
  obtain i t' where i: "map_of (fs_dir st) (path_join dir n) = Some i" "sst_load (sst_file t) (fs_data st i) = Inr t'"
    using assms by (auto simp: stored_at_def)
  let ?fd = "next_number st"
  have bits: "open_flags read_only False AND O_TRUNC = 0" using mode_flags_bits(2) [of read_only False] by simp
  have "from_path sample_io (path_join dir n) read_only False None st
      = (Inr \<lparr>file_id = fs_ids st, file_fd = ?fd, file_size = of_nat (length (fs_data st i)), file_path = path_join dir n,
           file_mode = read_only, file_use_direct = False\<rparr>,
         st\<lparr>fs_fds := (?fd, i) # fs_fds st, fs_ids := fs_ids st + 1\<rparr>)"
    using i(1) bits by (simp add: from_path_def sample_io_def stat_of_def open_guard_def expect_size_def wrap_fd_def Let_def)
  then show ?thesis
    using sst_load_file [OF i(2), of ?fd] by (intro that) (simp add: load_table_def fd_data_def)
qed

lemma sample_fits: "manifest_fits sample_name [[t], []]"
  by (simp add: manifest_fits_def level_names_def name_ok_def sample_name_def serialize_text_def NL_def PAGE_SIZE_IN_BYTES_def)

lemma sample_load_tables:
  assumes fd: "fd_data st fd = string_bytes (serialize_levels sample_name [[t], []])"
    and t: "stored_at sample_xxh st ''db/ff/ffff.000005'' t kvs"
  obtains t' st' where "load_tables sample_io sample_manager_config ''db/ff'' (Some fd) st = (Some [[(''ffff.000005'', t')], []], st')"
proof -
  have cfg: "cf_use_odirect_for_ssts sample_manager_config = False" "cf_max_num_levels sample_manager_config = length [[t], []]"
    by (simp_all add: sample_manager_config_def)
  obtain t' st' where l: "load_table sample_io ''db/ff'' False ''ffff.000005'' st = (Inr (''ffff.000005'', t'), st')"
    by (rule sample_load_table [of sample_xxh st "''db/ff''" "''ffff.000005''" t kvs]) (use t sample_paths(3) in simp_all)
  have "fd_data st fd \<noteq> []"
  proof
    assume "fd_data st fd = []"
    then have "length (serialize_levels sample_name [[t], []]) = 0" using fd by (simp add: string_bytes_def)
    then show False by (simp add: length_serialize_levels PAGE_SIZE_IN_BYTES_def)
  qed
  then have "load_tables sample_io sample_manager_config ''db/ff'' (Some fd) st = (Some [[(''ffff.000005'', t')], []], st')"
    unfolding load_tables_def cfg using parse_serialized [OF sample_fits, of "load_table sample_io ''db/ff'' False" t st]
    by (simp add: fd Let_def level_names_def sample_name_def l)
  then show ?thesis by (rule that)
qed

theorem manifest_reload_witness:
  "\<exists>st fd ntss st'. load_tables sample_io sample_manager_config ''db/ff'' (Some fd) st = (Some ntss, st')
    \<and> map (map fst) ntss = [[''ffff.000005''], []]
    \<and> levels_lookup sample_xxh (\<lambda>f len off. Inr (read_at (fd_data st' f) off len)) (\<lambda>_. []) [1, 2]
        (ps_levels (loaded_state sample_manager_config (Some ntss))) = Inr (Some (In_Place [7]))"
proof -
  obtain t st1 st2 fd where t: "new_table sample_xxh 7 empty_fs st1 t (key_runs [sample_entry])"
    "\<forall>i. length (fs_data st1 i) < 2 ^ 64" "stored_at sample_xxh st2 ''db/ff/ffff.000005'' t (key_runs [sample_entry])"
    "persist_partition_state sample_io sample_name ''db/ff/manifest'' None 0 (make_partition_state 2) (push_table t (make_partition_state 2)) (push_table t (make_partition_state 2)) st1
      = (Inr (), Some fd, st2)" by (rule sample_partition)
  let ?rd = "\<lambda>st f len off. Inr (read_at (fd_data st f) off len)"
  have "levels_to_write (make_partition_state 2) (push_table t (make_partition_state 2)) (push_table t (make_partition_state 2)) = [[t], []]"
    by (simp add: levels_to_write_def push_table_def make_partition_state_def numeral_2_eq_2)
  then have fd: "fd_data st2 fd = string_bytes (serialize_levels sample_name [[t], []])"
    using persist_written [OF kernel_ok_sample_io t(2) _ t(4)] by (metis append_Nil2 manifest_open_def option.inject option.simps(4))
  obtain t' st3 where l: "load_tables sample_io sample_manager_config ''db/ff'' (Some fd) st2 = (Some [[(''ffff.000005'', t')], []], st3)"
    by (rule sample_load_tables [OF fd t(3)])
  have stored: "levels_stored sample_xxh st2 ''db/ff'' sample_name [[t], []] [[key_runs [sample_entry]], []]"
    using t(3) sample_paths(3) by (simp add: levels_stored_def sample_name_def)
  have holds: "table_holds sample_xxh (fd_data st1) t (key_runs [sample_entry])" using t(1) by (simp add: new_table_def)
  have all: "list_all2 (list_all2 (table_holds sample_xxh (fd_data st1))) [[t], []] [[key_runs [sample_entry]], []]" using holds by simp
  have rd: "reads_files (?rd st) (fd_data st)" for st by (simp add: reads_files_def)
  have "level_lookup sample_xxh (?rd st1) (\<lambda>_. []) [1, 2] [t] = Inr (Some (In_Place [7]))"
    by (rule level_lookup_hit [OF holds rd, where v = "stored_value (In_Place [7])"]) (simp_all add: sample_entry_def)
  then have "levels_lookup sample_xxh (?rd st1) (\<lambda>_. []) [1, 2] [[t], []] = Inr (Some (In_Place [7]))"
    by (simp del: level_lookup.simps)
  then show ?thesis
    using manifest_reload [OF kernel_ok_sample_io sample_fits stored all rd fd _ l rd, of "\<lambda>_. []" "[1, 2]" "\<lambda>_. []"] l
    by (intro exI [of _ st2] exI [of _ fd] exI [of _ "[[(''ffff.000005'', t')], []]"] exI [of _ st3])
      (simp add: sample_manager_config_def level_names_def sample_name_def)
qed

lemma sample_open_manifest:
  assumes "map_of (fs_dir st) (path_join dir MANIFEST_FILENAME) = Some i" "length (fs_data st i) = PAGE_SIZE_IN_BYTES"
  shows "load_partition_manifest sample_io \<lparr>dir_exists = \<lambda>_. True, dir_open = \<lambda>_. 3\<rparr> dir st
    = (Inr (Some (next_number st), Some 3), st\<lparr>fs_fds := (next_number st, i) # fs_fds st, fs_ids := fs_ids st + 1\<rparr>)"
proof -
  have "open_flags read_write False AND O_TRUNC = 0" using mode_flags_bits(2) [of read_write False] by simp
  then show ?thesis
    using assms by (simp add: load_partition_manifest_def from_path_def sample_io_def stat_of_def open_guard_def expect_size_def wrap_fd_def Let_def)
qed

lemma sample_iteration: "max_iteration [''ffff.000005''] 0 = Inr 5" "path_stem ''ffff.000005'' = ''ffff''"
proof -
  have "with_extension ''ffff'' (iteration_extension 5) = ''ffff.000005''"
    by (simp add: with_extension_def iteration_extension_def decimal.simps hex_digit_def numeral_eq_Suc)
  then show "max_iteration [''ffff.000005''] 0 = Inr 5" "path_stem ''ffff.000005'' = ''ffff''"
    using flush_iteration_sst_name [of "''ffff''" 5] by simp_all
qed

lemma sample_orphans:
  assumes "map fst (fs_dir st) = [''db/ff/manifest'', ''db/ff/ffff.000005'']"
  shows "check_orphans ''db/ff'' [''ffff.000005''] st = ok"
proof -
  obtain i j where "fs_dir st = [(''db/ff/manifest'', i), (''db/ff/ffff.000005'', j)]" using assms by (auto simp: map_eq_Cons_conv)
  then have "dir_entries ''db/ff'' st = [''manifest'', ''ffff.000005'']" by (simp add: dir_entries_def)
  moreover have "path_stem ''manifest'' = ''manifest''" by (simp add: path_stem_def path_extension_def)
  ultimately show ?thesis by (simp add: check_orphans_def MANIFEST_FILENAME_def sample_iteration(2))
qed

lemma sample_load_partition:
  assumes fd: "map_of (fs_dir st) ''db/ff/manifest'' = Some i" "fs_data st i = string_bytes (serialize_levels sample_name [[t], []])"
    and t: "stored_at sample_xxh st ''db/ff/ffff.000005'' t kvs" and names: "map fst (fs_dir st) = [''db/ff/manifest'', ''db/ff/ffff.000005'']"
  obtains ps st' where "load_partition sample_io \<lparr>dir_exists = \<lambda>_. True, dir_open = \<lambda>_. 3\<rparr> sample_manager_config 65535 0 st = (Inr (ps, 5), st')"
    "fs_dir st' = fs_dir st"
proof -
  let ?denv = "\<lparr>dir_exists = \<lambda>_. True, dir_open = \<lambda>_. 3\<rparr>" and ?fd = "next_number st"
  let ?st = "st\<lparr>fs_fds := (?fd, i) # fs_fds st, fs_ids := fs_ids st + 1\<rparr>"
  have page: "length (fs_data st i) = PAGE_SIZE_IN_BYTES" by (simp add: fd(2) string_bytes_def length_serialize_levels)
  have path: "path_join ''db/ff'' MANIFEST_FILENAME = ''db/ff/manifest''" by (simp add: path_join_def MANIFEST_FILENAME_def)
  have dir: "dir_path (cf_partitions_path sample_manager_config) 65535 = ''db/ff''" by (simp add: sample_manager_config_def sample_paths(1))
  have o: "load_partition_manifest sample_io ?denv ''db/ff'' st = (Inr (Some ?fd, Some 3), ?st)"
    by (rule sample_open_manifest) (simp_all add: path fd(1) page)
  have "fd_data ?st ?fd = string_bytes (serialize_levels sample_name [[t], []])" by (simp add: fd_data_def fd(2))
  moreover have "stored_at sample_xxh ?st ''db/ff/ffff.000005'' t kvs" using t by (simp add: stored_at_def)
  ultimately obtain t' st' where l: "load_tables sample_io sample_manager_config ''db/ff'' (Some ?fd) ?st = (Some [[(''ffff.000005'', t')], []], st')"
    by (rule sample_load_tables)
  have kept: "fs_dir st' = fs_dir st"
    using load_tables_keeps_dir [OF kernel_ok_sample_io, of sample_manager_config "''db/ff''" "Some ?fd" ?st] l by simp
  then have "check_orphans ''db/ff'' [''ffff.000005''] st' = ok" using names by (intro sample_orphans) simp
  then have "load_partition sample_io ?denv sample_manager_config 65535 0 st
      = (Inr (loaded_state sample_manager_config (Some [[(''ffff.000005'', t')], []]), 5), st')"
    unfolding load_partition_def dir by (simp add: Let_def o l sample_iteration(1) del: max_iteration.simps)
  then show ?thesis using that kept by blast
qed

theorem load_names_fresh_witness:
  "\<exists>st m st'. manager_load sample_io \<lparr>dir_exists = \<lambda>_. True, dir_open = \<lambda>_. 3\<rparr> sample_manager_config st = (Inr m, st')
    \<and> sm_flush_iteration m = 6 \<and> map_of (fs_dir st') ''db/ff/ffff.000005'' \<noteq> None
    \<and> map_of (fs_dir st') (sst_path ''db'' 65535 6) = None"
proof -
  let ?denv = "\<lparr>dir_exists = \<lambda>_. True, dir_open = \<lambda>_. 3\<rparr>" and ?cfg = sample_manager_config
  obtain t st1 st fd where t: "\<forall>i. length (fs_data st1 i) < 2 ^ 64" "stored_at sample_xxh st ''db/ff/ffff.000005'' t (key_runs [sample_entry])"
    "persist_partition_state sample_io sample_name ''db/ff/manifest'' None 0 (make_partition_state 2) (push_table t (make_partition_state 2)) (push_table t (make_partition_state 2)) st1
      = (Inr (), Some fd, st)" "map fst (fs_dir st) = [''db/ff/manifest'', ''db/ff/ffff.000005'']"
    "\<exists>i. map_of (fs_dir st) ''db/ff/manifest'' = Some i \<and> fd_data st fd = fs_data st i"
    by (rule sample_partition)
  have "levels_to_write (make_partition_state 2) (push_table t (make_partition_state 2)) (push_table t (make_partition_state 2)) = [[t], []]"
    by (simp add: levels_to_write_def push_table_def make_partition_state_def numeral_2_eq_2)
  then have "fd_data st fd = string_bytes (serialize_levels sample_name [[t], []])"
    using persist_written [OF kernel_ok_sample_io t(1) _ t(3)] by (metis append_Nil2 manifest_open_def option.inject option.simps(4))
  then obtain i where "map_of (fs_dir st) ''db/ff/manifest'' = Some i" "fs_data st i = string_bytes (serialize_levels sample_name [[t], []])"
    using t(5) by auto
  from this t(2,4) obtain ps st' where p: "load_partition sample_io ?denv ?cfg 65535 0 st = (Inr (ps, 5), st')" "fs_dir st' = fs_dir st"
    by (rule sample_load_partition)
  have ids: "map fst (sm_sorted_indices (make_sst_manager ?cfg)) = [65535]"
    by (simp add: make_sst_manager_def sample_manager_config_def partition_ids_def comp_def)
  have load: "manager_load sample_io ?denv ?cfg st = (Inr ((make_sst_manager ?cfg)\<lparr>sm_sorted_indices := [(65535, ps)], sm_flush_iteration := 6\<rparr>), st')"
    by (simp add: manager_load_def Let_def ids p(1))
  have base: "cf_partitions_path ?cfg = ''db''" by (simp add: sample_manager_config_def)
  have "map_of (fs_dir st') (sst_path (cf_partitions_path ?cfg) 65535 6) = None"
    by (rule load_names_fresh [OF kernel_ok_sample_io _ load]) (simp_all add: dir_env_ok_def)
  moreover have "map_of (fs_dir st') ''db/ff/ffff.000005'' \<noteq> None" using t(2) p(2) by (auto simp: stored_at_def)
  ultimately show ?thesis using load unfolding base by (intro exI [of _ st] exI conjI) auto
qed

section \<open>Limits\<close>

text \<open>A manifest that fills its page says nothing about the levels below.\<close>

lemma manifest_overflow:
  assumes "PAGE_SIZE_IN_BYTES \<le> length (serialize_text (map (level_names name_of) levels))"
  shows "serialize_levels name_of (levels @ lower) = serialize_levels name_of levels"
proof -
  have "serialize_text (map (level_names name_of) (levels @ lower))
      = serialize_text (map (level_names name_of) levels) @ serialize_text (map (level_names name_of) lower)"
    by (simp add: serialize_text_def)
  then show ?thesis using assms by (simp add: serialize_levels_def Let_def)
qed

text \<open>With more than 256 partitions, several of them share a directory and a manifest.\<close>

lemma manifest_shared: "127 \<in> set (partition_ids 9)" "255 \<in> set (partition_ids 9)" "manifest_path base 127 = manifest_path base 255"
proof -
  show "127 \<in> set (partition_ids 9)" by (auto simp: partition_ids_def Let_def intro!: image_eqI [of _ _ 0])
  show "255 \<in> set (partition_ids 9)" by (auto simp: partition_ids_def Let_def intro!: image_eqI [of _ _ 1])
  have two: "le_image 2 w = [ucast w, ucast (drop_bit 8 w)]" for w :: u16 unfolding numeral_2_eq_2 le_image.simps ..
  show "manifest_path base 127 = manifest_path base 255"
    by (simp add: manifest_path_def dir_path_def format_prefix_def two Let_def)
qed

end
