(* ===== verification/Spec2Isabelle.thy ===== *)
theory Spec2Isabelle
  imports Varint Utilities Values Keys Block_Encoder Block_Decoder Block_Buffer Merge Skiplist Sst_Stream
    Range_Iterator Wal Rw_Sync Allocators Page_Buffer Manifest
begin

text \<open>
  A verification of HedgeDB, an embedded key-value store with the structure of a log-structured
  merge tree. Paths below are relative to \<^verbatim>\<open>src/\<close>.

  \<^bold>\<open>The program.\<close> A write goes to the write-ahead log and to a memtable, an ordered store of versions
  of keys. A full memtable is frozen and flushed: its entries are cut by partition of the key, and each
  partition gets one SST file, made of pages of prefix-compressed pairs, an index of their last keys,
  a quotient filter and a footer. The SST manager keeps the files of a partition in levels, merges
  files of a level into a file of the next one, and writes the names of the files to a manifest. A
  lookup asks the memtables, then the files of the partition from the newest to the oldest. A scan
  merges cursors over memtables with streams over files.

  \<^bold>\<open>Theories, from the bytes upwards.\<close>

  \<^item> \<open>Prelude\<close>: \<^verbatim>\<open>include/error.hpp\<close> (errors; \<open>expected\<close> is a sum), machine integers, little-endian
    images, reads and writes of byte lists, binary searches of the C++ library.
  \<^item> \<open>Cursor\<close>: the interface of the readers, as the locale \<open>cursor\<close>, with the client loop \<open>drain\<close>.
  \<^item> \<open>Varint\<close>: \<^verbatim>\<open>src/db/varint.h\<close>. Decoding inverts encoding on the unrolled and on the looping path.
  \<^item> \<open>Utilities\<close>: \<^verbatim>\<open>src/utils.h\<close>, \<^verbatim>\<open>src/utils.cc\<close>: rounding to pages, the partition of a key, file names.
  \<^item> \<open>Values\<close>: \<^verbatim>\<open>include/types.h\<close>: value pointers, values, tombstones and their stored form.
  \<^item> \<open>Keys\<close>: \<^verbatim>\<open>include/key.h\<close>: keys with the short-string optimisation over an explicit heap, with
    ownership of the heap blocks as the invariant, and the serialised form.
  \<^item> \<open>Block_Encoder\<close>, \<open>Block_Decoder\<close>, \<open>Block_Buffer\<close>: \<^verbatim>\<open>src/db/block.h\<close>, \<^verbatim>\<open>src/db/block.cc\<close>: the page format.
    Every branch of a push, the round trip of a block and of a run of pages, and the lookup by
    restart points against the list of pairs.
  \<^item> \<open>Merge\<close>: \<^verbatim>\<open>src/db/merge/merge_utils.h\<close> and the engine of \<^verbatim>\<open>src/db/merge/merge.cc\<close>. The locale \<open>max_heap\<close> states
    what the heap promises, \<open>source\<close> what a stream promises; \<open>merge_sources\<close> combines them and proves
    once that the merge ends and emits the newest entry of each key.
  \<^item> \<open>Skiplist\<close>: \<^verbatim>\<open>src/db/skiplist.h\<close>, the insertion and lookup of \<^verbatim>\<open>src/db/memtable.cc\<close>, and the memtable cursor of
    \<^verbatim>\<open>src/db/merge/sst_stream.h\<close>. Insertions refine updates of a map.
  \<^item> \<open>Sst_Stream\<close>: \<^verbatim>\<open>src/fs/file_reader2.cc\<close> and the SST stream of \<^verbatim>\<open>src/db/merge/sst_stream.h\<close>, an instance of the
    contract of a source, with the newest-entry property of a merge of files.
  \<^item> \<open>Range_Iterator\<close>: \<^verbatim>\<open>src/db/range_iterator.cc\<close>, over SST streams and memtable cursors, a second instance.
  \<^item> \<open>Quotient_Filter\<close>, \<open>Quotient_Packing\<close>, \<open>Quotient_Layout\<close>, \<open>Quotient_Set\<close>: \<^verbatim>\<open>src/db/qf.cc\<close> and
    \<^verbatim>\<open>src/db/quotient_filter.cc\<close>: the operations, the packed table as an array, the canonical layout of a set of
    fingerprints, and the promise to the users as the locale \<open>filter_contract\<close>.
  \<^item> \<open>Files\<close>, \<open>Write_Buffer\<close>: \<^verbatim>\<open>src/fs/fs.hpp\<close> and \<^verbatim>\<open>src/db/merge/write_buffer.h\<close> over a model of the file system.
  \<^item> \<open>Sst\<close>: \<^verbatim>\<open>src/db/sst.cc\<close>: footer, page index, two-level index, lookup, ranges, loading, compaction state.
  \<^item> \<open>Index_Ops\<close>, \<open>Sst_Written\<close>, \<open>Flush\<close>: \<^verbatim>\<open>src/db/index_ops.cc\<close>: the export of a range of a memtable and
    the flush of all partitions. A table that was written answers lookups as the memtable did, and
    loading the file gives its footer, index and filter again. The size that a file object stores is
    not part of a table.
  \<^item> \<open>Merge_Output\<close>: the whole of \<^verbatim>\<open>k_way_merge_async2\<close> in \<^verbatim>\<open>src/db/merge/merge.cc\<close>, from input files to the bytes of the output.
  \<^item> \<open>Sst_Manager\<close>, \<open>Compaction\<close>: \<^verbatim>\<open>src/db/sst_manager.cc\<close>. The operations on a partition are the steps of the
    relation \<open>lsm_step\<close>; its invariant makes the levels a refinement of a map from keys to values in
    every interleaving of arrivals, merges, commits and failures that stays within \<open>lsm_limits\<close>: no
    table of the lowest level is merged, and a merge has between 1 and \<open>2 ^ 22\<close> pairs as inputs.
    Outside of these limits the refinement is not claimed; the first one is needed, as
    \<open>last_level_commit_stale\<close> shows.
  \<^item> \<open>Manifest\<close>: \<^verbatim>\<open>src/db/sst_manager_loader.cc\<close> and the manifest writer of \<^verbatim>\<open>src/db/sst_manager.cc\<close>: restart
    gives the same lookups, and fresh file names, and the manifest is not behind the tree.
  \<^item> \<open>Wal\<close>: \<^verbatim>\<open>src/db/wal.cc\<close>, \<^verbatim>\<open>src/db/hasher.h\<close>: replay in the order of sequence numbers, torn entries detected.
    Reading a file into memory is taken to succeed.
  \<^item> \<open>Rw_Sync\<close>: \<^verbatim>\<open>src/async/rw_sync.h\<close> as the step relation \<open>rw_step\<close> of its atomic accesses, taken as sequentially
    consistent: exclusion of writers on distinct slots and flusher.
  \<^item> \<open>Allocators\<close>, \<open>Page_Buffer\<close>: \<^verbatim>\<open>src/db/arena_allocator.h\<close>, \<^verbatim>\<open>src/single_buffer_arena_allocator.h\<close>,
    \<^verbatim>\<open>src/db/stack_allocator.h\<close>, \<^verbatim>\<open>src/page_aligned_buffer.h\<close>.

  \<^bold>\<open>Parameters.\<close> Code outside the repository is an argument. \<open>xxh\<close> is the 64-bit hash, of which nothing is
  assumed. \<open>rd\<close> reads files, with \<open>reads_files rd files\<close> for reads that return what the files hold. \<open>io\<close>
  holds the calls of the kernel. \<open>kernel_laws io\<close> is what they document; a call may fail, and a write
  may be short. \<open>kernel_ok io\<close> adds what the code relies on when it writes files: the status of a path
  can be read, and a write that succeeds writes all bytes, since the code does not look for a short
  one. \<open>io_succeeds io\<close>, used only where a result is claimed to be produced, is for calls that do not
  fail. \<open>env\<close> gives the unspecified bytes of stored structures, \<open>dir_env\<close> the directories.

  \<^bold>\<open>Loops.\<close> Structural loops are recursive functions. The merge loops, the scan, \<open>drain\<close> and the scan
  of a group in a block take fuel, one unit per iteration; the theorems hold for every fuel of at
  least the number of entries of the sources (for a group, its size plus one, which the lookup
  passes), so running out is excluded and not assumed away. The scans of the quotient filter are
  \<open>while_option\<close> or partial functions into \<open>option\<close>, and are proved to return if a slot is free. The
  choice of the width of the quotient is a \<open>while_option\<close> that is proved to end.

  \<^bold>\<open>Defects.\<close> Where the code does not do what it means to, the model follows the code: a failed merge
  that blocks its level, a merge within the lowest level that hides newer values, the exception of an
  empty scan, writers that share a slot, and others that are lemmas of their theories.

  \<^bold>\<open>Not modelled.\<close> The scheduling of memtables in \<^verbatim>\<open>src/db/memtable.cc\<close> and the facade
  \<^verbatim>\<open>src/db/database.cc\<close>, which dispatch to the parts above inside coroutines; the set-up of a scan by
  \<^verbatim>\<open>range_iterator::make_new\<close>; the vendored concurrent skip list, represented by the ordered list it promises;
  \<^verbatim>\<open>io_uring\<close> requests and executors; memory-mapped files; the buffer pool; logging and counters;
  the benchmark tools, examples and tests. The page cache is the stub of \<^verbatim>\<open>src/cache.h\<close>.
\<close>

end
